(* ===== verification/Knovas_Prelude.thy ===== *)
theory Knovas_Prelude
  imports Main "HOL-Library.AList" "HOL-Library.Char_ord" "HOL-Library.List_Lexorder"
    "HOL-Library.Product_Lexorder"
begin

text \<open>
  Shared vocabulary of the development: the Python built-ins the sources rely on (exceptions,
  slices, \<open>str.find\<close>, \<open>str.strip\<close>, \<open>bisect\<close>), keyed tables as association lists, and the
  two generic interfaces that several components implement: a loop that cuts a text into
  consecutive spans (locale \<open>segmenter\<close>) and a keyed table (locale \<open>keyed_table\<close>).

  Characters are those of type \<^typ>\<open>char\<close> (code points below 256); the functions modelled here
  only ever compare characters with line feed, form feed, the number sign, slashes and white
  space, so no other code point is looked at.
\<close>

named_theorems py_simps \<open>unfolding rules of the Python built-ins\<close>
named_theorems table_simps \<open>lookup after update and delete of a keyed table\<close>

section \<open>Python built-ins\<close>

datatype py_error = ValueError | IndexError | KeyError | AttributeError | TypeError | DatabaseError

type_synonym 'a py = "py_error + 'a"

text \<open>\<open>s[a:b]\<close> for \<open>0 \<le> a \<le> b\<close>: out-of-range bounds are clipped, as Python does.\<close>

definition slice :: "nat \<Rightarrow> nat \<Rightarrow> 'a list \<Rightarrow> 'a list" where
  "slice a b xs = take (b - a) (drop a xs)"

lemma length_slice [simp]: "length (slice a b xs) = min (b - a) (length xs - a)"
  by (auto simp: slice_def)

lemma slice_all [simp]: "slice 0 (length xs) xs = xs"
  by (simp add: slice_def)

lemma slice_empty [simp]: "b \<le> a \<Longrightarrow> slice a b xs = []"
  by (simp add: slice_def)

lemma slice_append:
  assumes "a \<le> b" and "b \<le> c"
  shows "slice a b xs @ slice b c xs = slice a c xs"
proof -
  from assms have "c - a = (b - a) + (c - b)" and "b = (b - a) + a" by auto
  then show ?thesis by (metis slice_def take_add drop_drop)
qed

lemma nth_slice: "a \<le> b \<Longrightarrow> b \<le> length xs \<Longrightarrow> i < b - a \<Longrightarrow> slice a b xs ! i = xs ! (a + i)"
  by (simp add: slice_def)

lemma slice_Suc:
  "a < b \<Longrightarrow> a < length xs \<Longrightarrow> slice a b xs = xs ! a # slice (Suc a) b xs"
  by (simp add: slice_def Cons_nth_drop_Suc [symmetric] take_Cons')

text \<open>\<open>s.find(c, start)\<close> for a one-character needle: the least index at or after \<open>start\<close>.\<close>

primrec index_of :: "'a \<Rightarrow> 'a list \<Rightarrow> nat option" where
  "index_of c [] = None"
| "index_of c (x # xs) = (if x = c then Some 0 else map_option Suc (index_of c xs))"

definition find_from :: "'a \<Rightarrow> 'a list \<Rightarrow> nat \<Rightarrow> nat option" where
  "find_from c xs i = map_option (\<lambda>k. i + k) (index_of c (drop i xs))"

lemma index_of_None: "index_of c xs = None \<longleftrightarrow> c \<notin> set xs"
  by (induction xs) auto

lemma index_of_Some:
  "index_of c xs = Some k \<longleftrightarrow> k < length xs \<and> xs ! k = c \<and> c \<notin> set (take k xs)"
proof (induction xs arbitrary: k)
  case Nil
  then show ?case by simp
next
  case (Cons x xs)
  then show ?case by (cases k) auto
qed

lemma find_from_Some_bounds:
  "find_from c xs i = Some k \<Longrightarrow> i \<le> k \<and> k < length xs \<and> xs ! k = c"
  by (auto simp: find_from_def index_of_Some)

text \<open>\<open>str.isspace\<close> below code point 256, and the strip family built on it.\<close>

definition py_space :: "char \<Rightarrow> bool" where
  "py_space c \<longleftrightarrow> (let n = (of_char c :: nat) in
     (9 \<le> n \<and> n \<le> 13) \<or> (28 \<le> n \<and> n \<le> 32) \<or> n = 133 \<or> n = 160)"

definition py_lstrip :: "('a \<Rightarrow> bool) \<Rightarrow> 'a list \<Rightarrow> 'a list" where
  "py_lstrip p s = dropWhile p s"

definition py_rstrip :: "('a \<Rightarrow> bool) \<Rightarrow> 'a list \<Rightarrow> 'a list" where
  "py_rstrip p s = rev (dropWhile p (rev s))"

definition py_strip :: "string \<Rightarrow> string" where
  "py_strip s = py_rstrip py_space (py_lstrip py_space s)"

text \<open>\<open>s.split(c)\<close> for one character, and \<open>int(s)\<close>: outer blanks, one sign, and single
  underscores between digits are accepted.\<close>

fun split_char :: "char \<Rightarrow> string \<Rightarrow> string list" where
  "split_char d [] = [[]]"
| "split_char d (c # cs) =
     (if c = d then [] # split_char d cs
      else case split_char d cs of [] \<Rightarrow> [[c]] | p # ps \<Rightarrow> (c # p) # ps)"

definition digit_value :: "char \<Rightarrow> nat" where
  "digit_value c = of_char c - 48"

definition is_digit :: "char \<Rightarrow> bool" where
  "is_digit c \<longleftrightarrow> 48 \<le> (of_char c :: nat) \<and> (of_char c :: nat) \<le> 57"

definition digits_value :: "string \<Rightarrow> nat" where
  "digits_value s = foldl (\<lambda>n c. 10 * n + digit_value c) 0 s"

definition py_int :: "string \<Rightarrow> int py" where
  "py_int s =
     (let t = py_strip s;
          neg = (t \<noteq> [] \<and> hd t = CHR ''-'');
          body = (if t \<noteq> [] \<and> (hd t = CHR ''-'' \<or> hd t = CHR ''+'') then tl t else t);
          parts = split_char (CHR ''_'') body
      in if list_all (\<lambda>p. p \<noteq> [] \<and> list_all is_digit p) parts
         then Inr ((if neg then -1 else 1) * int (digits_value (concat parts)))
         else Inl ValueError)"

lemma split_char_nonempty [simp]: "split_char d s \<noteq> []"
  by (cases s) (auto split: list.splits)

lemma split_char_plain: "d \<notin> set s \<Longrightarrow> split_char d s = [s]"
  by (induction s) auto

lemma split_char_append: "d \<notin> set a \<Longrightarrow> split_char d (a @ d # b) = a # split_char d b"
  by (induction a) auto

definition py_startswith :: "'a list \<Rightarrow> 'a list \<Rightarrow> bool" where
  "py_startswith s p \<longleftrightarrow> take (length p) s = p"

lemma length_py_rstrip: "length (py_rstrip p s) \<le> length s"
  by (simp add: py_rstrip_def) (metis length_dropWhile_le length_rev)

lemma length_py_lstrip: "length (py_lstrip p s) \<le> length s"
  by (simp add: py_lstrip_def length_dropWhile_le)

lemma py_strip_idem [simp]: "py_strip (py_strip s) = py_strip s"
proof -
  have hd_ok: "py_lstrip p (py_rstrip p (py_lstrip p s)) = py_rstrip p (py_lstrip p s)"
    for p and s :: string
  proof (cases "py_lstrip p s")
    case Nil
    then show ?thesis unfolding Nil by (simp add: py_lstrip_def py_rstrip_def)
  next
    case (Cons x xs)
    then have "\<not> p x" by (metis dropWhile_eq_Cons_conv py_lstrip_def)
    then have "py_rstrip p (x # xs) = x # py_rstrip p xs"
      by (simp add: py_rstrip_def dropWhile_append)
    with \<open>\<not> p x\<close> Cons show ?thesis by (simp add: py_lstrip_def)
  qed
  show ?thesis
    by (simp add: py_strip_def hd_ok) (simp add: py_rstrip_def)
qed

section \<open>Binary search\<close>

text \<open>
  The loop of Python's \<open>bisect\<close> module: \<open>go_left mid\<close> decides whether the upper or the
  lower bound moves. \<open>bisect_right\<close> and \<open>bisect_left\<close> are its two instances, with the
  \<open>key\<close> function applied to the elements.
\<close>

function bisect_loop :: "(nat \<Rightarrow> bool) \<Rightarrow> nat \<Rightarrow> nat \<Rightarrow> nat" where
  "bisect_loop go_left lo hi =
     (if lo < hi then
        (let mid = (lo + hi) div 2
         in if go_left mid then bisect_loop go_left lo mid else bisect_loop go_left (Suc mid) hi)
      else lo)"
  by pat_completeness auto
termination
  by (relation "measure (\<lambda>(g, lo, hi). hi - lo)") auto

declare bisect_loop.simps [simp del]

definition bisect_right :: "('a \<Rightarrow> 'k::linorder) \<Rightarrow> 'a list \<Rightarrow> 'k \<Rightarrow> nat" where
  "bisect_right key xs x = bisect_loop (\<lambda>m. x < key (xs ! m)) 0 (length xs)"

definition bisect_left :: "('a \<Rightarrow> 'k::linorder) \<Rightarrow> 'a list \<Rightarrow> 'k \<Rightarrow> nat" where
  "bisect_left key xs x = bisect_loop (\<lambda>m. \<not> key (xs ! m) < x) 0 (length xs)"

lemma bisect_loop_splits:
  assumes "lo \<le> hi" and "\<And>i j. i \<le> j \<Longrightarrow> j < hi \<Longrightarrow> g i \<Longrightarrow> g j"
  shows "lo \<le> bisect_loop g lo hi \<and> bisect_loop g lo hi \<le> hi \<and>
    (\<forall>i. lo \<le> i \<longrightarrow> i < bisect_loop g lo hi \<longrightarrow> \<not> g i) \<and>
    (\<forall>i. bisect_loop g lo hi \<le> i \<longrightarrow> i < hi \<longrightarrow> g i)"
  using assms
proof (induction g lo hi rule: bisect_loop.induct)
  case (1 g lo hi)
  show ?case
  proof (cases "lo < hi")
    case False
    then have "bisect_loop g lo hi = lo" by (simp add: bisect_loop.simps [of g lo hi])
    with False "1.prems" show ?thesis by simp
  next
    case True
    define mid where "mid = (lo + hi) div 2"
    with True have mid: "lo \<le> mid" "mid < hi" by auto
    show ?thesis
    proof (cases "g mid")
      case left: True
      have eq: "bisect_loop g lo hi = bisect_loop g lo mid"
        using True left mid_def by (subst bisect_loop.simps) (simp add: Let_def)
      have ih: "lo \<le> bisect_loop g lo mid \<and> bisect_loop g lo mid \<le> mid \<and>
          (\<forall>i. lo \<le> i \<longrightarrow> i < bisect_loop g lo mid \<longrightarrow> \<not> g i) \<and>
          (\<forall>i. bisect_loop g lo mid \<le> i \<longrightarrow> i < mid \<longrightarrow> g i)"
        using "1.IH"(1) [OF True mid_def left] mid "1.prems"(2) by simp
      have up: "g i" if "mid \<le> i" "i < hi" for i
        using "1.prems"(2) [OF that left] .
      show ?thesis unfolding eq using ih up mid
        by (metis le_less_trans less_imp_le_nat not_le order_trans)
    next
      case right: False
      have eq: "bisect_loop g lo hi = bisect_loop g (Suc mid) hi"
        using True right mid_def by (subst bisect_loop.simps) (simp add: Let_def)
      have ih: "Suc mid \<le> bisect_loop g (Suc mid) hi \<and> bisect_loop g (Suc mid) hi \<le> hi \<and>
          (\<forall>i. Suc mid \<le> i \<longrightarrow> i < bisect_loop g (Suc mid) hi \<longrightarrow> \<not> g i) \<and>
          (\<forall>i. bisect_loop g (Suc mid) hi \<le> i \<longrightarrow> i < hi \<longrightarrow> g i)"
        using "1.IH"(2) [OF True mid_def right] mid "1.prems"(2) by simp
      have down: "\<not> g i" if "i \<le> mid" for i
        using "1.prems"(2) [OF that mid(2)] right by blast
      show ?thesis unfolding eq using ih down mid
        by (metis Suc_le_lessD less_imp_le_nat not_less_eq_eq order_trans)
    qed
  qed
qed

lemma sorted_map_nth_mono:
  "sorted (map key xs) \<Longrightarrow> i \<le> j \<Longrightarrow> j < length xs \<Longrightarrow> key (xs ! i) \<le> key (xs ! j)"
  using sorted_nth_mono [of "map key xs" i j] by simp

lemma bisect_right_splits:
  assumes "sorted (map key xs)"
  shows "bisect_right key xs x \<le> length xs"
    and "i < bisect_right key xs x \<Longrightarrow> key (xs ! i) \<le> x"
    and "bisect_right key xs x \<le> i \<Longrightarrow> i < length xs \<Longrightarrow> x < key (xs ! i)"
proof -
  have mono: "x < key (xs ! j)" if "i \<le> j" "j < length xs" "x < key (xs ! i)" for i j
    using that(3) sorted_map_nth_mono [OF assms that(1,2)] by (rule less_le_trans)
  have split: "bisect_right key xs x \<le> length xs \<and>
      (\<forall>i. i < bisect_right key xs x \<longrightarrow> \<not> x < key (xs ! i)) \<and>
      (\<forall>i. bisect_right key xs x \<le> i \<longrightarrow> i < length xs \<longrightarrow> x < key (xs ! i))"
    using bisect_loop_splits [of 0 "length xs" "\<lambda>m. x < key (xs ! m)"] mono
    unfolding bisect_right_def by blast
  from split show "bisect_right key xs x \<le> length xs" by blast
  from split show "i < bisect_right key xs x \<Longrightarrow> key (xs ! i) \<le> x" by (meson not_less)
  from split show "bisect_right key xs x \<le> i \<Longrightarrow> i < length xs \<Longrightarrow> x < key (xs ! i)" by blast
qed

lemma bisect_left_splits:
  assumes "sorted (map key xs)"
  shows "bisect_left key xs x \<le> length xs"
    and "i < bisect_left key xs x \<Longrightarrow> key (xs ! i) < x"
    and "bisect_left key xs x \<le> i \<Longrightarrow> i < length xs \<Longrightarrow> x \<le> key (xs ! i)"
proof -
  have mono: "\<not> key (xs ! j) < x" if "i \<le> j" "j < length xs" "\<not> key (xs ! i) < x" for i j
    using that(3) sorted_map_nth_mono [OF assms that(1,2)] by order
  have split: "bisect_left key xs x \<le> length xs \<and>
      (\<forall>i. i < bisect_left key xs x \<longrightarrow> key (xs ! i) < x) \<and>
      (\<forall>i. bisect_left key xs x \<le> i \<longrightarrow> i < length xs \<longrightarrow> \<not> key (xs ! i) < x)"
    using bisect_loop_splits [of 0 "length xs" "\<lambda>m. \<not> key (xs ! m) < x"] mono
    unfolding bisect_left_def by blast
  from split show "bisect_left key xs x \<le> length xs" by blast
  from split show "i < bisect_left key xs x \<Longrightarrow> key (xs ! i) < x" by blast
  from split show "bisect_left key xs x \<le> i \<Longrightarrow> i < length xs \<Longrightarrow> x \<le> key (xs ! i)"
    by (meson not_less)
qed

text \<open>A split index determines the filter on either side of it.\<close>

lemma filter_eq_take:
  assumes "k \<le> length xs" and "\<And>i. i < k \<Longrightarrow> P (xs ! i)"
    and "\<And>i. k \<le> i \<Longrightarrow> i < length xs \<Longrightarrow> \<not> P (xs ! i)"
  shows "filter P xs = take k xs"
proof -
  have "filter P (take k xs) = take k xs"
    using assms(1,2) by (auto simp: filter_id_conv in_set_conv_nth)
  moreover have "filter P (drop k xs) = []"
    using assms(1,3) by (auto simp: filter_empty_conv in_set_conv_nth)
  moreover have "filter P xs = filter P (take k xs) @ filter P (drop k xs)"
    by (metis append_take_drop_id filter_append)
  ultimately show ?thesis by simp
qed

lemma bisect_right_filter:
  "sorted (map key xs) \<Longrightarrow> take (bisect_right key xs x) xs = filter (\<lambda>y. key y \<le> x) xs"
  by (rule filter_eq_take [symmetric]) (auto dest: bisect_right_splits simp: not_le)

lemma bisect_left_filter:
  "sorted (map key xs) \<Longrightarrow> take (bisect_left key xs x) xs = filter (\<lambda>y. key y < x) xs"
  by (rule filter_eq_take [symmetric]) (auto dest: bisect_left_splits simp: not_less)

lemma bisect_right_count:
  "sorted (map key xs) \<Longrightarrow> bisect_right key xs x = length (filter (\<lambda>y. key y \<le> x) xs)"
  by (metis bisect_right_filter bisect_right_splits(1) length_take min.absorb2)

lemma bisect_right_drop:
  assumes "sorted (map key xs)"
  shows "drop (bisect_right key xs a) xs = filter (\<lambda>y. a < key y) xs"
proof -
  let ?lo = "bisect_right key xs a"
  have "filter (\<lambda>y. a < key y) (take ?lo xs) = []"
    by (auto simp: bisect_right_filter [OF assms] filter_empty_conv)
  moreover have "filter (\<lambda>y. a < key y) (drop ?lo xs) = drop ?lo xs"
    using bisect_right_splits(3) [OF assms, of a]
    by (auto simp: filter_id_conv in_set_conv_nth)
  ultimately show ?thesis
    by (metis append_Nil append_take_drop_id filter_append)
qed

text \<open>The slice between the two insertion points is the open interval, as a filter.\<close>

lemma bisect_window_filter:
  assumes s: "sorted (map key xs)"
  shows "slice (bisect_right key xs a) (bisect_left key xs b) xs
    = filter (\<lambda>y. a < key y \<and> key y < b) xs"
proof -
  let ?lo = "bisect_right key xs a" and ?hi = "bisect_left key xs b"
  have s': "sorted (map key (take ?hi xs))"
    using s by (simp add: take_map [symmetric] sorted_wrt_take)
  have lo: "bisect_right key (take ?hi xs) a = min ?lo ?hi"
  proof -
    have "filter (\<lambda>y. key y \<le> a) (take ?hi xs) = take ?hi (take ?lo xs)"
    proof (cases "?lo \<le> ?hi")
      case True
      then have "filter (\<lambda>y. key y \<le> a) (take ?hi xs) = take ?lo xs"
        using bisect_right_splits(2,3) [OF s] bisect_left_splits(1) [OF s, of b]
        by (intro filter_eq_take [where k = ?lo, THEN trans]) (auto simp: not_le)
      with True show ?thesis by simp
    next
      case False
      then have "filter (\<lambda>y. key y \<le> a) (take ?hi xs) = take ?hi xs"
        using bisect_right_splits(2) [OF s, of _ a]
        by (auto simp: filter_id_conv in_set_conv_nth)
      with False show ?thesis by (simp add: min_def)
    qed
    then show ?thesis
      using bisect_right_splits(1) [OF s, of a] bisect_left_splits(1) [OF s, of b]
      by (simp add: bisect_right_count [OF s'] min.commute)
  qed
  have "slice ?lo ?hi xs = drop (min ?lo ?hi) (take ?hi xs)"
    by (cases "?lo \<le> ?hi") (simp_all add: slice_def drop_take)
  also have "\<dots> = filter (\<lambda>y. a < key y) (filter (\<lambda>y. key y < b) xs)"
    by (simp only: lo [symmetric] bisect_right_drop [OF s'] bisect_left_filter [OF s, symmetric])
  finally show ?thesis by (simp add: conj_commute)
qed

section \<open>Loops that cut a text into consecutive spans\<close>

text \<open>
  \<open>tiles s n spans\<close>: the spans are non-empty, start at \<open>s\<close>, each begins where the one
  before ended, and the last one ends at \<open>n\<close>.
\<close>

fun tiles :: "nat \<Rightarrow> nat \<Rightarrow> (nat \<times> nat) list \<Rightarrow> bool" where
  "tiles s n [] \<longleftrightarrow> s = n"
| "tiles s n ((a, b) # r) \<longleftrightarrow> a = s \<and> s < b \<and> b \<le> n \<and> tiles b n r"

lemma tiles_le: "tiles s n spans \<Longrightarrow> s \<le> n"
  by (induction s n spans rule: tiles.induct) auto

lemma tiles_concat:
  "tiles s n spans \<Longrightarrow> concat (map (\<lambda>(a, b). slice a b xs) spans) = slice s n xs"
proof (induction s n spans rule: tiles.induct)
  case (1 s n)
  then show ?case by simp
next
  case (2 s n a b r)
  then have "s \<le> b" "b \<le> n" by simp_all
  with 2 show ?case by (simp add: slice_append)
qed

lemma tiles_bounds:
  "tiles s n spans \<Longrightarrow> (a, b) \<in> set spans \<Longrightarrow> s \<le> a \<and> a < b \<and> b \<le> n"
  by (induction s n spans rule: tiles.induct) (fastforce dest: tiles_le)+

lemma tiles_disjoint:
  "tiles s n spans \<Longrightarrow> i < j \<Longrightarrow> j < length spans \<Longrightarrow> snd (spans ! i) \<le> fst (spans ! j)"
proof (induction s n spans arbitrary: i j rule: tiles.induct)
  case (1 s n)
  then show ?case by simp
next
  case (2 s n a b r)
  then obtain j' where j': "j = Suc j'" "j' < length r" by (cases j) auto
  show ?case
  proof (cases i)
    case 0
    have "b \<le> fst (r ! j')"
      using tiles_bounds [of b n r "fst (r ! j')" "snd (r ! j')"] 2(2) j' by auto
    with 0 j' show ?thesis by simp
  next
    case (Suc i')
    with 2 j' show ?thesis by simp
  qed
qed

lemma tiles_cover:
  "tiles s n spans \<Longrightarrow> s \<le> i \<Longrightarrow> i < n \<Longrightarrow> \<exists>(a, b) \<in> set spans. a \<le> i \<and> i < b"
proof (induction s n spans rule: tiles.induct)
  case (1 s n)
  then show ?case by simp
next
  case (2 s n a b r)
  then show ?case by (cases "i < b") (auto simp: not_less)
qed

locale segmenter =
  fixes len :: nat
    and next_end :: "nat \<Rightarrow> nat"
    and emit :: "nat \<Rightarrow> nat \<Rightarrow> 'a"
    and loop :: "nat \<Rightarrow> 'a list"
  assumes progress: "s < len \<Longrightarrow> s < next_end s"
    and bounded: "s < len \<Longrightarrow> next_end s \<le> len"
    and loop_unfold: "loop s = (if s < len then emit s (next_end s) # loop (next_end s) else [])"
begin

lemma loop_tiles:
  "s \<le> len \<Longrightarrow> \<exists>spans. tiles s len spans \<and> (\<forall>(a, b) \<in> set spans. b = next_end a)
     \<and> loop s = map (\<lambda>(a, b). emit a b) spans"
proof (induction "len - s" arbitrary: s rule: less_induct)
  case less
  show ?case
  proof (cases "s < len")
    case False
    with less.prems show ?thesis
      by (intro exI [of _ "[]"]) (auto simp: loop_unfold [of len])
  next
    case True
    let ?e = "next_end s"
    from True have e: "s < ?e" "?e \<le> len" by (auto intro: progress bounded)
    then have "len - ?e < len - s" using True by linarith
    with less(1) [OF this] e obtain spans where
      "tiles ?e len spans" "\<forall>(a, b) \<in> set spans. b = next_end a"
      "loop ?e = map (\<lambda>(a, b). emit a b) spans"
      by blast
    with e True show ?thesis
      by (intro exI [of _ "(s, ?e) # spans"]) (simp add: loop_unfold [of s])
  qed
qed

lemma loop_elem:
  "s \<le> len \<Longrightarrow> p \<in> set (loop s) \<Longrightarrow> \<exists>a. s \<le> a \<and> a < len \<and> p = emit a (next_end a)"
  using loop_tiles [of s] by (fastforce dest: tiles_bounds)

lemma loop_concat:
  assumes "\<And>a b. a < b \<Longrightarrow> b \<le> len \<Longrightarrow> raw (emit a b) = slice a b text" and "len = length text"
  shows "concat (map raw (loop 0)) = text"
proof -
  obtain spans where sp: "tiles 0 len spans" "loop 0 = map (\<lambda>(a, b). emit a b) spans"
    using loop_tiles [of 0] by auto
  have "map raw (loop 0) = map (\<lambda>(a, b). slice a b text) spans"
    unfolding sp(2) using tiles_bounds [OF sp(1)] assms(1) by auto
  then show ?thesis using tiles_concat [OF sp(1), of "text"] assms(2) by simp
qed

lemma loop_nonempty: "0 < len \<Longrightarrow> loop 0 \<noteq> []"
  by (subst loop_unfold) simp

lemma loop_length_le: "s \<le> len \<Longrightarrow> length (loop s) \<le> len - s"
proof (induction "len - s" arbitrary: s rule: less_induct)
  case less
  show ?case
  proof (cases "s < len")
    case False
    then show ?thesis by (simp add: loop_unfold [of s])
  next
    case True
    then have "s < next_end s" "next_end s \<le> len" by (auto intro: progress bounded)
    moreover from this less(1) [of "next_end s"] have "length (loop (next_end s)) \<le> len - next_end s"
      using True by linarith
    ultimately show ?thesis using True by (simp add: loop_unfold [of s])
  qed
qed

end

section \<open>Keyed tables\<close>

text \<open>
  A table with a primary key. \<open>put\<close> overwrites or appends the row of a key, \<open>del\<close> removes
  it, \<open>keys\<close> lists the keys of the stored rows.
\<close>

locale keyed_table =
  fixes lookup :: "'t \<Rightarrow> 'k \<Rightarrow> 'v option"
    and put :: "'k \<Rightarrow> 'v \<Rightarrow> 't \<Rightarrow> 't"
    and del :: "'k \<Rightarrow> 't \<Rightarrow> 't"
    and keys :: "'t \<Rightarrow> 'k list"
    and valid :: "'t \<Rightarrow> bool"
  assumes lookup_put: "lookup (put k v t) k' = (if k' = k then Some v else lookup t k')"
    and lookup_del: "lookup (del k t) k' = (if k' = k then None else lookup t k')"
    and keys_lookup: "k \<in> set (keys t) \<longleftrightarrow> lookup t k \<noteq> None"
    and valid_distinct: "valid t \<Longrightarrow> distinct (keys t)"
    and valid_put: "valid t \<Longrightarrow> valid (put k v t)"
    and valid_del: "valid t \<Longrightarrow> valid (del k t)"
begin

lemma keys_put: "set (keys (put k v t)) = insert k (set (keys t))"
  by (auto simp: keys_lookup lookup_put split: if_splits)

lemma keys_del: "set (keys (del k t)) = set (keys t) - {k}"
  by (auto simp: keys_lookup lookup_del split: if_splits)

lemma count_put:
  "valid t \<Longrightarrow> length (keys (put k v t)) = length (keys t) + (if lookup t k = None then 1 else 0)"
  using distinct_card [OF valid_distinct [OF valid_put, of t k v]] distinct_card [OF valid_distinct, of t]
  by (auto simp: keys_put card_insert_if keys_lookup)

lemma count_del:
  "valid t \<Longrightarrow> length (keys (del k t)) = length (keys t) - (if lookup t k = None then 0 else 1)"
  using distinct_card [OF valid_distinct [OF valid_del, of t k]] distinct_card [OF valid_distinct, of t]
  by (auto simp: keys_del keys_lookup card_Diff_singleton_if)

end

type_synonym ('k, 'v) table = "('k \<times> 'v) list"

definition tkeys :: "('k, 'v) table \<Rightarrow> 'k list" where
  "tkeys t = map fst t"

definition table_ok :: "('k, 'v) table \<Rightarrow> bool" where
  "table_ok t \<longleftrightarrow> distinct (map fst t)"

text \<open>\<open>UPDATE ... WHERE\<close> with a row function: keys and order stay.\<close>

definition tmap :: "('k \<Rightarrow> 'v \<Rightarrow> 'v) \<Rightarrow> ('k, 'v) table \<Rightarrow> ('k, 'v) table" where
  "tmap f t = map (\<lambda>(k, v). (k, f k v)) t"

interpretation at: keyed_table map_of AList.update AList.delete tkeys table_ok
  by unfold_locales
    (auto simp: update_conv' delete_conv' tkeys_def table_ok_def map_of_eq_None_iff
      image_iff intro: distinct_update distinct_delete)

lemma tmap_lookup [table_simps]: "map_of (tmap f t) k = map_option (f k) (map_of t k)"
  by (induction t) (auto simp: tmap_def)

lemma tmap_keys [simp]: "tkeys (tmap f t) = tkeys t"
  by (induction t) (auto simp: tmap_def tkeys_def)

lemma tmap_ok [simp]: "table_ok (tmap f t) = table_ok t"
  using tmap_keys [of f t] by (simp add: table_ok_def tkeys_def)

lemma length_tmap [simp]: "length (tmap f t) = length t"
  by (simp add: tmap_def)

lemma table_ok_Nil [simp]: "table_ok []"
  by (simp add: table_ok_def)

lemma table_ok_filter [simp]: "table_ok t \<Longrightarrow> table_ok (filter P t)"
  by (simp add: table_ok_def distinct_map_filter)

lemma map_of_filter_ok:
  "table_ok t \<Longrightarrow> map_of (filter P t) k = (case map_of t k of
     None \<Rightarrow> None | Some v \<Rightarrow> if P (k, v) then Some v else None)"
proof (induction t)
  case Nil
  then show ?case by simp
next
  case (Cons x t)
  then show ?case
    by (cases x) (auto simp: table_ok_def map_of_eq_None_iff split: option.splits
        dest: map_of_SomeD)
qed

lemmas [table_simps] = at.lookup_put at.lookup_del
lemmas table_valid [simp] = at.valid_put at.valid_del

lemma tmap_tmap: "tmap f (tmap g t) = tmap (\<lambda>k v. f k (g k v)) t"
  by (auto simp: tmap_def)

lemma tmap_cong: "(\<And>k v. (k, v) \<in> set t \<Longrightarrow> f k v = g k v) \<Longrightarrow> tmap f t = tmap g t"
  by (auto simp: tmap_def)

lemma table_ok_map_of: "table_ok t \<Longrightarrow> (k, v) \<in> set t \<longleftrightarrow> map_of t k = Some v"
  using map_of_eq_Some_iff [of t k v] by (auto simp: table_ok_def)

lemma fold_delete_lookup: "map_of (fold AList.delete ps t) k = (if k \<in> set ps then None else map_of t k)"
  by (induction ps arbitrary: t) (auto simp: at.lookup_del)

lemma fold_delete_ok [simp]: "table_ok t \<Longrightarrow> table_ok (fold AList.delete ps t)"
  by (induction ps arbitrary: t) simp_all

section \<open>A cache in front of a table\<close>

text \<open>
  A cache may lack entries of its backing store but never disagrees with it. The law is the one a
  read-through lookup promises; the lemmas say what loads, reads and write-through updates keep.
\<close>

definition agrees :: "('k \<Rightarrow> 'v option) \<Rightarrow> ('k, 'v) table \<Rightarrow> bool" where
  "agrees backing cache \<longleftrightarrow> (\<forall>k v. map_of cache k = Some v \<longrightarrow> backing k = Some v)"

locale cached_lookup =
  fixes backing :: "'d \<Rightarrow> 'k \<Rightarrow> 'v option"
    and lookup :: "'d \<Rightarrow> ('k, 'v) table \<Rightarrow> 'k \<Rightarrow> 'v option \<times> ('k, 'v) table"
  assumes read_hit: "map_of c k = Some v \<Longrightarrow> lookup d c k = (Some v, c)"
    and read_miss: "map_of c k = None \<Longrightarrow> fst (lookup d c k) = backing d k"
    and read_fills: "map_of c k = None \<Longrightarrow> map_of (snd (lookup d c k)) k' =
      (if k' = k then backing d k else map_of c k')"
begin

lemma answer: "agrees (backing d) c \<Longrightarrow> fst (lookup d c k) = backing d k"
  by (cases "map_of c k") (auto simp: read_hit read_miss agrees_def)

lemma keeps: "agrees (backing d) c \<Longrightarrow> agrees (backing d) (snd (lookup d c k))"
  by (cases "map_of c k") (auto simp: read_hit read_fills agrees_def)

lemma write_through:
  "agrees (backing d) c \<Longrightarrow> backing d' = (backing d)(k \<mapsto> v) \<Longrightarrow> agrees (backing d') (AList.update k v c)"
  by (auto simp: agrees_def at.lookup_put)

lemma delete_through:
  "agrees (backing d) c \<Longrightarrow> backing d' = (backing d)(k := None) \<Longrightarrow> agrees (backing d') (AList.delete k c)"
  by (auto simp: agrees_def at.lookup_del)

end

end
