(* ===== verification/Page_Markers.thy ===== *)
theory Page_Markers
  imports Knovas_Prelude
begin

text \<open>
  The page-break markers of \<open>sync/page_markers.py\<close>: where the text pages of a document start,
  which of those starts lie strictly inside a transmission part, and how the form feeds are
  written into the part's snippet. \<open>knovas_transmit/page_markers.py\<close> is the Platform's
  byte-identical copy of these functions.

  Lemma groups: line starts are exactly the positions after a line feed; the marker positions
  are sorted; the binary-search window is the open interval; the marked snippet keeps every
  character at a computed position and the form feeds in front of it count the pages passed.
\<close>

section \<open>Extractor pages\<close>

text \<open>
  The attributes of knovas-extract's \<open>Page\<close> that the code reads. A page without text has the
  empty string.
\<close>

record page =
  page_index :: int
  page_text :: string
  page_line_start :: "int option"
  page_line_end :: "int option"

abbreviation newline :: char where "newline \<equiv> CHR 0x0A"

definition PAGE_BREAK_MARKER :: char where
  "PAGE_BREAK_MARKER = CHR 0x0C"

type_synonym page_start = "nat \<times> int"

section \<open>Line starts\<close>

text \<open>The \<open>while pos >= 0\<close> loop: \<open>pos\<close> is where the next search begins.\<close>

function line_offsets_from :: "string \<Rightarrow> nat \<Rightarrow> nat list" where
  "line_offsets_from t pos =
     (case find_from newline t pos of
        None \<Rightarrow> []
      | Some p \<Rightarrow> (p + 1) # line_offsets_from t (p + 1))"
  by pat_completeness auto
termination
  by (relation "measure (\<lambda>(t, pos). length t - pos)") (auto dest: find_from_Some_bounds)

declare line_offsets_from.simps [simp del]

definition line_start_offsets :: "string \<Rightarrow> nat list" where
  "line_start_offsets t = 0 # line_offsets_from t 0"

section \<open>Marker positions\<close>

text \<open>A text page has text and a \<open>line_start\<close> inside the document; any other page is empty.\<close>

definition page_offset :: "nat list \<Rightarrow> page \<Rightarrow> nat option" where
  "page_offset offsets p =
     (case page_line_start p of
        None \<Rightarrow> None
      | Some line \<Rightarrow>
          if page_text p = [] then None
          else if line < 1 \<or> line > int (length offsets) then None
          else Some (offsets ! nat (line - 1)))"

fun collect_starts :: "nat list \<Rightarrow> int option \<Rightarrow> page list \<Rightarrow> page_start list" where
  "collect_starts offsets prev [] = []"
| "collect_starts offsets prev (p # ps) =
     (case page_offset offsets p of
        None \<Rightarrow> collect_starts offsets prev ps
      | Some off \<Rightarrow>
          (let rest = collect_starts offsets (Some (page_index p)) ps
           in case prev of
                None \<Rightarrow> rest
              | Some i \<Rightarrow> (let cnt = page_index p - i
                           in if cnt \<ge> 1 then (off, cnt) # rest else rest)))"

definition text_page_starts :: "page list \<Rightarrow> string \<Rightarrow> page_start list" where
  "text_page_starts pages t =
     (if pages = [] then []
      else sort (collect_starts (line_start_offsets t) None (sort_key page_index pages)))"

definition markers_inside :: "page_start list \<Rightarrow> nat \<Rightarrow> nat \<Rightarrow> page_start list" where
  "markers_inside starts part_start part_end =
     (if starts = [] \<or> part_end \<le> part_start + 1 then []
      else slice (bisect_right fst starts part_start) (bisect_left fst starts part_end) starts)"

definition marker_count_inside :: "page_start list \<Rightarrow> nat \<Rightarrow> nat \<Rightarrow> int" where
  "marker_count_inside starts part_start part_end =
     sum_list (map snd (markers_inside starts part_start part_end))"

section \<open>Writing the markers\<close>

text \<open>
  The loop of \<open>apply_page_markers\<close>: markers are (part-relative offset, count) pairs; one
  whose shifted position is not after the cursor, or past the snippet, is skipped.
\<close>

fun apply_markers_loop :: "string \<Rightarrow> int \<Rightarrow> nat \<Rightarrow> (int \<times> int) list \<Rightarrow> string" where
  "apply_markers_loop snippet shift cursor [] = drop cursor snippet"
| "apply_markers_loop snippet shift cursor ((relative, cnt) # ms) =
     (let pos = relative + shift
      in if pos \<le> int cursor \<or> pos > int (length snippet)
         then apply_markers_loop snippet shift cursor ms
         else slice cursor (nat pos) snippet @ replicate (nat cnt) PAGE_BREAK_MARKER
              @ apply_markers_loop snippet shift (nat pos) ms)"

definition apply_page_markers :: "string \<Rightarrow> (int \<times> int) list \<Rightarrow> int \<Rightarrow> string" where
  "apply_page_markers snippet markers shift =
     (if markers = [] then snippet else apply_markers_loop snippet shift 0 markers)"

definition relative_markers :: "page_start list \<Rightarrow> nat \<Rightarrow> nat \<Rightarrow> (int \<times> int) list" where
  "relative_markers starts part_start part_end =
     map (\<lambda>(off, cnt). (int off - int part_start, cnt)) (markers_inside starts part_start part_end)"

definition insert_page_markers :: "string \<Rightarrow> page list \<Rightarrow> nat \<Rightarrow> string \<Rightarrow> string" where
  "insert_page_markers snippet pages part_start t =
     (let starts = text_page_starts pages t;
          part_end = part_start + length snippet
      in apply_page_markers snippet (relative_markers starts part_start part_end) 0)"

section \<open>Line starts: lemmas\<close>

lemma find_from_newline_cases:
  "find_from c t pos = None \<Longrightarrow> pos \<le> i \<Longrightarrow> i < length t \<Longrightarrow> t ! i \<noteq> c"
proof -
  assume a: "find_from c t pos = None" "pos \<le> i" "i < length t"
  then have "t ! i = drop pos t ! (i - pos)" "i - pos < length (drop pos t)" by auto
  then have "t ! i \<in> set (drop pos t)" by (metis nth_mem)
  with a show "t ! i \<noteq> c" by (auto simp: find_from_def index_of_None)
qed

lemma find_from_least:
  "find_from c t pos = Some p \<Longrightarrow> pos \<le> i \<Longrightarrow> i < p \<Longrightarrow> t ! i \<noteq> c"
proof -
  assume a: "find_from c t pos = Some p" "pos \<le> i" "i < p"
  then obtain k where k: "p = pos + k" "k < length (drop pos t)" "c \<notin> set (take k (drop pos t))"
    by (auto simp: find_from_def index_of_Some)
  with a have "i - pos < k" "drop pos t ! (i - pos) = t ! i" by auto
  with k show "t ! i \<noteq> c" by (metis in_set_conv_nth length_take min.absorb4 nth_take)
qed

lemma line_offsets_from_set:
  "set (line_offsets_from t pos) = {Suc i | i. pos \<le> i \<and> i < length t \<and> t ! i = newline}"
proof (induction t pos rule: line_offsets_from.induct)
  case (1 t pos)
  show ?case
  proof (cases "find_from newline t pos")
    case None
    then show ?thesis
      by (auto simp: line_offsets_from.simps [of t pos] dest: find_from_newline_cases)
  next
    case (Some p)
    note b = find_from_Some_bounds [OF Some] and l = find_from_least [OF Some]
    have "{Suc i | i. pos \<le> i \<and> i < length t \<and> t ! i = newline}
        = insert (Suc p) {Suc i | i. Suc p \<le> i \<and> i < length t \<and> t ! i = newline}"
      using b l by (auto simp: not_less_eq_eq) (metis le_neq_implies_less not_less_eq_eq)
    with "1" [OF Some] Some show ?thesis
      by (simp add: line_offsets_from.simps [of t pos])
  qed
qed

lemma line_offsets_from_sorted: "sorted_wrt (<) (line_offsets_from t pos)"
proof (induction t pos rule: line_offsets_from.induct)
  case (1 t pos)
  show ?case
  proof (cases "find_from newline t pos")
    case None
    then show ?thesis by (simp add: line_offsets_from.simps [of t pos])
  next
    case (Some p)
    with "1" [OF Some] show ?thesis
      by (auto simp: line_offsets_from.simps [of t pos] line_offsets_from_set)
  qed
qed

lemma line_start_offsets_set:
  "set (line_start_offsets t) = insert 0 {Suc i | i. i < length t \<and> t ! i = newline}"
  by (simp add: line_start_offsets_def line_offsets_from_set)

lemma line_start_offsets_sorted: "sorted_wrt (<) (line_start_offsets t)"
  by (auto simp: line_start_offsets_def line_offsets_from_set line_offsets_from_sorted)

lemma line_start_offsets_le: "o' \<in> set (line_start_offsets t) \<Longrightarrow> o' \<le> length t"
  by (auto simp: line_start_offsets_set)

lemma page_offset_in_lines:
  "page_offset (line_start_offsets t) p = Some off \<Longrightarrow> off \<in> set (line_start_offsets t)"
  by (auto simp: page_offset_def split: option.splits if_splits intro!: nth_mem)

lemma collect_starts_elem:
  "(off, cnt) \<in> set (collect_starts offsets prev ps) \<Longrightarrow>
     1 \<le> cnt \<and> (\<exists>p \<in> set ps. page_offset offsets p = Some off)"
  by (induction offsets prev ps rule: collect_starts.induct)
    (auto simp: Let_def split: option.splits if_splits)

lemma text_page_starts_elem:
  assumes "(off, cnt) \<in> set (text_page_starts pages t)"
  shows "1 \<le> cnt" and "off \<in> set (line_start_offsets t)"
  using assms collect_starts_elem page_offset_in_lines
  by (fastforce simp: text_page_starts_def split: if_splits)+

lemma sorted_map_fst_lex: "sorted xs \<Longrightarrow> sorted (map fst xs)"
  for xs :: "('a::linorder \<times> 'b::linorder) list"
  by (induction xs) (auto simp: less_eq_prod_def)

lemma text_page_starts_sorted [simp]: "sorted (map fst (text_page_starts pages t))"
  by (simp add: text_page_starts_def sorted_map_fst_lex)

section \<open>The window of markers: lemmas\<close>

lemma markers_inside_filter:
  assumes "sorted (map fst starts)"
  shows "markers_inside starts a b = filter (\<lambda>(off, _). a < off \<and> off < b) starts"
proof (cases "starts = [] \<or> b \<le> a + 1")
  case True
  then have "filter (\<lambda>(off, _). a < off \<and> off < b) starts = []"
    by (auto simp: filter_empty_conv)
  with True show ?thesis by (simp only: markers_inside_def if_True)
next
  case False
  then show ?thesis
    using bisect_window_filter [OF assms, of a b] by (simp add: markers_inside_def case_prod_beta')
qed

lemma marker_count_mono:
  assumes "sorted (map fst starts)" and "\<forall>(off, cnt) \<in> set starts. 0 \<le> cnt"
    and "b \<le> c"
  shows "marker_count_inside starts a b \<le> marker_count_inside starts a c"
proof -
  have "sum_list (map snd (filter (\<lambda>(off, _). a < off \<and> off < b) xs))
      \<le> sum_list (map snd (filter (\<lambda>(off, _). a < off \<and> off < c) xs))"
    if "\<forall>(off, cnt) \<in> set xs. 0 \<le> cnt" for xs :: "page_start list"
    using that assms(3) by (induction xs) fastforce+
  with assms show ?thesis by (simp add: marker_count_inside_def markers_inside_filter)
qed

lemma marker_count_nonneg:
  assumes "sorted (map fst starts)" and "\<forall>(off, cnt) \<in> set starts. 0 \<le> cnt"
  shows "0 \<le> marker_count_inside starts a b"
  unfolding marker_count_inside_def markers_inside_filter [OF assms(1)]
  by (rule sum_list_nonneg) (use assms(2) in auto)

section \<open>The marked snippet: lemmas\<close>

text \<open>Positions of the markers, in order, after the cursor and inside the snippet.\<close>

fun markers_ok :: "string \<Rightarrow> int \<Rightarrow> nat \<Rightarrow> (int \<times> int) list \<Rightarrow> bool" where
  "markers_ok snippet shift cursor [] \<longleftrightarrow> cursor \<le> length snippet"
| "markers_ok snippet shift cursor ((relative, cnt) # ms) \<longleftrightarrow>
     int cursor < relative + shift \<and> relative + shift \<le> int (length snippet) \<and> 0 \<le> cnt \<and>
     markers_ok snippet shift (nat (relative + shift)) ms"

text \<open>Form feeds written at or before a position of the unmarked snippet.\<close>

definition marks_upto :: "int \<Rightarrow> (int \<times> int) list \<Rightarrow> nat \<Rightarrow> nat" where
  "marks_upto shift ms i = sum_list (map (nat \<circ> snd) (filter (\<lambda>(r, _). r + shift \<le> int i) ms))"

lemma markers_ok_cursor: "markers_ok snippet shift cursor ms \<Longrightarrow> cursor \<le> length snippet"
  by (cases ms) auto

lemma markers_ok_after:
  "markers_ok snippet shift cursor ms \<Longrightarrow> (r, c) \<in> set ms \<Longrightarrow> int cursor < r + shift"
  by (induction snippet shift cursor ms rule: markers_ok.induct) force+

lemma marks_upto_before:
  "markers_ok snippet shift cursor ms \<Longrightarrow> i \<le> cursor \<Longrightarrow> marks_upto shift ms i = 0"
  by (fastforce simp: marks_upto_def filter_empty_conv dest: markers_ok_after)

lemma marked_length:
  "markers_ok snippet shift cursor ms \<Longrightarrow> length (apply_markers_loop snippet shift cursor ms)
     = length snippet - cursor + sum_list (map (nat \<circ> snd) ms)"
proof (induction snippet shift cursor ms rule: markers_ok.induct)
  case (1 snippet shift cursor)
  then show ?case by simp
next
  case (2 snippet shift cursor relative cnt ms)
  then have "cursor < nat (relative + shift)" "nat (relative + shift) \<le> length snippet" by auto
  with 2 show ?case by (auto simp: Let_def)
qed

lemma count_list_replicate_same: "count_list (replicate n x) x = n"
  by (induction n) auto

lemma marked_position:
  assumes "markers_ok snippet shift cursor ms" and "cursor \<le> i" and "i < length snippet"
  shows "apply_markers_loop snippet shift cursor ms ! (i - cursor + marks_upto shift ms i) = snippet ! i
    \<and> i - cursor + marks_upto shift ms i < length (apply_markers_loop snippet shift cursor ms)
    \<and> count_list (take (i - cursor + marks_upto shift ms i) (apply_markers_loop snippet shift cursor ms))
        PAGE_BREAK_MARKER
      = count_list (slice cursor i snippet) PAGE_BREAK_MARKER + marks_upto shift ms i"
  using assms
proof (induction snippet shift cursor ms rule: markers_ok.induct)
  case (1 snippet shift cursor)
  then show ?case by (simp add: marks_upto_def slice_def)
next
  case (2 snippet shift cursor relative cnt ms)
  define pos where "pos = nat (relative + shift)"
  define L where "L = apply_markers_loop snippet shift pos ms"
  from "2.prems" have guard: "\<not> (relative + shift \<le> int cursor \<or> relative + shift > int (length snippet))"
    and pos: "cursor < pos" "pos \<le> length snippet" "int pos = relative + shift"
    and ok: "markers_ok snippet shift pos ms" and cnt: "0 \<le> cnt"
    by (auto simp: pos_def)
  have loop: "apply_markers_loop snippet shift cursor ((relative, cnt) # ms)
      = slice cursor pos snippet @ replicate (nat cnt) PAGE_BREAK_MARKER @ L"
    using guard by (simp add: Let_def L_def pos_def)
  have len: "length (slice cursor pos snippet) = pos - cursor" using pos by simp
  show ?case
  proof (cases "i < pos")
    case True
    have zero: "marks_upto shift ((relative, cnt) # ms) i = 0"
      using True pos marks_upto_before [OF ok, of i] by (simp add: marks_upto_def)
    have tk: "take (i - cursor) (slice cursor pos snippet) = slice cursor i snippet"
      using True pos by (simp add: slice_def)
    from True "2.prems" have lt: "i - cursor < pos - cursor" by linarith
    show ?thesis unfolding zero loop
      using lt pos "2.prems" len tk by (simp add: nth_append nth_slice)
  next
    case False
    have up: "marks_upto shift ((relative, cnt) # ms) i = nat cnt + marks_upto shift ms i"
      using False pos by (simp add: marks_upto_def)
    have ih: "L ! (i - pos + marks_upto shift ms i) = snippet ! i"
      "i - pos + marks_upto shift ms i < length L"
      "count_list (take (i - pos + marks_upto shift ms i) L) PAGE_BREAK_MARKER
        = count_list (slice pos i snippet) PAGE_BREAK_MARKER + marks_upto shift ms i"
      using "2.IH" [folded pos_def] ok False "2.prems" by (auto simp: L_def)
    define A where "A = slice cursor pos snippet @ replicate (nat cnt) PAGE_BREAK_MARKER"
    define j where "j = i - pos + marks_upto shift ms i"
    have idx: "i - cursor + marks_upto shift ((relative, cnt) # ms) i = length A + j"
      using False pos up len by (simp add: A_def j_def)
    have loop': "apply_markers_loop snippet shift cursor ((relative, cnt) # ms) = A @ L"
      by (simp only: loop A_def append_assoc)
    have sl: "slice cursor i snippet = slice cursor pos snippet @ slice pos i snippet"
      using False pos by (simp add: slice_append)
    have cA: "count_list A PAGE_BREAK_MARKER = count_list (slice cursor pos snippet) PAGE_BREAK_MARKER + nat cnt"
      by (simp add: A_def count_list_replicate_same)
    show ?thesis unfolding idx loop' using ih cA sl up by (simp add: j_def)
  qed
qed

lemma marked_keeps_text:
  "filter (\<lambda>c. c \<noteq> PAGE_BREAK_MARKER) (apply_markers_loop snippet shift cursor ms)
     = filter (\<lambda>c. c \<noteq> PAGE_BREAK_MARKER) (drop cursor snippet)"
proof (induction snippet shift cursor ms rule: apply_markers_loop.induct)
  case (1 snippet shift cursor)
  then show ?case by simp
next
  case (2 snippet shift cursor relative cnt ms)
  let ?pos = "nat (relative + shift)"
  have split: "drop cursor snippet = slice cursor ?pos snippet @ drop ?pos snippet"
    if "\<not> (relative + shift \<le> int cursor \<or> int (length snippet) < relative + shift)"
  proof -
    from that have "cursor \<le> ?pos" by linarith
    then show ?thesis
      by (metis append_take_drop_id drop_drop le_add_diff_inverse2 slice_def)
  qed
  show ?case
    using 2(1,2) [OF refl] split by (auto simp: Let_def)
qed

end
