(* ===== verification/Section_Pages.thy ===== *)
theory Section_Pages
  imports Page_Markers
begin

text \<open>
  Section headings and page or section boundaries, \<open>sync/section_pages.py\<close> (mirrored by
  \<open>knovas_transmit/section_pages.py\<close>): line numbers and offsets, the markdown heading written
  in front of a part that starts on a heading line, and the end of a part moved back to a page
  or section boundary.

  Lemma groups: line number and line offset are inverse and agree with the line starts of
  \<open>page_markers.py\<close>; a heading never costs more than its prefix and shifts the rest of the part
  by the reported amount; an adjusted end stays inside the part.
\<close>

record section_info =
  sec_heading :: string
  sec_level :: "int option"
  sec_line_start :: "int option"

definition MAX_HEADING_LEVEL :: int where
  "MAX_HEADING_LEVEL = 4"

definition line_number_at_offset :: "string \<Rightarrow> nat \<Rightarrow> int" where
  "line_number_at_offset t offset =
     (if offset = 0 then 1
      else (let offset' = (if offset > length t then length t else offset)
            in int (count_list (slice 0 offset' t) newline) + 1))"

function offset_loop :: "string \<Rightarrow> int \<Rightarrow> nat \<Rightarrow> int \<Rightarrow> nat" where
  "offset_loop t target pos line =
     (if pos < length t \<and> line < target then
        (case find_from newline t pos of
           None \<Rightarrow> length t
         | Some nl \<Rightarrow> offset_loop t target (nl + 1) (line + 1))
      else pos)"
  by pat_completeness auto
termination
  by (relation "measure (\<lambda>(t, target, pos, line). length t - pos)")
    (auto dest: find_from_Some_bounds)

declare offset_loop.simps [simp del]

definition offset_for_line :: "string \<Rightarrow> int \<Rightarrow> nat" where
  "offset_for_line t line_1based =
     (if line_1based \<le> 1 then 0 else offset_loop t line_1based 0 1)"

text \<open>\<open>level or 1\<close>: both a missing level and level 0 count as 1.\<close>

definition level_or_1 :: "int option \<Rightarrow> int" where
  "level_or_1 level = (case level of None \<Rightarrow> 1 | Some l \<Rightarrow> if l = 0 then 1 else l)"

definition cap_level :: "int option \<Rightarrow> int" where
  "cap_level level = max 1 (min MAX_HEADING_LEVEL (level_or_1 level))"

definition heading_line :: "string \<Rightarrow> int \<Rightarrow> string" where
  "heading_line heading level =
     replicate (nat (cap_level (Some level))) CHR ''#'' @ '' '' @ heading"

fun section_heading_loop :: "int \<Rightarrow> section_info list \<Rightarrow> (string \<times> int) option" where
  "section_heading_loop line [] = None"
| "section_heading_loop line (sec # secs) =
     (if sec_line_start sec \<noteq> Some line then section_heading_loop line secs
      else (let heading = py_strip (sec_heading sec)
            in if heading = [] then None else Some (heading, cap_level (sec_level sec))))"

definition section_heading_at_offset ::
    "section_info list \<Rightarrow> string \<Rightarrow> nat \<Rightarrow> (string \<times> int) option" where
  "section_heading_at_offset sections t offset =
     (if sections = [] then None
      else section_heading_loop (line_number_at_offset t offset) sections)"

definition section_prefix_at_offset :: "section_info list \<Rightarrow> string \<Rightarrow> nat \<Rightarrow> string" where
  "section_prefix_at_offset sections t offset =
     (case section_heading_at_offset sections t offset of
        None \<Rightarrow> []
      | Some (heading, level) \<Rightarrow> heading_line heading level @ [newline, newline])"

definition first_line :: "string \<Rightarrow> string" where
  "first_line raw = (case find_from newline raw 0 of None \<Rightarrow> raw | Some n \<Rightarrow> slice 0 n raw)"

definition apply_section_heading :: "string \<Rightarrow> string \<Rightarrow> string \<times> int" where
  "apply_section_heading raw prefix =
     (if prefix = [] then (raw, 0)
      else if py_startswith raw prefix then (raw, 0)
      else
        (let heading_text = py_rstrip (\<lambda>c. c = newline) prefix;
             heading = py_strip (py_lstrip (\<lambda>c. c = CHR ''#'') heading_text);
             fl = first_line raw
         in if py_strip (py_lstrip (\<lambda>c. c = CHR ''#'') (py_strip fl)) = heading
            then (heading_text @ drop (length fl) raw, int (length heading_text) - int (length fl))
            else (prefix @ raw, int (length prefix))))"

definition page_boundary :: "string \<Rightarrow> page \<Rightarrow> nat option" where
  "page_boundary t p = map_option (\<lambda>l. offset_for_line t (l + 1)) (page_line_end p)"

definition section_boundary :: "string \<Rightarrow> section_info \<Rightarrow> nat option" where
  "section_boundary t sec =
     (case sec_line_start sec of
        None \<Rightarrow> None
      | Some l \<Rightarrow> if l \<le> 1 then None else Some (offset_for_line t l))"

definition boundary_candidates ::
    "string \<Rightarrow> nat \<Rightarrow> nat \<Rightarrow> section_info list \<Rightarrow> page list \<Rightarrow> nat list" where
  "boundary_candidates t floor_pos end_pos sections pages =
     filter (\<lambda>b. floor_pos < b \<and> b < end_pos)
       (List.map_filter (page_boundary t) pages @ List.map_filter (section_boundary t) sections)"

definition adjust_chunk_end ::
    "string \<Rightarrow> nat \<Rightarrow> nat \<Rightarrow> section_info list \<Rightarrow> page list \<Rightarrow> nat \<Rightarrow> nat" where
  "adjust_chunk_end t start end_pos sections pages min_chunk_chars =
     (if end_pos \<ge> length t then end_pos
      else (let floor_pos = min end_pos (start + min_chunk_chars);
                candidates = boundary_candidates t floor_pos end_pos sections pages
            in if candidates = [] then end_pos else Max (set candidates)))"

section \<open>Lines and offsets: lemmas\<close>

lemma offset_loop_lines:
  "pos \<le> length t \<Longrightarrow> offset_loop t target pos line =
     (if target \<le> line then pos
      else let ls = line_offsets_from t pos; k = nat (target - line)
           in if k \<le> length ls then ls ! (k - 1) else length t)"
proof (induction t target pos line rule: offset_loop.induct)
  case (1 t target pos line)
  show ?case
  proof (cases "pos < length t \<and> line < target")
    case False
    with "1.prems" show ?thesis
      by (auto simp: offset_loop.simps [of t target pos line] Let_def
          line_offsets_from.simps [of t "length t"] find_from_def)
  next
    case True
    show ?thesis
    proof (cases "find_from newline t pos")
      case None
      with True show ?thesis
        by (simp add: offset_loop.simps [of t target pos line] line_offsets_from.simps [of t pos])
    next
      case (Some nl)
      note b = find_from_Some_bounds [OF Some]
      let ?ls = "line_offsets_from t (nl + 1)"
      have ls: "line_offsets_from t pos = (nl + 1) # ?ls"
        using Some by (simp add: line_offsets_from.simps [of t pos])
      have step: "offset_loop t target pos line = offset_loop t target (nl + 1) (line + 1)"
        using True Some by (simp add: offset_loop.simps [of t target pos line])
      have k: "nat (target - line) = Suc (nat (target - (line + 1)))" using True by arith
      from b have pos': "nl + 1 \<le> length t" by simp
      show ?thesis
        unfolding step "1.IH" [OF True Some pos'] ls
        using True by (auto simp: Let_def k nth_Cons' nat_le_iff)
    qed
  qed
qed

lemma offset_for_line_eq:
  assumes "1 \<le> line" and "line \<le> int (length (line_start_offsets t))"
  shows "offset_for_line t line = line_start_offsets t ! nat (line - 1)"
proof (cases "line = 1")
  case True
  then show ?thesis by (simp add: offset_for_line_def line_start_offsets_def)
next
  case False
  with assms have "1 < line" "nat (line - 1) \<le> length (line_offsets_from t 0)"
    by (auto simp: line_start_offsets_def)
  moreover from this obtain k where "nat (line - 1) = Suc k" by (cases "nat (line - 1)") auto
  ultimately show ?thesis
    by (simp add: offset_for_line_def offset_loop_lines Let_def line_start_offsets_def)
qed

lemma offset_for_line_past_end:
  assumes "int (length (line_start_offsets t)) < line"
  shows "offset_for_line t line = length t"
proof -
  from assms have "\<not> nat (line - 1) \<le> length (line_offsets_from t 0)" "\<not> line \<le> 1"
    by (auto simp: line_start_offsets_def)
  then show ?thesis by (simp add: offset_for_line_def offset_loop_lines Let_def)
qed

lemma count_newlines_upto_line:
  "k < length (line_offsets_from t pos) \<Longrightarrow>
     count_list (slice pos (line_offsets_from t pos ! k) t) newline = Suc k"
proof (induction t pos arbitrary: k rule: line_offsets_from.induct)
  case (1 t pos)
  show ?case
  proof (cases "find_from newline t pos")
    case None
    with "1.prems" show ?thesis by (simp add: line_offsets_from.simps [of t pos])
  next
    case (Some p)
    note b = find_from_Some_bounds [OF Some] and least = find_from_least [OF Some]
    let ?ls = "line_offsets_from t (Suc p)"
    have ls: "line_offsets_from t pos = Suc p # ?ls"
      using Some by (simp add: line_offsets_from.simps [of t pos])
    have "newline \<notin> set (slice pos p t)"
      using b least by (force simp: in_set_conv_nth nth_slice)
    then have "count_list (slice pos p t) newline = 0" by simp
    moreover have "slice pos (Suc p) t = slice pos p t @ [t ! p]"
      using b slice_append [of pos p "Suc p" t] slice_Suc [of p "Suc p" t] by simp
    ultimately have one: "count_list (slice pos (Suc p) t) newline = 1" using b by simp
    show ?thesis
    proof (cases k)
      case 0
      with one show ?thesis by (simp add: ls)
    next
      case (Suc k')
      with "1.prems" ls have k': "k' < length ?ls" by simp
      then have "?ls ! k' \<in> set ?ls" by simp
      then have "Suc p \<le> ?ls ! k'" by (auto simp: line_offsets_from_set)
      with b have "slice pos (?ls ! k') t = slice pos (Suc p) t @ slice (Suc p) (?ls ! k') t"
        by (simp add: slice_append)
      with "1.IH" [OF Some, of k'] k' one Suc show ?thesis by (simp add: ls)
    qed
  qed
qed

lemma line_number_of_line_start:
  assumes "k < length (line_start_offsets t)"
  shows "line_number_at_offset t (line_start_offsets t ! k) = int k + 1"
proof (cases k)
  case 0
  then show ?thesis by (simp add: line_start_offsets_def line_number_at_offset_def)
next
  case (Suc k')
  with assms have k': "k' < length (line_offsets_from t 0)" by (simp add: line_start_offsets_def)
  let ?o = "line_offsets_from t 0 ! k'"
  from k' have "?o \<in> set (line_offsets_from t 0)" by simp
  then have "0 < ?o" "?o \<le> length t" by (auto simp: line_offsets_from_set)
  with count_newlines_upto_line [OF k'] Suc show ?thesis
    by (simp add: line_start_offsets_def line_number_at_offset_def)
qed

section \<open>Headings: lemmas\<close>

lemma first_line_prefix: "first_line raw = take (length (first_line raw)) raw"
  by (auto simp: first_line_def slice_def split: option.splits dest!: find_from_Some_bounds)

lemma length_first_line: "length (first_line raw) \<le> length raw"
  by (auto simp: first_line_def split: option.splits)

lemma apply_section_heading_length:
  "length (fst (apply_section_heading raw prefix)) \<le> length prefix + length raw"
  using length_py_rstrip [of "\<lambda>c. c = newline" prefix] length_first_line [of raw]
  by (auto simp: apply_section_heading_def Let_def)

lemma nat_shift: "f \<le> k \<Longrightarrow> nat (int k + (int h - int f)) = h + (k - f)"
  by arith

text \<open>Everything after the first line of the part moves by exactly the reported shift.\<close>

lemma apply_section_heading_shift:
  assumes "apply_section_heading raw prefix = (snippet, shift)" and "length (first_line raw) \<le> k"
  shows "0 \<le> int k + shift \<and> drop (nat (int k + shift)) snippet = drop k raw"
  using assms
  by (auto simp: apply_section_heading_def Let_def nat_shift nat_add_distrib split: if_splits)

lemma apply_section_heading_length_shift:
  "apply_section_heading raw prefix = (snippet, shift) \<Longrightarrow>
     int (length snippet) = int (length raw) + shift"
  using length_first_line [of raw]
  by (auto simp: apply_section_heading_def Let_def split: if_splits)

section \<open>Part ends: lemmas\<close>

lemma boundary_candidates_bounds:
  "b \<in> set (boundary_candidates t f e sections pages) \<Longrightarrow> f < b \<and> b < e"
  by (auto simp: boundary_candidates_def)

lemma adjust_chunk_end_bounds:
  assumes "start < end_pos"
  shows "start < adjust_chunk_end t start end_pos sections pages m
    \<and> adjust_chunk_end t start end_pos sections pages m \<le> end_pos"
proof (cases "end_pos \<ge> length t \<or>
    boundary_candidates t (min end_pos (start + m)) end_pos sections pages = []")
  case True
  then show ?thesis using assms by (auto simp: adjust_chunk_end_def Let_def)
next
  case False
  let ?c = "boundary_candidates t (min end_pos (start + m)) end_pos sections pages"
  from False have "Max (set ?c) \<in> set ?c" by (intro Max_in) auto
  then have "min end_pos (start + m) < Max (set ?c)" "Max (set ?c) < end_pos"
    by (auto dest: boundary_candidates_bounds)
  moreover have "adjust_chunk_end t start end_pos sections pages m = Max (set ?c)"
    using False by (simp add: adjust_chunk_end_def Let_def)
  ultimately show ?thesis using assms by linarith
qed

lemma adjust_chunk_end_past: "length t \<le> e \<Longrightarrow> adjust_chunk_end t s e sections pages m = e"
  by (simp add: adjust_chunk_end_def)

section \<open>Property\<close>

text \<open>
  Line numbers and offsets are inverse. For every line of a text, \<open>offset_for_line\<close> is the
  line start that \<open>page_markers.py\<close> computes independently, and \<open>line_number_at_offset\<close> at that
  offset is the line again; a line past the end has the end of the text as its offset.
\<close>

theorem line_offset_roundtrip:
  assumes "1 \<le> n"
  shows "(if n \<le> int (length (line_start_offsets t))
     then offset_for_line t n = line_start_offsets t ! nat (n - 1)
       \<and> line_number_at_offset t (offset_for_line t n) = n
     else offset_for_line t n = length t)"
proof (cases "n \<le> int (length (line_start_offsets t))")
  case True
  then have "nat (n - 1) < length (line_start_offsets t)" using assms by linarith
  from line_number_of_line_start [OF this] offset_for_line_eq [OF assms True] assms True
  show ?thesis by simp
next
  case False
  then show ?thesis by (simp add: offset_for_line_past_end)
qed

theorem line_offset_roundtrip_witness:
  "(if (2::int) \<le> int (length (line_start_offsets [CHR ''a'', newline, CHR ''b'']))
     then offset_for_line [CHR ''a'', newline, CHR ''b''] 2
         = line_start_offsets [CHR ''a'', newline, CHR ''b''] ! nat (2 - 1)
       \<and> line_number_at_offset [CHR ''a'', newline, CHR ''b'']
           (offset_for_line [CHR ''a'', newline, CHR ''b''] 2) = 2
     else offset_for_line [CHR ''a'', newline, CHR ''b''] 2 = length [CHR ''a'', newline, CHR ''b''])"
  by (rule line_offset_roundtrip) simp

end
