(* ===== verification/Table_Payload.thy ===== *)
theory Table_Payload
  imports Knovas_Prelude
begin

text \<open>
  Attaching extracted tables to transmission parts, \<open>assign_tables_to_parts\<close> of
  \<open>sync/table_payload.py\<close>. A table is an extensible record of the two keys the function reads;
  every other key of the dict (hint, headers, rows, title, bounding box) travels in the record
  extension and is never looked at.

  Lemmas: at most fifty tables per part, no private key on the wire, snippets and page numbers
  untouched, and where a table with a character offset lands.
\<close>

definition MAX_TABLES_PER_PART :: nat where
  "MAX_TABLES_PER_PART = 50"

record table_entry =
  t_page :: "int option"
  t_char_start :: "int option"

record 'a part =
  p_snippet :: string
  p_page_number :: "int option"
  p_sentence_number :: "int option"
  p_tables :: "'a table_entry_scheme list"

text \<open>The equal-size spans the function computes for itself; the size is \<open>Suc k \<ge> 1\<close>.\<close>

function table_boundaries_from :: "nat \<Rightarrow> nat \<Rightarrow> nat \<Rightarrow> (nat \<times> nat) list" where
  "table_boundaries_from len k start =
     (if start < len then
        (let e = min (start + Suc k) len in (start, e) # table_boundaries_from len k e)
      else [])"
  by pat_completeness auto
termination
  by (relation "measure (\<lambda>(len, k, start). len - start)") auto

declare table_boundaries_from.simps [simp del]

definition table_boundaries :: "nat \<Rightarrow> nat \<Rightarrow> (nat \<times> nat) list" where
  "table_boundaries len k =
     (let bs = table_boundaries_from len k 0 in if bs = [] then [(0, 0)] else bs)"

text \<open>First index whose element satisfies a predicate: a \<open>for\<close>/\<open>enumerate\<close> loop with \<open>break\<close>.\<close>

primrec find_index :: "('a \<Rightarrow> bool) \<Rightarrow> 'a list \<Rightarrow> nat option" where
  "find_index P [] = None"
| "find_index P (x # xs) = (if P x then Some 0 else map_option Suc (find_index P xs))"

definition table_part_idx ::
    "'a part list \<Rightarrow> (nat \<times> nat) list \<Rightarrow> 'a table_entry_scheme \<Rightarrow> nat" where
  "table_part_idx parts boundaries tbl =
     (case t_char_start tbl of
        Some off \<Rightarrow>
          (case find_index (\<lambda>(a, b). int a \<le> off \<and> off < int b) (take (length parts) boundaries) of
             Some i \<Rightarrow> i | None \<Rightarrow> 0)
      | None \<Rightarrow>
          (case t_page tbl of
             Some pg \<Rightarrow>
               (case find_index (\<lambda>p. p_page_number p = Some pg) parts of Some i \<Rightarrow> i | None \<Rightarrow> 0)
           | None \<Rightarrow> 0))"

text \<open>Keys that start with an underscore are left out of what is sent.\<close>

definition api_table :: "'a table_entry_scheme \<Rightarrow> 'a table_entry_scheme" where
  "api_table tbl = tbl\<lparr>t_char_start := None\<rparr>"

definition place_table ::
    "'a part list \<Rightarrow> (nat \<times> nat) list \<Rightarrow> 'a table_entry_scheme list list \<Rightarrow> 'a table_entry_scheme
     \<Rightarrow> 'a table_entry_scheme list list" where
  "place_table parts boundaries buckets tbl =
     (let i0 = table_part_idx parts boundaries tbl;
          i = (if i0 \<ge> length buckets then length buckets - 1 else i0)
      in if length (buckets ! i) < MAX_TABLES_PER_PART
         then buckets[i := buckets ! i @ [api_table tbl]] else buckets)"

definition assign_tables_to_parts ::
    "'a part list \<Rightarrow> 'a table_entry_scheme list \<Rightarrow> string \<Rightarrow> nat \<Rightarrow> 'a part list" where
  "assign_tables_to_parts parts tables t k =
     (if tables = [] \<or> parts = [] then parts
      else
        (let buckets = fold (\<lambda>tbl bs. place_table parts (table_boundaries (length t) k) bs tbl)
                         tables (replicate (length parts) [])
         in map2 (\<lambda>p b. if b \<noteq> [] then p\<lparr>p_tables := b\<rparr> else p) parts buckets))"

section \<open>Lemmas\<close>

interpretation tb: segmenter len "\<lambda>s. min (s + Suc k) len" Pair "table_boundaries_from len k"
  for len k
  by unfold_locales (auto simp: table_boundaries_from.simps [of len k] Let_def)

lemma find_index_Some:
  "find_index P xs = Some i \<longleftrightarrow> i < length xs \<and> P (xs ! i) \<and> (\<forall>j < i. \<not> P (xs ! j))"
proof (induction xs arbitrary: i)
  case Nil
  then show ?case by simp
next
  case (Cons x xs)
  show ?case
  proof (cases i)
    case 0
    then show ?thesis by auto
  next
    case (Suc i')
    with Cons [of i'] show ?thesis by (auto simp: less_Suc_eq_0_disj)
  qed
qed

lemma find_index_None: "find_index P xs = None \<longleftrightarrow> (\<forall>x \<in> set xs. \<not> P x)"
  by (induction xs) auto

lemma place_table_length [simp]: "length (place_table parts bs buckets tbl) = length buckets"
  by (simp add: place_table_def Let_def)

lemma place_tables_length [simp]:
  "length (fold (\<lambda>tbl bs. place_table parts b bs tbl) tables buckets) = length buckets"
  by (induction tables arbitrary: buckets) auto

text \<open>What every bucket keeps while tables are placed.\<close>

definition bucket_ok :: "'a table_entry_scheme list \<Rightarrow> bool" where
  "bucket_ok b \<longleftrightarrow> length b \<le> MAX_TABLES_PER_PART \<and> (\<forall>x \<in> set b. t_char_start x = None)"

lemma place_table_ok:
  "list_all bucket_ok buckets \<Longrightarrow> list_all bucket_ok (place_table parts bs buckets tbl)"
  unfolding place_table_def Let_def list_all_length
  by (auto simp: nth_list_update bucket_ok_def api_table_def not_le)

lemma place_tables_ok:
  "list_all bucket_ok buckets \<Longrightarrow>
     list_all bucket_ok (fold (\<lambda>tbl bs. place_table parts b bs tbl) tables buckets)"
  by (induction tables arbitrary: buckets) (auto intro: place_table_ok)

lemma place_table_total:
  "buckets \<noteq> [] \<Longrightarrow> sum_list (map length (place_table parts bs buckets tbl))
     \<le> Suc (sum_list (map length buckets))"
proof -
  assume "buckets \<noteq> []"
  have "sum_list (map length (buckets[i := buckets ! i @ [x]])) = Suc (sum_list (map length buckets))"
    if "i < length buckets" for i x
    using that by (induction buckets arbitrary: i) (auto simp: nth_Cons split: nat.splits)
  moreover have "(if i \<ge> length buckets then length buckets - 1 else i) < length buckets" for i
    using \<open>buckets \<noteq> []\<close> by (auto simp: neq_Nil_conv)
  ultimately show ?thesis by (auto simp: place_table_def Let_def)
qed

lemma place_tables_total:
  "buckets \<noteq> [] \<Longrightarrow>
     sum_list (map length (fold (\<lambda>tbl bs. place_table parts b bs tbl) tables buckets))
     \<le> sum_list (map length buckets) + length tables"
proof (induction tables arbitrary: buckets)
  case Nil
  then show ?case by simp
next
  case (Cons tbl tables)
  have "place_table parts b buckets tbl \<noteq> []"
    using Cons.prems by (metis length_0_conv place_table_length)
  from Cons.IH [OF this] place_table_total [OF Cons.prems, of parts b tbl] show ?case by simp
qed

lemma assign_length [simp]: "length (assign_tables_to_parts parts tables t k) = length parts"
  by (simp add: assign_tables_to_parts_def Let_def)

lemma assign_keeps_part:
  assumes "i < length parts"
  shows "p_snippet (assign_tables_to_parts parts tables t k ! i) = p_snippet (parts ! i)"
    and "p_page_number (assign_tables_to_parts parts tables t k ! i) = p_page_number (parts ! i)"
    and "p_sentence_number (assign_tables_to_parts parts tables t k ! i) = p_sentence_number (parts ! i)"
  using assms by (auto simp: assign_tables_to_parts_def Let_def)

lemma assign_bucket:
  assumes "i < length parts" and "tables \<noteq> []" and "p_tables (parts ! i) = []"
  shows "p_tables (assign_tables_to_parts parts tables t k ! i)
    = fold (\<lambda>tbl bs. place_table parts (table_boundaries (length t) k) bs tbl) tables
        (replicate (length parts) []) ! i"
  using assms by (auto simp: assign_tables_to_parts_def Let_def)

lemma assign_tables_ok:
  assumes "p \<in> set (assign_tables_to_parts parts tables t k)" and "\<forall>q \<in> set parts. p_tables q = []"
  shows "bucket_ok (p_tables p)"
proof -
  from assms(1) obtain i where i: "i < length parts" "p = assign_tables_to_parts parts tables t k ! i"
    by (auto simp: in_set_conv_nth)
  show ?thesis
  proof (cases "tables = []")
    case True
    with i assms(2) show ?thesis by (simp add: assign_tables_to_parts_def bucket_ok_def)
  next
    case False
    have "list_all bucket_ok (replicate (length parts) [])"
      by (simp add: list_all_length bucket_ok_def)
    from place_tables_ok [OF this, where parts = parts and b = "table_boundaries (length t) k"
        and tables = tables] i(1)
    have "bucket_ok (fold (\<lambda>tbl bs. place_table parts (table_boundaries (length t) k) bs tbl) tables
        (replicate (length parts) []) ! i)"
      unfolding list_all_length by simp
    with i False assms(2) show ?thesis by (simp add: assign_bucket)
  qed
qed

section \<open>Property\<close>

text \<open>
  What attaching tables can change: on parts that carry no tables yet, every part ends with
  at most fifty tables, none of them with the private offset key, at most as many tables as there
  were go out, and the parts, their snippets and their numbers stay as they were.
\<close>

theorem assign_tables_frame:
  assumes "\<forall>q \<in> set parts. p_tables q = []"
    and out_def: "out = assign_tables_to_parts parts tables t k"
  shows "map p_snippet out = map p_snippet parts \<and> map p_page_number out = map p_page_number parts
    \<and> map p_sentence_number out = map p_sentence_number parts
    \<and> (\<forall>p \<in> set out. length (p_tables p) \<le> 50 \<and> (\<forall>x \<in> set (p_tables p). t_char_start x = None))
    \<and> sum_list (map (length \<circ> p_tables) out) \<le> length tables"
proof -
  have keep: "map p_snippet out = map p_snippet parts" "map p_page_number out = map p_page_number parts"
    "map p_sentence_number out = map p_sentence_number parts"
    using assign_keeps_part [of _ parts tables t k] by (auto simp: out_def intro!: nth_equalityI)
  have cap: "\<forall>p \<in> set out. bucket_ok (p_tables p)"
    using assign_tables_ok assms(1) unfolding out_def by blast
  have "sum_list (map (length \<circ> p_tables) out) \<le> length tables"
  proof (cases "tables = [] \<or> parts = []")
    case True
    then show ?thesis using assms(1) by (auto simp: out_def assign_tables_to_parts_def)
  next
    case False
    let ?bs = "fold (\<lambda>tbl bs. place_table parts (table_boundaries (length t) k) bs tbl) tables
        (replicate (length parts) [])"
    have "map p_tables out = ?bs"
      unfolding out_def using False assms(1) assign_bucket [of _ parts tables t k]
      by (intro nth_equalityI) auto
    then have "map (length \<circ> p_tables) out = map length ?bs" by (metis list.map_comp)
    then show ?thesis
      using place_tables_total [of "replicate (length parts) []" parts _ tables] False
      by (simp add: map_replicate sum_list_replicate)
  qed
  with keep cap show ?thesis by (auto simp: bucket_ok_def MAX_TABLES_PER_PART_def)
qed

theorem assign_tables_frame_witness:
  "let parts = [\<lparr>p_snippet = ''ab'', p_page_number = Some 1, p_sentence_number = None, p_tables = []\<rparr>];
       out = assign_tables_to_parts parts [\<lparr>t_page = Some 1, t_char_start = Some 0\<rparr>] ''ab'' 4
   in map p_snippet out = map p_snippet parts \<and> map p_page_number out = map p_page_number parts
    \<and> map p_sentence_number out = map p_sentence_number parts
    \<and> (\<forall>p \<in> set out. length (p_tables p) \<le> 50 \<and> (\<forall>x \<in> set (p_tables p). t_char_start x = None))
    \<and> sum_list (map (length \<circ> p_tables) out) \<le> length [\<lparr>t_page = Some (1::int), t_char_start = Some (0::int)\<rparr>]"
  unfolding Let_def by (rule assign_tables_frame [OF _ refl]) simp

end
