(* ===== verification/Chunking.thy ===== *)
theory Chunking
  imports Section_Pages Table_Payload
begin

text \<open>
  \<open>sync/chunking.py\<close>: a document's text cut into transmission parts, in memory, streamed
  from a file, and with page, sentence, heading and page-marker information; and the part dicts
  built from them. \<open>knovas_transmit/chunking.py\<close> is the Platform's mirror of the located
  variant.

  The part size is checked to be at least 1 before any loop runs; the loops take \<open>k\<close> with the
  size being \<open>Suc k\<close>, so that they terminate. Lemma groups: the end of a part is after its
  start and inside the text, so the parts tile the document (the interpretations of
  \<open>segmenter\<close>); a marked part fits its budget; the streamed and the in-memory chunker agree.
\<close>

record sentence =
  sent_index :: int
  char_start :: int
  char_end :: int
  sent_page :: "int option"

section \<open>Ends of parts\<close>

function fit_markers_in_budget :: "page_start list \<Rightarrow> nat \<Rightarrow> nat \<Rightarrow> nat \<Rightarrow> nat" where
  "fit_markers_in_budget starts start e budget =
     (if e > start + 1 then
        (let markers = marker_count_inside starts start e
         in if int (e - start) + markers \<le> int budget then e
            else fit_markers_in_budget starts start
                   (nat (max (int start + 1) (int start + int budget - markers))) budget)
      else e)"
  by pat_completeness auto
termination
  by (relation "measure (\<lambda>(starts, start, e, budget). e)") auto

declare fit_markers_in_budget.simps [simp del]

text \<open>Slicing a \<open>str\<close> never raises, so the \<open>try\<close> always succeeds.\<close>

definition is_char_boundary :: "string \<Rightarrow> nat \<Rightarrow> bool" where
  "is_char_boundary t index =
     (if index = 0 \<or> index \<ge> length t then True
      else (case (Inr (slice (index - 1) (index + 1) t) :: string py) of
              Inr _ \<Rightarrow> True | Inl _ \<Rightarrow> False))"

fun back_off :: "string \<Rightarrow> nat \<Rightarrow> nat \<Rightarrow> nat" where
  "back_off t start e =
     (if e > start \<and> \<not> is_char_boundary t e then back_off t start (e - 1) else e)"

declare back_off.simps [simp del]

definition plain_chunk_end :: "string \<Rightarrow> nat \<Rightarrow> nat \<Rightarrow> nat" where
  "plain_chunk_end t part_max start =
     (let e = min (start + part_max) (length t)
      in if e < length t then
           (let e' = back_off t start e
            in if e' = start then min (start + part_max) (length t) else e')
         else e)"

lemma is_char_boundary_True [simp]: "is_char_boundary t i"
  by (simp add: is_char_boundary_def)

lemma back_off_id [simp]: "back_off t start e = e"
  by (simp add: back_off.simps)

lemma plain_chunk_end_eq: "plain_chunk_end t (Suc k) start = min (start + Suc k) (length t)"
  by (simp add: plain_chunk_end_def Let_def)

section \<open>Plain chunks\<close>

function chunk_loop :: "string \<Rightarrow> nat \<Rightarrow> nat \<Rightarrow> string list" where
  "chunk_loop t k start =
     (if start < length t then
        (let e = plain_chunk_end t (Suc k) start in slice start e t # chunk_loop t k e)
      else [])"
  by pat_completeness auto
termination
  by (relation "measure (\<lambda>(t, k, start). length t - start)") (auto simp: plain_chunk_end_eq)

declare chunk_loop.simps [simp del]

definition iter_text_chunks :: "string \<Rightarrow> int \<Rightarrow> string list py" where
  "iter_text_chunks t part_max_chars =
     (if part_max_chars < 1 then Inl ValueError
      else if t = [] then Inr [[]]
      else Inr (chunk_loop t (nat part_max_chars - 1) 0))"

text \<open>\<open>chunk_text\<close> runs the same loop with a list it appends to.\<close>

function chunk_text_loop :: "string \<Rightarrow> nat \<Rightarrow> nat \<Rightarrow> string list \<Rightarrow> string list" where
  "chunk_text_loop t k start chunks =
     (if start < length t then
        (let e = plain_chunk_end t (Suc k) start
         in chunk_text_loop t k e (chunks @ [slice start e t]))
      else chunks)"
  by pat_completeness auto
termination
  by (relation "measure (\<lambda>(t, k, start, chunks). length t - start)") (auto simp: plain_chunk_end_eq)

declare chunk_text_loop.simps [simp del]

definition chunk_text :: "string \<Rightarrow> int \<Rightarrow> string list py" where
  "chunk_text t part_max_chars =
     (if part_max_chars < 1 then Inl ValueError
      else if t = [] then Inr [[]]
      else Inr (chunk_text_loop t (nat part_max_chars - 1) 0 []))"

section \<open>Chunks streamed from a file\<close>

definition take_first_chunk :: "string \<Rightarrow> nat \<Rightarrow> string \<times> string" where
  "take_first_chunk t part_max =
     (if t = [] then ([], [])
      else if length t \<le> part_max then (t, [])
      else (let e0 = back_off t 0 part_max;
                e = (if e0 = 0 then part_max else e0)
            in (slice 0 e t, drop e t)))"

lemma take_first_chunk_eq: "take_first_chunk t (Suc k) = (take (Suc k) t, drop (Suc k) t)"
  by (auto simp: take_first_chunk_def slice_def)

text \<open>The inner loop while more than one part is buffered, and the loop after end of file.\<close>

function drain_full :: "nat \<Rightarrow> string \<Rightarrow> string list \<times> string" where
  "drain_full k buf =
     (if length buf > Suc k then
        (let (chunk, buf') = take_first_chunk buf (Suc k);
             (chunks, left) = drain_full k buf'
         in (chunk # chunks, left))
      else ([], buf))"
  by pat_completeness auto
termination
  by (relation "measure (\<lambda>(k, buf). length buf)") (auto simp: take_first_chunk_eq)

function drain_rest :: "nat \<Rightarrow> string \<Rightarrow> string list" where
  "drain_rest k buf =
     (if buf \<noteq> [] then
        (let (chunk, buf') = take_first_chunk buf (Suc k)
         in if chunk = [] then [] else chunk # drain_rest k buf')
      else [])"
  by pat_completeness auto
termination
  by (relation "measure (\<lambda>(k, buf). length buf)") (auto simp: take_first_chunk_eq)

text \<open>
  \<open>f.read(part_max_chars)\<close> on the decoded file: the next \<open>Suc k\<close> characters, empty at the end.
  The result is the flag \<open>any_data\<close>, the final buffer and the chunks yielded so far.
\<close>

function read_loop :: "nat \<Rightarrow> string \<Rightarrow> string \<Rightarrow> bool \<Rightarrow> bool \<times> string \<times> string list" where
  "read_loop k unread buf any_data =
     (let block = take (Suc k) unread
      in if block = [] then (any_data, buf, [])
         else (let (chunks, buf') = drain_full k (buf @ block);
                   (any', buf'', more) = read_loop k (drop (Suc k) unread) buf' True
               in (any', buf'', chunks @ more)))"
  by pat_completeness auto
termination
  by (relation "measure (\<lambda>(k, unread, buf, a). length unread)") (auto simp: neq_Nil_conv)

declare drain_full.simps [simp del] drain_rest.simps [simp del] read_loop.simps [simp del]

definition iter_file_text_chunks :: "string \<Rightarrow> int \<Rightarrow> string list py" where
  "iter_file_text_chunks content part_max_chars =
     (if part_max_chars < 1 then Inl ValueError
      else (let k = nat part_max_chars - 1;
                (any_data, buf, chunks) = read_loop k content [] False
            in if \<not> any_data then Inr [[]] else Inr (chunks @ drain_rest k buf)))"

definition count_file_text_parts :: "string \<Rightarrow> int \<Rightarrow> nat py" where
  "count_file_text_parts content part_max_chars =
     map_sum id length (iter_file_text_chunks content part_max_chars)"

section \<open>Locations\<close>

definition location_for_offset ::
    "int list \<Rightarrow> sentence list \<Rightarrow> nat \<Rightarrow> int option \<times> int option" where
  "location_for_offset starts sentences offset =
     (if sentences = [] \<or> int offset \<ge> char_end (last sentences) then (None, None)
      else
        (let idx = int (bisect_right id starts (int offset)) - 1;
             idx' = (if idx < 0 then 0
                     else if idx \<ge> int (length sentences) then int (length sentences) - 1 else idx);
             s = sentences ! nat idx'
         in (sent_page s, Some (sent_index s + 1))))"

definition page_number_entries :: "page list \<Rightarrow> string \<Rightarrow> (nat \<times> int) list" where
  "page_number_entries pages t =
     List.map_filter (\<lambda>p. map_option (\<lambda>off. (off, page_index p + 1))
       (page_offset (line_start_offsets t) p)) pages"

definition page_number_starts :: "page list \<Rightarrow> string \<Rightarrow> nat list \<times> int list" where
  "page_number_starts pages t =
     (if pages = [] then ([], [])
      else (let entries = sort (page_number_entries pages t) in (map fst entries, map snd entries)))"

definition page_for_offset :: "nat list \<Rightarrow> int list \<Rightarrow> nat \<Rightarrow> int option" where
  "page_for_offset starts numbers offset =
     (if starts = [] then None
      else (let idx = int (bisect_right id starts offset) - 1 in Some (numbers ! nat (max idx 0))))"

section \<open>Located parts\<close>

text \<open>What \<open>iter_text_chunks_with_location\<close> fixes before its loop; the part size is \<open>Suc k\<close>.\<close>

record chunk_ctx =
  ctx_text :: string
  ctx_k :: nat
  ctx_sentences :: "sentence list"
  ctx_sections :: "section_info list"
  ctx_pages :: "page list"
  ctx_page_starts :: "page_start list"

definition chunk_budget :: "chunk_ctx \<Rightarrow> string \<Rightarrow> nat" where
  "chunk_budget c prefix =
     (if prefix \<noteq> [] then max 1 (Suc (ctx_k c) - length prefix) else Suc (ctx_k c))"

definition fit_end :: "chunk_ctx \<Rightarrow> nat \<Rightarrow> nat \<Rightarrow> nat" where
  "fit_end c start budget =
     (let e = min (start + budget) (length (ctx_text c))
      in if ctx_page_starts c \<noteq> []
         then fit_markers_in_budget (ctx_page_starts c) start e budget else e)"

definition located_chunk_end :: "chunk_ctx \<Rightarrow> nat \<Rightarrow> nat" where
  "located_chunk_end c start =
     (let t = ctx_text c;
          prefix = section_prefix_at_offset (ctx_sections c) t start;
          budget = chunk_budget c prefix;
          e = fit_end c start budget
      in if e < length t then
           (let e' = back_off t start (adjust_chunk_end t start e (ctx_sections c) (ctx_pages c) 200)
            in if e' = start then fit_end c start budget else e')
         else e)"

definition part_location :: "chunk_ctx \<Rightarrow> nat \<Rightarrow> int option \<times> int option" where
  "part_location c start =
     (let (page1, sent) =
            (if ctx_sentences c \<noteq> []
             then location_for_offset (map char_start (ctx_sentences c)) (ctx_sentences c) start
             else (None, None));
          (page_offsets, page_numbers) = page_number_starts (ctx_pages c) (ctx_text c)
      in (if page_offsets \<noteq> [] then page_for_offset page_offsets page_numbers start else page1, sent))"

definition part_snippet :: "chunk_ctx \<Rightarrow> nat \<Rightarrow> nat \<Rightarrow> string" where
  "part_snippet c start e =
     (let t = ctx_text c;
          (snippet, shift) = apply_section_heading (slice start e t)
             (section_prefix_at_offset (ctx_sections c) t start)
      in if ctx_page_starts c \<noteq> []
         then apply_page_markers snippet (relative_markers (ctx_page_starts c) start e) shift
         else snippet)"

type_synonym located_part = "string \<times> int option \<times> int option \<times> nat"

definition emit_part :: "chunk_ctx \<Rightarrow> nat \<Rightarrow> nat \<Rightarrow> located_part" where
  "emit_part c start e =
     (part_snippet c start e, fst (part_location c start), snd (part_location c start), start)"

section \<open>Ends of parts: lemmas\<close>

lemma fit_markers_bounds:
  "start < e \<Longrightarrow> start < fit_markers_in_budget starts start e budget
     \<and> fit_markers_in_budget starts start e budget \<le> e"
proof (induction starts start e budget rule: fit_markers_in_budget.induct)
  case (1 starts start e budget)
  let ?m = "marker_count_inside starts start e"
  let ?e' = "nat (max (int start + 1) (int start + int budget - ?m))"
  show ?case
  proof (cases "e > start + 1 \<and> \<not> int (e - start) + ?m \<le> int budget")
    case False
    with "1.prems" show ?thesis
      by (auto simp: fit_markers_in_budget.simps [of starts start e budget] Let_def)
  next
    case True
    then have "start < ?e'" "?e' \<le> e" by auto
    moreover have "fit_markers_in_budget starts start e budget
        = fit_markers_in_budget starts start ?e' budget"
      using True by (subst fit_markers_in_budget.simps) (simp only: Let_def if_True if_False)
    ultimately show ?thesis using "1.IH" [OF _ refl] True by fastforce
  qed
qed

lemma chunk_budget_pos: "1 \<le> chunk_budget c prefix"
  by (simp add: chunk_budget_def)

lemma fit_end_bounds:
  assumes "start < length (ctx_text c)" and "1 \<le> budget"
  shows "start < fit_end c start budget \<and> fit_end c start budget \<le> length (ctx_text c)
    \<and> fit_end c start budget \<le> start + budget"
proof -
  let ?e = "min (start + budget) (length (ctx_text c))"
  from assms have "start < ?e" by simp
  from fit_markers_bounds [OF this, of "ctx_page_starts c" budget] this show ?thesis
    by (auto simp: fit_end_def Let_def)
qed

lemma located_chunk_end_le_fit:
  assumes "start < length (ctx_text c)"
  shows "start < located_chunk_end c start
    \<and> located_chunk_end c start
        \<le> fit_end c start (chunk_budget c (section_prefix_at_offset (ctx_sections c) (ctx_text c) start))"
proof -
  let ?b = "chunk_budget c (section_prefix_at_offset (ctx_sections c) (ctx_text c) start)"
  have "start < fit_end c start ?b"
    using fit_end_bounds [OF assms chunk_budget_pos] by blast
  from adjust_chunk_end_bounds [OF this, of "ctx_text c" "ctx_sections c" "ctx_pages c" 200] this
  show ?thesis by (auto simp: located_chunk_end_def Let_def)
qed

lemma located_chunk_end_bounds:
  assumes "start < length (ctx_text c)"
  shows "start < located_chunk_end c start \<and> located_chunk_end c start \<le> length (ctx_text c)"
  using located_chunk_end_le_fit [OF assms] fit_end_bounds [OF assms chunk_budget_pos] order_trans
  by blast

section \<open>The located loop\<close>

function located_loop :: "chunk_ctx \<Rightarrow> nat \<Rightarrow> located_part list" where
  "located_loop c start =
     (if start < length (ctx_text c) then
        (let e = located_chunk_end c start in emit_part c start e # located_loop c e)
      else [])"
  by pat_completeness auto
termination
  by (relation "measure (\<lambda>(c, start). length (ctx_text c) - start)")
    (auto dest: located_chunk_end_bounds intro: diff_less_mono2)

declare located_loop.simps [simp del]

definition make_ctx ::
    "string \<Rightarrow> int \<Rightarrow> sentence list \<Rightarrow> section_info list \<Rightarrow> page list \<Rightarrow> bool \<Rightarrow> chunk_ctx" where
  "make_ctx t part_max_chars sentences sections pages page_markers =
     \<lparr>ctx_text = t, ctx_k = nat part_max_chars - 1, ctx_sentences = sentences,
      ctx_sections = sections, ctx_pages = pages,
      ctx_page_starts = (if page_markers \<and> pages \<noteq> [] then text_page_starts pages t else [])\<rparr>"

definition iter_text_chunks_with_location ::
    "string \<Rightarrow> int \<Rightarrow> sentence list \<Rightarrow> section_info list \<Rightarrow> page list \<Rightarrow> bool \<Rightarrow> located_part list py" where
  "iter_text_chunks_with_location t part_max_chars sentences sections pages page_markers =
     (if part_max_chars < 1 then Inl ValueError
      else if t = [] then Inr [([], None, None, 0)]
      else Inr (located_loop (make_ctx t part_max_chars sentences sections pages page_markers) 0))"

definition number_ge1 :: "int option \<Rightarrow> int option" where
  "number_ge1 n = (case n of Some i \<Rightarrow> if i \<ge> 1 then Some i else None | None \<Rightarrow> None)"

definition to_part :: "located_part \<Rightarrow> 'a part" where
  "to_part lp = (case lp of (snippet, page_number, sentence_number, _) \<Rightarrow>
     \<lparr>p_snippet = snippet, p_page_number = number_ge1 page_number,
      p_sentence_number = number_ge1 sentence_number, p_tables = []\<rparr>)"

definition build_transmission_parts ::
    "string \<Rightarrow> int \<Rightarrow> sentence list \<Rightarrow> section_info list \<Rightarrow> page list
     \<Rightarrow> 'a table_entry_scheme list \<Rightarrow> bool \<Rightarrow> 'a part list py" where
  "build_transmission_parts t part_max_chars sentences sections pages tables page_markers =
     (case iter_text_chunks_with_location t part_max_chars sentences sections pages page_markers of
        Inl e \<Rightarrow> Inl e
      | Inr lps \<Rightarrow>
          (let parts = map to_part lps
           in Inr (if tables \<noteq> []
                   then assign_tables_to_parts parts tables t (nat part_max_chars - 1) else parts)))"

section \<open>The loops as segmenters\<close>

interpretation cl: segmenter "length t" "plain_chunk_end t (Suc k)" "\<lambda>a b. slice a b t" "chunk_loop t k"
  for t k
  by unfold_locales (auto simp: plain_chunk_end_eq chunk_loop.simps [of t k] Let_def)

interpretation ll: segmenter "length (ctx_text c)" "located_chunk_end c" "emit_part c" "located_loop c"
  for c
  by unfold_locales (auto simp: located_loop.simps [of c] Let_def dest: located_chunk_end_bounds)

section \<open>Plain and streamed chunks: lemmas\<close>

lemma chunk_text_loop_eq: "chunk_text_loop t k start chunks = chunks @ chunk_loop t k start"
proof (induction t k start chunks rule: chunk_text_loop.induct)
  case (1 t k start chunks)
  then show ?case
    by (simp add: chunk_text_loop.simps [of t k start] chunk_loop.simps [of t k start] Let_def)
qed

text \<open>The loop depends on the text after its position only.\<close>

lemma chunk_loop_drop: "chunk_loop t k s = chunk_loop (drop s t) k 0"
proof (induction "length t - s" arbitrary: t s rule: less_induct)
  case less
  show ?case
  proof (cases "s < length t")
    case False
    then show ?thesis by (simp add: chunk_loop.simps [of t k s] chunk_loop.simps [of "[]" k])
  next
    case True
    let ?e = "min (s + Suc k) (length t)" and ?d = "min (Suc k) (length t - s)"
    have e: "?e = s + ?d" using True by linarith
    have "chunk_loop t k ?e = chunk_loop (drop ?e t) k 0"
      using True by (intro less) auto
    moreover have "chunk_loop (drop s t) k ?d = chunk_loop (drop ?d (drop s t)) k 0"
    proof (cases "s = 0")
      case True
      with e calculation show ?thesis by simp
    next
      case False
      with \<open>s < length t\<close> show ?thesis by (intro less) auto
    qed
    moreover have "slice s ?e t = slice 0 ?d (drop s t)"
      using e by (simp add: slice_def)
    ultimately show ?thesis
      using True e
      by (simp add: chunk_loop.simps [of t k s] chunk_loop.simps [of "drop s t" k 0] Let_def
          plain_chunk_end_eq add.commute)
  qed
qed

lemma chunk_loop_step:
  assumes "t \<noteq> []"
  shows "chunk_loop t k 0 = take (Suc k) t # chunk_loop (drop (Suc k) t) k 0"
proof -
  have "chunk_loop t k (min (Suc k) (length t)) = chunk_loop (drop (Suc k) t) k 0"
    by (subst chunk_loop_drop) (simp add: min_def)
  moreover have "take (min (Suc k) (length t)) t = take (Suc k) t" by (simp add: min_def)
  ultimately show ?thesis using assms
    by (simp add: chunk_loop.simps [of t k 0] Let_def plain_chunk_end_eq slice_def)
qed

lemma chunk_loop_Nil [simp]: "chunk_loop [] k s = []"
  by (simp add: chunk_loop.simps)

lemma drain_rest_eq: "drain_rest k buf = chunk_loop buf k 0"
proof (induction k buf rule: drain_rest.induct)
  case (1 k buf)
  then show ?case
    by (cases "buf = []")
      (simp_all add: drain_rest.simps [of k "[]"] drain_rest.simps [of k buf] take_first_chunk_eq
        chunk_loop_step)
qed

lemma drain_full_eq:
  "drain_full k buf = (chunks, left) \<Longrightarrow> chunk_loop (buf @ rest) k 0 = chunks @ chunk_loop (left @ rest) k 0
     \<and> length left \<le> Suc k"
proof (induction k buf arbitrary: chunks rule: drain_full.induct)
  case (1 k buf)
  show ?case
  proof (cases "length buf > Suc k")
    case False
    with "1.prems" show ?thesis by (simp add: drain_full.simps [of k buf])
  next
    case True
    from True "1.prems" obtain cs where
      rec: "drain_full k (drop (Suc k) buf) = (cs, left)" and chunks: "chunks = take (Suc k) buf # cs"
      by (auto simp: drain_full.simps [of k buf] take_first_chunk_eq split: prod.splits)
    from "1.IH" [OF True _ refl rec] take_first_chunk_eq
    have "chunk_loop (drop (Suc k) buf @ rest) k 0 = cs @ chunk_loop (left @ rest) k 0 \<and> length left \<le> Suc k"
      by metis
    moreover have "chunk_loop (buf @ rest) k 0
        = take (Suc k) buf # chunk_loop (drop (Suc k) buf @ rest) k 0"
      using True chunk_loop_step [of "buf @ rest" k] by (cases buf) simp_all
    ultimately show ?thesis using chunks by simp
  qed
qed

lemma read_loop_eq:
  "read_loop k unread buf a = (a', buf', rest) \<Longrightarrow>
     a' = (a \<or> unread \<noteq> []) \<and> chunk_loop (buf @ unread) k 0 = rest @ chunk_loop buf' k 0"
proof (induction k unread buf a arbitrary: rest rule: read_loop.induct)
  case (1 k unread buf a)
  show ?case
  proof (cases "unread = []")
    case True
    with "1.prems" show ?thesis by (simp add: read_loop.simps [of k "[]"])
  next
    case False
    then have ne: "take (Suc k) unread \<noteq> []" by simp
    obtain cs left where d: "drain_full k (buf @ take (Suc k) unread) = (cs, left)"
      by (cases "drain_full k (buf @ take (Suc k) unread)")
    obtain a2 b2 m2 where r: "read_loop k (drop (Suc k) unread) left True = (a2, b2, m2)"
      by (cases "read_loop k (drop (Suc k) unread) left True")
    from "1.prems" ne d r have res: "a' = a2" "buf' = b2" "rest = cs @ m2"
      by (simp_all add: read_loop.simps [of k unread] Let_def)
    from "1.IH" [OF refl ne refl d [symmetric]] r res
    have "a2 \<and> chunk_loop (left @ drop (Suc k) unread) k 0 = m2 @ chunk_loop b2 k 0" by simp
    moreover have "chunk_loop (buf @ unread) k 0 = cs @ chunk_loop (left @ drop (Suc k) unread) k 0"
      using drain_full_eq [OF d, of "drop (Suc k) unread"] by simp
    ultimately show ?thesis using res False by simp
  qed
qed

lemma chunk_loop_count: "length (chunk_loop t k 0) = (length t + k) div Suc k"
proof (induction "length t" arbitrary: t rule: less_induct)
  case less
  show ?case
  proof (cases "t = []")
    case True
    then show ?thesis by simp
  next
    case False
    then have "length (drop (Suc k) t) < length t" by simp
    from less [OF this] have "length (chunk_loop t k 0) = Suc ((length t - Suc k + k) div Suc k)"
      by (simp add: chunk_loop_step [OF False])
    also have "\<dots> = (length t + k) div Suc k"
    proof (cases "Suc k \<le> length t")
      case True
      then have "length t + k = Suc k + (length t - Suc k + k)" by simp
      then show ?thesis by (metis div_add_self1 nat.simps(3) plus_1_eq_Suc add.commute)
    next
      case short: False
      then have "(length t + k) = Suc k + (length t - 1)" and "length t - 1 < Suc k"
        using False by (auto simp: neq_Nil_conv)
      then have "(length t + k) div Suc k = 1"
        by (metis One_nat_def add.commute div_add_self2 div_less nat.simps(3) plus_1_eq_Suc)
      with short show ?thesis by simp
    qed
    finally show ?thesis .
  qed
qed

lemma chunk_loop_elem: "c \<in> set (butlast (chunk_loop t k 0)) \<Longrightarrow> length c = Suc k"
proof (induction "length t" arbitrary: t rule: less_induct)
  case less
  then have ne: "t \<noteq> []" by auto
  then have lt: "length (drop (Suc k) t) < length t" by simp
  show ?case
  proof (cases "drop (Suc k) t = []")
    case True
    with less.prems ne show ?thesis by (simp add: chunk_loop_step)
  next
    case False
    then have rest: "chunk_loop (drop (Suc k) t) k 0 \<noteq> []" by (simp add: chunk_loop_step)
    with less.prems ne have "c = take (Suc k) t \<or> c \<in> set (butlast (chunk_loop (drop (Suc k) t) k 0))"
      by (simp add: chunk_loop_step [OF ne])
    with False less.hyps [OF lt] show ?thesis by auto
  qed
qed

lemma iter_file_chunks: "iter_file_text_chunks content p = iter_text_chunks content p"
proof -
  let ?k = "nat p - 1"
  obtain a b m where r: "read_loop ?k content [] False = (a, b, m)" by (cases "read_loop ?k content [] False")
  from read_loop_eq [OF r] have "a = (content \<noteq> [])" "chunk_loop content ?k 0 = m @ chunk_loop b ?k 0"
    by simp_all
  with r show ?thesis
    by (auto simp: iter_file_text_chunks_def iter_text_chunks_def drain_rest_eq)
qed

lemma chunk_text_chunks: "chunk_text t p = iter_text_chunks t p"
  by (simp add: chunk_text_def iter_text_chunks_def chunk_text_loop_eq)

section \<open>Budgets: lemmas\<close>

lemma fit_markers_fits:
  assumes "sorted (map fst starts)" and "\<forall>(off, cnt) \<in> set starts. 0 \<le> cnt"
    and "1 \<le> budget"
  shows "start < e \<Longrightarrow>
    int (fit_markers_in_budget starts start e budget - start)
      + marker_count_inside starts start (fit_markers_in_budget starts start e budget) \<le> int budget"
  using assms
proof (induction starts start e budget rule: fit_markers_in_budget.induct)
  case (1 starts start e budget)
  let ?m = "marker_count_inside starts start e"
  let ?e' = "nat (max (int start + 1) (int start + int budget - ?m))"
  consider (one) "e = start + 1" | (fits) "e > start + 1" "int (e - start) + ?m \<le> int budget"
    | (lower) "e > start + 1" "\<not> int (e - start) + ?m \<le> int budget"
    using "1.prems"(1) by linarith
  then show ?case
  proof cases
    case one
    then show ?thesis
      using "1.prems"(4) by (subst (1 2) fit_markers_in_budget.simps)
        (simp add: marker_count_inside_def markers_inside_def)
  next
    case fits
    then show ?thesis by (simp add: fit_markers_in_budget.simps [of starts start e budget] Let_def)
  next
    case lower
    then have eq: "fit_markers_in_budget starts start e budget = fit_markers_in_budget starts start ?e' budget"
      by (subst fit_markers_in_budget.simps) (simp only: Let_def if_True if_False)
    have "start < ?e'" by linarith
    with "1.IH" [OF lower(1) refl lower(2)] "1.prems"(2-4) show ?thesis unfolding eq by blast
  qed
qed

lemma apply_markers_loop_length:
  "cursor \<le> length snippet \<Longrightarrow> length (apply_markers_loop snippet shift cursor ms)
     \<le> length snippet - cursor + sum_list (map (nat \<circ> snd) ms)"
proof (induction snippet shift cursor ms rule: apply_markers_loop.induct)
  case (1 snippet shift cursor)
  then show ?case by simp
next
  case (2 snippet shift cursor relative cnt ms)
  show ?case
  proof (cases "relative + shift \<le> int cursor \<or> relative + shift > int (length snippet)")
    case True
    with 2(1) [OF refl True "2.prems"] show ?thesis by (simp add: Let_def)
  next
    case False
    let ?p = "nat (relative + shift)"
    from False have p: "cursor < ?p" "?p \<le> length snippet" by linarith+
    with 2(2) [OF refl False] have
      "length (apply_markers_loop snippet shift ?p ms) \<le> length snippet - ?p + sum_list (map (nat \<circ> snd) ms)"
      by blast
    moreover have "apply_markers_loop snippet shift cursor ((relative, cnt) # ms)
        = slice cursor ?p snippet @ replicate (nat cnt) PAGE_BREAK_MARKER @ apply_markers_loop snippet shift ?p ms"
      using False by (simp only: apply_markers_loop.simps Let_def if_False)
    ultimately have "length (apply_markers_loop snippet shift cursor ((relative, cnt) # ms))
        \<le> (?p - cursor) + nat cnt + (length snippet - ?p + sum_list (map (nat \<circ> snd) ms))"
      using p by (simp del: apply_markers_loop.simps) linarith
    also have "\<dots> = length snippet - cursor + sum_list (map (nat \<circ> snd) ((relative, cnt) # ms))"
      using p by simp
    finally show ?thesis .
  qed
qed

lemma apply_page_markers_length:
  assumes "\<forall>(r, c) \<in> set ms. 0 \<le> c"
  shows "int (length (apply_page_markers snippet ms shift)) \<le> int (length snippet) + sum_list (map snd ms)"
proof -
  have "int (sum_list (map (nat \<circ> snd) xs)) = sum_list (map snd xs)"
    if "\<forall>(r, c) \<in> set xs. 0 \<le> c" for xs :: "(int \<times> int) list"
    using that by (induction xs) auto
  from this [OF assms] apply_markers_loop_length [of 0 snippet shift ms] show ?thesis
    by (simp add: apply_page_markers_def)
qed

lemma relative_markers_sum:
  "sum_list (map snd (relative_markers starts a b)) = marker_count_inside starts a b"
  by (simp add: relative_markers_def marker_count_inside_def case_prod_beta' comp_def)

lemma relative_markers_elem:
  "sorted (map fst starts) \<Longrightarrow> (r, c) \<in> set (relative_markers starts a b) \<longleftrightarrow>
     (\<exists>off. (off, c) \<in> set starts \<and> a < off \<and> off < b \<and> r = int off - int a)"
  by (force simp: relative_markers_def markers_inside_filter)

text \<open>The marker positions of a context are sorted and never negative.\<close>

definition ctx_ok :: "chunk_ctx \<Rightarrow> bool" where
  "ctx_ok c \<longleftrightarrow> sorted (map fst (ctx_page_starts c)) \<and> (\<forall>(off, cnt) \<in> set (ctx_page_starts c). 0 \<le> cnt)"

lemma make_ctx_ok: "ctx_ok (make_ctx t p sentences sections pages m)"
  using text_page_starts_elem(1) by (fastforce simp: ctx_ok_def make_ctx_def)

lemma fit_end_fits:
  assumes "ctx_ok c" and "start < length (ctx_text c)" and "1 \<le> budget"
    and "start < e" and "e \<le> fit_end c start budget"
  shows "int (e - start) + marker_count_inside (ctx_page_starts c) start e \<le> int budget"
proof (cases "ctx_page_starts c = []")
  case True
  then show ?thesis
    using assms by (auto simp: fit_end_def Let_def marker_count_inside_def markers_inside_def)
next
  case False
  let ?e0 = "min (start + budget) (length (ctx_text c))"
  let ?f = "fit_markers_in_budget (ctx_page_starts c) start ?e0 budget"
  have ok: "sorted (map fst (ctx_page_starts c))"
    "\<forall>(off, cnt) \<in> set (ctx_page_starts c). 0 \<le> cnt"
    using assms(1) by (auto simp: ctx_ok_def)
  have f: "fit_end c start budget = ?f" using False by (simp add: fit_end_def Let_def)
  have "int (?f - start) + marker_count_inside (ctx_page_starts c) start ?f \<le> int budget"
    using fit_markers_fits [OF ok assms(3), of start ?e0] assms(2,3) by simp
  moreover have "marker_count_inside (ctx_page_starts c) start e
      \<le> marker_count_inside (ctx_page_starts c) start ?f"
    using marker_count_mono [OF ok] assms(5) f by simp
  moreover have "int (e - start) \<le> int (?f - start)" using assms(4,5) f by simp
  ultimately show ?thesis by linarith
qed

lemma part_snippet_length:
  assumes "ctx_ok c" and "start < length (ctx_text c)"
    and "length (section_prefix_at_offset (ctx_sections c) (ctx_text c) start) \<le> ctx_k c"
  shows "length (part_snippet c start (located_chunk_end c start)) \<le> Suc (ctx_k c)"
proof -
  let ?e = "located_chunk_end c start" and ?ps = "ctx_page_starts c"
  let ?prefix = "section_prefix_at_offset (ctx_sections c) (ctx_text c) start"
  let ?raw = "slice start ?e (ctx_text c)"
  obtain snippet shift where ash: "apply_section_heading ?raw ?prefix = (snippet, shift)" by fastforce
  have e: "start < ?e" "?e \<le> length (ctx_text c)" "?e \<le> fit_end c start (chunk_budget c ?prefix)"
    using located_chunk_end_bounds [OF assms(2)] located_chunk_end_le_fit [OF assms(2)] by auto
  have budget: "int (?e - start) + marker_count_inside ?ps start ?e \<le> int (chunk_budget c ?prefix)"
    using fit_end_fits [OF assms(1,2) chunk_budget_pos e(1,3)] .
  have sum: "length ?prefix + chunk_budget c ?prefix \<le> Suc (ctx_k c)"
    using assms(3) by (auto simp: chunk_budget_def)
  have "int (length snippet) \<le> int (length ?prefix) + int (?e - start)"
    using apply_section_heading_length [of ?raw ?prefix] ash e by simp
  moreover have "int (length (part_snippet c start ?e))
      \<le> int (length snippet) + marker_count_inside ?ps start ?e"
  proof (cases "?ps = []")
    case True
    then show ?thesis
      using ash by (simp add: part_snippet_def marker_count_inside_def markers_inside_def)
  next
    case False
    have "\<forall>(r, cnt) \<in> set (relative_markers ?ps start ?e). 0 \<le> cnt"
      using assms(1) by (auto simp: ctx_ok_def relative_markers_elem)
    from apply_page_markers_length [OF this, of snippet shift] False ash show ?thesis
      by (simp add: part_snippet_def relative_markers_sum)
  qed
  ultimately show ?thesis using budget sum by linarith
qed

lemma section_prefix_length:
  assumes "\<forall>sec \<in> set sections. length (sec_heading sec) + 7 \<le> n"
  shows "length (section_prefix_at_offset sections t offset) \<le> n"
proof -
  have strip: "length (py_strip s) \<le> length s" for s
    using length_py_rstrip length_py_lstrip order_trans unfolding py_strip_def by blast
  have "section_heading_loop line secs = Some (h, l) \<Longrightarrow> set secs \<subseteq> set sections \<Longrightarrow> length h + 7 \<le> n"
    for line secs h l
  proof (induction secs)
    case Nil
    then show ?case by simp
  next
    case (Cons sec secs)
    then show ?case
      using assms strip [of "sec_heading sec"] by (fastforce simp: Let_def split: if_splits)
  qed
  then show ?thesis
    by (fastforce simp: section_prefix_at_offset_def section_heading_at_offset_def heading_line_def
        cap_level_def MAX_HEADING_LEVEL_def split: option.splits if_splits prod.splits)
qed

section \<open>Properties\<close>



text \<open>
  (C19) A part never exceeds the transmission limit: when every heading leaves room for its
  markup (four number signs, a space and two line feeds), each snippet, with its heading and its
  page markers, has at most \<open>part_max_chars\<close> characters.
\<close>

theorem snippet_within_part_limit:
  assumes "iter_text_chunks_with_location t p sentences sections pages markers = Inr parts"
    and "\<forall>sec \<in> set sections. int (length (sec_heading sec)) + 7 < p"
    and "(snippet, page, sent, start) \<in> set parts"
  shows "int (length snippet) \<le> p"
proof -
  let ?c = "make_ctx t p sentences sections pages markers"
  from assms(1) have p: "1 \<le> p" by (simp add: iter_text_chunks_with_location_def split: if_splits)
  show ?thesis
  proof (cases "t = []")
    case True
    with assms(1,3) p show ?thesis by (auto simp: iter_text_chunks_with_location_def)
  next
    case False
    with assms(1) p have "parts = located_loop ?c 0"
      by (simp add: iter_text_chunks_with_location_def)
    with assms(3) ll.loop_elem [of 0 ?c] obtain a where
      a: "a < length (ctx_text ?c)" "snippet = part_snippet ?c a (located_chunk_end ?c a)"
      by (fastforce simp: emit_part_def)
    have k: "Suc (ctx_k ?c) = nat p" using p by (simp add: make_ctx_def)
    have "\<forall>sec \<in> set sections. length (sec_heading sec) + 7 \<le> ctx_k ?c"
      using assms(2) k by (auto simp: make_ctx_def)
    from section_prefix_length [OF this, of t a]
    have "length (section_prefix_at_offset (ctx_sections ?c) (ctx_text ?c) a) \<le> ctx_k ?c"
      by (simp add: make_ctx_def)
    from part_snippet_length [OF make_ctx_ok a(1) this, folded a(2)] k p show ?thesis by linarith
  qed
qed

theorem snippet_within_part_limit_witness:
  "int (length ''ab'') \<le> 2"
  by (rule snippet_within_part_limit [where t = "''ab''" and sentences = "[]" and sections = "[]"
        and pages = "[]" and markers = False])
    (auto simp: iter_text_chunks_with_location_def make_ctx_def located_loop.simps emit_part_def
      located_chunk_end_def fit_end_def chunk_budget_def part_snippet_def part_location_def
      page_number_starts_def section_prefix_at_offset_def section_heading_at_offset_def
      apply_section_heading_def Let_def slice_def)

text \<open>
  (C20) Streaming a file and chunking its text in memory give the same parts: the buffered reader
  of \<open>iter_file_text_chunks\<close>, \<open>chunk_text\<close> and \<open>iter_text_chunks\<close> agree on every content and
  every part size, the rejected ones included.
\<close>

theorem file_chunks_eq_chunk_text:
  "iter_file_text_chunks content p = chunk_text content p \<and> chunk_text content p = iter_text_chunks content p"
  by (simp add: iter_file_chunks chunk_text_chunks)

text \<open>
  The shape of the plain chunks: for a part size of at least 1 the chunks put together are
  the text, every chunk but the last is full, none is longer than the part size, and their
  number is the rounded-up quotient, as \<open>count_file_text_parts\<close> reports it (1 for an empty file).
\<close>

theorem chunk_text_shape:
  assumes "1 \<le> p"
  shows "\<exists>chunks. chunk_text t p = Inr chunks \<and> concat chunks = t
    \<and> (\<forall>c \<in> set (butlast chunks). int (length c) = p)
    \<and> (\<forall>c \<in> set chunks. int (length c) \<le> p)
    \<and> count_file_text_parts t p = Inr (max 1 ((length t + (nat p - 1)) div nat p))"
proof -
  let ?k = "nat p - 1"
  have k: "Suc ?k = nat p" using assms by simp
  show ?thesis
  proof (cases "t = []")
    case True
    with assms k show ?thesis
      by (simp add: chunk_text_chunks iter_file_chunks count_file_text_parts_def iter_text_chunks_def)
  next
    case False
    let ?cs = "chunk_loop t ?k 0"
    have it: "iter_text_chunks t p = Inr ?cs" using assms False by (simp add: iter_text_chunks_def)
    have cc: "concat ?cs = t" using cl.loop_concat [of t "\<lambda>x. x" t ?k] by simp
    have full: "\<forall>c \<in> set (butlast ?cs). int (length c) = p" using chunk_loop_elem [of _ t ?k] k by fastforce
    have le: "\<forall>c \<in> set ?cs. int (length c) \<le> p"
    proof
      fix c assume "c \<in> set ?cs"
      then obtain a where "c = slice a (plain_chunk_end t (Suc ?k) a) t"
        using cl.loop_elem [of 0 t c ?k] by auto
      then have "length c \<le> Suc ?k" by (simp add: plain_chunk_end_eq)
      then show "int (length c) \<le> p" using k by linarith
    qed
    have "1 \<le> length ?cs" using cl.loop_nonempty [of t ?k] False by (simp add: Suc_le_eq)
    then have "count_file_text_parts t p = Inr (max 1 ((length t + ?k) div nat p))"
      using chunk_loop_count [of t ?k] k
      by (simp add: count_file_text_parts_def iter_file_chunks it)
    with it cc full le show ?thesis by (auto simp: chunk_text_chunks)
  qed
qed

theorem chunk_text_shape_witness:
  "\<exists>chunks. chunk_text ''abcde'' 2 = Inr chunks \<and> concat chunks = ''abcde''
    \<and> (\<forall>c \<in> set (butlast chunks). int (length c) = 2)
    \<and> (\<forall>c \<in> set chunks. int (length c) \<le> 2)
    \<and> count_file_text_parts ''abcde'' 2 = Inr (max 1 ((length ''abcde'' + (nat 2 - 1)) div nat 2))"
  by (rule chunk_text_shape) simp

end
