(* ===== verification/Page_Provenance.thy ===== *)
theory Page_Provenance
  imports Chunking
begin

text \<open>
  The contract of the page markers (module comment of \<open>sync/page_markers.py\<close>): the server adds
  one page per form feed it finds in front of a character to the part's declared
  \<open>page_number\<close>. For documents whose text pages start in page order this gives, for every
  character of every part, the page that character is on: empty pages in between are counted,
  the page a part starts on is not counted twice.

  The abstract side is \<open>page_of_offset\<close>, the number of the last text page that starts at or before
  an offset; the code's side is the declared page plus the form feeds of the marked snippet.
\<close>

section \<open>What the code should compute\<close>

text \<open>The text pages of a document: first-character offset and page index.\<close>

definition text_pages :: "page list \<Rightarrow> string \<Rightarrow> (nat \<times> int) list" where
  "text_pages pages t =
     List.map_filter (\<lambda>p. map_option (\<lambda>off. (off, page_index p)) (page_offset (line_start_offsets t) p)) pages"

definition page_of_offset :: "page list \<Rightarrow> string \<Rightarrow> nat \<Rightarrow> int" where
  "page_of_offset pages t off =
     (let before = filter (\<lambda>(o', _). o' \<le> off) (text_pages pages t)
      in (if before = [] then snd (hd (text_pages pages t)) else snd (last before)) + 1)"

text \<open>The server's reading of a part: one page further per form feed.\<close>

definition server_page :: "int \<Rightarrow> string \<Rightarrow> int" where
  "server_page declared before = declared + int (count_list before PAGE_BREAK_MARKER)"

text \<open>Pages come in index order and the text pages start in that order.\<close>

definition pages_in_order :: "page list \<Rightarrow> string \<Rightarrow> bool" where
  "pages_in_order pages t \<longleftrightarrow> sorted_wrt (<) (map page_index pages)
     \<and> sorted_wrt (<) (map fst (text_pages pages t)) \<and> text_pages pages t \<noteq> []"

section \<open>Telescoping\<close>

fun page_diffs :: "int \<Rightarrow> (nat \<times> int) list \<Rightarrow> page_start list" where
  "page_diffs i [] = []"
| "page_diffs i ((off, j) # r) = (off, j - i) # page_diffs j r"

fun page_at :: "int \<Rightarrow> (nat \<times> int) list \<Rightarrow> nat \<Rightarrow> int" where
  "page_at i [] x = i"
| "page_at i ((off, j) # r) x = (if off \<le> x then page_at j r x else i)"

lemma page_at_before: "\<forall>(off, j) \<in> set r. x < off \<Longrightarrow> page_at i r x = i"
  by (cases r) auto

lemma page_diffs_window:
  assumes "sorted_wrt (<) (map fst r)" and "a \<le> x"
  shows "sum_list (map snd (filter (\<lambda>(off, _). a < off \<and> off \<le> x) (page_diffs i r)))
    = page_at i r x - page_at i r a"
  using assms(1)
proof (induction r arbitrary: i)
  case Nil
  then show ?case by simp
next
  case (Cons e r)
  obtain off j where e: "e = (off, j)" by (cases e)
  have later: "\<forall>(o', j') \<in> set r. off < o'" using Cons.prems e by auto
  have ih: "sum_list (map snd (filter (\<lambda>(off, _). a < off \<and> off \<le> x) (page_diffs j r)))
      = page_at j r x - page_at j r a" using Cons by simp
  consider "off \<le> a" | "a < off" "off \<le> x" | "x < off" by linarith
  then show ?case
  proof cases
    case 1
    with ih assms(2) e show ?thesis by simp
  next
    case 2
    with later have "page_at j r a = j" by (intro page_at_before) auto
    with ih 2 e show ?thesis by simp
  next
    case 3
    with later assms(2) have "page_at j r a = j" "page_at j r x = j"
      by (auto intro!: page_at_before)
    with ih 3 assms(2) e show ?thesis by simp
  qed
qed

lemma page_at_last:
  "sorted_wrt (<) (map fst r) \<Longrightarrow> page_at i r x =
     (let before = filter (\<lambda>(o', _). o' \<le> x) r in if before = [] then i else snd (last before))"
proof (induction r arbitrary: i)
  case Nil
  then show ?case by simp
next
  case (Cons e r)
  obtain off j where e: "e = (off, j)" by (cases e)
  show ?case
  proof (cases "off \<le> x")
    case True
    with Cons e show ?thesis by (simp add: Let_def)
  next
    case False
    with Cons.prems e have "filter (\<lambda>(o', _). o' \<le> x) r = []"
      by (auto simp: filter_empty_conv)
    with False e show ?thesis by simp
  qed
qed

lemma page_at_nth:
  "sorted_wrt (<) (map fst r) \<Longrightarrow>
     page_at i r x = snd (((0, i) # r) ! length (filter (\<lambda>(o', _). o' \<le> x) r))"
proof (induction r arbitrary: i)
  case Nil
  then show ?case by simp
next
  case (Cons e r)
  obtain off j where e: "e = (off, j)" by (cases e)
  show ?case
  proof (cases "off \<le> x")
    case True
    with Cons e show ?thesis by (simp add: nth_Cons split: nat.splits)
  next
    case False
    with Cons.prems e have "filter (\<lambda>(o', _). o' \<le> x) r = []"
      by (auto simp: filter_empty_conv)
    with False e show ?thesis by simp
  qed
qed

section \<open>The code's lists for pages in order\<close>

lemma text_pages_Cons:
  "text_pages (p # ps) t = (case page_offset (line_start_offsets t) p of
     None \<Rightarrow> text_pages ps t | Some off \<Rightarrow> (off, page_index p) # text_pages ps t)"
  by (simp add: text_pages_def List.map_filter_def split: option.splits)

lemma text_pages_Nil [simp]: "text_pages [] t = []"
  by (simp add: text_pages_def List.map_filter_def)

lemma collect_starts_diffs:
  assumes "sorted_wrt (<) (map page_index ps)" and "\<forall>p \<in> set ps. i < page_index p"
  shows "collect_starts (line_start_offsets t) (Some i) ps = page_diffs i (text_pages ps t)"
  using assms
proof (induction ps arbitrary: i)
  case Nil
  then show ?case by simp
next
  case (Cons p ps)
  show ?case
  proof (cases "page_offset (line_start_offsets t) p")
    case None
    with Cons show ?thesis by (simp add: text_pages_Cons)
  next
    case (Some off)
    with Cons.IH [of "page_index p"] Cons.prems show ?thesis by (simp add: text_pages_Cons Let_def)
  qed
qed

lemma collect_starts_first:
  assumes "sorted_wrt (<) (map page_index ps)" and "text_pages ps t = (o0, i0) # r"
  shows "collect_starts (line_start_offsets t) None ps = page_diffs i0 r"
  using assms
proof (induction ps)
  case Nil
  then show ?case by simp
next
  case (Cons p ps)
  show ?case
  proof (cases "page_offset (line_start_offsets t) p")
    case None
    with Cons show ?thesis by (simp add: text_pages_Cons)
  next
    case (Some off)
    with Cons.prems collect_starts_diffs [of ps "page_index p" t] show ?thesis
      by (auto simp: text_pages_Cons Let_def)
  qed
qed

lemma page_diffs_fst: "map fst (page_diffs i r) = map fst r"
  by (induction i r rule: page_diffs.induct) auto

lemma sorted_fst_strict: "sorted_wrt (<) (map fst xs) \<Longrightarrow> sorted xs"
  for xs :: "('a::linorder \<times> 'b::linorder) list"
  by (induction xs) (auto simp: less_eq_prod_def)

lemma text_page_starts_in_order:
  assumes "pages_in_order pages t" and "text_pages pages t = (o0, i0) # r"
  shows "text_page_starts pages t = page_diffs i0 r"
proof -
  from assms have ne: "pages \<noteq> []" and idx: "sorted_wrt (<) (map page_index pages)"
    by (auto simp: pages_in_order_def)
  then have "sort_key page_index pages = pages"
    by (intro sort_key_id_if_sorted strict_sorted_imp_sorted)
  moreover have "sorted (page_diffs i0 r)"
    using assms by (intro sorted_fst_strict) (simp add: page_diffs_fst pages_in_order_def)
  ultimately show ?thesis
    using ne collect_starts_first [OF idx assms(2)] by (simp add: text_page_starts_def sorted_sort_id)
qed

lemma page_number_entries_eq: "page_number_entries pages t = map (\<lambda>(off, i). (off, i + 1)) (text_pages pages t)"
  by (induction pages) (auto simp: page_number_entries_def text_pages_def List.map_filter_def
      split: option.splits)

lemma declared_page:
  assumes "pages_in_order pages t" and "text_pages pages t = (o0, i0) # r"
  shows "page_for_offset (fst (page_number_starts pages t)) (snd (page_number_starts pages t)) a
    = Some (page_at i0 r a + 1)"
proof -
  let ?es = "(o0, i0) # r"
  from assms have s: "sorted_wrt (<) (map fst ?es)" and ne: "pages \<noteq> []"
    by (auto simp: pages_in_order_def)
  have "sort (page_number_entries pages t) = map (\<lambda>(off, i). (off, i + 1)) ?es"
    unfolding page_number_entries_eq assms(2)
    by (intro sorted_sort_id sorted_fst_strict) (use s in \<open>simp add: comp_def case_prod_beta'\<close>)
  with ne have pns: "page_number_starts pages t = (map fst ?es, map (\<lambda>(off, i). i + 1) ?es)"
    by (simp add: page_number_starts_def comp_def case_prod_beta')
  have s': "sorted (map id (map fst ?es))"
    using strict_sorted_imp_sorted [OF s] by (simp only: list.map_id)
  have cnt: "bisect_right id (map fst ?es) a = length (filter (\<lambda>(o', _). o' \<le> a) ?es)"
    using bisect_right_count [OF s', of a] by (simp add: filter_map comp_def case_prod_beta')
  have sr: "sorted_wrt (<) (map fst r)" using s by simp
  have idx: "map (\<lambda>(off, i). i + 1) ?es ! nat (max (int (bisect_right id (map fst ?es) a) - 1) 0)
      = page_at i0 r a + 1"
  proof (cases "o0 \<le> a")
    case True
    let ?n = "length (filter (\<lambda>(o', _). o' \<le> a) r)"
    have "?n < length ?es" by (simp add: less_Suc_eq_le)
    moreover have "nat (max (int (bisect_right id (map fst ?es) a) - 1) 0) = ?n"
      unfolding cnt using True by simp
    ultimately show ?thesis
      using page_at_nth [OF sr, of i0 a] nth_map [of ?n ?es "\<lambda>(off, i). i + 1"]
      by (auto simp: case_prod_beta' nth_Cons split: nat.splits)
  next
    case False
    with s have "filter (\<lambda>(o', _). o' \<le> a) ?es = []" by (auto simp: filter_empty_conv)
    then have "bisect_right id (map fst ?es) a = 0" by (simp only: cnt list.size)
    moreover have "page_at i0 r a = i0" using False s by (intro page_at_before) auto
    ultimately show ?thesis by simp
  qed
  show ?thesis unfolding page_for_offset_def pns Let_def fst_conv snd_conv idx by simp
qed

lemma page_of_offset_eq:
  assumes "pages_in_order pages t" and "text_pages pages t = (o0, i0) # r"
  shows "page_of_offset pages t x = page_at i0 r x + 1"
proof -
  from assms have s: "sorted_wrt (<) (map fst ((o0, i0) # r))" by (simp add: pages_in_order_def)
  show ?thesis
  proof (cases "o0 \<le> x")
    case True
    with page_at_last [of r i0 x] s show ?thesis
      by (simp add: page_of_offset_def assms(2) Let_def)
  next
    case False
    with s have "filter (\<lambda>(o', _). o' \<le> x) ((o0, i0) # r) = []" by (auto simp: filter_empty_conv)
    moreover have "page_at i0 r x = i0" using False s by (intro page_at_before) auto
    ultimately show ?thesis by (simp add: page_of_offset_def assms(2) Let_def)
  qed
qed

section \<open>Markers of one part\<close>

lemma markers_okI:
  assumes "sorted_wrt (<) (map fst ms)"
    and "\<forall>(r, cnt) \<in> set ms. int cursor < r + shift \<and> r + shift \<le> int (length snippet) \<and> 0 \<le> cnt"
    and "cursor \<le> length snippet"
  shows "markers_ok snippet shift cursor ms"
  using assms
proof (induction ms arbitrary: cursor)
  case Nil
  then show ?case by simp
next
  case (Cons m ms)
  obtain r cnt where m: "m = (r, cnt)" by (cases m)
  from Cons.prems m have pos: "int cursor < r + shift" "r + shift \<le> int (length snippet)" "0 \<le> cnt"
    by auto
  have "markers_ok snippet shift (nat (r + shift)) ms"
    using Cons.prems m pos by (intro Cons.IH) auto
  with pos m show ?case by simp
qed

lemma first_line_before_newline:
  assumes "j < length raw" and "raw ! j = newline"
  shows "length (first_line raw) \<le> j"
proof (cases "find_from newline raw 0")
  case None
  with assms show ?thesis using find_from_newline_cases [of newline raw 0 j] by simp
next
  case (Some n)
  with assms find_from_least [OF Some, of j] find_from_Some_bounds [OF Some] show ?thesis
    by (force simp: first_line_def)
qed

lemma set_py_strip: "set (py_strip s) \<subseteq> set s"
  unfolding py_strip_def py_rstrip_def py_lstrip_def
  by (auto dest!: set_dropWhileD)

lemma section_heading_loop_set:
  "section_heading_loop line secs = Some (h, l) \<Longrightarrow> \<exists>sec \<in> set secs. set h \<subseteq> set (sec_heading sec)"
  by (induction secs) (auto simp: Let_def split: if_splits intro: set_py_strip [THEN subsetD])

lemma section_prefix_no_marker:
  assumes "\<forall>sec \<in> set sections. PAGE_BREAK_MARKER \<notin> set (sec_heading sec)"
  shows "PAGE_BREAK_MARKER \<notin> set (section_prefix_at_offset sections t a)"
proof (cases "section_heading_at_offset sections t a")
  case None
  then show ?thesis by (simp add: section_prefix_at_offset_def)
next
  case (Some hl)
  obtain h l where hl: "hl = (h, l)" by (cases hl)
  with Some have "PAGE_BREAK_MARKER \<notin> set h"
    using assms section_heading_loop_set
    by (fastforce simp: section_heading_at_offset_def split: if_splits)
  then show ?thesis
    by (simp add: Some hl section_prefix_at_offset_def heading_line_def PAGE_BREAK_MARKER_def)
qed

lemma apply_section_heading_set:
  "set (fst (apply_section_heading raw prefix)) \<subseteq> set raw \<union> set prefix"
  by (auto simp: apply_section_heading_def Let_def py_rstrip_def dest!: in_set_dropD set_dropWhileD)

lemma part_snippet_loop:
  assumes "apply_section_heading (slice a b (ctx_text c))
      (section_prefix_at_offset (ctx_sections c) (ctx_text c) a) = (snippet, shift)"
  shows "part_snippet c a b = apply_markers_loop snippet shift 0 (relative_markers (ctx_page_starts c) a b)"
proof -
  have "relative_markers [] a b = []" by (simp add: relative_markers_def markers_inside_def)
  with assms show ?thesis by (simp add: part_snippet_def apply_page_markers_def)
qed

lemma relative_markers_ok:
  assumes ash: "apply_section_heading (slice a b t) prefix = (snippet, shift)"
    and starts: "sorted_wrt (<) (map fst starts)" "\<forall>(off, cnt) \<in> set starts. 0 \<le> cnt \<and> off \<in> set (line_start_offsets t)"
    and ab: "a < b" "b \<le> length t"
  shows "markers_ok snippet shift 0 (relative_markers starts a b)"
proof (rule markers_okI)
  let ?raw = "slice a b t"
  have sf: "sorted (map fst starts)" using starts(1) by (rule strict_sorted_imp_sorted)
  have "sorted_wrt (<) (map fst (markers_inside starts a b))"
    using starts(1) by (simp add: markers_inside_filter [OF sf] sorted_wrt_filter sorted_wrt_map)
  then show "sorted_wrt (<) (map fst (relative_markers starts a b))"
    by (auto simp: relative_markers_def sorted_wrt_map case_prod_beta' elim!: sorted_wrt_mono_rel [rotated])
  show "\<forall>(r, cnt) \<in> set (relative_markers starts a b).
      int 0 < r + shift \<and> r + shift \<le> int (length snippet) \<and> 0 \<le> cnt"
  proof clarify
    fix r cnt assume "(r, cnt) \<in> set (relative_markers starts a b)"
    then obtain off where off: "(off, cnt) \<in> set starts" "a < off" "off < b" "r = int off - int a"
      by (auto simp: relative_markers_elem [OF sf])
    with starts(2) have cnt: "0 \<le> cnt" and ls: "off \<in> set (line_start_offsets t)" by auto
    from ls off have nl: "t ! (off - 1) = newline" by (auto simp: line_start_offsets_set)
    have "?raw ! (off - 1 - a) = newline" "off - 1 - a < length ?raw"
      using nl off ab by (auto simp: nth_slice)
    then have fl: "length (first_line ?raw) \<le> off - 1 - a" by (intro first_line_before_newline)
    then have "0 \<le> int (off - 1 - a) + shift"
      using apply_section_heading_shift [OF ash fl] by simp
    moreover have "int (length snippet) = int (length ?raw) + shift"
      using ash by (rule apply_section_heading_length_shift)
    ultimately show "int 0 < r + shift \<and> r + shift \<le> int (length snippet) \<and> 0 \<le> cnt"
      using off ab cnt by auto
  qed
qed simp

text \<open>A character of the unmarked part inside the snippet with its heading.\<close>

lemma heading_position:
  assumes ash: "apply_section_heading raw prefix = (snippet, shift)"
    and i: "i < length raw" "prefix = [] \<or> length (first_line raw) \<le> i"
  shows "0 \<le> int i + shift \<and> nat (int i + shift) < length snippet
    \<and> snippet ! nat (int i + shift) = raw ! i"
proof (cases "prefix = []")
  case True
  with ash i show ?thesis by (simp add: apply_section_heading_def)
next
  case False
  with i have fl: "length (first_line raw) \<le> i" by simp
  from apply_section_heading_shift [OF ash fl] have d: "0 \<le> int i + shift"
    "drop (nat (int i + shift)) snippet = drop i raw" by auto
  have "nat (int i + shift) < length snippet"
    using apply_section_heading_length_shift [OF ash] i(1) d(1) by linarith
  with d i(1) show ?thesis by (metis hd_drop_conv_nth)
qed

lemma marks_upto_window:
  assumes sf: "sorted (map fst starts)" and nn: "\<forall>(off, cnt) \<in> set starts. 0 \<le> cnt"
    and x: "a \<le> x" "x < b" "0 \<le> int (x - a) + shift"
  shows "int (marks_upto shift (relative_markers starts a b) (nat (int (x - a) + shift)))
    = sum_list (map snd (filter (\<lambda>(off, _). a < off \<and> off \<le> x) starts))"
proof -
  have "filter (\<lambda>(r, _). r + shift \<le> int (nat (int (x - a) + shift))) (relative_markers starts a b)
      = map (\<lambda>(off, cnt). (int off - int a, cnt)) (filter (\<lambda>(off, _). a < off \<and> off \<le> x) starts)"
    using x by (auto simp: relative_markers_def markers_inside_filter [OF sf] filter_map comp_def
        case_prod_beta' intro!: arg_cong [where f = "map _"] filter_cong)
  moreover have "int (sum_list (map (nat \<circ> snd) (map (\<lambda>(off, cnt). (int off - int a, cnt)) xs)))
      = sum_list (map snd xs)" if "\<forall>(off, cnt) \<in> set xs. 0 \<le> cnt" for xs :: "page_start list"
    using that by (induction xs) auto
  ultimately show ?thesis using nn by (simp add: marks_upto_def)
qed

section \<open>Property\<close>

text \<open>
  (C17) Page provenance. For a document whose pages are in order and whose text and headings hold
  no form feed of their own, take any part of the marked chunking and any character of it (after
  the first line, when the part starts on a section heading). The part declares a page, the
  character stands in the marked snippet at some position, and the declared page plus the form
  feeds before that position is the number of the page the character is on. Blank pages are
  counted, and the page the part starts on is not counted again.
\<close>

theorem server_page_of_part:
  assumes "iter_text_chunks_with_location t p sentences sections pages True = Inr parts"
    and "t \<noteq> []" and ord: "pages_in_order pages t"
    and noff: "PAGE_BREAK_MARKER \<notin> set t"
      "\<forall>sec \<in> set sections. PAGE_BREAK_MARKER \<notin> set (sec_heading sec)"
    and "(snippet, declared, sent, a) \<in> set parts"
    and x: "a \<le> x" "x < located_chunk_end (make_ctx t p sentences sections pages True) a"
      "section_prefix_at_offset sections t a = [] \<or>
       length (first_line (slice a (located_chunk_end (make_ctx t p sentences sections pages True) a) t)) \<le> x - a"
  shows "\<exists>d q. declared = Some d \<and> q < length snippet \<and> snippet ! q = t ! x
    \<and> server_page d (take q snippet) = page_of_offset pages t x"
proof -
  define c where "c = make_ctx t p sentences sections pages True"
  define b where "b = located_chunk_end c a"
  have ctx: "ctx_text c = t" "ctx_sections c = sections" "ctx_pages c = pages"
    by (simp_all add: c_def make_ctx_def)
  obtain o0 i0 r where tp: "text_pages pages t = (o0, i0) # r"
    using ord by (cases "text_pages pages t") (auto simp: pages_in_order_def)
  have ne: "pages \<noteq> []" using tp by auto
  have ps: "ctx_page_starts c = page_diffs i0 r"
    using text_page_starts_in_order [OF ord tp] ne by (simp add: c_def make_ctx_def)
  have "parts = located_loop c 0"
    using assms(1,2) by (auto simp: iter_text_chunks_with_location_def c_def split: if_splits)
  with assms(6) have a: "a < length t" "snippet = part_snippet c a b"
    and decl: "declared = fst (part_location c a)"
    using ll.loop_elem [of 0 c "(snippet, declared, sent, a)"] by (auto simp: emit_part_def b_def ctx)
  have ab: "a < b" "b \<le> length t"
    using located_chunk_end_bounds [of a c] a(1) by (simp_all add: b_def ctx)
  obtain sn shift where ash: "apply_section_heading (slice a b t) (section_prefix_at_offset sections t a) = (sn, shift)"
    by fastforce
  let ?ms = "relative_markers (page_diffs i0 r) a b"
  let ?i = "nat (int (x - a) + shift)"
  have sr: "sorted_wrt (<) (map fst (page_diffs i0 r))"
    using ord tp by (simp add: page_diffs_fst pages_in_order_def)
  have st: "\<forall>(off, cnt) \<in> set (page_diffs i0 r). 0 \<le> cnt \<and> off \<in> set (line_start_offsets t)"
    using text_page_starts_elem [of _ _ pages t] text_page_starts_in_order [OF ord tp] by fastforce
  have ok: "markers_ok sn shift 0 ?ms" by (rule relative_markers_ok [OF ash sr st ab])
  have hp: "0 \<le> int (x - a) + shift" "?i < length sn" "sn ! ?i = t ! x"
    using heading_position [OF ash, of "x - a"] x ab
    by (auto simp: nth_slice b_def [symmetric] c_def [symmetric])
  have "PAGE_BREAK_MARKER \<notin> set sn"
    using apply_section_heading_set [of "slice a b t" "section_prefix_at_offset sections t a"] ash noff
      section_prefix_no_marker [OF noff(2), of t a]
    by (auto simp: slice_def dest: in_set_takeD in_set_dropD)
  then have c0: "count_list (slice 0 ?i sn) PAGE_BREAK_MARKER = 0"
    by (auto simp: slice_def count_list_0_iff dest: in_set_takeD)
  have loop: "snippet = apply_markers_loop sn shift 0 ?ms"
    using part_snippet_loop [of a b c sn shift] ash a(2) by (simp add: ctx ps)
  let ?q = "?i + marks_upto shift ?ms ?i"
  have mp: "snippet ! ?q = sn ! ?i" "?q < length snippet"
    "count_list (take ?q snippet) PAGE_BREAK_MARKER = marks_upto shift ?ms ?i"
    using marked_position [OF ok le0 hp(2)] c0 by (simp_all add: loop)
  have marks: "int (marks_upto shift ?ms ?i) = page_at i0 r x - page_at i0 r a"
    using marks_upto_window [OF strict_sorted_imp_sorted [OF sr], of a x b shift] st x(1,2) hp(1)
      page_diffs_window [of r a x i0] sr
    by (auto simp: b_def c_def page_diffs_fst)
  have "page_number_starts pages t = (fst (page_number_starts pages t), snd (page_number_starts pages t))"
    by simp
  moreover have "fst (page_number_starts pages t) \<noteq> []"
    using declared_page [OF ord tp, of a] by (auto simp: page_for_offset_def)
  ultimately have "declared = Some (page_at i0 r a + 1)"
    using decl declared_page [OF ord tp, of a]
    by (auto simp: part_location_def ctx Let_def split: prod.splits)
  with mp hp marks show ?thesis
    by (intro exI [of _ "page_at i0 r a + 1"] exI [of _ ?q])
      (simp add: server_page_def page_of_offset_eq [OF ord tp])
qed

text \<open>Two text pages with a blank page between them, in one part: the second page is page 3.\<close>

definition example_pages :: "page list" where
  "example_pages =
     [\<lparr>page_index = 0, page_text = ''a'', page_line_start = Some 1, page_line_end = Some 1\<rparr>,
      \<lparr>page_index = 1, page_text = [], page_line_start = None, page_line_end = None\<rparr>,
      \<lparr>page_index = 2, page_text = ''b'', page_line_start = Some 2, page_line_end = Some 2\<rparr>]"

definition example_text :: string where
  "example_text = [CHR ''a'', newline, CHR ''b'']"

definition example_snippet :: string where
  "example_snippet = [CHR ''a'', newline, PAGE_BREAK_MARKER, PAGE_BREAK_MARKER, CHR ''b'']"

theorem server_page_of_part_witness:
  "iter_text_chunks_with_location example_text 10 [] [] example_pages True
      = Inr [(example_snippet, Some 1, None, 0)]
   \<and> (\<exists>d q. Some 1 = Some d \<and> q < length example_snippet \<and> example_snippet ! q = example_text ! 2
        \<and> server_page d (take q example_snippet) = page_of_offset example_pages example_text 2)
   \<and> page_of_offset example_pages example_text 2 = 3"
proof -
  have run: "iter_text_chunks_with_location example_text 10 [] [] example_pages True
      = Inr [(example_snippet, Some 1, None, 0)]"
    by code_simp
  have ord: "pages_in_order example_pages example_text" by code_simp
  have noff: "PAGE_BREAK_MARKER \<notin> set example_text" "example_text \<noteq> []" by code_simp+
  have span: "2 < located_chunk_end (make_ctx example_text 10 [] [] example_pages True) 0" by code_simp
  have pre: "section_prefix_at_offset [] example_text 0 = []" by code_simp
  have pg: "page_of_offset example_pages example_text 2 = 3" by code_simp
  show ?thesis
    using run pg server_page_of_part [OF run noff(2) ord noff(1), of example_snippet "Some 1" None 0 2]
      span pre by simp
qed

end
