(* ===== verification/Table_Placement.thy ===== *)
theory Table_Placement
  imports Chunking
begin

text \<open>
  Where \<open>build_transmission_parts\<close> sends the tables of a document. The table code recomputes
  equal-size spans of its own, so its answer is the part that holds the table's offset exactly when
  the chunker cut at those spans too: without sections, pages and markers it does; with a
  heading, a page boundary or a marker the parts are shorter and a table can be attached to a part
  that does not hold it.
\<close>

lemma place_table_mono:
  "i < length buckets \<Longrightarrow> set (buckets ! i) \<subseteq> set (place_table parts bs buckets tbl ! i)"
  by (auto simp: place_table_def Let_def nth_list_update)

lemma place_tables_mono:
  "i < length buckets \<Longrightarrow>
     set (buckets ! i) \<subseteq> set (fold (\<lambda>tbl bs. place_table parts b bs tbl) tables buckets ! i)"
proof (induction tables arbitrary: buckets)
  case Nil
  then show ?case by simp
next
  case (Cons tbl tables)
  from Cons.IH [of "place_table parts b buckets tbl"] place_table_mono [OF Cons.prems, of parts b tbl]
    Cons.prems show ?case by auto
qed

lemma place_table_in:
  assumes "table_part_idx parts b tbl < length buckets" and "sum_list (map length buckets) < MAX_TABLES_PER_PART"
  shows "api_table tbl \<in> set (place_table parts b buckets tbl ! table_part_idx parts b tbl)"
proof -
  let ?i = "table_part_idx parts b tbl"
  have "length (buckets ! ?i) \<le> sum_list (map length buckets)"
    using assms(1) by (intro member_le_sum_list) auto
  with assms show ?thesis by (simp add: place_table_def Let_def)
qed

lemma place_tables_in:
  assumes "tbl \<in> set tables" and "table_part_idx parts b tbl < length buckets"
    and "sum_list (map length buckets) + length tables \<le> MAX_TABLES_PER_PART"
  shows "api_table tbl \<in> set (fold (\<lambda>tbl bs. place_table parts b bs tbl) tables buckets
    ! table_part_idx parts b tbl)"
  using assms
proof (induction tables arbitrary: buckets)
  case Nil
  then show ?case by simp
next
  case (Cons t ts)
  let ?bs = "place_table parts b buckets t"
  have ne: "buckets \<noteq> []" using Cons.prems(2) by auto
  show ?case
  proof (cases "tbl = t")
    case True
    have "sum_list (map length buckets) < MAX_TABLES_PER_PART" using Cons.prems(3) by simp
    with place_table_in [of parts b t buckets] Cons.prems(2) True
    have "api_table tbl \<in> set (?bs ! table_part_idx parts b tbl)" by simp
    then show ?thesis
      using place_tables_mono [of "table_part_idx parts b tbl" ?bs parts b ts] Cons.prems(2) by auto
  next
    case False
    have "sum_list (map length ?bs) + length ts \<le> MAX_TABLES_PER_PART"
      using place_table_total [OF ne, of parts b t] Cons.prems(3) by simp
    with Cons.IH [of ?bs] Cons.prems False show ?thesis by simp
  qed
qed

definition plain_ctx :: "chunk_ctx \<Rightarrow> bool" where
  "plain_ctx c \<longleftrightarrow> ctx_sections c = [] \<and> ctx_pages c = [] \<and> ctx_page_starts c = []"

lemma plain_chunk_ends:
  assumes "plain_ctx c"
  shows "located_chunk_end c s = min (s + Suc (ctx_k c)) (length (ctx_text c))"
  using assms
  by (simp add: plain_ctx_def located_chunk_end_def section_prefix_at_offset_def
      section_heading_at_offset_def chunk_budget_def fit_end_def adjust_chunk_end_def
      boundary_candidates_def List.map_filter_def Let_def)

lemma plain_located_loop:
  assumes "plain_ctx c"
  shows "located_loop c s
    = map (\<lambda>(a, b). emit_part c a b) (table_boundaries_from (length (ctx_text c)) (ctx_k c) s)"
proof (induction "length (ctx_text c) - s" arbitrary: s rule: less_induct)
  case less
  show ?case
  proof (cases "s < length (ctx_text c)")
    case False
    then show ?thesis by (simp add: located_loop.simps [of c s] table_boundaries_from.simps [of _ _ s])
  next
    case True
    let ?e = "min (s + Suc (ctx_k c)) (length (ctx_text c))"
    have "length (ctx_text c) - ?e < length (ctx_text c) - s" using True by linarith
    from less [OF this] True show ?thesis
      by (simp add: located_loop.simps [of c s] table_boundaries_from.simps [of _ _ s] Let_def
          plain_chunk_ends [OF assms])
  qed
qed

lemma plain_part_snippet: "plain_ctx c \<Longrightarrow> part_snippet c a b = slice a b (ctx_text c)"
  by (simp add: plain_ctx_def part_snippet_def section_prefix_at_offset_def
      section_heading_at_offset_def apply_section_heading_def)

section \<open>Properties\<close>

text \<open>
  Tables of a plain document reach the part that holds them: with at most fifty tables
  and no sections, pages or markers, a table with a character offset inside the text is attached,
  without its private offset key, to the part whose span contains the offset.
\<close>

theorem plain_table_placement:
  assumes "1 \<le> p" and "length tables \<le> 50" and "tbl \<in> set tables"
    and "t_char_start tbl = Some (int off)" and "off < length t"
  shows "\<exists>parts i a b. build_transmission_parts t p sentences [] [] tables False = Inr parts
    \<and> i < length parts \<and> api_table tbl \<in> set (p_tables (parts ! i))
    \<and> p_snippet (parts ! i) = slice a b t \<and> a \<le> off \<and> off < b"
proof -
  define k where "k = nat p - 1"
  let ?c = "make_ctx t p sentences [] [] False"
  let ?bs = "table_boundaries_from (length t) k 0"
  have pl: "plain_ctx ?c" by (simp add: plain_ctx_def make_ctx_def)
  have cx: "ctx_text ?c = t" "ctx_k ?c = k" by (simp_all add: make_ctx_def k_def)
  from assms(5) have ne: "t \<noteq> []" by auto
  define parts0 :: "'a part list" where "parts0 = map (\<lambda>(a, b). to_part (emit_part ?c a b)) ?bs"
  have til: "tiles 0 (length t) ?bs"
    using tb.loop_tiles [of 0 "length t" k] by (auto simp: case_prod_beta')
  then have bne: "?bs \<noteq> []" using ne by auto
  have tbs: "take (length parts0) (table_boundaries (length t) k) = ?bs"
    using bne by (simp add: table_boundaries_def Let_def parts0_def)
  have run: "build_transmission_parts t p sentences [] [] tables False
      = Inr (assign_tables_to_parts parts0 tables t k)"
    using assms(1,3) ne plain_located_loop [OF pl, of 0]
    by (auto simp: build_transmission_parts_def iter_text_chunks_with_location_def cx parts0_def k_def [symmetric, unfolded One_nat_def]
        case_prod_beta' comp_def Let_def)
  obtain a b where "(a, b) \<in> set ?bs" "a \<le> off" "off < b"
    using tiles_cover [OF til, of off] assms(5) by auto
  then obtain i where i: "find_index (\<lambda>(a, b). int a \<le> int off \<and> int off < int b) ?bs = Some i"
    using find_index_None [of "\<lambda>(a, b). int a \<le> int off \<and> int off < int b" ?bs]
    by (cases "find_index (\<lambda>(a, b). int a \<le> int off \<and> int off < int b) ?bs") auto
  then have ilt: "i < length ?bs" and hit: "fst (?bs ! i) \<le> off" "off < snd (?bs ! i)"
    by (auto simp: find_index_Some case_prod_beta')
  have idx: "table_part_idx parts0 (table_boundaries (length t) k) tbl = i"
    unfolding table_part_idx_def assms(4) option.case tbs i ..
  have len: "length parts0 = length ?bs" by (simp add: parts0_def)
  have ti: "p_tables (parts0 ! i) = []" and sni: "p_snippet (parts0 ! i) = slice (fst (?bs ! i)) (snd (?bs ! i)) t"
    using ilt plain_part_snippet [OF pl] by (simp_all add: parts0_def case_prod_beta' to_part_def emit_part_def cx)
  have "api_table tbl \<in> set (p_tables (assign_tables_to_parts parts0 tables t k ! i))"
    using place_tables_in [OF assms(3), of parts0 "table_boundaries (length t) k"
        "replicate (length parts0) []"] assms(2,3) ilt
    by (subst assign_bucket) (auto simp: idx len ti MAX_TABLES_PER_PART_def sum_list_replicate map_replicate)
  then show ?thesis
    using run ilt hit sni assign_keeps_part(1) [of i parts0 tables t k] len
    by (intro exI [of _ "assign_tables_to_parts parts0 tables t k"] exI [of _ i]
        exI [of _ "fst (?bs ! i)"] exI [of _ "snd (?bs ! i)"]) simp
qed

theorem plain_table_placement_witness:
  "\<exists>parts i a b. build_transmission_parts ''abcd'' 2 [] [] []
      [\<lparr>t_page = None, t_char_start = Some (int 3)\<rparr>] False = Inr parts
    \<and> i < length parts
    \<and> api_table \<lparr>t_page = None, t_char_start = Some (int 3)\<rparr> \<in> set (p_tables (parts ! i))
    \<and> p_snippet (parts ! i) = slice a b ''abcd'' \<and> a \<le> 3 \<and> 3 < b"
  by (rule plain_table_placement) simp_all

text \<open>
  With a section heading the table lands elsewhere. The heading of the first part uses up
  half of the part size, so the text from offset 5 on is in the second part; the table at offset 7
  is attached to the first part all the same, because the table code assumes parts of full size.
\<close>

theorem heading_misplaces_table:
  "build_transmission_parts (''H'' @ [newline] @ ''abcdefg'') 10 []
      [\<lparr>sec_heading = ''H'', sec_level = None, sec_line_start = Some 1\<rparr>] []
      [\<lparr>t_page = None, t_char_start = Some 7\<rparr>] False
   = Inr [\<lparr>p_snippet = ''# H'' @ [newline] @ ''abc'', p_page_number = None, p_sentence_number = None,
            p_tables = [\<lparr>t_page = None, t_char_start = None\<rparr>]\<rparr>,
          \<lparr>p_snippet = ''defg'', p_page_number = None, p_sentence_number = None, p_tables = []\<rparr>]"
  by code_simp

end
