(* ===== verification/Rate_Limiter.thy ===== *)
theory Rate_Limiter
  imports Complex_Main Knovas_Prelude
begin

text \<open>
  The token-bucket limiter of \<open>util/rate_limiter.py\<close>. Times, tokens and costs are rationals
  (the code uses floats; rounding is not modelled). The ordered dict of buckets is a list, oldest
  first; a clock reading is an argument, \<open>None\<close> when \<open>time.monotonic\<close> raises, so that the
  \<open>except\<close> branch is a case of the model.

  Lemmas: the buckets stay within bounds and within the configured number; the tokens handed out
  to one identity over any run are bounded by the burst plus the refill of the elapsed time.
\<close>

record bucket_cfg =
  max_tokens :: rat
  refill_rate :: rat
  fail_open :: bool
  max_buckets :: int

type_synonym buckets = "(string \<times> rat \<times> rat) list"

definition token_bucket_init :: "int \<Rightarrow> rat \<Rightarrow> bool \<Rightarrow> int \<Rightarrow> (bucket_cfg \<times> buckets) py" where
  "token_bucket_init mt rate fo mb =
     (if mt \<le> 0 then Inl ValueError
      else if rate \<le> 0 then Inl ValueError
      else if mb \<le> 0 then Inl ValueError
      else Inr (\<lparr>max_tokens = of_int mt, refill_rate = rate, fail_open = fo, max_buckets = mb\<rparr>, []))"

text \<open>\<open>move_to_end\<close>, and insertion of a fresh bucket with eviction of the oldest.\<close>

definition touch_bucket :: "bucket_cfg \<Rightarrow> string \<Rightarrow> rat \<Rightarrow> buckets \<Rightarrow> (rat \<times> rat) \<times> buckets" where
  "touch_bucket cfg ident now bs =
     (case map_of bs ident of
        None \<Rightarrow>
          (let bs' = bs @ [(ident, max_tokens cfg, now)]
           in ((max_tokens cfg, now), if int (length bs') > max_buckets cfg then tl bs' else bs'))
      | Some b \<Rightarrow> (b, AList.delete ident bs @ [(ident, b)]))"

definition store_bucket :: "string \<Rightarrow> rat \<times> rat \<Rightarrow> buckets \<Rightarrow> buckets" where
  "store_bucket ident b bs = tmap (\<lambda>k v. if k = ident then b else v) bs"

definition acquire_tokens :: "bucket_cfg \<Rightarrow> string \<Rightarrow> rat \<Rightarrow> rat option \<Rightarrow> buckets \<Rightarrow> bool \<times> buckets" where
  "acquire_tokens cfg ident cost clock bs =
     (if cost \<le> 0 then (True, bs)
      else case clock of
        None \<Rightarrow> (fail_open cfg, bs)
      | Some now \<Rightarrow>
          (let ((tokens, last_time), bs') = touch_bucket cfg ident now bs;
               elapsed = now - last_time;
               tokens' = min (max_tokens cfg) (tokens + elapsed * refill_rate cfg)
           in if tokens' \<ge> cost
              then (True, store_bucket ident (tokens' - cost, now) bs')
              else (False, store_bucket ident (tokens', now) bs')))"

definition is_allowed :: "bucket_cfg \<Rightarrow> string \<Rightarrow> rat option \<Rightarrow> buckets \<Rightarrow> bool \<times> buckets" where
  "is_allowed cfg ident clock bs = acquire_tokens cfg ident 1 clock bs"

section \<open>Invariant\<close>

definition cfg_ok :: "bucket_cfg \<Rightarrow> bool" where
  "cfg_ok cfg \<longleftrightarrow> 0 < max_tokens cfg \<and> 0 < refill_rate cfg \<and> 1 \<le> max_buckets cfg"

text \<open>No bucket is in debt, over-full or stamped later than \<open>now\<close>, and there are not too many.\<close>

definition buckets_ok :: "bucket_cfg \<Rightarrow> rat \<Rightarrow> buckets \<Rightarrow> bool" where
  "buckets_ok cfg now bs \<longleftrightarrow> table_ok bs \<and> int (length bs) \<le> max_buckets cfg \<and>
     (\<forall>(k, tokens, last_time) \<in> set bs. 0 \<le> tokens \<and> tokens \<le> max_tokens cfg \<and> last_time \<le> now)"

lemma touch_bucket_ok:
  assumes "cfg_ok cfg" and "buckets_ok cfg now bs" and "touch_bucket cfg ident now bs = ((tokens, last_time), bs')"
  shows "buckets_ok cfg now bs'" and "0 \<le> tokens" and "tokens \<le> max_tokens cfg" and "last_time \<le> now"
    and "map_of bs' ident = Some (tokens, last_time)"
proof -
  have "buckets_ok cfg now bs' \<and> 0 \<le> tokens \<and> tokens \<le> max_tokens cfg \<and> last_time \<le> now
    \<and> map_of bs' ident = Some (tokens, last_time)"
  proof (cases "map_of bs ident")
    case None
    then have fresh: "ident \<notin> fst ` set bs" by (simp add: map_of_eq_None_iff)
    let ?n = "bs @ [(ident, max_tokens cfg, now)]"
    have full: "bs \<noteq> []" if "\<not> int (length ?n) \<le> max_buckets cfg"
      using that assms(1) by (auto simp: cfg_ok_def)
    have n: "table_ok ?n" "map_of ?n ident = Some (max_tokens cfg, now)"
      using assms(2) fresh None by (auto simp: buckets_ok_def table_ok_def map_add_def)
    show ?thesis
    proof (cases "int (length ?n) > max_buckets cfg")
      case True
      then obtain e r where bs: "bs = e # r" using full by (cases bs) auto
      have "bs' = r @ [(ident, max_tokens cfg, now)]" "tokens = max_tokens cfg" "last_time = now"
        using assms(3) None True bs by (auto simp: touch_bucket_def Let_def)
      moreover have "map_of r ident = None" using None bs by (auto split: if_splits)
      ultimately show ?thesis
        using bs assms(1,2) fresh by (auto simp: buckets_ok_def table_ok_def cfg_ok_def map_add_def)
    next
      case False
      have "bs' = ?n" "tokens = max_tokens cfg" "last_time = now"
        using assms(3) None False by (auto simp: touch_bucket_def Let_def split: if_splits)
      with n False assms(1,2) show ?thesis by (auto simp: buckets_ok_def cfg_ok_def)
    qed
  next
    case (Some b)
    have b: "b = (tokens, last_time)" "bs' = AList.delete ident bs @ [(ident, b)]"
      using assms(3) Some by (auto simp: touch_bucket_def)
    have mem: "(ident, tokens, last_time) \<in> set bs" using Some b map_of_SomeD by fastforce
    have "length (AList.delete ident bs) < length bs"
      using mem by (auto simp: AList.delete_eq intro!: length_filter_less)
    then have len: "int (length bs') \<le> max_buckets cfg" using assms(2) b by (simp add: buckets_ok_def)
    have "table_ok bs'"
      using assms(2) b by (auto simp: buckets_ok_def table_ok_def delete_notin_dom intro: distinct_delete)
    moreover have "map_of bs' ident = Some (tokens, last_time)"
      using b by (simp add: map_add_def delete_conv')
    ultimately show ?thesis
      using mem len assms(2) b by (auto simp: buckets_ok_def AList.delete_eq)
  qed
  then show "buckets_ok cfg now bs'" "0 \<le> tokens" "tokens \<le> max_tokens cfg" "last_time \<le> now"
    "map_of bs' ident = Some (tokens, last_time)" by blast+
qed

lemma store_bucket_ok:
  assumes "buckets_ok cfg now bs" and "0 \<le> fst b" and "fst b \<le> max_tokens cfg" and "snd b \<le> now"
  shows "buckets_ok cfg now (store_bucket ident b bs)"
  using assms by (auto simp: buckets_ok_def store_bucket_def) (auto simp: tmap_def split: if_splits)

lemma buckets_ok_later: "buckets_ok cfg now bs \<Longrightarrow> now \<le> now' \<Longrightarrow> buckets_ok cfg now' bs"
  by (fastforce simp: buckets_ok_def)

lemma acquire_ok:
  assumes "cfg_ok cfg" and "buckets_ok cfg now bs"
  shows "buckets_ok cfg now (snd (acquire_tokens cfg ident cost (Some now) bs))"
proof -
  obtain tokens last_time bs' where tb: "touch_bucket cfg ident now bs = ((tokens, last_time), bs')"
    by (metis prod.exhaust)
  note ok = touch_bucket_ok [OF assms tb]
  let ?t = "min (max_tokens cfg) (tokens + (now - last_time) * refill_rate cfg)"
  have "0 \<le> (now - last_time) * refill_rate cfg"
    using ok(4) assms(1) by (auto simp: cfg_ok_def intro: mult_nonneg_nonneg)
  then have "0 \<le> ?t" using ok(2) assms(1) by (auto simp: cfg_ok_def)
  then show ?thesis
    using store_bucket_ok [OF ok(1)] tb assms(2) by (auto simp: acquire_tokens_def Let_def)
qed

section \<open>Runs\<close>

text \<open>A run of requests (clock, identity, cost), and what one identity was granted in it.\<close>

type_synonym request = "rat \<times> string \<times> rat"

fun run_limiter :: "bucket_cfg \<Rightarrow> buckets \<Rightarrow> request list \<Rightarrow> bool list" where
  "run_limiter cfg bs [] = []"
| "run_limiter cfg bs ((now, ident, cost) # rs) =
     (let (granted, bs') = acquire_tokens cfg ident cost (Some now) bs
      in granted # run_limiter cfg bs' rs)"

definition granted_to :: "string \<Rightarrow> request list \<Rightarrow> bool list \<Rightarrow> rat" where
  "granted_to who rs gs =
     sum_list (map (\<lambda>((_, ident, cost), g). if g \<and> ident = who then cost else 0) (zip rs gs))"

fun clock_ok :: "rat \<Rightarrow> request list \<Rightarrow> bool" where
  "clock_ok now [] \<longleftrightarrow> True"
| "clock_ok now ((t, ident, cost) # rs) \<longleftrightarrow> now \<le> t \<and> 0 < cost \<and> clock_ok t rs"

text \<open>Tokens an identity has in hand: its bucket, refilled up to \<open>now\<close>; a full one when it has none.\<close>

definition in_hand :: "bucket_cfg \<Rightarrow> string \<Rightarrow> rat \<Rightarrow> buckets \<Rightarrow> rat" where
  "in_hand cfg who now bs =
     (case map_of bs who of
        None \<Rightarrow> max_tokens cfg
      | Some (tokens, last_time) \<Rightarrow> tokens + (now - last_time) * refill_rate cfg)"

text \<open>No eviction: the identities of the run and of the stored buckets fit in.\<close>

definition no_eviction :: "bucket_cfg \<Rightarrow> buckets \<Rightarrow> request list \<Rightarrow> bool" where
  "no_eviction cfg bs rs \<longleftrightarrow>
     int (card (fst ` set bs \<union> (fst \<circ> snd) ` set rs)) \<le> max_buckets cfg"

lemma touch_no_eviction:
  assumes "table_ok bs" and "no_eviction cfg bs ((now, ident, cost) # rs)"
  shows "snd (touch_bucket cfg ident now bs) = (case map_of bs ident of
      None \<Rightarrow> bs @ [(ident, max_tokens cfg, now)] | Some b \<Rightarrow> AList.delete ident bs @ [(ident, b)])"
proof (cases "map_of bs ident")
  case None
  then have "ident \<notin> fst ` set bs" by (simp add: map_of_eq_None_iff)
  then have "card (insert ident (fst ` set bs)) = Suc (length bs)"
    using assms(1) distinct_card [of "map fst bs"] by (simp add: table_ok_def)
  moreover have "card (insert ident (fst ` set bs))
      \<le> card (fst ` set bs \<union> (fst \<circ> snd) ` set ((now, ident, cost) # rs))"
    by (intro card_mono) auto
  ultimately have "\<not> int (length (bs @ [(ident, max_tokens cfg, now)])) > max_buckets cfg"
    using assms(2) by (auto simp: no_eviction_def)
  with None show ?thesis by (auto simp: touch_bucket_def Let_def)
next
  case (Some b)
  then show ?thesis by (simp add: touch_bucket_def)
qed

lemma acquire_keys:
  assumes "table_ok bs" and "no_eviction cfg bs ((now, ident, cost) # rs)"
  shows "fst ` set (snd (acquire_tokens cfg ident cost (Some now) bs)) \<subseteq> insert ident (fst ` set bs)"
proof -
  have keys: "fst ` set (store_bucket ident b xs) = fst ` set xs" for b xs
    using tmap_keys [of "\<lambda>k v. if k = ident then b else v" xs]
    by (metis list.set_map store_bucket_def tkeys_def)
  have "fst ` set (snd (touch_bucket cfg ident now bs)) \<subseteq> insert ident (fst ` set bs)"
    unfolding touch_no_eviction [OF assms] by (auto simp: AList.delete_eq split: option.splits)
  moreover have "snd (acquire_tokens cfg ident cost (Some now) bs) = bs \<or>
      (\<exists>b. snd (acquire_tokens cfg ident cost (Some now) bs)
         = store_bucket ident b (snd (touch_bucket cfg ident now bs)))"
    by (auto simp: acquire_tokens_def Let_def split: prod.splits)
  ultimately show ?thesis by (elim disjE exE) (simp_all add: keys subset_insertI)
qed

lemma no_eviction_step:
  assumes "table_ok bs" and "no_eviction cfg bs ((now, ident, cost) # rs)"
  shows "no_eviction cfg (snd (acquire_tokens cfg ident cost (Some now) bs)) rs"
proof -
  have "card (fst ` set (snd (acquire_tokens cfg ident cost (Some now) bs)) \<union> (fst \<circ> snd) ` set rs)
      \<le> card (fst ` set bs \<union> (fst \<circ> snd) ` set ((now, ident, cost) # rs))"
    using acquire_keys [OF assms] by (intro card_mono) auto
  with assms(2) show ?thesis by (simp add: no_eviction_def)
qed

text \<open>One request: what is granted plus what is left in hand never exceeds what was in hand.\<close>

lemma acquire_in_hand:
  assumes "cfg_ok cfg" and "buckets_ok cfg now bs" and "0 < cost"
    and "no_eviction cfg bs ((now, ident, cost) # rs)"
    and "acquire_tokens cfg ident cost (Some now) bs = (granted, bs')"
  shows "in_hand cfg who now bs' + (if granted \<and> ident = who then cost else 0) \<le> in_hand cfg who now bs"
proof -
  obtain tokens last_time bs1 where tb: "touch_bucket cfg ident now bs = ((tokens, last_time), bs1)"
    by (metis prod.exhaust)
  have tok: "table_ok bs" using assms(2) by (simp add: buckets_ok_def)
  have bs1: "bs1 = (case map_of bs ident of
      None \<Rightarrow> bs @ [(ident, max_tokens cfg, now)] | Some b \<Rightarrow> AList.delete ident bs @ [(ident, b)])"
    using touch_no_eviction [OF tok assms(4)] tb by simp
  have other: "map_of bs1 who = map_of bs who" if "who \<noteq> ident"
    using that by (auto simp: bs1 map_add_def delete_conv' split: option.splits)
  have own: "map_of bs1 ident = Some (tokens, last_time)"
    using touch_bucket_ok(5) [OF assms(1,2) tb] .
  have hand: "in_hand cfg ident now bs = tokens + (now - last_time) * refill_rate cfg"
    using tb by (auto simp: in_hand_def touch_bucket_def Let_def split: option.splits)
  show ?thesis
  proof (cases "who = ident")
    case True
    then show ?thesis
      using assms(3,5) tb own hand
      by (auto simp: acquire_tokens_def Let_def store_bucket_def in_hand_def tmap_lookup
          split: if_splits)
  next
    case False
    then show ?thesis
      using assms(3,5) tb other
      by (auto simp: acquire_tokens_def Let_def store_bucket_def in_hand_def tmap_lookup
          option.map_ident split: if_splits option.splits)
  qed
qed

lemma in_hand_later:
  assumes "cfg_ok cfg" and "now \<le> now'"
  shows "in_hand cfg who now' bs \<le> in_hand cfg who now bs + (now' - now) * refill_rate cfg"
  using assms by (auto simp: in_hand_def cfg_ok_def algebra_simps mult_right_mono split: option.splits)

lemma in_hand_nonneg:
  assumes "cfg_ok cfg" and "buckets_ok cfg now bs"
  shows "0 \<le> in_hand cfg who now bs"
  using assms by (fastforce simp: in_hand_def cfg_ok_def buckets_ok_def split: option.splits
      dest!: map_of_SomeD intro: add_nonneg_nonneg mult_nonneg_nonneg)

lemma run_granted:
  assumes "cfg_ok cfg"
  shows "buckets_ok cfg now bs \<Longrightarrow> clock_ok now rs \<Longrightarrow> no_eviction cfg bs rs \<Longrightarrow>
    granted_to who rs (run_limiter cfg bs rs)
      \<le> in_hand cfg who now bs + (fst (last ((now, [], 0) # rs)) - now) * refill_rate cfg"
proof (induction rs arbitrary: now bs)
  case Nil
  then show ?case using in_hand_nonneg [OF assms] by (simp add: granted_to_def)
next
  case (Cons r rs)
  obtain t ident cost where r: "r = (t, ident, cost)" by (cases r)
  obtain granted bs' where acq: "acquire_tokens cfg ident cost (Some t) bs = (granted, bs')" by fastforce
  from Cons.prems r have pre: "now \<le> t" "0 < cost" "clock_ok t rs" by auto
  have okt: "buckets_ok cfg t bs" using buckets_ok_later Cons.prems(1) pre(1) .
  have ok': "buckets_ok cfg t bs'" using acquire_ok [OF assms okt, of ident cost] acq by simp
  have ne: "no_eviction cfg bs' rs"
    using no_eviction_step [of bs cfg t ident cost rs] Cons.prems(1,3) r acq by (simp add: buckets_ok_def)
  from Cons.IH [OF ok' pre(3) ne]
  have ih: "granted_to who rs (run_limiter cfg bs' rs)
      \<le> in_hand cfg who t bs' + (fst (last ((t, [], 0) # rs)) - t) * refill_rate cfg" .
  have step: "in_hand cfg who t bs' + (if granted \<and> ident = who then cost else 0) \<le> in_hand cfg who t bs"
    using acquire_in_hand [OF assms okt pre(2) Cons.prems(3) [unfolded r] acq] .
  have "granted_to who (r # rs) (run_limiter cfg bs (r # rs))
      = (if granted \<and> ident = who then cost else 0) + granted_to who rs (run_limiter cfg bs' rs)"
    using acq by (simp add: r granted_to_def)
  moreover have "fst (last ((now, [], 0) # r # rs)) = fst (last ((t, [], 0) # rs))" by (simp add: r)
  ultimately show ?case
    using ih step in_hand_later [OF assms pre(1), of who bs] by (simp add: algebra_simps)
qed

section \<open>Properties\<close>


definition example_cfg :: bucket_cfg where
  "example_cfg = \<lparr>max_tokens = 2, refill_rate = 1 / 2, fail_open = True, max_buckets = 2\<rparr>"


text \<open>
  (C22) The rate bound. Run any sequence of positive-cost requests with a clock that never goes
  back through a limiter whose buckets are within bounds, with no more identities than buckets
  (so that none is evicted). What one identity is granted in total is at most the burst plus the
  refill over the time of the run, however the requests of other identities are interleaved.
\<close>

theorem granted_within_rate:
  assumes "cfg_ok cfg" and "clock_ok now rs" and "no_eviction cfg [] rs"
  shows "granted_to who rs (run_limiter cfg [] rs)
    \<le> max_tokens cfg + (fst (last ((now, [], 0) # rs)) - now) * refill_rate cfg"
proof -
  have "buckets_ok cfg now []" using assms(1) by (simp add: buckets_ok_def cfg_ok_def)
  from run_granted [OF assms(1) this assms(2,3), of who] show ?thesis by (simp add: in_hand_def)
qed

definition example_run :: "request list" where
  "example_run = [(0, ''a'', 2), (1, ''b'', 1), (1, ''a'', 1), (2, ''a'', 1)]"

theorem granted_within_rate_witness:
  "run_limiter example_cfg [] example_run = [True, True, False, True]
   \<and> granted_to ''a'' example_run (run_limiter example_cfg [] example_run)
      \<le> max_tokens example_cfg + (fst (last ((0, [], 0) # example_run)) - 0) * refill_rate example_cfg"
proof -
  have "no_eviction example_cfg [] example_run" "cfg_ok example_cfg" "clock_ok 0 example_run"
    "run_limiter example_cfg [] example_run = [True, True, False, True]"
    by code_simp+
  then show ?thesis using granted_within_rate by blast
qed

end
