(* ===== verification/Ingest_Rate_Limit.thy ===== *)
theory Ingest_Rate_Limit
  imports Rate_Limiter
begin

text \<open>
  The two users of the token bucket: the blocking gate in front of ingest calls
  (\<open>sync/ingest_rate_limit.py\<close>, fail closed) and the request decorators of the Connector's API
  (\<open>auth/rc_rate_limit.py\<close>, fail open).

  \<open>time.monotonic\<close> is a sequence of readings: the \<open>n\<close>-th call returns \<open>clock n\<close>. That a sleep of
  \<open>d\<close> seconds lasts at least \<open>d\<close> is the named hypothesis \<open>sleep_law\<close>. The waiting loop has fuel;
  \<open>wait_loop_returns\<close> says how much is enough.
\<close>

type_synonym limiter = "bucket_cfg \<times> buckets"

record ingest_state =
  chars_limiter :: "limiter option"
  requests_limiter :: "limiter option"

definition CHARS_IDENTITY :: string where
  "CHARS_IDENTITY = ''rc-sync-ingest-chars''"

definition REQUESTS_IDENTITY :: string where
  "REQUESTS_IDENTITY = ''rc-sync-ingest-requests''"

text \<open>A constructor that raises leaves the module's globals as they were.\<close>

definition configure_ingest ::
    "int \<Rightarrow> int \<Rightarrow> int option \<Rightarrow> int option \<Rightarrow> ingest_state \<Rightarrow> py_error option \<times> ingest_state" where
  "configure_ingest max_per_minute burst max_chars burst_chars st =
     (case token_bucket_init burst (of_int max_per_minute / 60) False 10000 of
        Inl e \<Rightarrow> (Some e, st)
      | Inr req \<Rightarrow>
          (let st' = st\<lparr>requests_limiter := Some req\<rparr>
           in case max_chars of
                None \<Rightarrow> (None, st'\<lparr>chars_limiter := None\<rparr>)
              | Some m \<Rightarrow>
                  if m > 0 then
                    (case token_bucket_init (max (case burst_chars of Some b \<Rightarrow> b | None \<Rightarrow> m) 1)
                            (of_int m / 60) False 10000 of
                       Inl e \<Rightarrow> (Some e, st')
                     | Inr cl \<Rightarrow> (None, st'\<lparr>chars_limiter := Some cl\<rparr>))
                  else (None, st'\<lparr>chars_limiter := None\<rparr>)))"

text \<open>
  The loop of \<open>_wait_for\<close>. Each round reads the clock three times: for the guard, inside the bucket
  and for the sleep; sleeping a negative time raises.
\<close>

fun wait_loop ::
    "nat \<Rightarrow> (nat \<Rightarrow> rat) \<Rightarrow> rat \<Rightarrow> string \<Rightarrow> rat \<Rightarrow> nat \<Rightarrow> limiter \<Rightarrow> (bool py \<times> limiter) option" where
  "wait_loop 0 clock deadline ident cost i lmt = None"
| "wait_loop (Suc fuel) clock deadline ident cost i (cfg, bs) =
     (if clock i < deadline then
        (let (granted, bs') = acquire_tokens cfg ident cost (Some (clock (i + 1))) bs
         in if granted then Some (Inr True, (cfg, bs'))
            else if min 5 (deadline - clock (i + 2)) < 0 then Some (Inl ValueError, (cfg, bs'))
            else wait_loop fuel clock deadline ident cost (i + 3) (cfg, bs'))
      else Some (Inr False, (cfg, bs)))"

definition wait_for ::
    "nat \<Rightarrow> (nat \<Rightarrow> rat) \<Rightarrow> rat \<Rightarrow> string \<Rightarrow> rat \<Rightarrow> limiter \<Rightarrow> (bool py \<times> limiter) option" where
  "wait_for fuel clock max_wait ident cost lmt =
     wait_loop fuel clock (clock 0 + max_wait) ident cost 1 lmt"

definition acquire_request ::
    "nat \<Rightarrow> (nat \<Rightarrow> rat) \<Rightarrow> rat \<Rightarrow> ingest_state \<Rightarrow> (bool py \<times> ingest_state) option" where
  "acquire_request fuel clock max_wait st =
     (case requests_limiter st of
        None \<Rightarrow> Some (Inr False, st)
      | Some lmt \<Rightarrow>
          map_option (\<lambda>(r, lmt'). (r, st\<lparr>requests_limiter := Some lmt'\<rparr>))
            (wait_for fuel clock max_wait REQUESTS_IDENTITY 1 lmt))"

definition acquire_chars ::
    "nat \<Rightarrow> (nat \<Rightarrow> rat) \<Rightarrow> rat \<Rightarrow> int \<Rightarrow> ingest_state \<Rightarrow> (bool py \<times> ingest_state) option" where
  "acquire_chars fuel clock max_wait cost st =
     (if cost \<le> 0 then Some (Inr True, st)
      else case chars_limiter st of
        None \<Rightarrow> acquire_request fuel clock max_wait st
      | Some lmt \<Rightarrow>
          map_option (\<lambda>(r, lmt'). (r, st\<lparr>chars_limiter := Some lmt'\<rparr>))
            (wait_for fuel clock max_wait CHARS_IDENTITY (of_int cost) lmt))"

section \<open>The decorators of the Connector's API\<close>

record rc_config =
  rate_limit_enabled :: bool
  ip_max_tokens :: int
  ip_refill_per_sec :: rat
  handled_max_tokens :: int
  handled_refill_per_sec :: rat

record rc_request =
  remote_addr :: "string option"
  rc_subject :: "string option"
  rc_employee_id :: "string option"

record rc_limiters =
  ip_limiter :: "limiter option"
  handled_limiter :: "limiter option"

datatype 'r rc_outcome = Too_Many_Requests | Handled 'r

text \<open>\<open>a or b\<close> on optional strings: \<open>None\<close> and the empty string are false.\<close>

definition str_or :: "string option \<Rightarrow> string \<Rightarrow> string" where
  "str_or a b = (case a of Some s \<Rightarrow> if s = [] then b else s | None \<Rightarrow> b)"

definition client_ip :: "rc_request \<Rightarrow> string" where
  "client_ip req = str_or (remote_addr req) ''unknown''"

definition get_limiter :: "limiter option \<Rightarrow> int \<Rightarrow> rat \<Rightarrow> limiter py" where
  "get_limiter stored mt rate =
     (case stored of Some lmt \<Rightarrow> Inr lmt | None \<Rightarrow> token_bucket_init mt rate True 10000)"

definition rc_ip_ident :: "rc_request \<Rightarrow> string" where
  "rc_ip_ident req = ''rc-ip:'' @ client_ip req"

definition rc_handled_ident :: "rc_request \<Rightarrow> string" where
  "rc_handled_ident req =
     ''rc-handled:'' @ str_or (rc_subject req) (str_or (rc_employee_id req) (client_ip req))"

definition require_rc_ip_rate_limit ::
    "rc_config \<Rightarrow> rc_request \<Rightarrow> rat option \<Rightarrow> 'r \<Rightarrow> rc_limiters \<Rightarrow> 'r rc_outcome py \<times> rc_limiters" where
  "require_rc_ip_rate_limit cfg req clock response st =
     (if rate_limit_enabled cfg then
        (case get_limiter (ip_limiter st) (ip_max_tokens cfg) (ip_refill_per_sec cfg) of
           Inl e \<Rightarrow> (Inl e, st)
         | Inr (c, bs) \<Rightarrow>
             (let (ok, bs') = is_allowed c (rc_ip_ident req) clock bs
              in (Inr (if ok then Handled response else Too_Many_Requests),
                  st\<lparr>ip_limiter := Some (c, bs')\<rparr>)))
      else (Inr (Handled response), st))"

definition require_rc_handled_rate_limit ::
    "rc_config \<Rightarrow> rc_request \<Rightarrow> rat option \<Rightarrow> 'r \<Rightarrow> rc_limiters \<Rightarrow> 'r rc_outcome py \<times> rc_limiters" where
  "require_rc_handled_rate_limit cfg req clock response st =
     (if rate_limit_enabled cfg then
        (case get_limiter (handled_limiter st) (handled_max_tokens cfg) (handled_refill_per_sec cfg) of
           Inl e \<Rightarrow> (Inl e, st)
         | Inr (c, bs) \<Rightarrow>
             (let (ok, bs') = is_allowed c (rc_handled_ident req) clock bs
              in (Inr (if ok then Handled response else Too_Many_Requests),
                  st\<lparr>handled_limiter := Some (c, bs')\<rparr>)))
      else (Inr (Handled response), st))"

section \<open>Waiting: lemmas\<close>

definition sleep_law :: "(nat \<Rightarrow> rat) \<Rightarrow> rat \<Rightarrow> bool" where
  "sleep_law clock deadline \<longleftrightarrow> (\<forall>i. clock i \<le> clock (Suc i)) \<and>
     (\<forall>j. clock (3 * j + 3) + min 5 (deadline - clock (3 * j + 3)) \<le> clock (3 * j + 4))"

lemma wait_loop_enough:
  assumes "sleep_law clock deadline"
  shows "deadline - clock (3 * j + 1) \<le> 5 * of_nat n \<Longrightarrow>
    \<exists>r. wait_loop (Suc n) clock deadline ident cost (3 * j + 1) lmt = Some r"
proof (induction n arbitrary: j lmt)
  case 0
  then show ?case by (cases lmt) simp
next
  case (Suc n)
  obtain cfg bs where lmt: "lmt = (cfg, bs)" by (cases lmt)
  obtain granted bs' where acq: "acquire_tokens cfg ident cost (Some (clock (3 * j + 2))) bs = (granted, bs')"
    by fastforce
  have mono: "clock (3 * j + 1) \<le> clock (3 * j + 3)"
  proof -
    have "clock (3 * j + 1) \<le> clock (Suc (3 * j + 1))" "clock (3 * j + 2) \<le> clock (Suc (3 * j + 2))"
      using assms unfolding sleep_law_def by blast+
    then show ?thesis by (simp add: eval_nat_numeral)
  qed
  have "clock (3 * j + 3) + min 5 (deadline - clock (3 * j + 3)) \<le> clock (3 * j + 4)"
    using assms by (simp add: sleep_law_def)
  then have "deadline - clock (3 * j + 4) \<le> max 0 (deadline - clock (3 * j + 3) - 5)" by linarith
  also have "\<dots> \<le> 5 * of_nat n" using mono Suc.prems by simp
  finally have "deadline - clock (3 * j + 4) \<le> 5 * of_nat n" .
  then have "\<exists>r. wait_loop (Suc n) clock deadline ident cost (3 * Suc j + 1) (cfg, bs') = Some r"
    by (intro Suc.IH) (simp add: add.commute)
  then show ?case using acq by (simp add: lmt wait_loop.simps(2) [of "Suc n"] add.commute del: wait_loop.simps)
qed

lemma token_bucket_init_ok: "token_bucket_init mt rate fo mb = Inr (cfg, bs) \<Longrightarrow>
  cfg_ok cfg \<and> bs = [] \<and> fail_open cfg = fo"
  by (auto simp: token_bucket_init_def cfg_ok_def split: if_splits)

lemma store_other_bucket: "who \<noteq> ident \<Longrightarrow> map_of (store_bucket ident b bs) who = map_of bs who"
  by (cases "map_of bs who") (simp_all add: store_bucket_def tmap_lookup)

lemma acquire_other_bucket:
  assumes "int (length bs) < max_buckets cfg" and "who \<noteq> ident"
  shows "map_of (snd (acquire_tokens cfg ident cost clock bs)) who = map_of bs who"
proof -
  have "map_of (snd (touch_bucket cfg ident now bs)) who = map_of bs who" for now
    using assms by (auto simp: touch_bucket_def Let_def map_add_def delete_conv' split: option.splits)
  then show ?thesis
    using assms(2) by (auto simp: acquire_tokens_def Let_def store_other_bucket split: option.splits prod.splits)
      (metis snd_conv)+
qed

section \<open>Properties\<close>


definition example_clock :: "nat \<Rightarrow> rat" where
  "example_clock n = 5 * of_nat n"


definition spent_limiter :: limiter where
  "spent_limiter = (\<lparr>max_tokens = 1, refill_rate = 1 / 60, fail_open = False, max_buckets = 10000\<rparr>, [(REQUESTS_IDENTITY, 0, 0)])"

text \<open>
  The wait can raise. When the deadline passes between the guard and the sleep, the sleep
  time is negative and \<open>time.sleep\<close> raises \<open>ValueError\<close> out of \<open>acquire_request\<close>, where the
  caller expects a refusal: here the bucket was emptied at time 0, the next request waits 1.5 seconds
  and the clock advances one second per reading.
\<close>

theorem wait_for_can_raise:
  "map_option fst (acquire_request 5 of_nat (3 / 2) \<lparr>chars_limiter = None, requests_limiter = Some spent_limiter\<rparr>)
   = Some (Inl ValueError)"
  by code_simp

text \<open>
  The ingest gate fails closed. Whatever is configured, and starting from limiters that are
  themselves fail-closed, every limiter \<open>configure\<close> leaves behind refuses a positive cost when the
  clock fails; and before any successful \<open>configure\<close> no request is let through.
\<close>

theorem ingest_fails_closed:
  assumes "requests_limiter st = None" and "chars_limiter st = None"
    and "configure_ingest per_min burst mc bc st = (err, st')"
  shows "acquire_request fuel clock w st = Some (Inr False, st)
    \<and> (\<forall>cfg bs ident cost. (requests_limiter st' = Some (cfg, bs) \<or> chars_limiter st' = Some (cfg, bs))
         \<longrightarrow> 0 < cost \<longrightarrow> acquire_tokens cfg ident cost None bs = (False, bs))
    \<and> (err = None \<longrightarrow> requests_limiter st' \<noteq> None)"
  using assms
  by (auto simp: configure_ingest_def acquire_request_def acquire_tokens_def Let_def
      dest!: token_bucket_init_ok split: sum.splits option.splits if_splits prod.splits)

definition unconfigured :: ingest_state where
  "unconfigured = \<lparr>chars_limiter = None, requests_limiter = None\<rparr>"

definition chars_cfg :: bucket_cfg where
  "chars_cfg = \<lparr>max_tokens = 600, refill_rate = 10, fail_open = False, max_buckets = 10000\<rparr>"

theorem ingest_fails_closed_witness:
  "fst (configure_ingest 60 10 (Some 600) None unconfigured) = None
   \<and> chars_limiter (snd (configure_ingest 60 10 (Some 600) None unconfigured)) = Some (chars_cfg, [])
   \<and> acquire_tokens chars_cfg CHARS_IDENTITY 5 None [] = (False, [])"
proof -
  obtain err st' where r: "configure_ingest 60 10 (Some 600) None unconfigured = (err, st')" by fastforce
  have "chars_limiter st' = Some (chars_cfg, []) \<and> err = None"
    using r by (simp add: configure_ingest_def token_bucket_init_def Let_def chars_cfg_def) auto
  then show ?thesis
    using r ingest_fails_closed [OF _ _ r, of 1 "\<lambda>_. 0" 1] by (simp add: unconfigured_def)
qed

text \<open>
  Principals do not share a bucket. With room for another bucket, a handled request of one
  subject leaves the bucket of any other subject exactly as it was, whatever addresses the two
  come from; and the same subject is counted in one bucket from every address.
\<close>

theorem handled_limit_per_subject:
  assumes "handled_limiter st = Some (c, bs)" and "int (length bs) < max_buckets c"
    and "rc_subject req = Some s1" and "rc_subject req' = Some s2" and "s1 \<noteq> []" and "s2 \<noteq> []" and "s1 \<noteq> s2"
    and "require_rc_handled_rate_limit cfg req clock response st = (r, st')"
  shows "(\<exists>bs'. handled_limiter st' = Some (c, bs')
      \<and> map_of bs' (rc_handled_ident req') = map_of bs (rc_handled_ident req'))
    \<and> rc_handled_ident (req\<lparr>remote_addr := addr\<rparr>) = rc_handled_ident req"
proof -
  have ids: "rc_handled_ident req' \<noteq> rc_handled_ident req"
    using assms(3-7) by (simp add: rc_handled_ident_def str_or_def)
  have "rc_handled_ident (req\<lparr>remote_addr := addr\<rparr>) = rc_handled_ident req"
    using assms(3,5) by (simp add: rc_handled_ident_def str_or_def)
  moreover have "\<exists>bs'. handled_limiter st' = Some (c, bs')
      \<and> map_of bs' (rc_handled_ident req') = map_of bs (rc_handled_ident req')"
    using assms(1,8) acquire_other_bucket [OF assms(2) ids, of 1 clock]
    by (auto simp: require_rc_handled_rate_limit_def get_limiter_def is_allowed_def Let_def
        split: if_splits prod.splits)
  ultimately show ?thesis by blast
qed

definition example_request :: "string \<Rightarrow> rc_request" where
  "example_request s = \<lparr>remote_addr = Some ''10.0.0.1'', rc_subject = Some s, rc_employee_id = None\<rparr>"

definition example_rc_config :: rc_config where
  "example_rc_config = \<lparr>rate_limit_enabled = True, ip_max_tokens = 30, ip_refill_per_sec = 1 / 2,
     handled_max_tokens = 60, handled_refill_per_sec = 1\<rparr>"

definition example_limiters :: rc_limiters where
  "example_limiters = \<lparr>ip_limiter = None, handled_limiter = Some (example_cfg, [])\<rparr>"

theorem handled_limit_per_subject_witness:
  "\<exists>r st' bs'. require_rc_handled_rate_limit example_rc_config (example_request ''a'') (Some 1) () example_limiters = (r, st')
     \<and> handled_limiter st' = Some (example_cfg, bs') \<and> map_of bs' (rc_handled_ident (example_request ''b'')) = None"
proof -
  obtain r st' where r: "require_rc_handled_rate_limit example_rc_config (example_request ''a'') (Some 1) () example_limiters = (r, st')"
    by fastforce
  have "handled_limiter example_limiters = Some (example_cfg, [])" "int (length ([] :: buckets)) < max_buckets example_cfg"
    "rc_subject (example_request ''a'') = Some ''a''" "rc_subject (example_request ''b'') = Some ''b''"
    by (simp_all add: example_limiters_def example_cfg_def example_request_def)
  from handled_limit_per_subject [OF this _ _ _ r] show ?thesis using r by auto
qed

end
