(* ===== verification/Subfolder_Queue.thy ===== *)
theory Subfolder_Queue
  imports Knovas_Prelude "HOL-Library.Char_ord" "HOL-Library.List_Lexorder"
begin

text \<open>
  The cursor over the top-level folders of a large archive (\<open>sync/subfolder_queue.py\<close>) and the
  sync window (\<open>sync/window.py\<close>).

  The table \<open>folder_queue\<close> is an association list keyed by the source root. A JSON column is kept
  as what \<open>json.loads\<close> makes of it: not JSON, JSON that is no list, or a list; \<open>None\<close> is a NULL or
  empty column. Paths are their strings. The directory listing comes from the operating system and
  is an argument: \<open>None\<close> when \<open>scandir\<close> fails, and per entry its name and the answer of
  \<open>is_dir\<close>, \<open>None\<close> when that call fails.
\<close>

datatype json_column = Not_Json | Json_Other | Json_List "string list"

record queue_row =
  subfolder_names :: json_column
  current_index :: nat
  scan_stack :: "json_column option"
  updated_at :: string

type_synonym folder_queue = "(string, queue_row) table"

type_synonym listing = "(string \<times> bool option) list option"

record subfolder_progress =
  source_root :: string
  current_subfolder :: "string option"
  progress_index :: nat
  total_subfolders :: nat
  completed :: bool

definition list_immediate_subdirs :: "listing \<Rightarrow> string list" where
  "list_immediate_subdirs scandir =
     (case scandir of None \<Rightarrow> []
      | Some entries \<Rightarrow> sort (map fst (filter (\<lambda>(name, is_dir). is_dir = Some True) entries)))"

fun json_strings :: "json_column \<Rightarrow> string list" where
  "json_strings (Json_List xs) = xs"
| "json_strings Not_Json = []"
| "json_strings Json_Other = []"

definition load_row :: "string \<Rightarrow> folder_queue \<Rightarrow> (string list \<times> nat \<times> string list) option" where
  "load_row key q =
     (case map_of q key of None \<Rightarrow> None
      | Some row \<Rightarrow> Some (json_strings (subfolder_names row), current_index row,
          (case scan_stack row of None \<Rightarrow> [] | Some col \<Rightarrow> json_strings col)))"

definition save_row ::
    "string \<Rightarrow> string \<Rightarrow> string list \<Rightarrow> nat \<Rightarrow> string list option \<Rightarrow> bool \<Rightarrow> folder_queue \<Rightarrow> folder_queue" where
  "save_row now key names index stack clear q =
     (let stack_json =
            (if clear then None
             else case stack of Some s \<Rightarrow> Some (Json_List s)
                  | None \<Rightarrow> (case map_of q key of Some existing \<Rightarrow> scan_stack existing | None \<Rightarrow> None))
      in AList.update key
           \<lparr>subfolder_names = Json_List names, current_index = index, scan_stack = stack_json, updated_at = now\<rparr> q)"

definition refresh :: "listing \<Rightarrow> string \<Rightarrow> string \<Rightarrow> folder_queue \<Rightarrow> string list \<times> folder_queue" where
  "refresh scandir now key q =
     (let names = list_immediate_subdirs scandir;
          row = load_row key q;
          index = (case row of Some (_, i, _) \<Rightarrow> i | None \<Rightarrow> 0);
          stack = (case row of Some (_, _, s) \<Rightarrow> s | None \<Rightarrow> []);
          index' = (if index \<ge> length names then (if names \<noteq> [] then max 0 (length names - 1) else 0) else index)
      in (names, save_row now key names index' (Some stack) False q))"

definition load_scan_stack :: "string \<Rightarrow> folder_queue \<Rightarrow> string list" where
  "load_scan_stack key q = (case load_row key q of None \<Rightarrow> [] | Some (_, _, s) \<Rightarrow> s)"

definition save_scan_stack :: "string \<Rightarrow> string \<Rightarrow> string list \<Rightarrow> folder_queue \<Rightarrow> folder_queue" where
  "save_scan_stack now key stack q =
     (case load_row key q of None \<Rightarrow> q
      | Some (names, index, _) \<Rightarrow> save_row now key names index (Some stack) False q)"

definition clear_scan_stack :: "string \<Rightarrow> string \<Rightarrow> folder_queue \<Rightarrow> folder_queue" where
  "clear_scan_stack now key q =
     (case load_row key q of None \<Rightarrow> q
      | Some (names, index, _) \<Rightarrow> save_row now key names index None True q)"

definition progress ::
    "listing \<Rightarrow> string \<Rightarrow> string \<Rightarrow> folder_queue \<Rightarrow> subfolder_progress \<times> folder_queue" where
  "progress scandir now key q =
     (let ((names, index), q') =
            (case load_row key q of
               None \<Rightarrow> (let (names, q') = refresh scandir now key q in ((names, 0), q'))
             | Some (names, index, _) \<Rightarrow> ((names, index), q))
      in (if names = [] then
            \<lparr>source_root = key, current_subfolder = None, progress_index = 0, total_subfolders = 0, completed = True\<rparr>
          else if index \<ge> length names then
            \<lparr>source_root = key, current_subfolder = None, progress_index = index,
             total_subfolders = length names, completed = True\<rparr>
          else
            \<lparr>source_root = key, current_subfolder = Some (names ! index), progress_index = index,
             total_subfolders = length names, completed = False\<rparr>, q'))"

text \<open>\<open>source_root / name\<close> for a name without separators.\<close>

definition path_join :: "string \<Rightarrow> string \<Rightarrow> string" where
  "path_join root name =
     (if root = ''.'' then name else if root = ''/'' then root @ name else root @ ''/'' @ name)"

definition current_path :: "listing \<Rightarrow> string \<Rightarrow> string \<Rightarrow> folder_queue \<Rightarrow> string option \<times> folder_queue" where
  "current_path scandir now key q =
     (let (prog, q') = progress scandir now key q
      in (if completed prog then None
          else case current_subfolder prog of None \<Rightarrow> None | Some name \<Rightarrow> Some (path_join key name), q'))"

text \<open>The comparison with \<open>len(names) - 1\<close> is one on integers, also for no names.\<close>

definition pausing_reasons :: "string list" where
  "pausing_reasons =
     [''stop_requested'', ''outside_window'', ''rate_limited'', ''scan_limit_reached'', ''cycle_time_limit'']"

definition maybe_advance ::
    "string \<Rightarrow> string \<Rightarrow> int \<Rightarrow> int \<Rightarrow> bool \<Rightarrow> string option \<Rightarrow> folder_queue \<Rightarrow> bool \<times> folder_queue" where
  "maybe_advance now key pending modified scan_truncated paused_reason q =
     (if scan_truncated then (False, q)
      else if (case paused_reason of None \<Rightarrow> False | Some r \<Rightarrow> r \<in> set pausing_reasons) then (False, q)
      else if pending > 0 \<or> modified > 0 then (False, q)
      else case load_row key q of None \<Rightarrow> (False, q)
      | Some (names, index, _) \<Rightarrow>
          if int index \<ge> int (length names) - 1
          then (True, save_row now key names (length names) None True q)
          else (True, save_row now key names (index + 1) None True q))"

section \<open>The sync window\<close>

text \<open>A time of day is its number of minutes since midnight.\<close>

definition parse_hhmm :: "string \<Rightarrow> nat py" where
  "parse_hhmm s =
     (case split_char (CHR '':'') (py_strip s) of
        h # m # _ \<Rightarrow>
          (case py_int h of Inl e \<Rightarrow> Inl e
           | Inr hh \<Rightarrow>
               (case py_int m of Inl e \<Rightarrow> Inl e
                | Inr mm \<Rightarrow> if 0 \<le> hh \<and> hh < 24 \<and> 0 \<le> mm \<and> mm < 60 then Inr (nat (60 * hh + mm)) else Inl ValueError))
      | h # [] \<Rightarrow> (case py_int h of Inl e \<Rightarrow> Inl e | Inr _ \<Rightarrow> Inl IndexError)
      | [] \<Rightarrow> Inl IndexError)"

text \<open>\<open>local\<close> is the local minute of the day of \<open>now.astimezone(tz)\<close>.\<close>

definition is_in_window :: "nat \<Rightarrow> string \<Rightarrow> string \<Rightarrow> bool py" where
  "is_in_window local_minute start end_text =
     (case parse_hhmm start of Inl e \<Rightarrow> Inl e
      | Inr start_t \<Rightarrow>
          (case parse_hhmm end_text of Inl e \<Rightarrow> Inl e
           | Inr end_t \<Rightarrow>
               if start_t \<le> end_t then Inr (start_t \<le> local_minute \<and> local_minute < end_t)
               else Inr (local_minute \<ge> start_t \<or> local_minute < end_t)))"

section \<open>Rows\<close>

lemma load_save [table_simps]:
  "load_row k (save_row now key names index stack clear q) =
     (if k = key then Some (names, index,
        if clear then [] else case stack of Some s \<Rightarrow> s
          | None \<Rightarrow> (case load_row key q of Some (_, _, s) \<Rightarrow> s | None \<Rightarrow> []))
      else load_row k q)"
  by (auto simp: load_row_def save_row_def at.lookup_put Let_def split: option.splits)

lemma load_refresh:
  "load_row k (snd (refresh scandir now key q)) =
     (if k = key then
        (let names = list_immediate_subdirs scandir;
             i = (case load_row key q of Some (_, i, _) \<Rightarrow> i | None \<Rightarrow> 0)
         in Some (names, min i (length names - 1), load_scan_stack key q))
      else load_row k q)"
  by (auto simp: refresh_def load_scan_stack_def Let_def load_save split: option.splits)

lemma progress_row:
  assumes "load_row key q = Some (names, i, s)"
  shows "progress scandir now key q =
    (\<lparr>source_root = key, current_subfolder = (if i < length names then Some (names ! i) else None),
      progress_index = (if names = [] then 0 else i), total_subfolders = length names,
      completed = (length names \<le> i)\<rparr>, q)"
  using assms by (simp add: progress_def Let_def)

lemma current_path_row:
  assumes "load_row key q = Some (names, i, s)"
  shows "current_path scandir now key q =
    (if i < length names then Some (path_join key (names ! i)) else None, q)"
  by (simp add: current_path_def progress_row [OF assms])

text \<open>A clean cycle found no work left and was not cut short.\<close>

record cycle_obs =
  cycle_listing :: listing
  cycle_now :: string
  cycle_pending :: int
  cycle_modified :: int
  cycle_truncated :: bool
  cycle_paused :: "string option"

definition clean_cycle :: "cycle_obs \<Rightarrow> bool" where
  "clean_cycle c \<longleftrightarrow> \<not> cycle_truncated c \<and> cycle_pending c \<le> 0 \<and> cycle_modified c \<le> 0 \<and>
     (case cycle_paused c of None \<Rightarrow> True | Some r \<Rightarrow> r \<notin> set pausing_reasons)"

definition advance_cycle :: "string \<Rightarrow> cycle_obs \<Rightarrow> folder_queue \<Rightarrow> bool \<times> folder_queue" where
  "advance_cycle key c q = maybe_advance (cycle_now c) key (cycle_pending c) (cycle_modified c)
     (cycle_truncated c) (cycle_paused c) q"

text \<open>The folders a run of sync cycles works on: each cycle asks for the current path, works, and
  may advance.\<close>

fun sync_cycles :: "string \<Rightarrow> cycle_obs list \<Rightarrow> folder_queue \<Rightarrow> string option list" where
  "sync_cycles key [] q = []"
| "sync_cycles key (c # cs) q =
     (let (path, q1) = current_path (cycle_listing c) (cycle_now c) key q
      in path # sync_cycles key cs (snd (advance_cycle key c q1)))"

lemma advance_cycle_row:
  assumes "load_row key q = Some (names, i, s)" and "i \<le> length names"
  shows "fst (advance_cycle key c q) = clean_cycle c"
    and "\<exists>s'. load_row key (snd (advance_cycle key c q)) =
      Some (names, if clean_cycle c then min (Suc i) (length names) else i, s') \<and> (clean_cycle c \<longrightarrow> s' = [])"
  using assms
  by (auto simp: advance_cycle_def maybe_advance_def clean_cycle_def load_save split: option.splits)

lemma sync_cycles_row:
  assumes "load_row key q = Some (names, i, s)" and "i \<le> length names"
  shows "sync_cycles key cs q = map (\<lambda>j. let k = i + length (filter clean_cycle (take j cs))
     in if k < length names then Some (path_join key (names ! k)) else None) [0..<length cs]"
  using assms
proof (induction cs arbitrary: q i s)
  case Nil
  then show ?case by simp
next
  case (Cons c cs)
  let ?i = "if clean_cycle c then min (Suc i) (length names) else i"
  obtain s' where step: "load_row key (snd (advance_cycle key c q)) = Some (names, ?i, s')"
    using advance_cycle_row(2) [OF Cons.prems] by blast
  have rest: "map f [0..<Suc (length cs)] = f 0 # map (\<lambda>j. f (Suc j)) [0..<length cs]" for f :: "nat \<Rightarrow> string option"
    by (simp add: upt_conv_Cons map_Suc_upt [symmetric] del: upt_Suc)
  have "sync_cycles key (c # cs) q = (if i < length names then Some (path_join key (names ! i)) else None)
      # sync_cycles key cs (snd (advance_cycle key c q))"
    by (simp add: current_path_row [OF Cons.prems(1)] Let_def)
  with Cons.IH [OF step] Cons.prems(2) show ?case
    by (auto simp: rest Let_def min_def not_less simp del: sync_cycles.simps upt_Suc)
qed

section \<open>Properties\<close>

text \<open>
  The archive walk. From an unknown source root, whatever the later directory listings say,
  a run of cycles works on the subfolders of the first listing in sorted order: the cycle after
  \<open>k\<close> clean ones works on the \<open>k\<close>-th, so none is skipped or left before a clean cycle on it, and
  past the last one there is nothing to work on.
\<close>

theorem archive_walk:
  assumes "map_of q key = None"
  shows "sync_cycles key (c # cs) q =
    (let names = list_immediate_subdirs (cycle_listing c)
     in map (\<lambda>j. let k = length (filter clean_cycle (take j (c # cs)))
          in if k < length names then Some (path_join key (names ! k)) else None) [0..<length (c # cs)])"
proof -
  let ?names = "list_immediate_subdirs (cycle_listing c)"
  define q1 where "q1 = snd (refresh (cycle_listing c) (cycle_now c) key q)"
  have fresh: "load_row key q = None" using assms by (simp add: load_row_def)
  have row: "load_row key q1 = Some (?names, 0, [])"
    by (simp add: q1_def load_refresh fresh load_scan_stack_def Let_def)
  have "current_path (cycle_listing c) (cycle_now c) key q = current_path (cycle_listing c) (cycle_now c) key q1"
    using fresh by (simp add: current_path_row [OF row])
      (simp add: current_path_def progress_def Let_def split_def q1_def refresh_def)
  then have "sync_cycles key (c # cs) q = sync_cycles key (c # cs) q1" by simp
  also have "\<dots> = map (\<lambda>j. let k = 0 + length (filter clean_cycle (take j (c # cs)))
      in if k < length ?names then Some (path_join key (?names ! k)) else None) [0..<length (c # cs)]"
    by (rule sync_cycles_row [OF row]) simp
  finally show ?thesis by (simp add: Let_def)
qed

definition example_cycle :: "int \<Rightarrow> cycle_obs" where
  "example_cycle pending = \<lparr>cycle_listing = Some [(''b'', Some True), (''f.txt'', Some False), (''a'', Some True)],
     cycle_now = ''t'', cycle_pending = pending, cycle_modified = 0, cycle_truncated = False, cycle_paused = None\<rparr>"

theorem archive_walk_witness:
  "map_of ([] :: folder_queue) ''/x'' = None
   \<and> sync_cycles ''/x'' [example_cycle 2, example_cycle 0, example_cycle 0, example_cycle 0] []
     = [Some ''/x/a'', Some ''/x/a'', Some ''/x/b'', None]"
  unfolding archive_walk [of "[]" "''/x''" "example_cycle 2" "[example_cycle 0, example_cycle 0, example_cycle 0]", simplified map_of.simps, OF refl]
  by code_simp

text \<open>
  The saved scan position. For a tracked root, saving the directory stack and loading it gives
  it back, clearing it gives the empty stack, and both keep the folder list and the cursor. An
  advance moves the cursor one folder on, at most past the last, and drops the stack, and a refused
  one changes nothing. No other root is touched.
\<close>

theorem scan_stack_roundtrip:
  assumes "load_row key q = Some (names, i, s)"
  shows "load_row k (save_scan_stack now key stack q) = (if k = key then Some (names, i, stack) else load_row k q)
    \<and> load_row k (clear_scan_stack now key q) = (if k = key then Some (names, i, []) else load_row k q)
    \<and> (let (moved, q') = maybe_advance now key pending modified truncated paused q
       in load_row k q' = (if k = key \<and> moved then Some (names, min (Suc i) (length names), []) else load_row k q))"
  using assms
  by (auto simp: save_scan_stack_def clear_scan_stack_def load_save maybe_advance_def Let_def
      split: option.splits if_splits)

definition example_queue :: folder_queue where
  "example_queue = [(''/x'', \<lparr>subfolder_names = Json_List [''a'', ''b''], current_index = 0, scan_stack = None, updated_at = ''t''\<rparr>)]"

theorem scan_stack_roundtrip_witness:
  "load_row ''/x'' example_queue = Some ([''a'', ''b''], 0, [])
   \<and> load_scan_stack ''/x'' (save_scan_stack ''u'' ''/x'' [''/x/a/1''] example_queue) = [''/x/a/1'']"
proof -
  have row: "load_row ''/x'' example_queue = Some ([''a'', ''b''], 0, [])" by code_simp
  then show ?thesis
    using scan_stack_roundtrip [OF row, of "''/x''" "''u''" "[''/x/a/1'']"] by (simp add: load_scan_stack_def)
qed

text \<open>
  The sync window. A window and the one with its ends swapped split the day: at every minute
  exactly one of the two is open, overnight windows included, unless the ends are equal, and then
  neither ever is.
\<close>

theorem window_complement:
  assumes "parse_hhmm a = Inr s" and "parse_hhmm b = Inr e"
  shows "\<exists>x y. is_in_window m a b = Inr x \<and> is_in_window m b a = Inr y
    \<and> (if s = e then \<not> x \<and> \<not> y else x \<noteq> y)
    \<and> (s < e \<longrightarrow> (x \<longleftrightarrow> s \<le> m \<and> m < e)) \<and> s < 1440 \<and> e < 1440"
proof -
  have "parse_hhmm a = Inr s \<Longrightarrow> s < 1440" for a s
    by (auto simp: parse_hhmm_def split: list.splits sum.splits if_splits)
  then have "s < 1440" "e < 1440" using assms by blast+
  with assms show ?thesis by (auto simp: is_in_window_def)
qed

theorem window_complement_witness:
  "parse_hhmm ''22:00'' = Inr 1320 \<and> parse_hhmm '' 6:30'' = Inr 390
   \<and> is_in_window 60 ''22:00'' '' 6:30'' = Inr True \<and> is_in_window 60 '' 6:30'' ''22:00'' = Inr False"
proof -
  have p: "parse_hhmm ''22:00'' = Inr 1320" "parse_hhmm '' 6:30'' = Inr 390" by code_simp+
  have "is_in_window 60 ''22:00'' '' 6:30'' = Inr True" by code_simp
  with window_complement [OF p, of 60] p show ?thesis by auto
qed

end
