(* ===== verification/Python_Values.thy ===== *)
theory Python_Values
  imports Complex_Main Knovas_Prelude "HOL-Library.Char_ord" "HOL-Library.List_Lexorder"
begin

text \<open>
  Values shared by the state stores: decoded JSON, decimal printing of integers and its round trip
  with \<open>int\<close>, splitting with a bound on the number of cuts, and prefix matching as SQLite's
  \<open>LIKE\<close> does it.
\<close>

datatype jval =
    JNull
  | JBool bool
  | JInt int
  | JReal rat
  | JStr string
  | JArr "jval list"
  | JObj "(string \<times> jval) list"

fun jget :: "jval \<Rightarrow> string \<Rightarrow> jval" where
  "jget (JObj obj) k = (case map_of obj k of Some v \<Rightarrow> v | None \<Rightarrow> JNull)"
| "jget _ k = JNull"

section \<open>Decimal numbers\<close>

definition digit_char :: "nat \<Rightarrow> char" where
  "digit_char d = char_of (48 + d)"

fun show_nat :: "nat \<Rightarrow> string" where
  "show_nat n = (if n < 10 then [digit_char n] else show_nat (n div 10) @ [digit_char (n mod 10)])"

declare show_nat.simps [simp del]

definition show_int :: "int \<Rightarrow> string" where
  "show_int i = (if i < 0 then CHR ''-'' # show_nat (nat (- i)) else show_nat (nat i))"

lemma digit_char_ok: "d < 10 \<Longrightarrow> is_digit (digit_char d) \<and> digit_value (digit_char d) = d"
  by (simp add: is_digit_def digit_value_def digit_char_def)

lemma show_nat_digits: "show_nat n \<noteq> [] \<and> list_all is_digit (show_nat n)"
proof (induction n rule: show_nat.induct)
  case (1 n)
  then show ?case by (simp add: show_nat.simps [of n] digit_char_ok)
qed

lemma digits_value_show: "digits_value (show_nat n) = n"
proof (induction n rule: show_nat.induct)
  case (1 n)
  then show ?case by (simp add: show_nat.simps [of n] digits_value_def digit_char_ok)
qed

lemma is_digit_neq: "is_digit c \<Longrightarrow> \<not> is_digit d \<Longrightarrow> c \<noteq> d"
  by auto

lemma digit_no_space: "is_digit c \<Longrightarrow> \<not> py_space c"
  by (auto simp: is_digit_def py_space_def)

lemma py_strip_ends:
  "s \<noteq> [] \<Longrightarrow> \<not> py_space (hd s) \<Longrightarrow> \<not> py_space (last s) \<Longrightarrow> py_strip s = s"
proof -
  assume s: "s \<noteq> []" "\<not> py_space (hd s)" "\<not> py_space (last s)"
  have "py_lstrip py_space s = s" using s by (cases s) (simp_all add: py_lstrip_def)
  moreover have "py_rstrip py_space s = s" using s by (cases s rule: rev_cases) (simp_all add: py_rstrip_def)
  ultimately show ?thesis by (simp add: py_strip_def)
qed

lemma digits_not_special:
  "\<not> is_digit (CHR ''-'')" "\<not> is_digit (CHR ''+'')" "\<not> is_digit (CHR ''_'')" "\<not> is_digit (CHR ''|'')"
  by code_simp+

lemma py_int_show_int: "py_int (show_int i) = Inr i"
proof -
  have nat: "show_nat n \<noteq> []" "list_all is_digit (show_nat n)" "\<not> py_space (hd (show_nat n))"
    "\<not> py_space (last (show_nat n))" "hd (show_nat n) \<noteq> CHR ''-''" "hd (show_nat n) \<noteq> CHR ''+''"
    "split_char (CHR ''_'') (show_nat n) = [show_nat n]" for n
    using show_nat_digits [of n] digits_not_special
    by (auto simp: list_all_iff digit_no_space intro!: split_char_plain dest: hd_in_set last_in_set)
  have "\<not> py_space (CHR ''-'')" by code_simp
  then show ?thesis
    by (cases "i < 0") (simp_all add: py_int_def show_int_def py_strip_ends nat digits_value_show Let_def)
qed

lemma show_int_no_pipe: "CHR ''|'' \<notin> set (show_int i)"
  using show_nat_digits digits_not_special by (auto simp: show_int_def list_all_iff)

text \<open>\<open>collections.Counter\<close>, and the truth of a decoded JSON value.\<close>

definition tally :: "('k, int) table \<Rightarrow> 'k \<Rightarrow> int" where
  "tally c k = (case map_of c k of Some n \<Rightarrow> n | None \<Rightarrow> 0)"

definition tally_add :: "'k \<Rightarrow> int \<Rightarrow> ('k, int) table \<Rightarrow> ('k, int) table" where
  "tally_add k n c = AList.update k (tally c k + n) c"

fun jtruthy :: "jval \<Rightarrow> bool" where
  "jtruthy JNull = False"
| "jtruthy (JBool b) = b"
| "jtruthy (JInt n) = (n \<noteq> 0)"
| "jtruthy (JReal r) = (r \<noteq> 0)"
| "jtruthy (JStr s) = (s \<noteq> [])"
| "jtruthy (JArr xs) = (xs \<noteq> [])"
| "jtruthy (JObj kvs) = (kvs \<noteq> [])"

section \<open>Strings\<close>

text \<open>\<open>s.split(c, n)\<close>: at most \<open>n\<close> cuts, the rest stays in the last piece.\<close>

fun split_max :: "nat \<Rightarrow> char \<Rightarrow> string \<Rightarrow> string list" where
  "split_max 0 d s = [s]"
| "split_max (Suc n) d [] = [[]]"
| "split_max (Suc n) d (c # cs) =
     (if c = d then [] # split_max n d cs
      else case split_max (Suc n) d cs of [] \<Rightarrow> [[c]] | p # ps \<Rightarrow> (c # p) # ps)"

lemma split_max_append: "d \<notin> set a \<Longrightarrow> split_max (Suc n) d (a @ d # b) = a # split_max n d b"
  by (induction a) auto

text \<open>ASCII lower case; \<open>LIKE 'p%'\<close> ignores the case of ASCII letters.\<close>

definition ascii_lower :: "char \<Rightarrow> char" where
  "ascii_lower c = (let n = (of_char c :: nat) in if 65 \<le> n \<and> n \<le> 90 then char_of (n + 32) else c)"

definition like_prefix :: "string \<Rightarrow> string \<Rightarrow> bool" where
  "like_prefix p s \<longleftrightarrow> map ascii_lower (take (length p) s) = map ascii_lower p"

text \<open>\<open>sep.join(parts)\<close> for one separator character.\<close>

fun py_join :: "char \<Rightarrow> string list \<Rightarrow> string" where
  "py_join d [] = []"
| "py_join d [x] = x"
| "py_join d (x # xs) = x @ d # py_join d xs"

text \<open>
  \<open>str.casefold\<close>. Folded text is a list of code points, because folding leaves the characters below 256: the sharp s
  becomes two letters and the micro sign a Greek letter. Text below 256 is in NFC already, and so is its folding.
\<close>

definition fold_char :: "char \<Rightarrow> nat list" where
  "fold_char c =
     (let n = (of_char c :: nat)
      in if 65 \<le> n \<and> n \<le> 90 then [n + 32]
         else if 192 \<le> n \<and> n \<le> 222 \<and> n \<noteq> 215 then [n + 32]
         else if n = 223 then [115, 115]
         else if n = 181 then [956]
         else [n])"

definition casefold :: "string \<Rightarrow> nat list" where
  "casefold s = concat (map fold_char s)"

definition lower_char :: "char \<Rightarrow> char" where
  "lower_char c = (let n = (of_char c :: nat) in if 65 \<le> n \<and> n \<le> 90 \<or> 192 \<le> n \<and> n \<le> 222 \<and> n \<noteq> 215 then char_of (n + 32) else c)"

definition py_lower :: "string \<Rightarrow> string" where
  "py_lower s = map lower_char s"

definition code_points :: "string \<Rightarrow> nat list" where
  "code_points s = map of_char s"

text \<open>\<open>s.replace("\\", "/")\<close>.\<close>

definition unbackslash :: "string \<Rightarrow> string" where
  "unbackslash s = map (\<lambda>c. if c = CHR 0x5C then CHR ''/'' else c) s"

lemma split_char_no_sep: "s \<in> set (split_char d t) \<Longrightarrow> d \<notin> set s"
  by (induction d t arbitrary: s rule: split_char.induct) (auto split: list.splits if_splits)

lemma split_char_join:
  "xs \<noteq> [] \<Longrightarrow> \<forall>x \<in> set xs. d \<notin> set x \<Longrightarrow> split_char d (py_join d xs) = xs"
  by (induction d xs rule: py_join.induct) (simp_all add: split_char_plain split_char_append)

lemma py_join_Cons: "xs \<noteq> [] \<Longrightarrow> py_join d (x # xs) = x @ d # py_join d xs"
  by (cases xs) simp_all

lemma py_join_head: "py_join d ((c # p) # ps) = c # py_join d (p # ps)"
  by (cases ps) simp_all

lemma py_join_split: "py_join d (split_char d s) = s"
proof (induction s)
  case (Cons c s)
  then show ?case by (auto simp: py_join_Cons py_join_head split: list.split)
qed simp

end
