(* ===== verification/Sync_State_Db.thy ===== *)
theory Sync_State_Db
  imports Python_Values
begin

text \<open>
  The SQLite sync state of the Connector (\<open>sync/sync_state_db.py\<close>). A table is an association list
  keyed by \<open>relative_path\<close>, one row each; an \<open>UPDATE ... WHERE\<close> maps over the rows and its
  \<open>rowcount\<close> is the number of rows its condition selects; NULL is \<open>None\<close>, and a comparison with
  NULL selects nothing. A note column is what \<open>json.loads\<close> makes of it, \<open>None\<close> when it is not
  JSON. The time of day is an argument. Opening the file, adding columns to an older file and
  reading the legacy file from disk are left out; \<open>normalize_json_documents\<close>, the conversion of
  its content, is here.
\<close>

section \<open>State\<close>

record doc_row =
  mtime_iso :: string
  size_bytes :: int
  last_uploaded_at :: "string option"
  transmission_key_id :: "string option"
  fields_digest :: "string option"
  fields_sent :: bool
  fields_outcome :: "string option"
  fields_warning_codes :: "string list option"
  fields_attempts :: int
  extraction_stamp :: "string option"
  text_sha256 :: "string option"
  resend_reason :: "string option"
  resend_attempts :: int

record retry_row =
  retry_count :: int
  last_error :: "string option"
  retry_updated_at :: string

type_synonym jdict = "(string \<times> jval) list"

record sync_db =
  documents :: "(string, doc_row) table"
  partial_documents :: "(string, jval option \<times> string) table"
  extract_retries :: "(string, retry_row) table"

type_synonym fingerprint = "string \<times> int"
type_synonym fp_map = "(string, fingerprint) table"

definition new_row :: "string \<Rightarrow> int \<Rightarrow> string \<Rightarrow> string \<Rightarrow> doc_row" where
  "new_row mtime sz now key_id =
     \<lparr>mtime_iso = mtime, size_bytes = sz, last_uploaded_at = Some now, transmission_key_id = Some key_id,
      fields_digest = None, fields_sent = False, fields_outcome = None, fields_warning_codes = None,
      fields_attempts = 0, extraction_stamp = None, text_sha256 = None, resend_reason = None, resend_attempts = 0\<rparr>"

definition RESEND_REEXTRACT :: string where "RESEND_REEXTRACT = ''reextract''"
definition RESEND_KEPT :: string where "RESEND_KEPT = ''kept''"
definition REQUEUE_DIGEST :: string where "REQUEUE_DIGEST = ''requeue''"
definition MAX_LAST_ERROR_CHARS :: nat where "MAX_LAST_ERROR_CHARS = 500"

text \<open>\<open>FieldsRecord\<close>, \<open>FieldsState\<close> and \<open>ExtractionState\<close>.\<close>

record fields_record =
  rec_digest :: "string option"
  rec_outcome :: string
  rec_sent :: "bool option"
  rec_warning_codes :: "string list"
  rec_count_attempt :: bool

record fields_state_t =
  fs_digest :: "string option"
  fs_sent :: bool
  fs_outcome :: "string option"
  fs_attempts :: int

record extraction_state_t =
  es_stamp :: "string option"
  es_text_sha256 :: "string option"
  es_resend_reason :: "string option"
  es_resend_attempts :: int

text \<open>\<open>UPDATE ... WHERE relative_path = ?\<close> and \<open>UPDATE ... WHERE cond\<close>, with their row counts.\<close>

definition update_row :: "string \<Rightarrow> ('v \<Rightarrow> 'v) \<Rightarrow> (string, 'v) table \<Rightarrow> (string, 'v) table" where
  "update_row key f t = tmap (\<lambda>k v. if k = key then f v else v) t"

definition update_where :: "('v \<Rightarrow> bool) \<Rightarrow> ('v \<Rightarrow> 'v) \<Rightarrow> (string, 'v) table \<Rightarrow> int \<times> (string, 'v) table" where
  "update_where cond f t = (int (length (filter (\<lambda>(k, v). cond v) t)), tmap (\<lambda>k v. if cond v then f v else v) t)"

definition count_where :: "('v \<Rightarrow> bool) \<Rightarrow> (string, 'v) table \<Rightarrow> int" where
  "count_where cond t = int (length (filter (\<lambda>(k, v). cond v) t))"

section \<open>Fingerprints\<close>

definition row_fingerprint :: "doc_row \<Rightarrow> fingerprint" where
  "row_fingerprint r = (mtime_iso r, size_bytes r)"

definition load_fingerprints :: "sync_db \<Rightarrow> fp_map" where
  "load_fingerprints db = map (\<lambda>(k, r). (k, row_fingerprint r)) (documents db)"

definition count_tracked :: "sync_db \<Rightarrow> int" where
  "count_tracked db = int (length (documents db))"

definition lookup_fingerprint :: "sync_db \<Rightarrow> fp_map \<Rightarrow> string \<Rightarrow> fingerprint option \<times> fp_map" where
  "lookup_fingerprint db fps path =
     (case map_of fps path of
        Some fp \<Rightarrow> (Some fp, fps)
      | None \<Rightarrow>
          (case map_of (documents db) path of
             None \<Rightarrow> (None, fps)
           | Some row \<Rightarrow> (Some (row_fingerprint row), AList.update path (row_fingerprint row) fps)))"

definition write_fields :: "string \<Rightarrow> fields_record \<Rightarrow> (string, doc_row) table \<Rightarrow> (string, doc_row) table" where
  "write_fields path r t =
     update_row path (\<lambda>row. row\<lparr>
       fields_outcome := Some (rec_outcome r),
       fields_warning_codes := Some (rec_warning_codes r),
       fields_attempts := (if rec_count_attempt r then fields_attempts row + 1 else 0),
       fields_digest := (case rec_digest r of Some d \<Rightarrow> Some d | None \<Rightarrow> fields_digest row),
       fields_sent := (case rec_sent r of Some b \<Rightarrow> b | None \<Rightarrow> fields_sent row)\<rparr>) t"

definition upsert_row :: "string \<Rightarrow> string \<Rightarrow> string \<Rightarrow> int \<Rightarrow> string \<Rightarrow> (string, doc_row) table \<Rightarrow> (string, doc_row) table" where
  "upsert_row now path mtime sz key_id t =
     (case map_of t path of
        None \<Rightarrow> AList.update path (new_row mtime sz now key_id) t
      | Some row \<Rightarrow> AList.update path (row\<lparr>mtime_iso := mtime, size_bytes := sz,
          last_uploaded_at := Some now, transmission_key_id := Some key_id\<rparr>) t)"

definition record_upload ::
    "string \<Rightarrow> string \<Rightarrow> string \<Rightarrow> int \<Rightarrow> string \<Rightarrow> fp_map option \<Rightarrow> fields_record option \<Rightarrow> sync_db \<Rightarrow> fp_map option \<times> sync_db" where
  "record_upload now path mtime sz key_id fps frec db =
     (let docs = upsert_row now path mtime sz key_id (documents db);
          docs' = (case frec of Some r \<Rightarrow> write_fields path r docs | None \<Rightarrow> docs)
      in (map_option (AList.update path (mtime, sz)) fps, db\<lparr>documents := docs'\<rparr>))"

section \<open>Document fields\<close>

definition attempts :: "sync_db \<Rightarrow> string \<Rightarrow> int option" where
  "attempts db path = map_option fields_attempts (map_of (documents db) path)"

definition update_fields :: "string \<Rightarrow> fields_record \<Rightarrow> sync_db \<Rightarrow> int option \<times> sync_db" where
  "update_fields path r db =
     (let db' = db\<lparr>documents := write_fields path r (documents db)\<rparr> in (attempts db' path, db'))"

definition increment_fields_attempts :: "string \<Rightarrow> sync_db \<Rightarrow> int \<times> sync_db" where
  "increment_fields_attempts path db =
     (let db' = db\<lparr>documents := update_row path (\<lambda>row. row\<lparr>fields_attempts := fields_attempts row + 1\<rparr>) (documents db)\<rparr>
      in (case attempts db' path of Some n \<Rightarrow> n | None \<Rightarrow> 0, db'))"

definition row_fields_state :: "doc_row \<Rightarrow> fields_state_t" where
  "row_fields_state row = \<lparr>fs_digest = fields_digest row, fs_sent = fields_sent row,
     fs_outcome = fields_outcome row, fs_attempts = fields_attempts row\<rparr>"

definition load_fields_states :: "sync_db \<Rightarrow> (string, fields_state_t) table" where
  "load_fields_states db = map (\<lambda>(k, row). (k, row_fields_state row)) (documents db)"

definition fields_state :: "string \<Rightarrow> sync_db \<Rightarrow> fields_state_t option" where
  "fields_state path db = map_option row_fields_state (map_of (documents db) path)"

definition outcome_is :: "string \<Rightarrow> doc_row \<Rightarrow> bool" where
  "outcome_is s row \<longleftrightarrow> fields_outcome row = Some s"

definition outcome_like :: "string \<Rightarrow> doc_row \<Rightarrow> bool" where
  "outcome_like p row \<longleftrightarrow> (case fields_outcome row of None \<Rightarrow> False | Some s \<Rightarrow> like_prefix p s)"

text \<open>\<open>_REQUEUE_WHERE\<close>: the condition of a selector, \<open>None\<close> for an unknown one.\<close>

definition requeue_where :: "string \<Rightarrow> (doc_row \<Rightarrow> bool) option" where
  "requeue_where outcome =
     (if outcome = ''not_accepted'' then Some (outcome_is ''not_accepted'')
      else if outcome = ''refused'' then Some (outcome_like ''refused:'')
      else if outcome = ''reupload_failed'' then Some (outcome_like ''reupload_failed:'')
      else if outcome = ''all'' then
        Some (\<lambda>row. outcome_is ''not_accepted'' row \<or> outcome_like ''refused:'' row \<or> outcome_like ''reupload_failed:'' row)
      else None)"

definition digest_set :: "doc_row \<Rightarrow> bool" where
  "digest_set row \<longleftrightarrow> (case fields_digest row of None \<Rightarrow> False | Some d \<Rightarrow> d \<noteq> REQUEUE_DIGEST)"

definition requeue_candidates :: "string \<Rightarrow> string list option \<Rightarrow> sync_db \<Rightarrow> string list py" where
  "requeue_candidates outcome paths db =
     (case requeue_where outcome of None \<Rightarrow> Inl ValueError
      | Some wh \<Rightarrow>
          (let found = map fst (filter (\<lambda>(k, row). wh row \<and> digest_set row) (documents db))
           in Inr (case paths of None \<Rightarrow> found | Some ps \<Rightarrow> filter (\<lambda>p. p \<in> set ps) found)))"

definition requeue_row :: "doc_row \<Rightarrow> doc_row" where
  "requeue_row row = row\<lparr>fields_digest := (if fields_sent row then Some REQUEUE_DIGEST else None), fields_attempts := 0\<rparr>"

text \<open>\<open>executemany\<close>: one \<open>UPDATE\<close> per selected path, the row counts added up.\<close>

fun requeue_each :: "(doc_row \<Rightarrow> bool) \<Rightarrow> string list \<Rightarrow> (string, doc_row) table \<Rightarrow> int \<times> (string, doc_row) table" where
  "requeue_each wh [] t = (0, t)"
| "requeue_each wh (p # ps) t =
     (let hit = (case map_of t p of None \<Rightarrow> False | Some row \<Rightarrow> wh row \<and> digest_set row);
          (n, t') = requeue_each wh ps
            (update_row p (\<lambda>row. if wh row \<and> digest_set row then requeue_row row else row) t)
      in (n + (if hit then 1 else 0), t'))"

definition requeue_fields :: "string \<Rightarrow> string list option \<Rightarrow> sync_db \<Rightarrow> int py \<times> sync_db" where
  "requeue_fields outcome paths db =
     (case requeue_candidates outcome paths db of
        Inl e \<Rightarrow> (Inl e, db)
      | Inr selected \<Rightarrow>
          if selected = [] then (Inr 0, db)
          else case requeue_where outcome of None \<Rightarrow> (Inl KeyError, db)
          | Some wh \<Rightarrow>
              (let (count, docs) = requeue_each wh selected (documents db)
               in (Inr count, db\<lparr>documents := docs,
                     extract_retries := fold AList.delete selected (extract_retries db)\<rparr>)))"

definition count_fields_requeue_candidates :: "string \<Rightarrow> string list option \<Rightarrow> sync_db \<Rightarrow> int py" where
  "count_fields_requeue_candidates outcome paths db =
     (case requeue_candidates outcome paths db of Inl e \<Rightarrow> Inl e | Inr ps \<Rightarrow> Inr (int (length ps)))"

definition fields_requeue_candidate_paths :: "string \<Rightarrow> sync_db \<Rightarrow> string list py" where
  "fields_requeue_candidate_paths outcome db = requeue_candidates outcome None db"

definition digest_waiting :: "doc_row \<Rightarrow> bool" where
  "digest_waiting row \<longleftrightarrow> (case fields_digest row of None \<Rightarrow> True | Some d \<Rightarrow> d = REQUEUE_DIGEST)"

record fields_counts_t =
  with_fields :: int
  refused :: int
  not_accepted :: int
  reupload_failed :: int
  accepted :: int
  requeued :: int
  not_accepted_requeued :: int

definition fields_counts :: "sync_db \<Rightarrow> fields_counts_t" where
  "fields_counts db =
     (let count = (\<lambda>cond. count_where cond (documents db))
      in \<lparr>with_fields = count fields_sent,
          refused = count (outcome_like ''refused:''),
          not_accepted = count (outcome_is ''not_accepted''),
          reupload_failed = count (outcome_like ''reupload_failed:''),
          accepted = count (\<lambda>row. outcome_is ''staged'' row \<or> outcome_is ''cleared'' row),
          requeued = count (\<lambda>row. fields_outcome row \<noteq> None \<and> digest_waiting row),
          not_accepted_requeued = count (\<lambda>row. outcome_is ''not_accepted'' row \<and> digest_waiting row)\<rparr>)"

section \<open>Re-extraction\<close>

definition extraction_state :: "string \<Rightarrow> sync_db \<Rightarrow> extraction_state_t option" where
  "extraction_state path db =
     map_option (\<lambda>row. \<lparr>es_stamp = extraction_stamp row, es_text_sha256 = text_sha256 row,
       es_resend_reason = resend_reason row, es_resend_attempts = resend_attempts row\<rparr>) (map_of (documents db) path)"

definition tracked :: "string \<Rightarrow> sync_db \<Rightarrow> bool" where
  "tracked path db \<longleftrightarrow> map_of (documents db) path \<noteq> None"

definition set_extraction :: "string \<Rightarrow> string option \<Rightarrow> string option \<Rightarrow> sync_db \<Rightarrow> bool \<times> sync_db" where
  "set_extraction path stamp sha db =
     (tracked path db, db\<lparr>documents := update_row path (\<lambda>row. row\<lparr>extraction_stamp := stamp, text_sha256 := sha,
        resend_reason := None, resend_attempts := 0\<rparr>) (documents db)\<rparr>)"

definition set_extraction_stamp :: "string \<Rightarrow> string \<Rightarrow> sync_db \<Rightarrow> bool \<times> sync_db" where
  "set_extraction_stamp path stamp db =
     (tracked path db, db\<lparr>documents := update_row path (\<lambda>row. row\<lparr>extraction_stamp := Some stamp,
        resend_reason := None, resend_attempts := 0\<rparr>) (documents db)\<rparr>)"

definition set_extraction_kept :: "string \<Rightarrow> string \<Rightarrow> sync_db \<Rightarrow> bool \<times> sync_db" where
  "set_extraction_kept path stamp db =
     (tracked path db, db\<lparr>documents := update_row path (\<lambda>row. row\<lparr>extraction_stamp := Some stamp,
        resend_reason := Some RESEND_KEPT, resend_attempts := 0\<rparr>) (documents db)\<rparr>)"

definition count_reextract_kept :: "sync_db \<Rightarrow> int" where
  "count_reextract_kept db = count_where (\<lambda>row. resend_reason row = Some RESEND_KEPT) (documents db)"

definition outdated :: "string \<Rightarrow> doc_row \<Rightarrow> bool" where
  "outdated stamp row \<longleftrightarrow> (case extraction_stamp row of None \<Rightarrow> True | Some s \<Rightarrow> s \<noteq> stamp)"

definition count_extraction_outdated :: "string \<Rightarrow> sync_db \<Rightarrow> int" where
  "count_extraction_outdated stamp db = count_where (outdated stamp) (documents db)"

definition requeue_reextract :: "string \<Rightarrow> sync_db \<Rightarrow> int \<times> sync_db" where
  "requeue_reextract stamp db =
     (let (n, docs) = update_where
            (\<lambda>row. outdated stamp row \<and> (resend_reason row = None \<or> resend_reason row = Some RESEND_KEPT))
            (\<lambda>row. row\<lparr>resend_reason := Some RESEND_REEXTRACT, resend_attempts := 0\<rparr>) (documents db)
      in (n, db\<lparr>documents := docs\<rparr>))"

definition queued_row :: "doc_row \<Rightarrow> bool" where
  "queued_row row \<longleftrightarrow> resend_reason row = Some RESEND_REEXTRACT"

definition count_reextract_queued :: "sync_db \<Rightarrow> int" where
  "count_reextract_queued db = count_where queued_row (documents db)"

definition load_reextract_queue :: "sync_db \<Rightarrow> (string, string option) table" where
  "load_reextract_queue db = map (\<lambda>(k, row). (k, text_sha256 row)) (filter (\<lambda>(k, row). queued_row row) (documents db))"

definition count_reextract_failure :: "string \<Rightarrow> int \<Rightarrow> sync_db \<Rightarrow> bool \<times> sync_db" where
  "count_reextract_failure path max_attempts db =
     (let docs = update_row path
            (\<lambda>row. if queued_row row then row\<lparr>resend_attempts := resend_attempts row + 1\<rparr> else row) (documents db);
          left = (case map_of docs path of None \<Rightarrow> False
                  | Some row \<Rightarrow> queued_row row \<and> resend_attempts row \<ge> max_attempts);
          docs' = (if left then update_row path (\<lambda>row. row\<lparr>resend_reason := None, resend_attempts := 0\<rparr>) docs else docs)
      in (left, db\<lparr>documents := docs'\<rparr>))"

definition list_tracked_paths :: "sync_db \<Rightarrow> string list" where
  "list_tracked_paths db = sort (tkeys (documents db))"

definition remove_tracked :: "string \<Rightarrow> fp_map option \<Rightarrow> sync_db \<Rightarrow> fp_map option \<times> sync_db" where
  "remove_tracked path fps db =
     (map_option (AList.delete path) fps,
      db\<lparr>documents := AList.delete path (documents db),
         partial_documents := AList.delete path (partial_documents db),
         extract_retries := AList.delete path (extract_retries db)\<rparr>)"

definition remove_all :: "sync_db \<Rightarrow> sync_db" where
  "remove_all db = db\<lparr>documents := [], partial_documents := [], extract_retries := []\<rparr>"

section \<open>Partial documents and retries\<close>

definition set_partial :: "string \<Rightarrow> string \<Rightarrow> jdict \<Rightarrow> sync_db \<Rightarrow> sync_db" where
  "set_partial now path note db =
     db\<lparr>partial_documents := AList.update path (Some (JObj (sort_key fst note)), now) (partial_documents db)\<rparr>"

definition clear_partial :: "string \<Rightarrow> sync_db \<Rightarrow> sync_db" where
  "clear_partial path db = db\<lparr>partial_documents := AList.delete path (partial_documents db)\<rparr>"

definition get_partial :: "string \<Rightarrow> sync_db \<Rightarrow> jdict option" where
  "get_partial path db =
     (case map_of (partial_documents db) path of None \<Rightarrow> None
      | Some (col, _) \<Rightarrow> (case col of Some (JObj note) \<Rightarrow> Some note | _ \<Rightarrow> Some []))"

definition list_partial_paths :: "sync_db \<Rightarrow> string list" where
  "list_partial_paths db = sort (tkeys (partial_documents db))"

definition count_partial :: "sync_db \<Rightarrow> int" where
  "count_partial db = int (length (partial_documents db))"

definition get_retry_count :: "string \<Rightarrow> sync_db \<Rightarrow> int" where
  "get_retry_count path db = (case map_of (extract_retries db) path of None \<Rightarrow> 0 | Some row \<Rightarrow> retry_count row)"

definition increment_retry :: "string \<Rightarrow> string \<Rightarrow> string option \<Rightarrow> sync_db \<Rightarrow> int \<times> sync_db" where
  "increment_retry now path err db =
     (let count = get_retry_count path db + 1;
          cut = take MAX_LAST_ERROR_CHARS (case err of Some e \<Rightarrow> e | None \<Rightarrow> []);
          row = \<lparr>retry_count = count, last_error = (if cut = [] then None else Some cut), retry_updated_at = now\<rparr>
      in (count, db\<lparr>extract_retries := AList.update path row (extract_retries db)\<rparr>))"

definition clear_retries :: "string \<Rightarrow> sync_db \<Rightarrow> sync_db" where
  "clear_retries path db = db\<lparr>extract_retries := AList.delete path (extract_retries db)\<rparr>"

section \<open>Legacy state file\<close>

definition legacy_entry :: "string \<Rightarrow> int \<Rightarrow> jval \<Rightarrow> jval" where
  "legacy_entry mtime sz meta =
     JObj [(''mtime_iso'', JStr mtime), (''size_bytes'', JInt sz),
           (''last_uploaded_at'', jget meta ''last_uploaded_at''),
           (''transmission_key_id'', jget meta ''transmission_key_id'')]"

fun legacy_file :: "string \<times> jval \<Rightarrow> jdict \<Rightarrow> jdict" where
  "legacy_file (key, JObj meta) docs =
     (case split_max 2 (CHR ''|'') key of
        [rel, mtime, sz] \<Rightarrow>
          (case py_int sz of Inl _ \<Rightarrow> docs
           | Inr n \<Rightarrow> AList.update rel (legacy_entry mtime n (JObj meta)) docs)
      | _ \<Rightarrow> docs)"
| "legacy_file (key, _) docs = docs"

definition normalize_json_documents :: "jdict \<Rightarrow> jdict" where
  "normalize_json_documents data =
     (let documents = (case map_of data ''documents'' of Some (JObj d) \<Rightarrow> d | _ \<Rightarrow> [])
      in case map_of data ''files'' of Some (JObj legacy) \<Rightarrow> fold legacy_file legacy documents | _ \<Rightarrow> documents)"

section \<open>Invariant\<close>

text \<open>One row per path in every table, and a known \<open>resend_reason\<close> in every row.\<close>

definition reason_ok :: "doc_row \<Rightarrow> bool" where
  "reason_ok row \<longleftrightarrow> resend_reason row \<in> {None, Some RESEND_KEPT, Some RESEND_REEXTRACT}"

definition db_ok :: "sync_db \<Rightarrow> bool" where
  "db_ok db \<longleftrightarrow> table_ok (documents db) \<and> table_ok (partial_documents db) \<and> table_ok (extract_retries db)
     \<and> (\<forall>path row. map_of (documents db) path = Some row \<longrightarrow> reason_ok row)"

lemma update_row_lookup [table_simps]:
  "map_of (update_row p f t) k = (if k = p then map_option f (map_of t k) else map_of t k)"
  by (cases "map_of t k") (auto simp: update_row_def tmap_lookup)

lemma update_row_ok [simp]: "table_ok (update_row p f t) = table_ok t"
  by (simp add: update_row_def)

lemma count_where_tmap: "count_where cond (tmap f t) = int (length (filter (\<lambda>(k, v). cond (f k v)) t))"
  by (induction t) (auto simp: count_where_def tmap_def)

lemma row_defaults [simp]: "reason_ok (new_row mtime sz now key_id)"
  by (simp add: reason_ok_def new_row_def)

lemma write_fields_lookup [table_simps]:
  "map_of (write_fields path r t) k = (if k = path then map_option (\<lambda>row. row\<lparr>
     fields_outcome := Some (rec_outcome r), fields_warning_codes := Some (rec_warning_codes r),
     fields_attempts := (if rec_count_attempt r then fields_attempts row + 1 else 0),
     fields_digest := (case rec_digest r of Some d \<Rightarrow> Some d | None \<Rightarrow> fields_digest row),
     fields_sent := (case rec_sent r of Some b \<Rightarrow> b | None \<Rightarrow> fields_sent row)\<rparr>) (map_of t k) else map_of t k)"
  by (simp add: write_fields_def update_row_lookup)

lemma write_fields_ok [simp]: "table_ok (write_fields path r t) = table_ok t"
  by (simp add: write_fields_def)

lemma upsert_row_lookup [table_simps]:
  "map_of (upsert_row now path mtime sz key_id t) k = (if k = path then
     Some ((case map_of t path of None \<Rightarrow> new_row mtime sz now key_id | Some row \<Rightarrow> row)\<lparr>mtime_iso := mtime, size_bytes := sz,
       last_uploaded_at := Some now, transmission_key_id := Some key_id\<rparr>) else map_of t k)"
  by (auto simp: upsert_row_def at.lookup_put new_row_def split: option.splits)

lemma upsert_row_ok [simp]: "table_ok t \<Longrightarrow> table_ok (upsert_row now path mtime sz key_id t)"
  by (auto simp: upsert_row_def split: option.splits)

section \<open>Requeueing\<close>

lemma requeue_row_done [simp]: "\<not> digest_set (requeue_row row)"
  by (simp add: digest_set_def requeue_row_def)

lemma requeue_row_outcome: "requeue_where outcome = Some wh \<Longrightarrow> wh (requeue_row row) = wh row"
  by (auto simp: requeue_where_def requeue_row_def outcome_is_def outcome_like_def split: if_splits)

lemma requeue_each_table:
  "snd (requeue_each wh ps t) =
     tmap (\<lambda>k row. if k \<in> set ps \<and> wh row \<and> digest_set row then requeue_row row else row) t"
proof (induction ps arbitrary: t)
  case Nil
  then show ?case by (simp add: tmap_def)
next
  case (Cons p ps)
  show ?case by (auto simp: Cons.IH update_row_def tmap_tmap Let_def split_def intro!: tmap_cong)
qed

lemma requeue_each_count:
  "distinct ps \<Longrightarrow> fst (requeue_each wh ps t) = int (length (filter (\<lambda>p. case map_of t p of None \<Rightarrow> False
     | Some row \<Rightarrow> wh row \<and> digest_set row) ps))"
proof (induction ps arbitrary: t)
  case Nil
  then show ?case by simp
next
  case (Cons p ps)
  then have "filter (\<lambda>q. case map_of (update_row p f t) q of None \<Rightarrow> False | Some row \<Rightarrow> wh row \<and> digest_set row) ps
    = filter (\<lambda>q. case map_of t q of None \<Rightarrow> False | Some row \<Rightarrow> wh row \<and> digest_set row) ps" for f
    by (intro filter_cong) (auto simp: update_row_lookup)
  with Cons show ?case by (simp add: Let_def split_def)
qed

lemma requeue_candidates_mem:
  assumes "table_ok (documents db)" and "requeue_where outcome = Some wh" and "requeue_candidates outcome paths db = Inr sel"
  shows "p \<in> set sel \<longleftrightarrow> (\<exists>row. map_of (documents db) p = Some row \<and> wh row \<and> digest_set row)
      \<and> (case paths of None \<Rightarrow> True | Some ps \<Rightarrow> p \<in> set ps)"
    and "distinct sel"
proof -
  let ?c = "filter (\<lambda>(k, row). wh row \<and> digest_set row) (documents db)"
  have sel: "sel = (case paths of None \<Rightarrow> map fst ?c | Some ps \<Rightarrow> filter (\<lambda>p. p \<in> set ps) (map fst ?c))"
    using assms(2,3) by (simp add: requeue_candidates_def Let_def)
  have "p \<in> set (map fst ?c) \<longleftrightarrow> (\<exists>row. map_of (documents db) p = Some row \<and> wh row \<and> digest_set row)"
    by (auto simp: image_iff table_ok_map_of [OF assms(1)] split_def)
  then show "p \<in> set sel \<longleftrightarrow> (\<exists>row. map_of (documents db) p = Some row \<and> wh row \<and> digest_set row)
      \<and> (case paths of None \<Rightarrow> True | Some ps \<Rightarrow> p \<in> set ps)"
    by (auto simp: sel split: option.splits)
  show "distinct sel"
    using table_ok_filter [OF assms(1), of "\<lambda>(k, row). wh row \<and> digest_set row"]
    by (auto simp: sel table_ok_def split: option.splits)
qed

section \<open>Properties\<close>

text \<open>
  Requeueing documents for their fields. An unknown selector raises and changes nothing. Otherwise
  the number returned is the number of candidates, exactly their rows change, each to a digest that
  makes the next scan re-send it (the marker when values were staged, NULL when not) with the attempt
  counter back at 0 and the extraction retries forgotten; every other row, the partial notes and the
  other retries stay, and afterwards there are no candidates left, so a second call returns 0.
\<close>

theorem requeue_fields_exact:
  assumes "db_ok db" and "requeue_fields outcome paths db = (r, db')"
  shows "case requeue_candidates outcome paths db of
      Inl e \<Rightarrow> r = Inl e \<and> db' = db \<and> outcome \<notin> {''not_accepted'', ''refused'', ''reupload_failed'', ''all''}
    | Inr sel \<Rightarrow> r = Inr (int (length sel))
        \<and> documents db' = tmap (\<lambda>k row. if k \<in> set sel then requeue_row row else row) (documents db)
        \<and> (\<forall>k. map_of (extract_retries db') k = (if k \<in> set sel then None else map_of (extract_retries db) k))
        \<and> partial_documents db' = partial_documents db
        \<and> requeue_candidates outcome paths db' = Inr []"
proof (cases "requeue_where outcome")
  case None
  then show ?thesis
    using assms(2) by (auto simp: requeue_fields_def requeue_candidates_def requeue_where_def split: if_splits)
next
  case (Some wh)
  have ok: "table_ok (documents db)" using assms(1) by (simp add: db_ok_def)
  obtain sel where sel: "requeue_candidates outcome paths db = Inr sel"
    using Some by (auto simp: requeue_candidates_def Let_def)
  note mem = requeue_candidates_mem(1) [OF ok Some sel]
  have each: "snd (requeue_each wh sel (documents db)) =
      tmap (\<lambda>k row. if k \<in> set sel then requeue_row row else row) (documents db)"
    unfolding requeue_each_table
    by (rule tmap_cong) (auto simp: mem table_ok_map_of [OF ok])
  have "filter (\<lambda>p. case map_of (documents db) p of None \<Rightarrow> False | Some row \<Rightarrow> wh row \<and> digest_set row) sel = sel"
    by (rule filter_True) (auto simp: mem)
  then have count: "fst (requeue_each wh sel (documents db)) = int (length sel)"
    by (simp add: requeue_each_count [OF requeue_candidates_mem(2) [OF ok Some sel]])
  have docs: "documents db' = tmap (\<lambda>k row. if k \<in> set sel then requeue_row row else row) (documents db)"
    and rest: "r = Inr (int (length sel))" "partial_documents db' = partial_documents db"
      "extract_retries db' = fold AList.delete sel (extract_retries db)"
    using assms(2) count each by (auto simp: requeue_fields_def sel Some split_def Let_def tmap_def split: if_splits)
  obtain sel' where sel': "requeue_candidates outcome paths db' = Inr sel'"
    using Some by (auto simp: requeue_candidates_def Let_def)
  have ok': "table_ok (documents db')" using ok by (simp add: docs)
  have "p \<notin> set sel'" for p
    by (auto simp: requeue_candidates_mem(1) [OF ok' Some sel'] docs tmap_lookup mem
        requeue_row_outcome [OF Some] split: if_splits)
  then have "sel' = []" by (cases sel') auto
  with sel sel' docs rest show ?thesis by (simp add: fold_delete_lookup)
qed

definition example_row :: "string option \<Rightarrow> string option \<Rightarrow> doc_row" where
  "example_row digest outcome = (new_row ''m'' 1 ''t'' ''k'')\<lparr>fields_digest := digest, fields_outcome := outcome\<rparr>"

definition example_db :: sync_db where
  "example_db = \<lparr>documents = [(''a'', example_row (Some ''d1'') (Some ''refused:x'')), (''b'', example_row None (Some ''not_accepted'')),
     (''c'', example_row (Some ''d2'') (Some ''staged''))], partial_documents = [], extract_retries = []\<rparr>"

lemma example_db_ok: "db_ok example_db"
  by (auto simp: db_ok_def example_db_def table_ok_def reason_ok_def example_row_def new_row_def split: if_splits)

theorem requeue_fields_exact_witness:
  "db_ok example_db \<and> (\<exists>db'. requeue_fields ''all'' None example_db = (Inr 1, db') \<and> requeue_candidates ''all'' None db' = Inr [])"
proof -
  obtain r db' where r: "requeue_fields ''all'' None example_db = (r, db')" by fastforce
  have "requeue_candidates ''all'' None example_db = Inr [''a'']" by code_simp
  then show ?thesis using requeue_fields_exact [OF example_db_ok r] r example_db_ok by simp
qed

lemma count_where_lookup_le:
  "(\<And>k row. (k, row) \<in> set t \<Longrightarrow> c row \<Longrightarrow> d row) \<Longrightarrow> count_where c t \<le> count_where d t"
proof (induction t)
  case Nil
  then show ?case by (simp add: count_where_def)
next
  case (Cons x t)
  then have "count_where c t \<le> count_where d t" by auto
  with Cons.prems [of "fst x" "snd x"] show ?case by (auto simp: count_where_def split_def)
qed

lemma count_where_add:
  "(\<And>row. \<not> (c row \<and> d row)) \<Longrightarrow> count_where c t + count_where d t = count_where (\<lambda>row. c row \<or> d row) t"
  by (induction t) (auto simp: count_where_def split_def)

text \<open>
  Requeueing for re-extraction. The number returned is how many rows the queue grew by; afterwards
  every outdated row is queued, a second call with the same stamp queues nothing, rows of the current
  extraction are untouched, and no fingerprint, hash or stamp changes.
\<close>

theorem requeue_reextract_queues_outdated:
  assumes "db_ok db" and "requeue_reextract stamp db = (n, db')"
  shows "n = count_reextract_queued db' - count_reextract_queued db
    \<and> (\<forall>path row. map_of (documents db') path = Some row \<longrightarrow> outdated stamp row \<longrightarrow> queued_row row)
    \<and> fst (requeue_reextract stamp db') = 0
    \<and> (\<forall>path row. map_of (documents db) path = Some row \<longrightarrow>
        (\<exists>reason k. map_of (documents db') path = Some (row\<lparr>resend_reason := reason, resend_attempts := k\<rparr>)
          \<and> (\<not> outdated stamp row \<longrightarrow> reason = resend_reason row \<and> k = resend_attempts row)))"
proof -
  let ?c = "\<lambda>row. outdated stamp row \<and> (resend_reason row = None \<or> resend_reason row = Some RESEND_KEPT)"
  let ?f = "\<lambda>row. row\<lparr>resend_reason := Some RESEND_REEXTRACT, resend_attempts := 0\<rparr>"
  have n: "n = count_where ?c (documents db)" and docs: "documents db' = tmap (\<lambda>k v. if ?c v then ?f v else v) (documents db)"
    using assms(2) by (auto simp: requeue_reextract_def update_where_def count_where_def)
  have excl: "\<not> (?c row \<and> queued_row row)" for row by (auto simp: queued_row_def RESEND_REEXTRACT_def RESEND_KEPT_def)
  have "count_reextract_queued db' = count_where (\<lambda>row. ?c row \<or> queued_row row) (documents db)"
    unfolding count_reextract_queued_def docs count_where_tmap unfolding count_where_def
    by (intro arg_cong [where f = "\<lambda>xs. int (length xs)"] filter_cong) (auto simp: queued_row_def)
  with count_where_add [of ?c queued_row "documents db", OF excl] n
  have grew: "n = count_reextract_queued db' - count_reextract_queued db" unfolding count_reextract_queued_def by linarith
  have all: "queued_row row" if found: "map_of (documents db') path = Some row" and old: "outdated stamp row" for path row
  proof -
    obtain row0 where row0: "map_of (documents db) path = Some row0" "row = (if ?c row0 then ?f row0 else row0)"
      using found by (auto simp: docs tmap_lookup)
    have "reason_ok row0" using row0(1) assms(1) unfolding db_ok_def by blast
    with row0(2) old show ?thesis by (cases "?c row0") (auto simp: queued_row_def reason_ok_def)
  qed
  have "table_ok (documents db')" using assms(1) by (simp add: docs db_ok_def)
  then have "filter (\<lambda>(k, v). ?c v) (documents db') = []"
    by (auto simp: filter_empty_conv table_ok_map_of queued_row_def RESEND_REEXTRACT_def RESEND_KEPT_def dest!: all)
  then have again: "fst (requeue_reextract stamp db') = 0" by (simp add: requeue_reextract_def update_where_def)
  have frame: "\<exists>reason k. map_of (documents db') path = Some (row\<lparr>resend_reason := reason, resend_attempts := k\<rparr>)
      \<and> (\<not> outdated stamp row \<longrightarrow> reason = resend_reason row \<and> k = resend_attempts row)"
    if "map_of (documents db) path = Some row" for path row
  proof (cases "?c row")
    case True
    with that show ?thesis by (intro exI [of _ "Some RESEND_REEXTRACT"] exI [of _ 0]) (simp add: docs tmap_lookup)
  next
    case False
    with that show ?thesis by (intro exI [of _ "resend_reason row"] exI [of _ "resend_attempts row"]) (auto simp: docs tmap_lookup)
  qed
  from grew all again frame show ?thesis by blast
qed

theorem requeue_reextract_queues_outdated_witness:
  "db_ok example_db \<and> (\<exists>db'. requeue_reextract ''s2'' example_db = (3, db') \<and> fst (requeue_reextract ''s2'' db') = 0)"
proof -
  obtain n db' where r: "requeue_reextract ''s2'' example_db = (n, db')" by fastforce
  have "fst (requeue_reextract ''s2'' example_db) = 3" by code_simp
  then show ?thesis using requeue_reextract_queues_outdated [OF example_db_ok r] r example_db_ok by simp
qed

text \<open>Failed re-extractions of one path in a row, with the answers of \<open>count_reextract_failure\<close>.\<close>

fun reextract_failures :: "string \<Rightarrow> int \<Rightarrow> nat \<Rightarrow> sync_db \<Rightarrow> bool list \<times> sync_db" where
  "reextract_failures path m 0 db = ([], db)"
| "reextract_failures path m (Suc n) db =
     (let (left, db1) = count_reextract_failure path m db;
          (lefts, db2) = reextract_failures path m n db1
      in (left # lefts, db2))"

lemma reextract_failures_Suc:
  "fst (reextract_failures path m (Suc n) db) =
     fst (count_reextract_failure path m db) # fst (reextract_failures path m n (snd (count_reextract_failure path m db)))"
  "snd (reextract_failures path m (Suc n) db) = snd (reextract_failures path m n (snd (count_reextract_failure path m db)))"
  by (simp_all add: split_def Let_def)

declare reextract_failures.simps(2) [simp del]

lemma count_reextract_failure_row:
  assumes "map_of (documents db) path = Some row" and "queued_row row"
  shows "fst (count_reextract_failure path m db) = (m \<le> resend_attempts row + 1)"
    and "map_of (documents (snd (count_reextract_failure path m db))) path =
      Some (if m \<le> resend_attempts row + 1 then row\<lparr>resend_reason := None, resend_attempts := 0\<rparr>
            else row\<lparr>resend_attempts := resend_attempts row + 1\<rparr>)"
  using assms by (simp_all add: count_reextract_failure_def update_row_lookup queued_row_def Let_def)

lemma reextract_failures_row:
  assumes "map_of (documents db) path = Some row" and "queued_row row" and "m = resend_attempts row + int (Suc n)"
  shows "fst (reextract_failures path m (Suc n) db) = replicate n False @ [True]
    \<and> map_of (documents (snd (reextract_failures path m (Suc n) db))) path = Some (row\<lparr>resend_reason := None, resend_attempts := 0\<rparr>)"
  using assms
proof (induction n arbitrary: db row)
  case 0
  then show ?case using count_reextract_failure_row [OF 0(1,2), of m] by (simp add: reextract_failures_Suc)
next
  case (Suc n)
  note r = count_reextract_failure_row [OF Suc.prems(1,2), of m]
  let ?row = "row\<lparr>resend_attempts := resend_attempts row + 1\<rparr>"
  have "map_of (documents (snd (count_reextract_failure path m db))) path = Some ?row" "queued_row ?row"
    "m = resend_attempts ?row + int (Suc n)" "\<not> fst (count_reextract_failure path m db)"
    using r Suc.prems by (auto simp: queued_row_def)
  with Suc.IH [of "snd (count_reextract_failure path m db)" ?row] show ?case
    by (simp add: reextract_failures_Suc [of path _ "Suc n"])
qed

text \<open>
  A queued document that keeps failing. With the limit \<open>m\<close>, a freshly queued row stays queued for
  \<open>m - 1\<close> failures and leaves the queue at the \<open>m\<close>-th, and only then is reported to have left; its
  stamp is unchanged, so it is still outdated and the next request queues it again.
\<close>

theorem reextract_failure_limit:
  assumes "map_of (documents db) path = Some row" and "queued_row row" and "resend_attempts row = 0"
    and "reextract_failures path (int (Suc n)) (Suc n) db = (lefts, db')"
  shows "lefts = replicate n False @ [True]
    \<and> extraction_state path db' = Some \<lparr>es_stamp = extraction_stamp row, es_text_sha256 = text_sha256 row,
        es_resend_reason = None, es_resend_attempts = 0\<rparr>"
  using reextract_failures_row [OF assms(1,2), of "int (Suc n)" n] assms(3,4)
  by (simp add: extraction_state_def)

theorem reextract_failure_limit_witness:
  "\<exists>db'. reextract_failures ''a'' 3 3 (snd (requeue_reextract ''s2'' example_db)) = ([False, False, True], db')
     \<and> extraction_state ''a'' db' = Some \<lparr>es_stamp = None, es_text_sha256 = None, es_resend_reason = None, es_resend_attempts = 0\<rparr>"
proof -
  let ?db = "snd (requeue_reextract ''s2'' example_db)"
  let ?row = "(example_row (Some ''d1'') (Some ''refused:x''))\<lparr>resend_reason := Some RESEND_REEXTRACT, resend_attempts := 0\<rparr>"
  obtain lefts db' where r: "reextract_failures ''a'' (int (Suc 2)) (Suc 2) ?db = (lefts, db')" by fastforce
  have "map_of (documents ?db) ''a'' = Some ?row" by code_simp
  moreover have "queued_row ?row" "resend_attempts ?row = 0" "extraction_stamp ?row = None" "text_sha256 ?row = None"
    by (simp_all add: queued_row_def example_row_def new_row_def)
  ultimately show ?thesis
    using reextract_failure_limit [OF _ _ _ r, of ?row] r by (simp add: eval_nat_numeral)
qed

section \<open>What every operation keeps\<close>

lemma tmap_db_ok:
  assumes "db_ok db" and "\<And>k row. reason_ok row \<Longrightarrow> reason_ok (f k row)"
  shows "db_ok (db\<lparr>documents := tmap f (documents db)\<rparr>)"
  using assms by (auto simp: db_ok_def tmap_lookup)

lemma update_row_db_ok:
  assumes "db_ok db" and "\<And>row. reason_ok row \<Longrightarrow> reason_ok (f row)"
  shows "db_ok (db\<lparr>documents := update_row path f (documents db)\<rparr>)"
  unfolding update_row_def using assms by (intro tmap_db_ok) auto

lemma db_ok_retries: "db_ok db \<Longrightarrow> table_ok t \<Longrightarrow> db_ok (db\<lparr>extract_retries := t\<rparr>)"
  by (simp add: db_ok_def)

lemma db_ok_partial: "db_ok db \<Longrightarrow> table_ok t \<Longrightarrow> db_ok (db\<lparr>partial_documents := t\<rparr>)"
  by (simp add: db_ok_def)

lemma write_fields_db_ok: "db_ok db \<Longrightarrow> db_ok (db\<lparr>documents := write_fields path r (documents db)\<rparr>)"
  unfolding write_fields_def by (rule update_row_db_ok) (simp_all add: reason_ok_def)

lemma update_fields_db_ok: "db_ok db \<Longrightarrow> db_ok (snd (update_fields path r db))"
  by (simp add: update_fields_def Let_def write_fields_db_ok)

lemma increment_fields_attempts_db_ok: "db_ok db \<Longrightarrow> db_ok (snd (increment_fields_attempts path db))"
  by (auto simp: increment_fields_attempts_def Let_def reason_ok_def intro!: update_row_db_ok)

lemma record_upload_db_ok: "db_ok db \<Longrightarrow> db_ok (snd (record_upload now path mtime sz key_id fps frec db))"
proof -
  assume ok: "db_ok db"
  let ?up = "db\<lparr>documents := upsert_row now path mtime sz key_id (documents db)\<rparr>"
  have "db_ok ?up" using ok by (auto simp: db_ok_def upsert_row_lookup reason_ok_def new_row_def split: option.splits if_splits)
  then show ?thesis using write_fields_db_ok [of ?up] by (simp add: record_upload_def Let_def split: option.splits)
qed

lemma requeue_fields_db_ok: "db_ok db \<Longrightarrow> db_ok (snd (requeue_fields outcome paths db))"
proof -
  assume ok: "db_ok db"
  have "reason_ok row \<Longrightarrow> reason_ok (requeue_row row)" for row by (simp add: reason_ok_def requeue_row_def)
  then have "db_ok (db\<lparr>documents := tmap (\<lambda>k row. if k \<in> set ps \<and> wh row \<and> digest_set row then requeue_row row else row) (documents db)\<rparr>)"
    for ps wh by (intro tmap_db_ok ok) simp
  then have "db_ok (db\<lparr>documents := snd (requeue_each wh ps (documents db)), extract_retries := fold AList.delete qs (extract_retries db)\<rparr>)"
    for ps wh qs using ok by (simp add: requeue_each_table db_ok_def)
  then show ?thesis using ok by (auto simp: requeue_fields_def split_def Let_def split: sum.splits option.splits)
qed

lemma set_extraction_db_ok:
  "db_ok db \<Longrightarrow> db_ok (snd (set_extraction path stamp sha db))"
  "db_ok db \<Longrightarrow> db_ok (snd (set_extraction_stamp path s db))"
  "db_ok db \<Longrightarrow> db_ok (snd (set_extraction_kept path s db))"
  unfolding set_extraction_def set_extraction_stamp_def set_extraction_kept_def snd_conv
  by (rule update_row_db_ok; simp add: reason_ok_def)+

lemma requeue_reextract_db_ok: "db_ok db \<Longrightarrow> db_ok (snd (requeue_reextract stamp db))"
  unfolding requeue_reextract_def update_where_def Let_def split_def snd_conv
  by (rule tmap_db_ok) (simp_all add: reason_ok_def)

lemma count_reextract_failure_db_ok: "db_ok db \<Longrightarrow> db_ok (snd (count_reextract_failure path m db))"
proof -
  assume ok: "db_ok db"
  let ?f = "\<lambda>row. if queued_row row then row\<lparr>resend_attempts := resend_attempts row + 1\<rparr> else row"
  have "db_ok (db\<lparr>documents := update_row path ?f (documents db)\<rparr>)"
    by (rule update_row_db_ok [OF ok]) (simp add: reason_ok_def)
  from this update_row_db_ok [OF this, of "\<lambda>row. row\<lparr>resend_reason := None, resend_attempts := 0\<rparr>" path]
  show ?thesis by (simp add: count_reextract_failure_def Let_def reason_ok_def)
qed

lemma remove_tracked_db_ok: "db_ok db \<Longrightarrow> db_ok (snd (remove_tracked path fps db))"
  by (auto simp: remove_tracked_def db_ok_def at.lookup_del split: if_splits)

lemma remove_all_db_ok: "db_ok (remove_all db)"
  by (simp add: remove_all_def db_ok_def)

lemma notes_db_ok:
  "db_ok db \<Longrightarrow> db_ok (set_partial now path note db)" "db_ok db \<Longrightarrow> db_ok (clear_partial path db)"
  "db_ok db \<Longrightarrow> db_ok (clear_retries path db)" "db_ok db \<Longrightarrow> db_ok (snd (increment_retry now path err db))"
  by (simp_all add: set_partial_def clear_partial_def clear_retries_def increment_retry_def Let_def
      db_ok_partial db_ok_retries) (simp_all add: db_ok_def)

lemmas db_ops_ok = update_fields_db_ok increment_fields_attempts_db_ok record_upload_db_ok requeue_fields_db_ok
  set_extraction_db_ok requeue_reextract_db_ok count_reextract_failure_db_ok remove_tracked_db_ok remove_all_db_ok
  notes_db_ok

end
