(* ===== verification/Sync_State.thy ===== *)
theory Sync_State
  imports Sync_State_Db
begin

text \<open>
  The store the sync cycle works with (\<open>sync/sync_state.py\<close>): the database of \<open>Sync_State_Db\<close>
  behind an in-memory copy of the fingerprints, loaded once and kept up to date by the writes. The
  OCR cache is another file; the store only asks it to forget documents, recorded here in the order
  of the calls. Clock readings are arguments.

  The lemmas show that the copy never disagrees with the database over any sequence of operations,
  so that a status answered from it is the status of the stored fingerprint.
\<close>

datatype doc_status = Synced | Pending | Modified | Excluded_Max_Age | Fields_Changed

datatype ocr_request = Purge_Document string | Purge_All

record sync_store =
  store_db :: sync_db
  fingerprints :: "fp_map option"
  ocr_requests :: "ocr_request list"

record sync_record =
  rec_path :: string
  rec_mtime :: string
  rec_size :: int
  rec_status :: doc_status

record sync_summary =
  sum_total :: int
  sum_synced :: int
  sum_pending :: int
  sum_modified :: int
  sum_excluded_max_age :: int
  sum_fields_changed :: int
  sum_documents :: "sync_record list"

definition empty_summary :: sync_summary where
  "empty_summary = \<lparr>sum_total = 0, sum_synced = 0, sum_pending = 0, sum_modified = 0, sum_excluded_max_age = 0,
     sum_fields_changed = 0, sum_documents = []\<rparr>"

definition status_from_fingerprint :: "fingerprint option \<Rightarrow> string \<Rightarrow> int \<Rightarrow> doc_status" where
  "status_from_fingerprint stored mtime sz =
     (case stored of None \<Rightarrow> Pending
      | Some fp \<Rightarrow> if fst fp = mtime \<and> snd fp = sz then Synced else Modified)"

definition store_load_fingerprints :: "sync_store \<Rightarrow> fp_map \<times> sync_store" where
  "store_load_fingerprints st =
     (case fingerprints st of
        Some fps \<Rightarrow> (fps, st)
      | None \<Rightarrow> (let fps = load_fingerprints (store_db st) in (fps, st\<lparr>fingerprints := Some fps\<rparr>)))"

text \<open>
  Without an explicit map, the status is looked up in the store's own copy, which the lookup may
  extend. The callers that pass a map pass that copy.
\<close>

definition document_status :: "string \<Rightarrow> string \<Rightarrow> int \<Rightarrow> sync_store \<Rightarrow> doc_status \<times> sync_store" where
  "document_status path mtime sz st =
     (let (fps, st1) = store_load_fingerprints st;
          (stored, fps') = lookup_fingerprint (store_db st1) fps path
      in (status_from_fingerprint stored mtime sz, st1\<lparr>fingerprints := Some fps'\<rparr>))"

definition should_skip :: "string \<Rightarrow> string \<Rightarrow> int \<Rightarrow> sync_store \<Rightarrow> bool \<times> sync_store" where
  "should_skip path mtime sz st = (let (s, st') = document_status path mtime sz st in (s = Synced, st'))"

definition file_key :: "string \<Rightarrow> string \<Rightarrow> int \<Rightarrow> string" where
  "file_key path mtime sz = path @ ''|'' @ mtime @ ''|'' @ show_int sz"

definition store_upload ::
    "string \<Rightarrow> string \<Rightarrow> string \<Rightarrow> int \<Rightarrow> string \<Rightarrow> fields_record option \<Rightarrow> sync_store \<Rightarrow> sync_store" where
  "store_upload now path mtime sz key_id frec st =
     (let (fps, st1) = store_load_fingerprints st;
          (fps', db) = record_upload now path mtime sz key_id (Some fps) frec (store_db st1)
      in st1\<lparr>store_db := db, fingerprints := fps'\<rparr>)"

definition store_record_upload ::
    "string \<Rightarrow> string \<Rightarrow> string \<Rightarrow> int \<Rightarrow> string \<Rightarrow> fields_record option \<Rightarrow> sync_store \<Rightarrow> sync_store" where
  "store_record_upload now path mtime sz key_id frec st =
     (let st1 = store_upload now path mtime sz key_id frec st
      in st1\<lparr>store_db := clear_retries path (clear_partial path (store_db st1))\<rparr>)"

definition record_skip ::
    "string \<Rightarrow> string \<Rightarrow> string \<Rightarrow> int \<Rightarrow> string \<Rightarrow> fields_record option \<Rightarrow> sync_store \<Rightarrow> sync_store" where
  "record_skip now path mtime sz reason frec st =
     store_record_upload now path mtime sz (''skip:'' @ reason) frec st"

definition record_partial ::
    "string \<Rightarrow> string \<Rightarrow> string \<Rightarrow> int \<Rightarrow> string \<Rightarrow> jdict \<Rightarrow> fields_record option \<Rightarrow> sync_store \<Rightarrow> sync_store" where
  "record_partial now path mtime sz key_id note frec st =
     (let st1 = store_upload now path mtime sz key_id frec st
      in st1\<lparr>store_db := clear_retries path (set_partial now path note (store_db st1))\<rparr>)"

definition BACKFILL_UNCHANGED :: string where
  "BACKFILL_UNCHANGED = ''backfill_unchanged''"

text \<open>\<open>isinstance(stored, int) and not isinstance(stored, bool) and stored > 0\<close>; an empty note is false.\<close>

definition kept_backfill_count :: "jdict option \<Rightarrow> int option" where
  "kept_backfill_count note =
     (case map_of (case note of Some n \<Rightarrow> n | None \<Rightarrow> []) BACKFILL_UNCHANGED of
        Some (JInt n) \<Rightarrow> if n > 0 then Some n else None
      | _ \<Rightarrow> None)"

definition record_reextract_unchanged :: "string \<Rightarrow> string \<Rightarrow> string \<Rightarrow> jdict option \<Rightarrow> sync_store \<Rightarrow> sync_store" where
  "record_reextract_unchanged now path stamp partial_note st =
     (let db = snd (set_extraction_stamp path stamp (store_db st))
      in st\<lparr>store_db :=
           (case partial_note of
              Some (n # ns) \<Rightarrow>
                (let note = (case kept_backfill_count (get_partial path db) of
                               Some k \<Rightarrow> AList.update BACKFILL_UNCHANGED (JInt k) (n # ns)
                             | None \<Rightarrow> n # ns)
                 in set_partial now path note db)
            | _ \<Rightarrow> clear_partial path db)\<rparr>)"

definition record_reextract_kept :: "string \<Rightarrow> string \<Rightarrow> sync_store \<Rightarrow> sync_store" where
  "record_reextract_kept path stamp st = st\<lparr>store_db := snd (set_extraction_kept path stamp (store_db st))\<rparr>"

fun summarize_loop :: "bool \<Rightarrow> (string \<times> string \<times> int) list \<Rightarrow> sync_store \<Rightarrow> sync_summary \<Rightarrow> sync_summary \<times> sync_store" where
  "summarize_loop incl [] st s = (s, st)"
| "summarize_loop incl ((path, mtime, sz) # rest) st s =
     (let (status, st') = document_status path mtime sz st;
          s1 = s\<lparr>sum_total := sum_total s + 1\<rparr>;
          s2 = (if status = Synced then s1\<lparr>sum_synced := sum_synced s1 + 1\<rparr>
                else if status = Pending then s1\<lparr>sum_pending := sum_pending s1 + 1\<rparr>
                else s1\<lparr>sum_modified := sum_modified s1 + 1\<rparr>);
          s3 = (if incl then s2\<lparr>sum_documents := sum_documents s2 @
                  [\<lparr>rec_path = path, rec_mtime = mtime, rec_size = sz, rec_status = status\<rparr>]\<rparr> else s2)
      in summarize_loop incl rest st' s3)"

definition summarize :: "bool \<Rightarrow> (string \<times> string \<times> int) list \<Rightarrow> sync_store \<Rightarrow> sync_summary \<times> sync_store" where
  "summarize incl scanned st =
     (let (fps, st1) = store_load_fingerprints st in summarize_loop incl scanned st1 empty_summary)"

definition store_remove_tracked :: "string \<Rightarrow> sync_store \<Rightarrow> sync_store" where
  "store_remove_tracked path st =
     (let (fps, st1) = store_load_fingerprints st;
          (fps', db) = remove_tracked path (Some fps) (store_db st1)
      in st1\<lparr>store_db := db, fingerprints := fps', ocr_requests := ocr_requests st1 @ [Purge_Document path]\<rparr>)"

definition reset_all :: "sync_store \<Rightarrow> sync_store" where
  "reset_all st = \<lparr>store_db = remove_all (store_db st), fingerprints = None, ocr_requests = ocr_requests st @ [Purge_All]\<rparr>"

text \<open>The operations that only hand a call to the database.\<close>

definition via_db :: "(sync_db \<Rightarrow> 'a \<times> sync_db) \<Rightarrow> sync_store \<Rightarrow> 'a \<times> sync_store" where
  "via_db f st = (let (r, db) = f (store_db st) in (r, st\<lparr>store_db := db\<rparr>))"

definition store_update_fields :: "string \<Rightarrow> fields_record \<Rightarrow> sync_store \<Rightarrow> int option \<times> sync_store" where
  "store_update_fields path r = via_db (update_fields path r)"

definition store_increment_fields_attempts :: "string \<Rightarrow> sync_store \<Rightarrow> int \<times> sync_store" where
  "store_increment_fields_attempts path = via_db (increment_fields_attempts path)"

definition store_requeue_fields :: "string \<Rightarrow> string list option \<Rightarrow> sync_store \<Rightarrow> int py \<times> sync_store" where
  "store_requeue_fields outcome paths = via_db (requeue_fields outcome paths)"

definition store_set_extraction :: "string \<Rightarrow> string option \<Rightarrow> string option \<Rightarrow> sync_store \<Rightarrow> bool \<times> sync_store" where
  "store_set_extraction path stamp sha = via_db (set_extraction path stamp sha)"

definition store_set_extraction_stamp :: "string \<Rightarrow> string \<Rightarrow> sync_store \<Rightarrow> bool \<times> sync_store" where
  "store_set_extraction_stamp path stamp = via_db (set_extraction_stamp path stamp)"

definition store_requeue_reextract :: "string \<Rightarrow> sync_store \<Rightarrow> int \<times> sync_store" where
  "store_requeue_reextract stamp = via_db (requeue_reextract stamp)"

definition store_count_reextract_failure :: "string \<Rightarrow> int \<Rightarrow> sync_store \<Rightarrow> bool \<times> sync_store" where
  "store_count_reextract_failure path m = via_db (count_reextract_failure path m)"

definition increment_retry_count :: "string \<Rightarrow> string \<Rightarrow> string option \<Rightarrow> sync_store \<Rightarrow> int \<times> sync_store" where
  "increment_retry_count now path err = via_db (increment_retry now path err)"

definition store_clear_partial :: "string \<Rightarrow> sync_store \<Rightarrow> sync_store" where
  "store_clear_partial path st = st\<lparr>store_db := clear_partial path (store_db st)\<rparr>"

definition store_clear_retries :: "string \<Rightarrow> sync_store \<Rightarrow> sync_store" where
  "store_clear_retries path st = st\<lparr>store_db := clear_retries path (store_db st)\<rparr>"

section \<open>The copy agrees with the database\<close>

definition fp_of :: "sync_db \<Rightarrow> string \<Rightarrow> fingerprint option" where
  "fp_of db path = map_option row_fingerprint (map_of (documents db) path)"

interpretation fc: cached_lookup fp_of lookup_fingerprint
  by unfold_locales (auto simp: lookup_fingerprint_def fp_of_def at.lookup_put split: option.splits)

definition coherent :: "sync_store \<Rightarrow> bool" where
  "coherent st \<longleftrightarrow> (case fingerprints st of None \<Rightarrow> True | Some fps \<Rightarrow> agrees (fp_of (store_db st)) fps)"

definition store_ok :: "sync_store \<Rightarrow> bool" where
  "store_ok st \<longleftrightarrow> db_ok (store_db st) \<and> coherent st"

lemma store_ok_db: "store_ok st \<Longrightarrow> db_ok (store_db st)"
  by (simp add: store_ok_def)

lemma load_agrees: "agrees (fp_of db) (load_fingerprints db)"
proof -
  have "map_of (load_fingerprints db) k = fp_of db k" for k
    by (simp add: load_fingerprints_def fp_of_def map_of_map)
  then show ?thesis by (simp add: agrees_def)
qed

lemma store_load_ok:
  assumes "store_ok st" and "store_load_fingerprints st = (fps, st1)"
  shows "store_ok st1" and "store_db st1 = store_db st" and "fingerprints st1 = Some fps"
    and "agrees (fp_of (store_db st)) fps" and "ocr_requests st1 = ocr_requests st"
  using assms by (auto simp: store_load_fingerprints_def store_ok_def coherent_def load_agrees Let_def split: option.splits)

lemma document_status_ok:
  assumes "store_ok st"
  shows "fst (document_status path mtime sz st) = status_from_fingerprint (fp_of (store_db st) path) mtime sz"
    and "store_ok (snd (document_status path mtime sz st))"
    and "store_db (snd (document_status path mtime sz st)) = store_db st"
proof -
  obtain fps st1 where l: "store_load_fingerprints st = (fps, st1)" by fastforce
  note ok = store_load_ok [OF assms l]
  show "fst (document_status path mtime sz st) = status_from_fingerprint (fp_of (store_db st) path) mtime sz"
    using fc.answer [OF ok(4)] by (simp add: document_status_def l ok(2) split_def Let_def)
  show "store_db (snd (document_status path mtime sz st)) = store_db st"
    by (simp add: document_status_def l ok(2) split_def Let_def)
  show "store_ok (snd (document_status path mtime sz st))"
    using ok(1,4) fc.keeps by (simp add: document_status_def l ok(2) split_def Let_def store_ok_def coherent_def)
qed

lemma same_fingerprints_ok:
  assumes "store_ok st" and "db_ok db" and "\<And>path. fp_of db path = fp_of (store_db st) path"
  shows "store_ok (st\<lparr>store_db := db\<rparr>)"
proof -
  have "fp_of db = fp_of (store_db st)" using assms(3) by auto
  then show ?thesis using assms(1,2) by (auto simp: store_ok_def coherent_def split: option.splits)
qed

lemma fp_of_tmap: "(\<And>k row. row_fingerprint (f k row) = row_fingerprint row) \<Longrightarrow>
  fp_of (db\<lparr>documents := tmap f (documents db)\<rparr>) path = fp_of db path"
  by (cases "map_of (documents db) path") (simp_all add: fp_of_def tmap_lookup)

lemma fp_of_update_row: "(\<And>row. row_fingerprint (f row) = row_fingerprint row) \<Longrightarrow>
  fp_of (db\<lparr>documents := update_row p f (documents db)\<rparr>) path = fp_of db path"
  unfolding update_row_def by (rule fp_of_tmap) simp


lemma fp_of_kept:
  "fp_of (snd (update_fields p r db)) path = fp_of db path"
  "fp_of (snd (increment_fields_attempts p db)) path = fp_of db path"
  "fp_of (snd (set_extraction p stamp sha db)) path = fp_of db path"
  "fp_of (snd (set_extraction_stamp p s db)) path = fp_of db path"
  "fp_of (snd (set_extraction_kept p s db)) path = fp_of db path"
  "fp_of (snd (requeue_reextract s db)) path = fp_of db path"
  by (simp_all add: update_fields_def write_fields_def increment_fields_attempts_def set_extraction_def set_extraction_stamp_def
      set_extraction_kept_def requeue_reextract_def update_where_def Let_def fp_of_update_row fp_of_tmap row_fingerprint_def)

lemma fp_of_notes:
  "fp_of (set_partial now p note db) path = fp_of db path"
  "fp_of (clear_partial p db) path = fp_of db path"
  "fp_of (clear_retries p db) path = fp_of db path"
  "fp_of (snd (increment_retry now p err db)) path = fp_of db path"
  by (simp_all add: fp_of_def set_partial_def clear_partial_def clear_retries_def increment_retry_def Let_def)

lemma fp_of_requeue_fields: "fp_of (snd (requeue_fields outcome paths db)) path = fp_of db path"
proof -
  have "fp_of (db\<lparr>documents := snd (requeue_each wh ps (documents db)), extract_retries := t\<rparr>) path = fp_of db path" for wh ps t
    using fp_of_tmap [of "\<lambda>k row. if k \<in> set ps \<and> wh row \<and> digest_set row then requeue_row row else row" db path]
    by (simp add: requeue_each_table fp_of_def row_fingerprint_def requeue_row_def)
  then show ?thesis by (auto simp: requeue_fields_def split_def Let_def split: sum.splits option.splits)
qed

lemma fp_of_count_reextract_failure: "fp_of (snd (count_reextract_failure p m db)) path = fp_of db path"
proof -
  let ?f = "\<lambda>row. if queued_row row then row\<lparr>resend_attempts := resend_attempts row + 1\<rparr> else row"
  let ?g = "\<lambda>row. row\<lparr>resend_reason := None, resend_attempts := 0\<rparr>"
  let ?db = "db\<lparr>documents := update_row p ?f (documents db)\<rparr>"
  have "fp_of ?db path = fp_of db path" by (rule fp_of_update_row) (simp add: row_fingerprint_def)
  moreover have "fp_of (?db\<lparr>documents := update_row p ?g (documents ?db)\<rparr>) path = fp_of ?db path"
    by (rule fp_of_update_row) (simp add: row_fingerprint_def)
  ultimately show ?thesis by (simp add: count_reextract_failure_def Let_def)
qed

lemma fp_of_record_upload:
  "fp_of (snd (record_upload now p mtime sz key_id fps frec db)) = (fp_of db)(p \<mapsto> (mtime, sz))"
  by (auto simp: record_upload_def Let_def fp_of_def upsert_row_lookup write_fields_lookup row_fingerprint_def split: option.splits)

lemma fp_of_remove_tracked: "fp_of (snd (remove_tracked p fps db)) = (fp_of db)(p := None)"
  by (auto simp: remove_tracked_def fp_of_def at.lookup_del)

lemma via_db_ok:
  assumes "store_ok st" and "db_ok (snd (f (store_db st)))" and "\<And>path. fp_of (snd (f (store_db st))) path = fp_of (store_db st) path"
  shows "store_ok (snd (via_db f st))"
  using same_fingerprints_ok [OF assms] by (simp add: via_db_def split_def Let_def)

lemma store_upload_db:
  assumes "store_ok st"
  shows "store_db (store_upload now path mtime sz key_id frec st) = snd (record_upload now path mtime sz key_id None frec (store_db st))"
    and "store_ok (store_upload now path mtime sz key_id frec st)"
proof -
  obtain fps st1 where l: "store_load_fingerprints st = (fps, st1)" by fastforce
  note ok = store_load_ok [OF assms l]
  have db: "snd (record_upload now path mtime sz key_id (Some fps) frec db) = snd (record_upload now path mtime sz key_id None frec db)" for db
    by (simp add: record_upload_def Let_def)
  show "store_db (store_upload now path mtime sz key_id frec st) = snd (record_upload now path mtime sz key_id None frec (store_db st))"
    by (simp add: store_upload_def l split_def Let_def ok(2) db)
  have "fst (record_upload now path mtime sz key_id (Some fps) frec (store_db st)) = Some (AList.update path (mtime, sz) fps)"
    by (simp add: record_upload_def Let_def)
  then show "store_ok (store_upload now path mtime sz key_id frec st)"
    using ok(1) fc.write_through [OF ok(4) fp_of_record_upload]
    by (simp add: store_upload_def l split_def Let_def ok(2) store_ok_def coherent_def record_upload_db_ok)
qed

lemma store_remove_ok:
  assumes "store_ok st"
  shows "store_db (store_remove_tracked path st) = snd (remove_tracked path None (store_db st))"
    and "store_ok (store_remove_tracked path st)"
proof -
  obtain fps st1 where l: "store_load_fingerprints st = (fps, st1)" by fastforce
  note ok = store_load_ok [OF assms l]
  show "store_db (store_remove_tracked path st) = snd (remove_tracked path None (store_db st))"
    by (simp add: store_remove_tracked_def l split_def Let_def ok(2) remove_tracked_def)
  have "fst (remove_tracked path (Some fps) (store_db st)) = Some (AList.delete path fps)" by (simp add: remove_tracked_def)
  then show "store_ok (store_remove_tracked path st)"
    using ok(1) fc.delete_through [OF ok(4) fp_of_remove_tracked]
    by (simp add: store_remove_tracked_def l split_def Let_def ok(2) store_ok_def coherent_def remove_tracked_db_ok)
qed

section \<open>Sequences of operations\<close>

inductive store_step :: "sync_store \<Rightarrow> sync_store \<Rightarrow> bool" where
  status: "store_step st (snd (document_status path mtime sz st))"
| upload: "store_step st (store_record_upload now path mtime sz key_id frec st)"
| skip: "store_step st (record_skip now path mtime sz reason frec st)"
| partial: "store_step st (record_partial now path mtime sz key_id note frec st)"
| update_fields: "store_step st (snd (store_update_fields path r st))"
| fields_attempt: "store_step st (snd (store_increment_fields_attempts path st))"
| requeue_fields: "store_step st (snd (store_requeue_fields outcome paths st))"
| extraction: "store_step st (snd (store_set_extraction path stamp sha st))"
| extraction_stamp: "store_step st (snd (store_set_extraction_stamp path s st))"
| unchanged: "store_step st (record_reextract_unchanged now path s partial_note st)"
| kept: "store_step st (record_reextract_kept path s st)"
| requeue_reextract: "store_step st (snd (store_requeue_reextract s st))"
| reextract_failure: "store_step st (snd (store_count_reextract_failure path m st))"
| retry: "store_step st (snd (increment_retry_count now path err st))"
| clear_partial: "store_step st (store_clear_partial path st)"
| clear_retries: "store_step st (store_clear_retries path st)"
| summarize: "store_step st (snd (summarize incl scanned st))"
| remove: "store_step st (store_remove_tracked path st)"
| reset: "store_step st (reset_all st)"

lemmas via_db_defs = store_update_fields_def store_increment_fields_attempts_def store_requeue_fields_def
  store_set_extraction_def store_set_extraction_stamp_def store_requeue_reextract_def
  store_count_reextract_failure_def increment_retry_count_def

lemma summarize_loop_ok:
  assumes "store_ok st"
  shows "store_ok (snd (summarize_loop incl scanned st s))"
    and "store_db (snd (summarize_loop incl scanned st s)) = store_db st"
proof -
  have "store_ok (snd (summarize_loop incl scanned st s)) \<and> store_db (snd (summarize_loop incl scanned st s)) = store_db st"
    using assms
  proof (induction incl scanned st s rule: summarize_loop.induct)
    case (2 incl path mtime sz scanned st s)
    note d = document_status_ok [OF 2(2), of path mtime sz]
    show ?case using 2(1) [OF refl prod.collapse refl refl refl d(2)] d(3) by (simp add: split_def Let_def)
  qed simp
  then show "store_ok (snd (summarize_loop incl scanned st s))"
    "store_db (snd (summarize_loop incl scanned st s)) = store_db st" by blast+
qed

lemma upload_steps_ok:
  assumes "store_ok st"
  shows "store_ok (store_record_upload now path mtime sz key_id frec st)"
    and "store_ok (record_partial now path mtime sz key_id note frec st)"
  unfolding store_record_upload_def record_partial_def Let_def
  using store_upload_db(2) [OF assms, of now path mtime sz key_id frec]
  by (auto simp: fp_of_notes db_ops_ok store_ok_def [of "store_upload now path mtime sz key_id frec st"] intro!: same_fingerprints_ok)

lemma unchanged_ok: "store_ok st \<Longrightarrow> store_ok (record_reextract_unchanged now path s partial_note st)"
  unfolding record_reextract_unchanged_def Let_def
  by (auto simp: fp_of_notes fp_of_kept db_ops_ok store_ok_def [of st] intro!: same_fingerprints_ok split: option.splits list.splits)

lemma store_step_ok: "store_step st st' \<Longrightarrow> store_ok st \<Longrightarrow> store_ok st'"
proof (induction rule: store_step.induct)
  case (summarize st incl scanned)
  obtain fps st1 where l: "store_load_fingerprints st = (fps, st1)" by fastforce
  show ?case
    using summarize_loop_ok(1) [OF store_load_ok(1) [OF summarize l]] by (simp add: summarize_def l)
next
  case (reset st)
  show ?case by (simp add: reset_all_def store_ok_def coherent_def remove_all_db_ok)
qed (auto simp: via_db_defs record_skip_def record_reextract_kept_def store_clear_partial_def store_clear_retries_def
    document_status_ok upload_steps_ok unchanged_ok store_remove_ok fp_of_notes fp_of_kept fp_of_requeue_fields
    fp_of_count_reextract_failure db_ops_ok store_ok_db
    intro!: via_db_ok same_fingerprints_ok)

definition opened :: "sync_db \<Rightarrow> sync_store" where
  "opened db = \<lparr>store_db = db, fingerprints = None, ocr_requests = []\<rparr>"

lemma reachable_ok:
  assumes "db_ok db" and "store_step\<^sup>*\<^sup>* (opened db) st"
  shows "store_ok st"
  using assms(2)
proof (induction rule: rtranclp_induct)
  case base
  then show ?case using assms(1) by (simp add: store_ok_def opened_def coherent_def)
next
  case (step st st')
  then show ?case using store_step_ok by blast
qed

section \<open>Properties\<close>

text \<open>
  (C24) The in-memory copy is never stale. After any sequence of store operations on a consistent
  database, the status answered for a file is the status of the fingerprint the database holds, the
  database is still consistent, and asking changes nothing in it.
\<close>

theorem status_is_stored_status:
  assumes "db_ok db" and "store_step\<^sup>*\<^sup>* (opened db) st"
  shows "fst (document_status path mtime sz st) =
      (case map_of (documents (store_db st)) path of None \<Rightarrow> Pending
       | Some row \<Rightarrow> if mtime_iso row = mtime \<and> size_bytes row = sz then Synced else Modified)
    \<and> db_ok (store_db st) \<and> store_db (snd (document_status path mtime sz st)) = store_db st"
  using reachable_ok [OF assms] document_status_ok [OF reachable_ok [OF assms], of path mtime sz]
  by (auto simp: store_ok_def status_from_fingerprint_def fp_of_def row_fingerprint_def split: option.splits)

theorem status_is_stored_status_witness:
  "db_ok example_db \<and> store_step\<^sup>*\<^sup>* (opened example_db) (store_remove_tracked ''a'' (opened example_db))
   \<and> fst (document_status ''a'' ''m'' 1 (store_remove_tracked ''a'' (opened example_db))) = Pending"
proof -
  have r: "store_step\<^sup>*\<^sup>* (opened example_db) (store_remove_tracked ''a'' (opened example_db))"
    using store_step.remove by blast
  have "map_of (documents (store_db (store_remove_tracked ''a'' (opened example_db)))) ''a'' = None" by code_simp
  then show ?thesis using status_is_stored_status [OF example_db_ok r, of "''a''" "''m''" 1] r example_db_ok by simp
qed

lemma clears_lookup:
  "map_of (documents (clear_retries p db)) k = map_of (documents db) k"
  "map_of (documents (clear_partial p db)) k = map_of (documents db) k"
  "map_of (documents (set_partial now p note db)) k = map_of (documents db) k"
  "get_retry_count k (clear_retries p db) = (if k = p then 0 else get_retry_count k db)"
  "get_partial k (clear_partial p db) = (if k = p then None else get_partial k db)"
  "get_partial k (set_partial now p note db) = (if k = p then Some (sort_key fst note) else get_partial k db)"
  "get_partial k (clear_retries p db) = get_partial k db"
  "get_retry_count k (clear_partial p db) = get_retry_count k db"
  "get_retry_count k (set_partial now p note db) = get_retry_count k db"
  by (auto simp: clear_retries_def clear_partial_def set_partial_def get_retry_count_def get_partial_def
      at.lookup_del at.lookup_put split: option.splits)

text \<open>
  What an upload records. A clean upload makes the file synced at exactly its fingerprint, drops
  its partial note and its retries, and keeps the re-extraction columns and, without a fields record,
  the fields columns of an earlier row. A partial one differs only in that it leaves the note. No
  other document is affected.
\<close>

theorem upload_recorded:
  assumes "store_ok st"
    and "clean = store_db (store_record_upload now path mtime sz key_id frec st)"
    and "part = store_db (record_partial now path mtime sz key_id pnote frec st)"
  shows "fp_of clean = (fp_of (store_db st))(path \<mapsto> (mtime, sz)) \<and> fp_of part = fp_of clean
    \<and> get_partial path clean = None \<and> get_partial path part = Some (sort_key fst pnote)
    \<and> get_retry_count path clean = 0 \<and> get_retry_count path part = 0
    \<and> (\<forall>k. k \<noteq> path \<longrightarrow> map_of (documents clean) k = map_of (documents (store_db st)) k
        \<and> get_partial k clean = get_partial k (store_db st) \<and> get_retry_count k clean = get_retry_count k (store_db st))
    \<and> extraction_state path clean = Some (case extraction_state path (store_db st) of
        Some e \<Rightarrow> e | None \<Rightarrow> \<lparr>es_stamp = None, es_text_sha256 = None, es_resend_reason = None, es_resend_attempts = 0\<rparr>)
    \<and> (frec = None \<longrightarrow> fields_state path clean = Some (case fields_state path (store_db st) of
        Some f \<Rightarrow> f | None \<Rightarrow> \<lparr>fs_digest = None, fs_sent = False, fs_outcome = None, fs_attempts = 0\<rparr>))"
proof -
  let ?up = "snd (record_upload now path mtime sz key_id None frec (store_db st))"
  have clean: "clean = clear_retries path (clear_partial path ?up)" and part: "part = clear_retries path (set_partial now path pnote ?up)"
    using assms(2,3) store_upload_db(1) [OF assms(1)] by (simp_all add: store_record_upload_def record_partial_def Let_def)
  have fp: "fp_of clean = fp_of ?up" "fp_of part = fp_of ?up" unfolding clean part by (rule ext, simp add: fp_of_notes)+
  have other: "map_of (documents ?up) k = map_of (documents (store_db st)) k" if "k \<noteq> path" for k
    using that by (simp add: record_upload_def Let_def upsert_row_lookup write_fields_lookup split: option.splits)
  have noted: "get_partial k ?up = get_partial k (store_db st)" "get_retry_count k ?up = get_retry_count k (store_db st)" for k
    by (simp_all add: record_upload_def Let_def get_partial_def get_retry_count_def)
  have "extraction_state path ?up = Some (case extraction_state path (store_db st) of
      Some e \<Rightarrow> e | None \<Rightarrow> \<lparr>es_stamp = None, es_text_sha256 = None, es_resend_reason = None, es_resend_attempts = 0\<rparr>)"
    by (auto simp: record_upload_def Let_def extraction_state_def upsert_row_lookup write_fields_lookup new_row_def split: option.splits)
  moreover have "frec = None \<longrightarrow> fields_state path ?up = Some (case fields_state path (store_db st) of
      Some f \<Rightarrow> f | None \<Rightarrow> \<lparr>fs_digest = None, fs_sent = False, fs_outcome = None, fs_attempts = 0\<rparr>)"
    by (auto simp: record_upload_def Let_def fields_state_def row_fields_state_def upsert_row_lookup new_row_def split: option.splits)
  ultimately show ?thesis
    using fp fp_of_record_upload [of now path mtime sz key_id None frec "store_db st"] other noted
    by (simp add: clean part clears_lookup extraction_state_def fields_state_def)
qed

theorem upload_recorded_witness:
  "store_ok (opened example_db)
   \<and> fp_of (store_db (store_record_upload ''t'' ''a'' ''m2'' 7 ''k'' None (opened example_db))) ''a'' = Some (''m2'', 7)
   \<and> get_partial ''a'' (store_db (record_partial ''t'' ''a'' ''m2'' 7 ''k'' [(''pages'', JInt 3)] None (opened example_db))) = Some [(''pages'', JInt 3)]"
proof -
  have ok: "store_ok (opened example_db)" using reachable_ok [OF example_db_ok] by blast
  show ?thesis
    using upload_recorded [OF ok refl refl, where now = "''t''" and path = "''a''" and mtime = "''m2''" and sz = 7
        and key_id = "''k''" and frec = None and pnote = "[(''pages'', JInt 3)]"] ok
    by simp
qed

lemma summarize_loop_counts:
  assumes "store_ok st"
  shows "fst (summarize_loop incl scanned st s) =
    (let statuses = map (\<lambda>(p, m, z). status_from_fingerprint (fp_of (store_db st) p) m z) scanned
     in s\<lparr>sum_total := sum_total s + int (length scanned),
          sum_synced := sum_synced s + int (length (filter (\<lambda>x. x = Synced) statuses)),
          sum_pending := sum_pending s + int (length (filter (\<lambda>x. x = Pending) statuses)),
          sum_modified := sum_modified s + int (length (filter (\<lambda>x. x = Modified) statuses)),
          sum_documents := sum_documents s @ (if incl then map (\<lambda>((p, m, z), x). \<lparr>rec_path = p, rec_mtime = m, rec_size = z, rec_status = x\<rparr>)
            (zip scanned statuses) else [])\<rparr>)"
  using assms
proof (induction incl scanned st s rule: summarize_loop.induct)
  case (2 incl path mtime sz scanned st s)
  note d = document_status_ok [OF 2(2), of path mtime sz]
  have "status_from_fingerprint fp mtime sz \<in> {Synced, Pending, Modified}" for fp
    by (simp add: status_from_fingerprint_def split: option.splits)
  with d show ?case using 2(1) [OF refl prod.collapse refl refl refl d(2)]
    by (auto simp: split_def Let_def)
qed simp

text \<open>
  The summary of a scan. Every scanned file is counted once, as synced, pending or modified
  according to the database; nothing is counted as excluded or changed in its fields; and with the
  documents included, they are the scanned files in order with their status.
\<close>

theorem summarize_counts:
  assumes "store_ok st" and "summarize incl scanned st = (s, st')"
  shows "let statuses = map (\<lambda>(p, m, z). status_from_fingerprint (fp_of (store_db st) p) m z) scanned
    in sum_total s = int (length scanned) \<and> sum_total s = sum_synced s + sum_pending s + sum_modified s
      \<and> sum_synced s = int (length (filter (\<lambda>x. x = Synced) statuses))
      \<and> sum_pending s = int (length (filter (\<lambda>x. x = Pending) statuses))
      \<and> sum_excluded_max_age s = 0 \<and> sum_fields_changed s = 0
      \<and> map (\<lambda>d. (rec_path d, rec_mtime d, rec_size d)) (sum_documents s) = (if incl then scanned else [])
      \<and> (incl \<longrightarrow> map rec_status (sum_documents s) = statuses)
      \<and> store_db st' = store_db st"
proof -
  obtain fps st1 where l: "store_load_fingerprints st = (fps, st1)" by fastforce
  note ok = store_load_ok [OF assms(1) l]
  have three: "status_from_fingerprint fp m z \<in> {Synced, Pending, Modified}" for fp m z
    by (simp add: status_from_fingerprint_def split: option.splits)
  define statuses where "statuses = map (\<lambda>(p, m, z). status_from_fingerprint (fp_of (store_db st) p) m z) scanned"
  have "set statuses \<subseteq> {Synced, Pending, Modified}" using three by (auto simp: statuses_def)
  then have split: "int (length statuses) = int (length (filter (\<lambda>x. x = Synced) statuses))
      + int (length (filter (\<lambda>x. x = Pending) statuses)) + int (length (filter (\<lambda>x. x = Modified) statuses))"
    by (induction statuses) auto
  have len: "length statuses = length scanned" by (simp add: statuses_def)
  have s: "s = fst (summarize_loop incl scanned st1 empty_summary)" and st': "store_db st' = store_db st"
    using assms(2) summarize_loop_ok(2) [OF ok(1), of incl scanned empty_summary] ok(2)
    by (auto simp: summarize_def l split_def dest: arg_cong [where f = snd] arg_cong [where f = fst])
  have "map (\<lambda>d. (rec_path d, rec_mtime d, rec_size d)) (map (\<lambda>((p, m, z), x). \<lparr>rec_path = p, rec_mtime = m, rec_size = z, rec_status = x\<rparr>)
      (zip xs ys)) = xs \<and> map rec_status (map (\<lambda>((p, m, z), x). \<lparr>rec_path = p, rec_mtime = m, rec_size = z, rec_status = x\<rparr>) (zip xs ys)) = ys"
    if "length xs = length ys" for xs :: "(string \<times> string \<times> int) list" and ys
    using that by (induction xs ys rule: list_induct2) auto
  from this [of scanned statuses] len split st'
  show ?thesis
    unfolding s summarize_loop_counts [OF ok(1)] ok(2) statuses_def [symmetric] Let_def
    by (simp add: empty_summary_def)
qed

theorem summarize_counts_witness:
  "store_ok (opened example_db) \<and> (\<exists>s st'. summarize True [(''a'', ''m'', 1), (''z'', ''m'', 2)] (opened example_db) = (s, st')
     \<and> sum_total s = 2 \<and> map rec_status (sum_documents s) = [Synced, Pending])"
proof -
  have ok: "store_ok (opened example_db)" using reachable_ok [OF example_db_ok] by blast
  obtain s st' where r: "summarize True [(''a'', ''m'', 1), (''z'', ''m'', 2)] (opened example_db) = (s, st')" by fastforce
  have "status_from_fingerprint (fp_of example_db ''a'') ''m'' 1 = Synced" "status_from_fingerprint (fp_of example_db ''z'') ''m'' 2 = Pending"
    by code_simp+
  then show ?thesis using summarize_counts [OF ok r] ok r by (simp add: Let_def opened_def)
qed

text \<open>
  Forgetting a document. Afterwards it is on neither list and counts as never seen, its retries
  are gone and its OCR entries are asked to go; every other document keeps its row, note and retries.
\<close>

theorem remove_tracked_forgets:
  assumes "store_ok st" and "st' = store_remove_tracked path st"
  shows "set (list_tracked_paths (store_db st')) = set (list_tracked_paths (store_db st)) - {path}
    \<and> set (list_partial_paths (store_db st')) = set (list_partial_paths (store_db st)) - {path}
    \<and> get_retry_count path (store_db st') = 0 \<and> fst (document_status path mtime sz st') = Pending
    \<and> ocr_requests st' = ocr_requests st @ [Purge_Document path]
    \<and> (\<forall>k. k \<noteq> path \<longrightarrow> map_of (documents (store_db st')) k = map_of (documents (store_db st)) k
        \<and> get_partial k (store_db st') = get_partial k (store_db st)
        \<and> get_retry_count k (store_db st') = get_retry_count k (store_db st))"
proof -
  obtain fps st1 where l: "store_load_fingerprints st = (fps, st1)" by fastforce
  have ocr: "ocr_requests st' = ocr_requests st @ [Purge_Document path]"
    using store_load_ok(5) [OF assms(1) l] by (simp add: assms(2) store_remove_tracked_def l split_def Let_def)
  have db: "store_db st' = snd (remove_tracked path None (store_db st))" and ok: "store_ok st'"
    unfolding assms(2) using store_remove_ok [OF assms(1)] by blast+
  have "fst (document_status path mtime sz st') = Pending"
    using document_status_ok(1) [OF ok] by (simp add: db fp_of_remove_tracked status_from_fingerprint_def)
  with ocr show ?thesis
    by (simp add: db remove_tracked_def list_tracked_paths_def list_partial_paths_def at.keys_del get_retry_count_def
        get_partial_def at.lookup_del)
qed

theorem remove_tracked_forgets_witness:
  "store_ok (opened example_db) \<and> set (list_tracked_paths (store_db (store_remove_tracked ''a'' (opened example_db)))) = {''b'', ''c''}"
proof -
  have ok: "store_ok (opened example_db)" using reachable_ok [OF example_db_ok] by blast
  have "set (list_tracked_paths (store_db (opened example_db))) = {''a'', ''b'', ''c''}" by code_simp
  then show ?thesis using remove_tracked_forgets [OF ok refl, of "''a''"] ok by auto
qed

lemma legacy_file_key:
  "CHR ''|'' \<notin> set p \<Longrightarrow> CHR ''|'' \<notin> set m \<Longrightarrow>
   legacy_file (file_key p m z, JObj meta) docs = AList.update p (legacy_entry m z (JObj meta)) docs"
  using split_max_append [of "CHR ''|''" p 1 "m @ CHR ''|'' # show_int z"] split_max_append [of "CHR ''|''" m 0 "show_int z"]
  by (simp add: file_key_def numeral_2_eq_2 py_int_show_int)

definition legacy_files :: "(string \<times> string \<times> int \<times> jdict) list \<Rightarrow> jdict" where
  "legacy_files entries = map (\<lambda>(p, m, z, meta). (file_key p m z, JObj meta)) entries"

lemma fold_legacy_lookup:
  assumes "\<forall>(p, m, z, meta) \<in> set entries. CHR ''|'' \<notin> set p \<and> CHR ''|'' \<notin> set m"
    and "distinct (map fst entries)"
  shows "map_of (fold legacy_file (legacy_files entries) docs) k =
    (case map_of entries k of Some (m, z, meta) \<Rightarrow> Some (legacy_entry m z (JObj meta)) | None \<Rightarrow> map_of docs k)"
  using assms
proof (induction entries arbitrary: docs)
  case Nil
  then show ?case by (simp add: legacy_files_def)
next
  case (Cons e entries)
  obtain p m z meta where e: "e = (p, m, z, meta)" by (cases e)
  have "map_of entries p = None" using Cons.prems(2) e by (auto simp: map_of_eq_None_iff)
  with Cons show ?case
    by (auto simp: e legacy_files_def legacy_file_key at.lookup_put simp del: legacy_file.simps split: option.splits)
qed

text \<open>
  Migration of the legacy state file. For documents whose path and time hold no \<open>|\<close>, the entry
  under the composite key of \<open>file_key\<close> is converted to an entry under the path with the same time,
  size, upload time and key, and it wins over one in the newer section; the rest of that section stays.
\<close>

theorem legacy_keys_roundtrip:
  assumes "\<forall>(p, m, z, meta) \<in> set entries. CHR ''|'' \<notin> set p \<and> CHR ''|'' \<notin> set m"
    and "distinct (map fst entries)"
  shows "map_of (normalize_json_documents [(''documents'', JObj docs), (''files'', JObj (legacy_files entries))]) k =
    (case map_of entries k of Some (m, z, meta) \<Rightarrow> Some (legacy_entry m z (JObj meta)) | None \<Rightarrow> map_of docs k)"
  using fold_legacy_lookup [OF assms, of docs k] by (simp add: normalize_json_documents_def)

theorem legacy_keys_roundtrip_witness:
  "distinct (map fst [(''a/b.pdf'', ''2024-01-02'', 17 :: int, [] :: jdict)])
   \<and> map_of (normalize_json_documents [(''documents'', JObj []), (''files'', JObj (legacy_files [(''a/b.pdf'', ''2024-01-02'', 17, [])]))]) ''a/b.pdf''
     = Some (legacy_entry ''2024-01-02'' 17 (JObj []))"
  using legacy_keys_roundtrip [of "[(''a/b.pdf'', ''2024-01-02'', 17, [])]" "[]" "''a/b.pdf''"] by simp

text \<open>
  A path with a \<open>|\<close> is lost in the migration. The key is split from the left, so the last piece
  is no number and the entry is dropped: the document counts as never uploaded and is sent again.
\<close>

theorem legacy_pipe_path_dropped:
  "normalize_json_documents [(''files'', JObj [(file_key ''a|b.pdf'' ''2024-01-02'' 17, JObj [])])] = []"
  by code_simp

end
