(* ===== verification/Approvals.thy ===== *)
theory Approvals
  imports Python_Values
begin

text \<open>
  Four-eyes approval of destructive actions (\<open>identity/approvals.py\<close>) and the audit record
  (\<open>identity/audit.py\<close>). Tables are association lists, times are integers, an id is its text; the id
  PostgreSQL draws for a new request is an argument. An audit write may fail, in which case it is
  only logged: every operation takes a flag that says whether its write succeeds.

  \<open>approve\<close>, \<open>reject\<close> and \<open>mark_executed\<close> read a row, check it, and then write with a condition on
  the status. The read and the write are separate definitions, so that the step relation below can
  interleave the requests of several workers between them.
\<close>

section \<open>Audit\<close>

record actor =
  actor_id :: string
  actor_email :: string
  actor_roles :: "string list"

record audit_entry =
  audit_action :: string
  audit_actor_id :: "string option"
  audit_actor_email :: "string option"
  audit_target_type :: "string option"
  audit_target_id :: "string option"
  audit_detail :: "(string \<times> jval) list"

definition audit_record ::
    "bool \<Rightarrow> string \<Rightarrow> actor option \<Rightarrow> string option \<Rightarrow> string option \<Rightarrow> (string \<times> jval) list \<Rightarrow> audit_entry list \<Rightarrow> audit_entry list" where
  "audit_record write_ok action who target_type target_id detail entries =
     (if write_ok then entries @ [\<lparr>audit_action = action, audit_actor_id = map_option actor_id who,
        audit_actor_email = map_option actor_email who, audit_target_type = target_type,
        audit_target_id = target_id, audit_detail = detail\<rparr>]
      else entries)"

text \<open>The entries are oldest first; \<open>action\<close> filters when it is given and not empty.\<close>

definition audit_recent :: "string option \<Rightarrow> nat \<Rightarrow> audit_entry list \<Rightarrow> audit_entry list" where
  "audit_recent action n entries =
     take n (rev (case action of None \<Rightarrow> entries
       | Some a \<Rightarrow> if a = [] then entries else filter (\<lambda>e. audit_action e = a) entries))"

section \<open>Requests\<close>

datatype approval_status = Status_Pending | Status_Approved | Status_Rejected | Status_Expired | Status_Executed

record approval_request =
  req_kind :: string
  req_target_ref :: string
  req_payload :: "(string \<times> jval) list"
  requested_by :: string
  requested_at :: int
  expires_at :: int
  req_status :: approval_status
  approved_by :: "string option"
  approved_at :: "int option"
  decision_reason :: "string option"
  executed_at :: "int option"
  execution_result :: "(string \<times> jval) list option"

datatype approval_error = UnknownKindError | UnknownRequestError | SelfApprovalError | NotAnApproverError
  | RequestExpiredError | InvalidTransitionError | Unique_Violation | Four_Eyes_Violation

record approval_db =
  approval_requests :: "(string, approval_request) table"
  bypass_setting :: "jval option"
  audit_log :: "audit_entry list"

definition GUARDED_KINDS :: "string list" where
  "GUARDED_KINDS = [''matter_delete'', ''acl_change'', ''bulk_export'', ''purge_all_documents'', ''ingestion_profile_change'']"

definition APPROVER_ROLES :: "string list" where
  "APPROVER_ROLES = [''approver'', ''admin'']"

definition BYPASS_ROLE :: string where
  "BYPASS_ROLE = ''admin''"

definition DEFAULT_TTL :: int where
  "DEFAULT_TTL = 24 * 3600"

subsection \<open>The bypass\<close>

fun py_truthy :: "jval \<Rightarrow> bool" where
  "py_truthy JNull = False"
| "py_truthy (JBool b) = b"
| "py_truthy (JInt n) = (n \<noteq> 0)"
| "py_truthy (JReal r) = (r \<noteq> 0)"
| "py_truthy (JStr s) = (s \<noteq> [])"
| "py_truthy (JArr xs) = (xs \<noteq> [])"
| "py_truthy (JObj ps) = (ps \<noteq> [])"

definition admin_bypass_enabled :: "approval_db \<Rightarrow> bool py" where
  "admin_bypass_enabled db =
     (case bypass_setting db of
        None \<Rightarrow> Inr True
      | Some (JBool b) \<Rightarrow> Inr b
      | Some (JObj ps) \<Rightarrow> Inr (case map_of ps ''enabled'' of None \<Rightarrow> True | Some v \<Rightarrow> py_truthy v)
      | Some _ \<Rightarrow> Inl AttributeError)"

definition set_admin_bypass :: "bool \<Rightarrow> bool \<Rightarrow> actor option \<Rightarrow> approval_db \<Rightarrow> approval_db" where
  "set_admin_bypass write_ok enabled by_actor db =
     db\<lparr>bypass_setting := Some (JObj [(''enabled'', JBool enabled)]),
        audit_log := audit_record write_ok ''approvals.bypass_setting_changed'' by_actor None None
          [(''enabled'', JBool enabled)] (audit_log db)\<rparr>"

definition requires_approval :: "string \<Rightarrow> actor \<Rightarrow> approval_db \<Rightarrow> bool py" where
  "requires_approval kind who db =
     (if kind \<notin> set GUARDED_KINDS then Inr False
      else if BYPASS_ROLE \<in> set (actor_roles who) then
        (case admin_bypass_enabled db of Inl e \<Rightarrow> Inl e | Inr enabled \<Rightarrow> Inr (\<not> enabled))
      else Inr True)"

definition record_bypass ::
    "bool \<Rightarrow> actor \<Rightarrow> string \<Rightarrow> string \<Rightarrow> (string \<times> jval) list \<Rightarrow> approval_db \<Rightarrow> approval_db" where
  "record_bypass write_ok who kind target_ref detail db =
     db\<lparr>audit_log := audit_record write_ok ''approval.bypassed'' (Some who) (Some kind) (Some target_ref)
          (fold (\<lambda>(k, v). AList.update k v) detail
             [(''kind'', JStr kind), (''target_ref'', JStr target_ref), (''reason'', JStr ''administrator bypass'')])
          (audit_log db)\<rparr>"

subsection \<open>The workflow\<close>

definition request_approval ::
    "bool \<Rightarrow> string \<Rightarrow> int \<Rightarrow> actor \<Rightarrow> string \<Rightarrow> string \<Rightarrow> (string \<times> jval) list \<Rightarrow> int \<Rightarrow> approval_db
     \<Rightarrow> (approval_error + string) \<times> approval_db" where
  "request_approval write_ok new_id now who kind target_ref payload ttl db =
     (if kind \<notin> set GUARDED_KINDS then (Inl UnknownKindError, db)
      else if map_of (approval_requests db) new_id \<noteq> None then (Inl Unique_Violation, db)
      else (Inr new_id,
        db\<lparr>approval_requests := AList.update new_id
             \<lparr>req_kind = kind, req_target_ref = target_ref, req_payload = payload, requested_by = actor_id who,
              requested_at = now, expires_at = now + ttl, req_status = Status_Pending, approved_by = None,
              approved_at = None, decision_reason = None, executed_at = None, execution_result = None\<rparr> (approval_requests db),
           audit_log := audit_record write_ok ''approval.requested'' (Some who) (Some kind) (Some target_ref)
             [(''request_id'', JStr new_id), (''kind'', JStr kind)] (audit_log db)\<rparr>))"

definition load_request :: "string \<Rightarrow> approval_db \<Rightarrow> approval_error + approval_request" where
  "load_request rid db =
     (case map_of (approval_requests db) rid of None \<Rightarrow> Inl UnknownRequestError | Some r \<Rightarrow> Inr r)"

definition is_expired :: "int \<Rightarrow> approval_request \<Rightarrow> bool" where
  "is_expired now r \<longleftrightarrow> expires_at r \<le> now"

definition check_decidable :: "int \<Rightarrow> approval_request \<Rightarrow> actor \<Rightarrow> approval_error option" where
  "check_decidable now existing who =
     (if req_status existing \<noteq> Status_Pending then Some InvalidTransitionError
      else if is_expired now existing then Some RequestExpiredError
      else if requested_by existing = actor_id who then Some SelfApprovalError
      else if set APPROVER_ROLES \<inter> set (actor_roles who) = {} then Some NotAnApproverError
      else None)"

text \<open>
  \<open>UPDATE ... WHERE id = ... AND status = ... RETURNING\<close>: the row written, if the status still is the
  one expected. The table's check \<open>four_eyes\<close> refuses an approver who is the requester.
\<close>

definition guarded_update ::
    "string \<Rightarrow> approval_status \<Rightarrow> (approval_request \<Rightarrow> approval_request) \<Rightarrow> approval_db
     \<Rightarrow> (approval_error + approval_request) \<times> approval_db" where
  "guarded_update rid expected f db =
     (case map_of (approval_requests db) rid of
        None \<Rightarrow> (Inl InvalidTransitionError, db)
      | Some r \<Rightarrow>
          if req_status r \<noteq> expected then (Inl InvalidTransitionError, db)
          else if approved_by (f r) = Some (requested_by (f r)) then (Inl Four_Eyes_Violation, db)
          else (Inr (f r), db\<lparr>approval_requests := AList.update rid (f r) (approval_requests db)\<rparr>))"

definition approve_write ::
    "bool \<Rightarrow> (string \<Rightarrow> string option) \<Rightarrow> int \<Rightarrow> string \<Rightarrow> approval_request \<Rightarrow> actor \<Rightarrow> approval_db
     \<Rightarrow> (approval_error + approval_request) \<times> approval_db" where
  "approve_write write_ok email_of now rid existing who db =
     (case guarded_update rid Status_Pending
         (\<lambda>r. r\<lparr>req_status := Status_Approved, approved_by := Some (actor_id who), approved_at := Some now\<rparr>) db of
        (Inl e, db') \<Rightarrow> (Inl e, db')
      | (Inr r, db') \<Rightarrow> (Inr r, db'\<lparr>audit_log := audit_record write_ok ''approval.approved'' (Some who)
            (Some (req_kind existing)) (Some (req_target_ref existing))
            [(''request_id'', JStr rid),
             (''requested_by_email'', case email_of (requested_by existing) of None \<Rightarrow> JNull | Some e \<Rightarrow> JStr e)]
            (audit_log db')\<rparr>))"

definition approve ::
    "bool \<Rightarrow> (string \<Rightarrow> string option) \<Rightarrow> int \<Rightarrow> string \<Rightarrow> actor \<Rightarrow> approval_db
     \<Rightarrow> (approval_error + approval_request) \<times> approval_db" where
  "approve write_ok email_of now rid who db =
     (case load_request rid db of Inl e \<Rightarrow> (Inl e, db)
      | Inr existing \<Rightarrow>
          (case check_decidable now existing who of Some e \<Rightarrow> (Inl e, db)
           | None \<Rightarrow> approve_write write_ok email_of now rid existing who db))"

definition reject_write ::
    "bool \<Rightarrow> int \<Rightarrow> string \<Rightarrow> approval_request \<Rightarrow> actor \<Rightarrow> string \<Rightarrow> approval_db
     \<Rightarrow> (approval_error + approval_request) \<times> approval_db" where
  "reject_write write_ok now rid existing who reason db =
     (case guarded_update rid Status_Pending
         (\<lambda>r. r\<lparr>req_status := Status_Rejected, approved_by := Some (actor_id who), approved_at := Some now,
            decision_reason := Some reason\<rparr>) db of
        (Inl e, db') \<Rightarrow> (Inl e, db')
      | (Inr r, db') \<Rightarrow> (Inr r, db'\<lparr>audit_log := audit_record write_ok ''approval.rejected'' (Some who)
            (Some (req_kind existing)) (Some (req_target_ref existing))
            [(''request_id'', JStr rid), (''reason'', JStr reason)] (audit_log db')\<rparr>))"

definition reject ::
    "bool \<Rightarrow> int \<Rightarrow> string \<Rightarrow> actor \<Rightarrow> string \<Rightarrow> approval_db \<Rightarrow> (approval_error + approval_request) \<times> approval_db" where
  "reject write_ok now rid who reason db =
     (case load_request rid db of Inl e \<Rightarrow> (Inl e, db)
      | Inr existing \<Rightarrow>
          (case check_decidable now existing who of Some e \<Rightarrow> (Inl e, db)
           | None \<Rightarrow> reject_write write_ok now rid existing who reason db))"

definition execute_write ::
    "bool \<Rightarrow> int \<Rightarrow> string \<Rightarrow> (string \<times> jval) list \<Rightarrow> actor option \<Rightarrow> approval_db
     \<Rightarrow> (approval_error + approval_request) \<times> approval_db" where
  "execute_write write_ok now rid result who db =
     (case guarded_update rid Status_Approved
         (\<lambda>r. r\<lparr>req_status := Status_Executed, executed_at := Some now, execution_result := Some result\<rparr>) db of
        (Inl e, db') \<Rightarrow> (Inl e, db')
      | (Inr r, db') \<Rightarrow> (Inr r, db'\<lparr>audit_log := audit_record write_ok ''approval.executed'' who
            (Some (req_kind r)) (Some (req_target_ref r))
            [(''request_id'', JStr rid), (''result'', JObj result)] (audit_log db')\<rparr>))"

definition mark_executed ::
    "bool \<Rightarrow> int \<Rightarrow> string \<Rightarrow> (string \<times> jval) list \<Rightarrow> actor option \<Rightarrow> approval_db
     \<Rightarrow> (approval_error + approval_request) \<times> approval_db" where
  "mark_executed write_ok now rid result who db =
     (case load_request rid db of Inl e \<Rightarrow> (Inl e, db)
      | Inr existing \<Rightarrow>
          if req_status existing \<noteq> Status_Approved then (Inl InvalidTransitionError, db)
          else execute_write write_ok now rid result who db)"

definition pending_requests :: "int \<Rightarrow> approval_db \<Rightarrow> approval_request list" where
  "pending_requests now db =
     sort_key requested_at (filter (\<lambda>r. req_status r = Status_Pending \<and> now < expires_at r) (map snd (approval_requests db)))"

definition approved_requests :: "approval_db \<Rightarrow> approval_request list" where
  "approved_requests db =
     (let rs = filter (\<lambda>r. req_status r = Status_Approved) (map snd (approval_requests db))
      in filter (\<lambda>r. approved_at r = None) rs
         @ sort_key (\<lambda>r. case approved_at r of Some t \<Rightarrow> - t | None \<Rightarrow> 0) (filter (\<lambda>r. approved_at r \<noteq> None) rs))"

definition expire_stale :: "int \<Rightarrow> approval_db \<Rightarrow> int \<times> approval_db" where
  "expire_stale now db =
     (let stale = (\<lambda>r. req_status r = Status_Pending \<and> expires_at r \<le> now)
      in (int (length (filter (\<lambda>(k, r). stale r) (approval_requests db))),
          db\<lparr>approval_requests := tmap (\<lambda>k r. if stale r then r\<lparr>req_status := Status_Expired\<rparr> else r) (approval_requests db)\<rparr>))"

section \<open>Several workers\<close>

text \<open>
  Between its read and its write an operation is in flight with what it read. \<open>who\<close> is the directory
  of accounts; a step may start an operation, finish one in flight in any order, or run one of the
  single-statement operations.
\<close>

datatype in_flight =
    Approving string approval_request actor
  | Rejecting string approval_request actor string
  | Executing string "(string \<times> jval) list" "actor option"

record approval_system =
  sys_db :: approval_db
  flights :: "in_flight list"

inductive approval_step :: "(string \<Rightarrow> actor) \<Rightarrow> approval_system \<Rightarrow> approval_system \<Rightarrow> bool" for who where
  raise: "approval_step who s (s\<lparr>sys_db := snd (request_approval ok new_id now (who u) kind target payload ttl (sys_db s))\<rparr>)"
| start_approve: "load_request rid (sys_db s) = Inr existing \<Longrightarrow> check_decidable now existing (who u) = None \<Longrightarrow>
    approval_step who s (s\<lparr>flights := Approving rid existing (who u) # flights s\<rparr>)"
| finish_approve: "Approving rid existing a \<in> set (flights s) \<Longrightarrow>
    approval_step who s (s\<lparr>sys_db := snd (approve_write ok email_of now rid existing a (sys_db s)),
      flights := remove1 (Approving rid existing a) (flights s)\<rparr>)"
| start_reject: "load_request rid (sys_db s) = Inr existing \<Longrightarrow> check_decidable now existing (who u) = None \<Longrightarrow>
    approval_step who s (s\<lparr>flights := Rejecting rid existing (who u) reason # flights s\<rparr>)"
| finish_reject: "Rejecting rid existing a reason \<in> set (flights s) \<Longrightarrow>
    approval_step who s (s\<lparr>sys_db := snd (reject_write ok now rid existing a reason (sys_db s)),
      flights := remove1 (Rejecting rid existing a reason) (flights s)\<rparr>)"
| start_execute: "load_request rid (sys_db s) = Inr existing \<Longrightarrow> req_status existing = Status_Approved \<Longrightarrow>
    approval_step who s (s\<lparr>flights := Executing rid result by_actor # flights s\<rparr>)"
| finish_execute: "Executing rid result by_actor \<in> set (flights s) \<Longrightarrow>
    approval_step who s (s\<lparr>sys_db := snd (execute_write ok now rid result by_actor (sys_db s)),
      flights := remove1 (Executing rid result by_actor) (flights s)\<rparr>)"
| expire: "approval_step who s (s\<lparr>sys_db := snd (expire_stale now (sys_db s))\<rparr>)"
| set_bypass: "approval_step who s (s\<lparr>sys_db := set_admin_bypass ok enabled by_actor (sys_db s)\<rparr>)"
| bypass: "approval_step who s (s\<lparr>sys_db := record_bypass ok (who u) kind target detail (sys_db s)\<rparr>)"

definition empty_system :: approval_system where
  "empty_system = \<lparr>sys_db = \<lparr>approval_requests = [], bypass_setting = None, audit_log = []\<rparr>, flights = []\<rparr>"

definition rows_of :: "approval_system \<Rightarrow> string \<Rightarrow> approval_request option" where
  "rows_of s rid = map_of (approval_requests (sys_db s)) rid"

definition may_confirm :: "(string \<Rightarrow> actor) \<Rightarrow> string \<Rightarrow> bool" where
  "may_confirm who u \<longleftrightarrow> set APPROVER_ROLES \<inter> set (actor_roles (who u)) \<noteq> {}"

definition row_ok :: "(string \<Rightarrow> actor) \<Rightarrow> approval_request \<Rightarrow> bool" where
  "row_ok who r \<longleftrightarrow>
     (case approved_by r of
        None \<Rightarrow> req_status r \<in> {Status_Pending, Status_Expired}
      | Some a \<Rightarrow> req_status r \<in> {Status_Approved, Status_Rejected, Status_Executed}
          \<and> a \<noteq> requested_by r \<and> may_confirm who a)"

definition flight_ok :: "(string \<Rightarrow> actor) \<Rightarrow> approval_system \<Rightarrow> in_flight \<Rightarrow> bool" where
  "flight_ok who s f = (case f of
     Approving rid existing a \<Rightarrow> a = who (actor_id a) \<and> may_confirm who (actor_id a)
   | Rejecting rid existing a reason \<Rightarrow> a = who (actor_id a) \<and> may_confirm who (actor_id a)
   | Executing rid result by_actor \<Rightarrow> True)"

definition sys_ok :: "(string \<Rightarrow> actor) \<Rightarrow> approval_system \<Rightarrow> bool" where
  "sys_ok who s \<longleftrightarrow> (\<forall>rid r. rows_of s rid = Some r \<longrightarrow> row_ok who r) \<and> (\<forall>f \<in> set (flights s). flight_ok who s f)"

text \<open>What may happen to a request: its content never changes, and its status moves only forward.\<close>

definition same_request :: "approval_request \<Rightarrow> approval_request \<Rightarrow> bool" where
  "same_request r r' \<longleftrightarrow> req_kind r' = req_kind r \<and> req_target_ref r' = req_target_ref r \<and> req_payload r' = req_payload r
     \<and> requested_by r' = requested_by r \<and> requested_at r' = requested_at r \<and> expires_at r' = expires_at r"

definition advances :: "approval_request \<Rightarrow> approval_request \<Rightarrow> bool" where
  "advances r r' \<longleftrightarrow> same_request r r' \<and>
     (case req_status r of
        Status_Pending \<Rightarrow> True
      | Status_Approved \<Rightarrow> req_status r' \<in> {Status_Approved, Status_Executed} \<and> approved_by r' = approved_by r \<and> approved_at r' = approved_at r
      | _ \<Rightarrow> r' = r)"

lemma advances_refl [simp]: "advances r r"
  by (simp add: advances_def same_request_def split: approval_status.splits)

lemma advances_trans: "advances r r' \<Longrightarrow> advances r' r'' \<Longrightarrow> advances r r''"
  by (auto simp: advances_def same_request_def split: approval_status.splits)

lemma guarded_update_rows:
  "map_of (approval_requests (snd (guarded_update rid expected f db))) k =
     (case map_of (approval_requests db) k of None \<Rightarrow> None
      | Some r \<Rightarrow> Some (if k = rid \<and> req_status r = expected \<and> approved_by (f r) \<noteq> Some (requested_by (f r)) then f r else r))"
  by (auto simp: guarded_update_def at.lookup_put split: option.splits)

lemma write_rows:
  "map_of (approval_requests (snd (approve_write ok email_of now rid existing a db))) k =
     map_of (approval_requests (snd (guarded_update rid Status_Pending
       (\<lambda>r. r\<lparr>req_status := Status_Approved, approved_by := Some (actor_id a), approved_at := Some now\<rparr>) db))) k"
  "map_of (approval_requests (snd (reject_write ok now rid existing a reason db))) k =
     map_of (approval_requests (snd (guarded_update rid Status_Pending
       (\<lambda>r. r\<lparr>req_status := Status_Rejected, approved_by := Some (actor_id a), approved_at := Some now, decision_reason := Some reason\<rparr>) db))) k"
  "map_of (approval_requests (snd (execute_write ok now rid result by_actor db))) k =
     map_of (approval_requests (snd (guarded_update rid Status_Approved
       (\<lambda>r. r\<lparr>req_status := Status_Executed, executed_at := Some now, execution_result := Some result\<rparr>) db))) k"
  by (auto simp: approve_write_def reject_write_def execute_write_def split: prod.splits sum.splits)

lemma expire_rows:
  "map_of (approval_requests (snd (expire_stale now db))) k = map_option
     (\<lambda>r. if req_status r = Status_Pending \<and> expires_at r \<le> now then r\<lparr>req_status := Status_Expired\<rparr> else r) (map_of (approval_requests db) k)"
  by (simp add: expire_stale_def Let_def tmap_lookup)

lemma request_rows:
  assumes "map_of (approval_requests db) k = Some r"
  shows "map_of (approval_requests (snd (request_approval ok new_id now a kind target payload ttl db))) k = Some r"
  using assms by (auto simp: request_approval_def at.lookup_put)

lemma setting_rows:
  "approval_requests (set_admin_bypass ok enabled by_actor db) = approval_requests db"
  "approval_requests (record_bypass ok a kind target detail db) = approval_requests db"
  by (simp_all add: set_admin_bypass_def record_bypass_def)

lemma step_advances:
  "approval_step who s s' \<Longrightarrow> rows_of s rid = Some r \<Longrightarrow> \<exists>r'. rows_of s' rid = Some r' \<and> advances r r'"
proof (induction rule: approval_step.induct)
  case (expire s now)
  then show ?case by (auto simp: rows_of_def expire_rows advances_def same_request_def split: approval_status.splits)
qed (auto simp: rows_of_def write_rows guarded_update_rows request_rows setting_rows,
    auto simp: advances_def same_request_def split: approval_status.splits)

lemma step_row_ok:
  assumes "approval_step who s s'" and "sys_ok who s" and "rows_of s' rid = Some r'"
  shows "row_ok who r'"
proof -
  have row: "row_ok who r" if "map_of (approval_requests (sys_db s)) k = Some r" for k r
    using assms(2) that by (auto simp: sys_ok_def rows_of_def)
  have flight: "flight_ok who s f" if "f \<in> set (flights s)" for f using assms(2) that by (auto simp: sys_ok_def)
  show ?thesis
    using assms(1,3) row flight
  proof (cases rule: approval_step.cases)
    case (raise ok new_id now u kind target payload ttl)
    then show ?thesis using assms(3) row
      by (auto simp: rows_of_def request_approval_def at.lookup_put row_ok_def split: if_splits)
  next
    case (finish_approve rid' existing a ok email_of now)
    then obtain r where r: "map_of (approval_requests (sys_db s)) rid = Some r"
      "r' = r \<or> actor_id a \<noteq> requested_by r \<and> r' = r\<lparr>req_status := Status_Approved, approved_by := Some (actor_id a), approved_at := Some now\<rparr>"
      using assms(3) by (auto simp: rows_of_def write_rows guarded_update_rows split: option.splits if_splits)
    with row [OF r(1)] flight [OF finish_approve(2)] show ?thesis by (auto simp: row_ok_def flight_ok_def)
  next
    case (finish_reject rid' existing a reason ok now)
    then obtain r where r: "map_of (approval_requests (sys_db s)) rid = Some r"
      "r' = r \<or> actor_id a \<noteq> requested_by r \<and> r' = r\<lparr>req_status := Status_Rejected, approved_by := Some (actor_id a),
         approved_at := Some now, decision_reason := Some reason\<rparr>"
      using assms(3) by (auto simp: rows_of_def write_rows guarded_update_rows split: option.splits if_splits)
    with row [OF r(1)] flight [OF finish_reject(2)] show ?thesis by (auto simp: row_ok_def flight_ok_def)
  next
    case (finish_execute rid' result by_actor ok now)
    then obtain r where r: "map_of (approval_requests (sys_db s)) rid = Some r"
      "r' = r \<or> req_status r = Status_Approved \<and> r' = r\<lparr>req_status := Status_Executed, executed_at := Some now, execution_result := Some result\<rparr>"
      using assms(3) by (auto simp: rows_of_def write_rows guarded_update_rows split: option.splits if_splits)
    with row [OF r(1)] show ?thesis by (auto simp: row_ok_def split: option.splits)
  next
    case (expire now)
    then obtain r where r: "map_of (approval_requests (sys_db s)) rid = Some r"
      "r' = r \<or> req_status r = Status_Pending \<and> r' = r\<lparr>req_status := Status_Expired\<rparr>"
      using assms(3) by (auto simp: rows_of_def expire_rows split: if_splits)
    with row [OF r(1)] show ?thesis by (auto simp: row_ok_def split: option.splits)
  qed (auto simp: rows_of_def setting_rows)
qed

lemma step_flights_ok:
  assumes "\<And>u. actor_id (who u) = u" and "approval_step who s s'" and "sys_ok who s" and "f \<in> set (flights s')"
  shows "flight_ok who s' f"
proof -
  have old: "flight_ok who s' f" if "f \<in> set (flights s)"
    using assms(3) that by (auto simp: sys_ok_def flight_ok_def split: in_flight.splits)
  have confirm: "may_confirm who u" if "check_decidable now existing (who u) = None" for now existing u
    using that by (auto simp: check_decidable_def may_confirm_def split: if_splits)
  from assms(2,4) old show ?thesis
    by (cases rule: approval_step.cases) (auto simp: flight_ok_def assms(1) dest: confirm notin_set_remove1 in_set_remove1 set_mp [OF set_remove1_subset])
qed

lemma reachable_sys_ok:
  assumes "\<And>u. actor_id (who u) = u" and "(approval_step who)\<^sup>*\<^sup>* empty_system s"
  shows "sys_ok who s"
  using assms(2)
proof (induction rule: rtranclp_induct)
  case base
  then show ?case by (simp add: sys_ok_def empty_system_def rows_of_def)
next
  case (step s s')
  then show ?case
    using step_row_ok [OF step(2,3)] step_flights_ok [OF assms(1) step(2,3)] by (auto simp: sys_ok_def)
qed

lemma reachable_advances:
  assumes "(approval_step who)\<^sup>*\<^sup>* s s'" and "rows_of s rid = Some r"
  shows "\<exists>r'. rows_of s' rid = Some r' \<and> advances r r'"
  using assms(1)
proof (induction rule: rtranclp_induct)
  case base
  then show ?case using assms(2) by simp
next
  case (step t t')
  then show ?case using step_advances advances_trans by blast
qed

section \<open>Properties\<close>

text \<open>
  (C25) Four eyes, whatever the interleaving. Starting from no requests, with several workers raising,
  confirming, rejecting and carrying out requests so that any number of operations is between its read
  and its write, every request that is approved, rejected or carried out was decided by someone other
  than the requester who holds a confirming role, and an undecided one has no decider.
\<close>

theorem four_eyes_holds:
  assumes "\<forall>u. actor_id (who u) = u" and "(approval_step who)\<^sup>*\<^sup>* empty_system s" and "rows_of s rid = Some r"
  shows "case approved_by r of
      None \<Rightarrow> req_status r = Status_Pending \<or> req_status r = Status_Expired
    | Some a \<Rightarrow> req_status r \<in> {Status_Approved, Status_Rejected, Status_Executed} \<and> a \<noteq> requested_by r
        \<and> (''approver'' \<in> set (actor_roles (who a)) \<or> ''admin'' \<in> set (actor_roles (who a)))"
proof -
  have "row_ok who r" using reachable_sys_ok [OF _ assms(2)] assms(1,3) by (auto simp: sys_ok_def)
  then show ?thesis by (auto simp: row_ok_def may_confirm_def APPROVER_ROLES_def split: option.splits)
qed

text \<open>
  Decisions are final. Once a request is no longer pending, no later sequence of steps, operations
  in flight included, changes what it is about, who decided it or when; a rejected, expired or executed
  one never changes at all, and an approved one can only become executed. So it is carried out at most once.
\<close>

theorem decision_final:
  assumes "(approval_step who)\<^sup>*\<^sup>* s s'" and "rows_of s rid = Some r" and "req_status r \<noteq> Status_Pending"
  shows "\<exists>r'. rows_of s' rid = Some r' \<and> same_request r r' \<and> approved_by r' = approved_by r \<and> approved_at r' = approved_at r
    \<and> (req_status r' = req_status r \<or> req_status r = Status_Approved \<and> req_status r' = Status_Executed)
    \<and> (req_status r \<noteq> Status_Approved \<longrightarrow> r' = r)"
  using reachable_advances [OF assms(1,2)] assms(3)
  by (cases "req_status r") (auto simp: advances_def)

definition example_who :: "string \<Rightarrow> actor" where
  "example_who u = \<lparr>actor_id = u, actor_email = u @ ''@firm'', actor_roles = [''approver'']\<rparr>"

definition example_raised :: approval_system where
  "example_raised = empty_system\<lparr>sys_db := snd (request_approval True ''r1'' 0 (example_who ''alice'') ''matter_delete'' ''m-7'' [] DEFAULT_TTL (sys_db empty_system))\<rparr>"

definition example_request_row :: approval_request where
  "example_request_row = \<lparr>req_kind = ''matter_delete'', req_target_ref = ''m-7'', req_payload = [], requested_by = ''alice'',
     requested_at = 0, expires_at = 86400, req_status = Status_Pending, approved_by = None, approved_at = None,
     decision_reason = None, executed_at = None, execution_result = None\<rparr>"

definition example_approved :: approval_system where
  "example_approved = example_raised\<lparr>sys_db := snd (approve_write True (\<lambda>_. None) 5 ''r1'' example_request_row (example_who ''bob'') (sys_db example_raised))\<rparr>"

lemma example_steps:
  "(approval_step example_who)\<^sup>*\<^sup>* empty_system example_raised"
  "(approval_step example_who)\<^sup>*\<^sup>* example_raised example_approved"
proof -
  show "(approval_step example_who)\<^sup>*\<^sup>* empty_system example_raised"
    unfolding example_raised_def by (rule r_into_rtranclp) (rule approval_step.raise)
  let ?m = "example_raised\<lparr>flights := [Approving ''r1'' example_request_row (example_who ''bob'')]\<rparr>"
  have f: "flights example_raised = []" by (simp add: example_raised_def empty_system_def)
  have "load_request ''r1'' (sys_db example_raised) = Inr example_request_row"
    "check_decidable 5 example_request_row (example_who ''bob'') = None" by code_simp+
  then have "approval_step example_who example_raised (example_raised\<lparr>flights := Approving ''r1'' example_request_row (example_who ''bob'') # flights example_raised\<rparr>)"
    by (rule approval_step.start_approve)
  then have one: "approval_step example_who example_raised ?m" by (simp add: f)
  have "approval_step example_who ?m (?m\<lparr>sys_db := snd (approve_write True (\<lambda>_. None) 5 ''r1'' example_request_row (example_who ''bob'') (sys_db ?m)),
      flights := remove1 (Approving ''r1'' example_request_row (example_who ''bob'')) (flights ?m)\<rparr>)"
    by (rule approval_step.finish_approve) simp
  moreover have "?m\<lparr>sys_db := snd (approve_write True (\<lambda>_. None) 5 ''r1'' example_request_row (example_who ''bob'') (sys_db ?m)),
      flights := remove1 (Approving ''r1'' example_request_row (example_who ''bob'')) (flights ?m)\<rparr> = example_approved"
    using f by (simp add: example_approved_def)
  ultimately show "(approval_step example_who)\<^sup>*\<^sup>* example_raised example_approved" using one by (simp add: converse_rtranclp_into_rtranclp r_into_rtranclp)
qed

definition example_approved_row :: approval_request where
  "example_approved_row = example_request_row\<lparr>req_status := Status_Approved, approved_by := Some ''bob'', approved_at := Some 5\<rparr>"

lemma example_approved_rows: "rows_of example_approved ''r1'' = Some example_approved_row"
  by code_simp

theorem four_eyes_holds_witness:
  "rows_of example_approved ''r1'' = Some example_approved_row \<and> approved_by example_approved_row = Some ''bob''
   \<and> ''bob'' \<noteq> requested_by example_approved_row \<and> (''approver'' \<in> set (actor_roles (example_who ''bob'')) \<or> ''admin'' \<in> set (actor_roles (example_who ''bob'')))"
proof -
  have reach: "(approval_step example_who)\<^sup>*\<^sup>* empty_system example_approved" using example_steps by (rule rtranclp_trans)
  have "\<forall>u. actor_id (example_who u) = u" by (simp add: example_who_def)
  from four_eyes_holds [OF this reach example_approved_rows] show ?thesis
    using example_approved_rows by (simp add: example_approved_row_def)
qed

theorem decision_final_witness:
  "\<exists>r'. rows_of (example_approved\<lparr>sys_db := snd (expire_stale 99999 (sys_db example_approved))\<rparr>) ''r1'' = Some r' \<and> approved_by r' = Some ''bob''"
proof -
  have "(approval_step example_who)\<^sup>*\<^sup>* example_approved (example_approved\<lparr>sys_db := snd (expire_stale 99999 (sys_db example_approved))\<rparr>)"
    by (rule r_into_rtranclp) (rule approval_step.expire)
  from decision_final [OF this example_approved_rows] show ?thesis by (auto simp: example_approved_row_def)
qed

text \<open>
  Confirming a request, alone. The refusals come in the order unknown, decided, expired, own,
  not allowed, and each leaves everything as it was, no audit entry included; otherwise exactly this
  request becomes approved by the caller now, with one audit entry that names the caller when the write
  of the entry succeeds. The table's own check is never what refuses.
\<close>

theorem approve_outcome:
  assumes "approve ok email_of now rid who db = (res, db')"
  shows "case map_of (approval_requests db) rid of
      None \<Rightarrow> res = Inl UnknownRequestError \<and> db' = db
    | Some r \<Rightarrow>
        (if req_status r \<noteq> Status_Pending then res = Inl InvalidTransitionError \<and> db' = db
         else if expires_at r \<le> now then res = Inl RequestExpiredError \<and> db' = db
         else if requested_by r = actor_id who then res = Inl SelfApprovalError \<and> db' = db
         else if ''approver'' \<notin> set (actor_roles who) \<and> ''admin'' \<notin> set (actor_roles who) then res = Inl NotAnApproverError \<and> db' = db
         else let r' = r\<lparr>req_status := Status_Approved, approved_by := Some (actor_id who), approved_at := Some now\<rparr>
           in res = Inr r' \<and> (\<forall>k. map_of (approval_requests db') k = (if k = rid then Some r' else map_of (approval_requests db) k))
             \<and> bypass_setting db' = bypass_setting db
             \<and> (if ok then \<exists>e. audit_log db' = audit_log db @ [e] \<and> audit_action e = ''approval.approved'' \<and> audit_actor_id e = Some (actor_id who)
                 else audit_log db' = audit_log db))"
  using assms
  by (auto simp: approve_def load_request_def check_decidable_def is_expired_def approve_write_def guarded_update_def
      audit_record_def at.lookup_put APPROVER_ROLES_def Let_def split: option.splits if_splits)

theorem approve_outcome_witness:
  "\<exists>res db'. approve True (\<lambda>_. None) 5 ''r1'' (example_who ''alice'') (sys_db example_raised) = (res, db') \<and> res = Inl SelfApprovalError \<and> db' = sys_db example_raised"
proof -
  obtain res db' where r: "approve True (\<lambda>_. None) 5 ''r1'' (example_who ''alice'') (sys_db example_raised) = (res, db')" by fastforce
  have "map_of (approval_requests (sys_db example_raised)) ''r1'' = Some example_request_row" by code_simp
  with approve_outcome [OF r] r show ?thesis by (simp add: example_request_row_def example_who_def)
qed

end
