(* ===== verification/Ttl_Store.thy ===== *)
theory Ttl_Store
  imports Complex_Main Knovas_Prelude
begin

text \<open>
  Tables of time stamps whose old entries are pruned: the interface the document grants and the used
  open-token ids share. A store represents a history, the latest stamp per key, up to a cutoff: it
  holds every stamp not older than the cutoff, and nothing else but stamps of the history.
\<close>

definition represents :: "('k \<Rightarrow> rat option) \<Rightarrow> rat \<Rightarrow> ('k, rat) table \<Rightarrow> bool" where
  "represents h cutoff t \<longleftrightarrow> table_ok t \<and> (\<forall>k ts. map_of t k = Some ts \<longrightarrow> h k = Some ts) \<and>
     (\<forall>k ts. h k = Some ts \<longrightarrow> cutoff \<le> ts \<longrightarrow> map_of t k = Some ts)"

lemma representsI:
  "table_ok t \<Longrightarrow> (\<And>k ts. map_of t k = Some ts \<Longrightarrow> h k = Some ts) \<Longrightarrow>
   (\<And>k ts. h k = Some ts \<Longrightarrow> cutoff \<le> ts \<Longrightarrow> map_of t k = Some ts) \<Longrightarrow> represents h cutoff t"
  unfolding represents_def by blast

lemma represents_valid: "represents h c t \<Longrightarrow> table_ok t"
  unfolding represents_def by blast

lemma represents_sound: "represents h c t \<Longrightarrow> map_of t k = Some ts \<Longrightarrow> h k = Some ts"
  unfolding represents_def by blast

lemma represents_complete: "represents h c t \<Longrightarrow> h k = Some ts \<Longrightarrow> c \<le> ts \<Longrightarrow> map_of t k = Some ts"
  unfolding represents_def by blast

locale ttl_table =
  fixes prune :: "rat \<Rightarrow> ('k, rat) table \<Rightarrow> ('k, rat) table"
  assumes prune_valid: "table_ok t \<Longrightarrow> table_ok (prune cutoff t)"
    and prune_lookup: "table_ok t \<Longrightarrow> map_of (prune cutoff t) k =
      (case map_of t k of None \<Rightarrow> None | Some ts \<Rightarrow> if ts < cutoff then None else Some ts)"
begin

lemma prune_represents: "represents h c t \<Longrightarrow> c \<le> c' \<Longrightarrow> represents h c' (prune c' t)"
  by (rule representsI)
    (auto simp: prune_valid prune_lookup represents_valid not_less split: option.splits if_splits
      dest: represents_sound represents_complete order_trans)

lemma prune_live:
  "represents h c t \<Longrightarrow> c \<le> c' \<Longrightarrow> map_of (prune c' t) k = Some ts \<longleftrightarrow> h k = Some ts \<and> c' \<le> ts"
  by (auto simp: prune_lookup represents_valid not_less split: option.splits if_splits
      dest: represents_sound represents_complete order_trans)

end

lemma represents_empty: "represents (\<lambda>_. None) c []"
  by (simp add: represents_def)

lemma represents_later: "represents h c t \<Longrightarrow> c \<le> c' \<Longrightarrow> represents h c' t"
  by (rule representsI) (auto dest: represents_valid represents_sound represents_complete order_trans)

lemma represents_put: "represents h c t \<Longrightarrow> represents (h(k \<mapsto> now)) c (AList.update k now t)"
  by (rule representsI)
    (auto simp: at.lookup_put represents_valid split: if_splits dest: represents_sound represents_complete)

lemma represents_puts:
  "represents h c t \<Longrightarrow> represents (\<lambda>k. if k \<in> set ks then Some now else h k) c (fold (\<lambda>k. AList.update k now) ks t)"
proof (induction ks arbitrary: h t)
  case Nil
  then show ?case by simp
next
  case (Cons k ks)
  have "(\<lambda>x. if x \<in> set ks then Some now else (h(k \<mapsto> now)) x) = (\<lambda>x. if x \<in> set (k # ks) then Some now else h x)"
    by auto
  with Cons.IH [OF represents_put [OF Cons.prems, of k now]] show ?case by simp
qed

lemma represents_live:
  "represents h c t \<Longrightarrow> c \<le> c' \<Longrightarrow> (\<exists>ts. map_of t k = Some ts \<and> c' \<le> ts) \<longleftrightarrow> (\<exists>ts. h k = Some ts \<and> c' \<le> ts)"
  by (auto dest: represents_sound represents_complete order_trans)

end
