(* ===== verification/Document_Grants.thy ===== *)
theory Document_Grants
  imports Ttl_Store "HOL-Library.Char_ord" "HOL-Library.List_Lexorder"
begin

text \<open>
  Which documents a person may be handed the bytes of (\<open>document_grants.py\<close>). The store is the
  SQLite table or, without a usable path, the in-process dict; both are association lists from
  (subject, pointer) to the time of the last grant. Clock readings are rationals and arguments; a
  failing database call is an argument too.

  The lemmas relate both backends to the history of the grants: the answer is yes exactly when the
  person's own retrieval returned the document within the lifetime.
\<close>

definition DEFAULT_TTL_SECONDS :: int where
  "DEFAULT_TTL_SECONDS = 3600"

record grant_store =
  grant_ttl :: rat
  grant_durable :: bool
  grant_rows :: "(string \<times> string, rat) table"

datatype io = Io_Ok | Fails_Before_Prune | Fails_After_Prune

definition slash_if_backslash :: "char \<Rightarrow> char" where
  "slash_if_backslash c = (if c = CHR 0x5C then CHR ''/'' else c)"

definition normalize_pointer :: "string \<Rightarrow> string" where
  "normalize_pointer p = py_lstrip (\<lambda>c. c = CHR ''/'') (map slash_if_backslash (py_strip p))"

definition grant_store_init :: "bool \<Rightarrow> int \<Rightarrow> grant_store" where
  "grant_store_init usable ttl = \<lparr>grant_ttl = of_int (max 60 ttl), grant_durable = usable, grant_rows = []\<rparr>"

text \<open>The set of normalised non-empty spellings, as a sorted list.\<close>

definition grant_keys :: "string list \<Rightarrow> string list" where
  "grant_keys pointers = sort (remdups (filter (\<lambda>k. k \<noteq> []) (map normalize_pointer pointers)))"

definition prune_memory :: "rat \<Rightarrow> (string \<times> string, rat) table \<Rightarrow> (string \<times> string, rat) table" where
  "prune_memory cutoff t = fold AList.delete (map fst (filter (\<lambda>(k, ts). ts < cutoff) t)) t"

definition prune_sql :: "rat \<Rightarrow> (string \<times> string, rat) table \<Rightarrow> (string \<times> string, rat) table" where
  "prune_sql cutoff t = filter (\<lambda>(k, ts). \<not> ts < cutoff) t"

definition grant :: "io \<Rightarrow> rat \<Rightarrow> string \<Rightarrow> string list \<Rightarrow> grant_store \<Rightarrow> int \<times> grant_store" where
  "grant io now subject pointers st =
     (let subject' = py_strip subject; keys = grant_keys pointers; cutoff = now - grant_ttl st
      in if subject' = [] then (0, st)
         else if keys = [] then (0, st)
         else let put = fold (\<lambda>k. AList.update k now) (map (Pair subject') keys)
         in if \<not> grant_durable st then
              (int (length keys), st\<lparr>grant_rows := put (prune_memory cutoff (grant_rows st))\<rparr>)
            else case io of
              Io_Ok \<Rightarrow> (int (length keys), st\<lparr>grant_rows := put (prune_sql cutoff (grant_rows st))\<rparr>)
            | Fails_Before_Prune \<Rightarrow> (0, st)
            | Fails_After_Prune \<Rightarrow> (0, st\<lparr>grant_rows := prune_sql cutoff (grant_rows st)\<rparr>))"

text \<open>The dict answers 0 for a missing key, as \<open>get(key, 0.0)\<close> does.\<close>

definition granted :: "io \<Rightarrow> rat \<Rightarrow> string \<Rightarrow> string list \<Rightarrow> grant_store \<Rightarrow> bool \<times> grant_store" where
  "granted io now subject pointers st =
     (let subject' = py_strip subject; keys = grant_keys pointers; cutoff = now - grant_ttl st
      in if subject' = [] then (False, st)
         else if keys = [] then (False, st)
         else if \<not> grant_durable st then
           (let rows = prune_memory cutoff (grant_rows st)
            in (list_ex (\<lambda>k. (case map_of rows (subject', k) of None \<Rightarrow> 0 | Some ts \<Rightarrow> ts) \<ge> cutoff) keys,
                st\<lparr>grant_rows := rows\<rparr>))
         else case io of
           Io_Ok \<Rightarrow> (list_ex (\<lambda>((s, p), ts). s = subject' \<and> ts \<ge> cutoff \<and> p \<in> set keys) (grant_rows st), st)
         | _ \<Rightarrow> (False, st))"

section \<open>Pruning\<close>

lemma prune_memory_lookup:
  assumes "table_ok t"
  shows "map_of (prune_memory cutoff t) k = (case map_of t k of None \<Rightarrow> None | Some ts \<Rightarrow> if ts < cutoff then None else Some ts)"
proof -
  have "k \<in> fst ` set (filter (\<lambda>(k, ts). ts < cutoff) t) \<longleftrightarrow> (\<exists>ts. map_of t k = Some ts \<and> ts < cutoff)"
    by (force simp: table_ok_map_of [OF assms, symmetric])
  then show ?thesis by (auto simp: prune_memory_def fold_delete_lookup split: option.splits)
qed

interpretation memory: ttl_table prune_memory
  by unfold_locales (simp add: prune_memory_def, rule prune_memory_lookup)

interpretation sql: ttl_table prune_sql
  by unfold_locales (auto simp: prune_sql_def map_of_filter_ok split: option.splits)

section \<open>Histories\<close>

datatype grant_event = Grant io rat string "string list" | Ask io rat string "string list"

fun event_time :: "grant_event \<Rightarrow> rat" where
  "event_time (Grant io now s ps) = now"
| "event_time (Ask io now s ps) = now"

fun grant_event_step :: "grant_event \<Rightarrow> grant_store \<Rightarrow> grant_store" where
  "grant_event_step (Grant io now s ps) st = snd (grant io now s ps st)"
| "grant_event_step (Ask io now s ps) st = snd (granted io now s ps st)"

type_synonym grant_history = "string \<times> string \<Rightarrow> rat option"

text \<open>The history: the last grant that was recorded, per person and document.\<close>

fun history_step :: "bool \<Rightarrow> grant_event \<Rightarrow> grant_history \<Rightarrow> grant_history" where
  "history_step durable (Grant io now s ps) h =
     (if py_strip s \<noteq> [] \<and> (durable \<longrightarrow> io = Io_Ok)
      then (\<lambda>k. if k \<in> set (map (Pair (py_strip s)) (grant_keys ps)) then Some now else h k) else h)"
| "history_step durable (Ask io now s ps) h = h"

lemma set_grant_keys: "k \<in> set (grant_keys ps) \<longleftrightarrow> k \<noteq> [] \<and> (\<exists>p\<in>set ps. k = normalize_pointer p)"
  by (auto simp: grant_keys_def)

lemma bex_grant_keys: "(\<exists>k \<in> set (grant_keys ps). P k) \<longleftrightarrow> (\<exists>p \<in> set ps. normalize_pointer p \<noteq> [] \<and> P (normalize_pointer p))"
  unfolding Bex_def set_grant_keys by blast

lemma step_represents:
  assumes "represents h c (grant_rows st)" and "c \<le> event_time e - grant_ttl st"
  shows "represents (history_step (grant_durable st) e h) (event_time e - grant_ttl st) (grant_rows (grant_event_step e st))
    \<and> grant_ttl (grant_event_step e st) = grant_ttl st \<and> grant_durable (grant_event_step e st) = grant_durable st"
proof (cases e)
  case (Grant io now s ps)
  let ?t = "grant_rows st" and ?c = "now - grant_ttl st"
  let ?put = "fold (\<lambda>k. AList.update k now) (map (Pair (py_strip s)) (grant_keys ps))"
  let ?h = "\<lambda>k. if k \<in> set (map (Pair (py_strip s)) (grant_keys ps)) then Some now else h k"
  have c: "c \<le> ?c" using assms(2) Grant by simp
  have put: "represents ?h ?c (?put (prune_memory ?c ?t))" "represents ?h ?c (?put (prune_sql ?c ?t))"
    by (rule represents_puts, rule memory.prune_represents [OF assms(1) c])
      (rule represents_puts, rule sql.prune_represents [OF assms(1) c])
  have keep: "represents h ?c ?t" "represents h ?c (prune_sql ?c ?t)"
    using represents_later [OF assms(1) c] sql.prune_represents [OF assms(1) c] by blast+
  have none: "?h = h" if "grant_keys ps = []" using that by auto
  show ?thesis
    using put keep none by (cases io) (simp_all add: Grant grant_def Let_def del: set_map)
next
  case (Ask io now s ps)
  with assms represents_later [OF assms] show ?thesis
    by (auto simp: granted_def Let_def intro: memory.prune_represents split: io.splits)
qed

definition run_grants :: "grant_event list \<Rightarrow> grant_store \<Rightarrow> grant_store" where
  "run_grants evs st = fold grant_event_step evs st"

definition grant_history :: "bool \<Rightarrow> grant_event list \<Rightarrow> grant_history" where
  "grant_history durable evs = fold (history_step durable) evs (\<lambda>_. None)"

lemma run_represents:
  assumes "sorted (map event_time evs @ [now])" and "represents h c (grant_rows st)"
    and "\<forall>e \<in> set evs. c \<le> event_time e - grant_ttl st" and "c \<le> now - grant_ttl st"
  shows "\<exists>c'. represents (fold (history_step (grant_durable st)) evs h) c' (grant_rows (fold grant_event_step evs st))
    \<and> c' \<le> now - grant_ttl st \<and> grant_ttl (fold grant_event_step evs st) = grant_ttl st
    \<and> grant_durable (fold grant_event_step evs st) = grant_durable st"
  using assms
proof (induction evs arbitrary: h c st)
  case Nil
  then show ?case by auto
next
  case (Cons e evs)
  have c: "c \<le> event_time e - grant_ttl st" using Cons.prems(3) by simp
  note step = step_represents [OF Cons.prems(2) c]
  have "\<forall>e' \<in> set evs. event_time e - grant_ttl st \<le> event_time e' - grant_ttl st" "event_time e - grant_ttl st \<le> now - grant_ttl st"
    using Cons.prems(1) by auto
  with Cons.IH [of "history_step (grant_durable st) e h" "event_time e - grant_ttl st" "grant_event_step e st"] step Cons.prems(1)
  show ?case by simp
qed

lemma granted_live:
  assumes "represents h c (grant_rows st)" and "c \<le> now - grant_ttl st" and "grant_ttl st < now"
    and "grant_durable st \<longrightarrow> io = Io_Ok"
  shows "fst (granted io now subject ps st) \<longleftrightarrow> py_strip subject \<noteq> [] \<and>
    (\<exists>k \<in> set (grant_keys ps). \<exists>ts. h (py_strip subject, k) = Some ts \<and> now - grant_ttl st \<le> ts)"
proof -
  let ?c = "now - grant_ttl st" and ?s = "py_strip subject"
  have mem: "(case map_of (prune_memory ?c (grant_rows st)) x of None \<Rightarrow> 0 | Some ts \<Rightarrow> ts) \<ge> ?c
      \<longleftrightarrow> (\<exists>ts. h x = Some ts \<and> ?c \<le> ts)" for x
    using memory.prune_live [OF assms(1,2), of x] assms(3)
    by (cases "map_of (prune_memory ?c (grant_rows st)) x") auto
  have sql: "list_ex (\<lambda>((s, p), ts). s = ?s \<and> ts \<ge> ?c \<and> p \<in> set (grant_keys ps)) (grant_rows st)
      \<longleftrightarrow> (\<exists>k \<in> set (grant_keys ps). \<exists>ts. map_of (grant_rows st) (?s, k) = Some ts \<and> ?c \<le> ts)"
    by (auto simp: list_ex_iff table_ok_map_of [OF represents_valid [OF assms(1)], symmetric])
  show ?thesis
    using assms(4) by (auto simp: granted_def Let_def list_ex_iff mem sql [unfolded list_ex_iff] represents_live [OF assms(1,2)] split: io.splits)
qed

section \<open>Properties\<close>

text \<open>
  (C26) The wall in front of the files. After any sequence of searches and checks at non-decreasing
  times, on either backend, a person is handed a document exactly when a search of that same person
  that could be recorded returned one of the spellings offered, after normalisation, within the lifetime; pruning,
  re-granting and failed writes are invisible. A check whose database call fails says no. The clock is
  assumed past the lifetime since the epoch, where the dict's default of 0 is no grant.
\<close>

theorem granted_iff_recent_search:
  assumes "sorted (map event_time evs @ [now])" and "st = run_grants evs (grant_store_init usable ttl)"
    and "of_int (max 60 ttl) < now"
  shows "fst (granted io now subject ps st) \<longleftrightarrow>
    (usable \<longrightarrow> io = Io_Ok) \<and> py_strip subject \<noteq> [] \<and>
    (\<exists>p \<in> set ps. normalize_pointer p \<noteq> [] \<and>
      (\<exists>ts. grant_history usable evs (py_strip subject, normalize_pointer p) = Some ts \<and> now - of_int (max 60 ttl) \<le> ts))"
proof -
  let ?st0 = "grant_store_init usable ttl"
  define c where "c = Min (event_time ` set evs \<union> {now}) - grant_ttl ?st0"
  have "\<forall>e \<in> set evs. c \<le> event_time e - grant_ttl ?st0" "c \<le> now - grant_ttl ?st0" by (auto simp: c_def)
  moreover have "represents (\<lambda>_. None) c (grant_rows ?st0)" by (simp add: grant_store_init_def represents_empty)
  ultimately obtain c' where r: "represents (grant_history usable evs) c' (grant_rows st)" "c' \<le> now - grant_ttl st"
      and st: "grant_ttl st = of_int (max 60 ttl)" "grant_durable st = usable"
    using run_represents [OF assms(1), of "\<lambda>_. None" c ?st0]
    by (auto simp: assms(2) run_grants_def grant_history_def grant_store_init_def)
  show ?thesis
  proof (cases "usable \<longrightarrow> io = Io_Ok")
    case True
    with granted_live [OF r, of io subject ps] assms(3) st show ?thesis by (simp add: bex_grant_keys)
  next
    case False
    with st show ?thesis by (auto simp: granted_def Let_def split: io.splits)
  qed
qed

definition example_search :: grant_event where
  "example_search = Grant Io_Ok 10000 ''u1'' [''Akten/a.pdf'', ''b.pdf'']"

theorem granted_iff_recent_search_witness:
  "sorted (map event_time [example_search] @ [10060])
   \<and> fst (granted Io_Ok 10060 ''u1'' [concat [''/Akten'', [CHR 0x5C], ''a.pdf'']] (run_grants [example_search] (grant_store_init True 3600)))"
proof -
  have s: "sorted (map event_time [example_search] @ [10060])" by (simp add: example_search_def)
  have k: "normalize_pointer (concat [''/Akten'', [CHR 0x5C], ''a.pdf'']) = ''Akten/a.pdf''" "py_strip ''u1'' = ''u1''" by code_simp+
  have h: "grant_history True [example_search] (''u1'', ''Akten/a.pdf'') = Some 10000" by code_simp
  have "fst (granted Io_Ok 10060 ''u1'' [concat [''/Akten'', [CHR 0x5C], ''a.pdf'']] (run_grants [example_search] (grant_store_init True 3600)))"
    by (subst granted_iff_recent_search [OF s refl]) (simp_all add: k h del: concat.simps)
  with s show ?thesis by blast
qed

end
