(* ===== verification/Open_Tokens.thy ===== *)
theory Open_Tokens
  imports Ttl_Store
begin

text \<open>
  Signed single-use tokens that hand a document to the companion (\<open>open_tokens.py\<close>). Signing and
  checking is done by the package itsdangerous: \<open>dumps\<close> and \<open>loads\<close> are parameters, \<open>loads token now\<close>
  being the payload, or \<open>None\<close> when the signature is bad or older than the maximal age. What is relied
  on is the named hypothesis \<open>whole_seconds\<close>: an accepted token was signed at a whole second not later
  than now, and not more than the maximal age before it, both counted in whole seconds.

  The used ids are a table from id to the time of use, the SQLite table or the in-process dict; random
  ids and clock readings are arguments, and a database call may fail.
\<close>

record token_payload =
  tok_rel :: "string option"
  tok_doc :: "string option"
  tok_jti :: "string option"
  tok_sub :: "string option"

record token_store =
  max_age :: int
  tokens_durable :: bool
  used_jti :: "(string, rat) table"

record redeemed =
  red_rel :: string
  red_doc :: string
  red_sub :: string

definition token_store_init :: "int \<Rightarrow> bool \<Rightarrow> token_store" where
  "token_store_init age usable = \<lparr>max_age = age, tokens_durable = usable, used_jti = []\<rparr>"

definition mint :: "(token_payload \<Rightarrow> string) \<Rightarrow> string \<Rightarrow> string \<Rightarrow> string \<Rightarrow> string \<Rightarrow> string" where
  "mint dumps jti rel_path doc_id subject =
     dumps \<lparr>tok_rel = Some rel_path, tok_doc = Some doc_id, tok_jti = Some jti,
       tok_sub = (if subject = [] then None else Some subject)\<rparr>"

definition token_prune_memory :: "rat \<Rightarrow> (string, rat) table \<Rightarrow> (string, rat) table" where
  "token_prune_memory cutoff t = fold AList.delete (map fst (filter (\<lambda>(k, ts). ts < cutoff) t)) t"

definition token_prune_sql :: "rat \<Rightarrow> (string, rat) table \<Rightarrow> (string, rat) table" where
  "token_prune_sql cutoff t = filter (\<lambda>(k, ts). \<not> ts < cutoff) t"

definition token_prune :: "token_store \<Rightarrow> rat \<Rightarrow> (string, rat) table" where
  "token_prune st now =
     (let cutoff = now - of_int (max_age st)
      in if tokens_durable st then token_prune_sql cutoff (used_jti st) else token_prune_memory cutoff (used_jti st))"

definition consume_jti :: "bool \<Rightarrow> rat \<Rightarrow> string \<Rightarrow> token_store \<Rightarrow> bool py \<times> token_store" where
  "consume_jti db_ok now jti st =
     (if tokens_durable st \<and> \<not> db_ok then (Inl DatabaseError, st)
      else let rows = token_prune st now
      in if map_of rows jti \<noteq> None then (Inr False, st\<lparr>used_jti := rows\<rparr>)
         else (Inr True, st\<lparr>used_jti := AList.update jti now rows\<rparr>))"

definition jti_seen :: "bool \<Rightarrow> rat \<Rightarrow> string \<Rightarrow> token_store \<Rightarrow> bool py \<times> token_store" where
  "jti_seen db_ok now jti st =
     (if tokens_durable st \<and> \<not> db_ok then (Inl DatabaseError, st)
      else let rows = token_prune st now in (Inr (map_of rows jti \<noteq> None), st\<lparr>used_jti := rows\<rparr>))"

definition field_text :: "string option \<Rightarrow> string" where
  "field_text v = py_strip (case v of Some s \<Rightarrow> s | None \<Rightarrow> [])"

definition verify_and_consume ::
    "(string \<Rightarrow> rat \<Rightarrow> token_payload option) \<Rightarrow> bool \<Rightarrow> rat \<Rightarrow> string \<Rightarrow> bool \<Rightarrow> token_store \<Rightarrow> redeemed option py \<times> token_store" where
  "verify_and_consume loads db_ok now token consume st =
     (case loads token now of
        None \<Rightarrow> (Inr None, st)
      | Some data \<Rightarrow>
          (let rel = field_text (tok_rel data); doc = field_text (tok_doc data); jti = field_text (tok_jti data)
           in if rel = [] \<or> doc = [] \<or> jti = [] then (Inr None, st)
              else let (answer, st') = (if consume then consume_jti db_ok now jti st else jti_seen db_ok now jti st)
              in (case answer of
                    Inl e \<Rightarrow> Inl e
                  | Inr b \<Rightarrow> Inr (if b = consume then Some \<lparr>red_rel = rel, red_doc = doc, red_sub = field_text (tok_sub data)\<rparr> else None),
                  st')))"

definition whole_seconds :: "(string \<Rightarrow> rat \<Rightarrow> token_payload option) \<Rightarrow> (string \<Rightarrow> int) \<Rightarrow> int \<Rightarrow> bool" where
  "whole_seconds loads signed_at age \<longleftrightarrow> (\<forall>token now p. loads token now = Some p \<longrightarrow>
     signed_at token \<le> \<lfloor>now\<rfloor> \<and> \<lfloor>now\<rfloor> - signed_at token \<le> age)"

section \<open>Used ids\<close>

interpretation token_memory: ttl_table token_prune_memory
proof
  fix t :: "(string, rat) table" and cutoff k
  assume ok: "table_ok t"
  then show "table_ok (token_prune_memory cutoff t)" by (simp add: token_prune_memory_def)
  have "k \<in> fst ` set (filter (\<lambda>(k, ts). ts < cutoff) t) \<longleftrightarrow> (\<exists>ts. map_of t k = Some ts \<and> ts < cutoff)"
    by (force simp: table_ok_map_of [OF ok, symmetric])
  then show "map_of (token_prune_memory cutoff t) k = (case map_of t k of None \<Rightarrow> None | Some ts \<Rightarrow> if ts < cutoff then None else Some ts)"
    by (auto simp: token_prune_memory_def fold_delete_lookup split: option.splits)
qed

interpretation token_sql: ttl_table token_prune_sql
  by unfold_locales (auto simp: token_prune_sql_def map_of_filter_ok split: option.splits)

lemma token_prune_lookup:
  assumes "table_ok (used_jti st)"
  shows "map_of (token_prune st now) k = (case map_of (used_jti st) k of None \<Rightarrow> None
    | Some ts \<Rightarrow> if ts < now - of_int (max_age st) then None else Some ts)"
    and "table_ok (token_prune st now)"
  using assms by (simp_all add: token_prune_def Let_def token_memory.prune_lookup token_sql.prune_lookup
      token_memory.prune_valid token_sql.prune_valid)

record redeem_event =
  ev_db_ok :: bool
  ev_now :: rat
  ev_token :: string
  ev_consume :: bool

definition redeem_step :: "(string \<Rightarrow> rat \<Rightarrow> token_payload option) \<Rightarrow> redeem_event \<Rightarrow> token_store \<Rightarrow> redeemed option py \<times> token_store" where
  "redeem_step loads e st = verify_and_consume loads (ev_db_ok e) (ev_now e) (ev_token e) (ev_consume e) st"

definition run_redeems :: "(string \<Rightarrow> rat \<Rightarrow> token_payload option) \<Rightarrow> redeem_event list \<Rightarrow> token_store \<Rightarrow> token_store" where
  "run_redeems loads evs st = fold (\<lambda>e s. snd (redeem_step loads e s)) evs st"

lemma redeem_step_cases:
  assumes "table_ok (used_jti st)"
  shows "table_ok (used_jti (snd (redeem_step loads e st)))"
    and "max_age (snd (redeem_step loads e st)) = max_age st"
    and "map_of (used_jti st) k = Some ts \<Longrightarrow> ev_now e \<le> ts + of_int (max_age st) \<Longrightarrow>
      map_of (used_jti (snd (redeem_step loads e st))) k = Some ts"
  using assms token_prune_lookup [OF assms, of "ev_now e"]
  by (auto simp: redeem_step_def verify_and_consume_def consume_jti_def jti_seen_def Let_def at.lookup_put
      split: option.splits if_splits)

lemma used_stays:
  assumes "table_ok (used_jti st)" and "map_of (used_jti st) k = Some ts" and "\<forall>e \<in> set evs. ev_now e \<le> ts + of_int (max_age st)"
  shows "map_of (used_jti (run_redeems loads evs st)) k = Some ts \<and> table_ok (used_jti (run_redeems loads evs st))
    \<and> max_age (run_redeems loads evs st) = max_age st"
  using assms
proof (induction evs arbitrary: st)
  case Nil
  then show ?case by (simp add: run_redeems_def)
next
  case (Cons e evs)
  note s = redeem_step_cases [OF Cons.prems(1), where loads = loads and e = e]
  have "map_of (used_jti (snd (redeem_step loads e st))) k = Some ts" using s(3) Cons.prems by simp
  with Cons.IH [of "snd (redeem_step loads e st)"] s Cons.prems(3) show ?case by (simp add: run_redeems_def)
qed

lemma accepted_recorded:
  assumes "table_ok (used_jti st)" and "verify_and_consume loads ok now token True st = (Inr (Some r), st')"
  shows "\<exists>p. loads token now = Some p \<and> map_of (used_jti st') (field_text (tok_jti p)) = Some now"
    and "table_ok (used_jti st')" and "max_age st' = max_age st"
  using assms token_prune_lookup(2) [OF assms(1), of now]
  by (auto simp: verify_and_consume_def consume_jti_def Let_def at.lookup_put split: option.splits if_splits)

definition stable_payload :: "(string \<Rightarrow> rat \<Rightarrow> token_payload option) \<Rightarrow> bool" where
  "stable_payload loads \<longleftrightarrow> (\<forall>token now now' p p'. loads token now = Some p \<longrightarrow> loads token now' = Some p' \<longrightarrow> p = p')"

lemma seen_refused:
  assumes "table_ok (used_jti st)" and "loads token now = Some p" and "map_of (used_jti st) (field_text (tok_jti p)) = Some ts"
    and "now \<le> ts + of_int (max_age st)" and "verify_and_consume loads ok now token consume st = (Inr res, st')"
  shows "res = None"
proof -
  have "map_of (token_prune st now) (field_text (tok_jti p)) = Some ts"
    using token_prune_lookup(1) [OF assms(1), of now "field_text (tok_jti p)"] assms(3,4) by simp
  with assms(2,5) show ?thesis
    by (cases consume) (auto simp: verify_and_consume_def consume_jti_def jti_seen_def Let_def split: if_splits)
qed

section \<open>Properties\<close>


definition example_loads :: "string \<Rightarrow> rat \<Rightarrow> token_payload option" where
  "example_loads token now =
     (if 0 \<le> \<lfloor>now\<rfloor> \<and> \<lfloor>now\<rfloor> \<le> 120 then Some \<lparr>tok_rel = Some ''a.pdf'', tok_doc = Some ''d1'', tok_jti = Some token, tok_sub = None\<rparr> else None)"

lemma example_loads_laws: "whole_seconds example_loads (\<lambda>_. 0) 120" "stable_payload example_loads"
  by (auto simp: whole_seconds_def stable_payload_def example_loads_def split: if_splits)

definition example_first :: "rat \<Rightarrow> redeemed option py \<times> token_store" where
  "example_first t1 = verify_and_consume example_loads True t1 ''x'' True (token_store_init 120 True)"


text \<open>
  The replay window. A token signed at second 0 and redeemed at 0.5 with a maximal age of 120
  is accepted a second time at 120.9: its age is 120 whole seconds, but its record is older than 120
  seconds and was pruned.
\<close>

theorem token_replay_window:
  "fst (verify_and_consume example_loads True (1209 / 10) ''x'' True (snd (example_first (1 / 2))))
   = Inr (Some \<lparr>red_rel = ''a.pdf'', red_doc = ''d1'', red_sub = []\<rparr>)"
  by code_simp

end
