(* ===== verification/Users.thy ===== *)
theory Users
  imports Python_Values
begin

text \<open>
  Accounts, password policy, lockout, roles and access groups (\<open>identity/users.py\<close>,
  \<open>identity/passwords.py\<close>). Tables are association lists, times are integers (seconds), ids are their
  texts and the id PostgreSQL draws for a new account is an argument. E-mail addresses are compared as
  the column type CITEXT does, ignoring the case of letters (ASCII letters here).

  Argon2 is a third-party package: a record of the three functions the code calls, \<open>verify\<close> answering
  \<open>False\<close> where the package raises. That a hash verifies exactly its own password is the named
  hypothesis \<open>argon_law\<close>.
\<close>

section \<open>Passwords\<close>

record hasher =
  argon_hash :: "string \<Rightarrow> string"
  argon_verify :: "string \<Rightarrow> string \<Rightarrow> bool"
  argon_needs_rehash :: "string \<Rightarrow> bool"

definition argon_law :: "hasher \<Rightarrow> bool" where
  "argon_law hs \<longleftrightarrow> (\<forall>p q. argon_hash hs p \<noteq> [] \<and> argon_verify hs (argon_hash hs p) q = (q = p))"

datatype weak_reason = Too_Short | Only_Whitespace | Outer_Space | Placeholder

definition MIN_LENGTH :: nat where
  "MIN_LENGTH = 12"

definition PLACEHOLDER_VALUES :: "string list" where
  "PLACEHOLDER_VALUES = [[], ''change-me'', ''change-me-in-production'', ''change-me-company-password'',
     ''replace-with-strong-company-password'', ''replace-with-random-hex'']"

definition check_policy :: "string \<Rightarrow> weak_reason list" where
  "check_policy password =
     (if length password < MIN_LENGTH then [Too_Short] else [])
     @ (if py_strip password = [] then [Only_Whitespace]
        else if password \<noteq> py_strip password then [Outer_Space] else [])
     @ (if map ascii_lower (py_strip password) \<in> set PLACEHOLDER_VALUES then [Placeholder] else [])"

datatype user_error = WeakPasswordError "weak_reason list" | EmailTakenError | UnknownRoleError

definition hash_password :: "hasher \<Rightarrow> string \<Rightarrow> user_error + string" where
  "hash_password hs password =
     (let reasons = check_policy password
      in if reasons \<noteq> [] then Inl (WeakPasswordError reasons) else Inr (argon_hash hs password))"

definition verify_password :: "hasher \<Rightarrow> string \<Rightarrow> string \<Rightarrow> bool" where
  "verify_password hs stored password = (if stored = [] then False else argon_verify hs stored password)"

definition needs_rehash :: "hasher \<Rightarrow> string \<Rightarrow> bool" where
  "needs_rehash hs stored = (if stored = [] then False else argon_needs_rehash hs stored)"

section \<open>Accounts\<close>

datatype user_status = Active | Disabled | Locked

record user_row =
  row_email :: string
  row_display_name :: string
  row_password_hash :: "string option"
  row_idp_subject :: "string option"
  row_status :: user_status
  row_must_change :: bool
  row_mfa_enrolled_at :: "int option"
  row_failed_attempts :: int
  row_locked_until :: "int option"
  row_disabled_at :: "int option"
  row_disabled_by :: "string option"

record user_db =
  users :: "(string, user_row) table"
  known_roles :: "string list"
  user_roles :: "(string \<times> string) list"
  user_groups :: "((string \<times> string) \<times> string) list"

record user =
  user_id :: string
  user_email :: string
  user_display_name :: string
  user_status :: user_status
  user_must_change :: bool
  user_mfa_enrolled :: bool
  user_locked_until :: "int option"
  user_roles_of :: "string list"

definition is_active :: "user \<Rightarrow> bool" where
  "is_active u \<longleftrightarrow> user_status u = Active"

definition is_locked :: "int \<Rightarrow> user \<Rightarrow> bool" where
  "is_locked now u \<longleftrightarrow> user_status u = Locked \<or> (case user_locked_until u of None \<Rightarrow> False | Some t \<Rightarrow> now < t)"

definition roles_of :: "string \<Rightarrow> user_db \<Rightarrow> string list" where
  "roles_of uid db = map snd (filter (\<lambda>(u, r). u = uid \<and> r \<in> set (known_roles db)) (user_roles db))"

definition to_user :: "string \<Rightarrow> user_row \<Rightarrow> user_db \<Rightarrow> user" where
  "to_user uid row db = \<lparr>user_id = uid, user_email = row_email row, user_display_name = row_display_name row,
     user_status = row_status row, user_must_change = row_must_change row,
     user_mfa_enrolled = (row_mfa_enrolled_at row \<noteq> None), user_locked_until = row_locked_until row,
     user_roles_of = roles_of uid db\<rparr>"

definition same_email :: "string \<Rightarrow> string \<Rightarrow> bool" where
  "same_email a b \<longleftrightarrow> map ascii_lower a = map ascii_lower b"

definition row_by_email :: "string \<Rightarrow> user_db \<Rightarrow> (string \<times> user_row) option" where
  "row_by_email email db = find (\<lambda>(uid, row). same_email (row_email row) email) (users db)"

definition get_by_email :: "string \<Rightarrow> user_db \<Rightarrow> user option" where
  "get_by_email email db = map_option (\<lambda>(uid, row). to_user uid row db) (row_by_email email db)"

definition get_user :: "string \<Rightarrow> user_db \<Rightarrow> user option" where
  "get_user uid db = map_option (\<lambda>row. to_user uid row db) (map_of (users db) uid)"

definition list_all_users :: "user_db \<Rightarrow> user list" where
  "list_all_users db =
     map (\<lambda>(uid, row). to_user uid row db) (sort_key (\<lambda>(uid, row). map ascii_lower (row_email row)) (users db))"

definition update_user :: "string \<Rightarrow> (user_row \<Rightarrow> user_row) \<Rightarrow> user_db \<Rightarrow> user_db" where
  "update_user uid f db = db\<lparr>users := tmap (\<lambda>k row. if k = uid then f row else row) (users db)\<rparr>"

text \<open>
  The unique constraints on the address and on \<open>idp_subject\<close> both end in \<open>EmailTakenError\<close>: the
  handler looks for the word unique in the message.
\<close>

definition create_user ::
    "hasher \<Rightarrow> string \<Rightarrow> string \<Rightarrow> string \<Rightarrow> string option \<Rightarrow> string option \<Rightarrow> bool \<Rightarrow> user_db \<Rightarrow> (user_error + user) \<times> user_db" where
  "create_user hs new_id email name password idp must_change db =
     (let hashed = (case password of None \<Rightarrow> Inr None
                    | Some p \<Rightarrow> if p = [] then Inr None else (case hash_password hs p of Inl e \<Rightarrow> Inl e | Inr h \<Rightarrow> Inr (Some h)))
      in case hashed of Inl e \<Rightarrow> (Inl e, db)
      | Inr pw \<Rightarrow>
          if row_by_email email db \<noteq> None then (Inl EmailTakenError, db)
          else if map_of (users db) new_id \<noteq> None \<or> (idp \<noteq> None \<and> (\<exists>(k, row) \<in> set (users db). row_idp_subject row = idp))
          then (Inl EmailTakenError, db)
          else (let row = \<lparr>row_email = email, row_display_name = name, row_password_hash = pw, row_idp_subject = idp,
                     row_status = Active, row_must_change = must_change, row_mfa_enrolled_at = None, row_failed_attempts = 0,
                     row_locked_until = None, row_disabled_at = None, row_disabled_by = None\<rparr>;
                    db' = db\<lparr>users := AList.update new_id row (users db)\<rparr>
                in (Inr (to_user new_id row db'), db')))"

definition set_password :: "hasher \<Rightarrow> string \<Rightarrow> string \<Rightarrow> user_db \<Rightarrow> user_error option \<times> user_db" where
  "set_password hs uid password db =
     (case hash_password hs password of Inl e \<Rightarrow> (Some e, db)
      | Inr h \<Rightarrow> (None, update_user uid (\<lambda>row. row\<lparr>row_password_hash := Some h, row_must_change := False,
          row_failed_attempts := 0, row_locked_until := None\<rparr>) db))"

definition disable :: "int \<Rightarrow> string \<Rightarrow> string option \<Rightarrow> user_db \<Rightarrow> user_db" where
  "disable now uid by_user db =
     update_user uid (\<lambda>row. row\<lparr>row_status := Disabled, row_disabled_at := Some now, row_disabled_by := by_user\<rparr>) db"

definition enable :: "string \<Rightarrow> user_db \<Rightarrow> user_db" where
  "enable uid db = update_user uid (\<lambda>row. row\<lparr>row_status := Active, row_disabled_at := None, row_disabled_by := None,
     row_failed_attempts := 0, row_locked_until := None\<rparr>) db"

definition unlock :: "string \<Rightarrow> user_db \<Rightarrow> user_db" where
  "unlock uid db = update_user uid (\<lambda>row. row\<lparr>row_failed_attempts := 0, row_locked_until := None,
     row_status := (if row_status row = Locked then Active else row_status row)\<rparr>) db"

section \<open>Authentication\<close>

definition MAX_FAILED_ATTEMPTS :: int where
  "MAX_FAILED_ATTEMPTS = 5"

definition LOCKOUT_MINUTES :: int where
  "LOCKOUT_MINUTES = 15"

definition env_int :: "string option \<Rightarrow> int \<Rightarrow> int" where
  "env_int raw fallback =
     (let s = py_strip (case raw of Some v \<Rightarrow> v | None \<Rightarrow> [])
      in if s = [] then fallback else case py_int s of Inr n \<Rightarrow> n | Inl _ \<Rightarrow> fallback)"

text \<open>The number of attempts, 0 for no locking, and the duration in seconds.\<close>

definition lockout_policy :: "string option \<Rightarrow> string option \<Rightarrow> int \<times> int" where
  "lockout_policy raw_attempts raw_minutes =
     (max 0 (env_int raw_attempts MAX_FAILED_ATTEMPTS), 60 * max 1 (env_int raw_minutes LOCKOUT_MINUTES))"

definition record_failure :: "int \<times> int \<Rightarrow> int \<Rightarrow> string \<Rightarrow> user_row \<Rightarrow> user_db \<Rightarrow> user_db" where
  "record_failure policy now uid row db =
     (let attempts = row_failed_attempts row + 1; (max_attempts, duration) = policy;
          locked = (if max_attempts > 0 \<and> attempts \<ge> max_attempts then Some (now + duration) else None)
      in update_user uid (\<lambda>r. r\<lparr>row_failed_attempts := attempts, row_locked_until := locked\<rparr>) db)"

definition authenticate ::
    "hasher \<Rightarrow> int \<times> int \<Rightarrow> int \<Rightarrow> string \<Rightarrow> string \<Rightarrow> user_db \<Rightarrow> (user_error + user option) \<times> user_db" where
  "authenticate hs policy now email password db =
     (case row_by_email email db of
        None \<Rightarrow> (Inr None, db)
      | Some (uid, row) \<Rightarrow>
          (let u = to_user uid row db
           in if is_locked now u then (Inr None, db)
              else if \<not> is_active u then (Inr None, db)
              else case row_password_hash row of None \<Rightarrow> (Inr None, db)
              | Some h \<Rightarrow>
                  if h = [] then (Inr None, db)
                  else if \<not> verify_password hs h password then (Inr None, record_failure policy now uid row db)
                  else (let rehash = (if needs_rehash hs h then (case hash_password hs password of Inl e \<Rightarrow> Inl e | Inr h' \<Rightarrow> Inr (Some h')) else Inr None)
                        in case rehash of Inl e \<Rightarrow> (Inl e, db)
                        | Inr new_hash \<Rightarrow>
                            (let db1 = (case new_hash of None \<Rightarrow> db | Some h' \<Rightarrow> update_user uid (\<lambda>r. r\<lparr>row_password_hash := Some h'\<rparr>) db);
                                 db2 = update_user uid (\<lambda>r. r\<lparr>row_failed_attempts := 0, row_locked_until := None\<rparr>) db1
                             in (Inr (get_user uid db2), db2)))))"

section \<open>Roles and access groups\<close>

definition grant_role :: "string \<Rightarrow> string \<Rightarrow> user_db \<Rightarrow> user_error option \<times> user_db" where
  "grant_role uid role db =
     (if role \<notin> set (known_roles db) then (Some UnknownRoleError, db)
      else if (uid, role) \<in> set (user_roles db) then (None, db)
      else (None, db\<lparr>user_roles := user_roles db @ [(uid, role)]\<rparr>))"

definition revoke_role :: "string \<Rightarrow> string \<Rightarrow> user_db \<Rightarrow> user_db" where
  "revoke_role uid role db =
     db\<lparr>user_roles := filter (\<lambda>(u, r). \<not> (u = uid \<and> r = role \<and> r \<in> set (known_roles db))) (user_roles db)\<rparr>"

definition access_groups_of :: "string \<Rightarrow> user_db \<Rightarrow> string list" where
  "access_groups_of uid db = sort (map (snd \<circ> fst) (filter (\<lambda>((u, g), src). u = uid) (user_groups db)))"

definition set_access_groups :: "string \<Rightarrow> string list \<Rightarrow> string \<Rightarrow> user_db \<Rightarrow> string list \<times> user_db" where
  "set_access_groups uid group_ids source db =
     (let wanted = sort (remdups (filter (\<lambda>g. g \<noteq> []) (map py_strip group_ids)))
      in (wanted, db\<lparr>user_groups := filter (\<lambda>((u, g), src). u \<noteq> uid) (user_groups db)
            @ map (\<lambda>g. ((uid, g), source)) wanted\<rparr>))"

section \<open>Lemmas\<close>

lemma find_tmap:
  "(\<And>k v. P (k, f k v) = P (k, v)) \<Longrightarrow> find P (tmap f t) = map_option (\<lambda>(k, v). (k, f k v)) (find P t)"
  by (induction t) (auto simp: tmap_def)

lemma row_by_email_update:
  assumes "\<And>r. row_email (f r) = row_email r"
  shows "row_by_email email (update_user uid f db) =
    map_option (\<lambda>(k, r). (k, if k = uid then f r else r)) (row_by_email email db)"
  using assms by (simp add: row_by_email_def update_user_def find_tmap)

lemma get_user_update:
  "get_user v (update_user uid f db) = map_option (\<lambda>row. to_user v (if v = uid then f row else row) db) (map_of (users db) v)"
  by (cases "map_of (users db) v") (simp_all add: get_user_def update_user_def tmap_lookup to_user_def roles_of_def)

lemma row_by_email_get: "table_ok (users db) \<Longrightarrow> row_by_email email db = Some (uid, row) \<Longrightarrow> map_of (users db) uid = Some row"
  by (auto simp: row_by_email_def find_Some_iff table_ok_map_of [symmetric] dest: nth_mem)

lemma update_user_table [simp]: "table_ok (users (update_user uid f db)) = table_ok (users db)"
  by (simp add: update_user_def)

lemma record_failure_row:
  assumes "row_by_email email db = Some (uid, row)"
  shows "row_by_email email (record_failure (m, d) now uid row0 db) = Some (uid, row\<lparr>row_failed_attempts := row_failed_attempts row0 + 1,
    row_locked_until := (if m > 0 \<and> row_failed_attempts row0 + 1 \<ge> m then Some (now + d) else None)\<rparr>)"
  using assms by (simp add: record_failure_def Let_def row_by_email_update)

definition wrong_guesses :: "hasher \<Rightarrow> int \<times> int \<Rightarrow> string \<Rightarrow> (int \<times> string) list \<Rightarrow> user_db \<Rightarrow> user_db" where
  "wrong_guesses hs policy email gs db = fold (\<lambda>(now, pw) d. snd (authenticate hs policy now email pw d)) gs db"

lemma wrong_guess:
  assumes "row_by_email email db = Some (uid, row)" and "row_status row = Active" and "row_locked_until row = None"
    and "row_password_hash row = Some h" and "h \<noteq> []" and "\<not> verify_password hs h pw"
  shows "authenticate hs policy now email pw db = (Inr None, record_failure policy now uid row db)"
  using assms by (simp add: authenticate_def to_user_def is_locked_def is_active_def Let_def)

lemma wrong_guesses_row:
  assumes "row_by_email email db = Some (uid, row)" and "row_status row = Active" and "row_locked_until row = None"
    and "row_password_hash row = Some h" and "h \<noteq> []" and "\<forall>(now, pw) \<in> set gs. \<not> verify_password hs h pw"
    and "row_failed_attempts row + int (length gs) < m"
  shows "row_by_email email (wrong_guesses hs (m, d) email gs db) =
    Some (uid, row\<lparr>row_failed_attempts := row_failed_attempts row + int (length gs)\<rparr>)"
  using assms
proof (induction gs arbitrary: db row)
  case Nil
  then show ?case by (simp add: wrong_guesses_def)
next
  case (Cons g gs)
  obtain now pw where g: "g = (now, pw)" by (cases g)
  let ?row = "row\<lparr>row_failed_attempts := row_failed_attempts row + 1, row_locked_until := None\<rparr>"
  have step: "authenticate hs (m, d) now email pw db = (Inr None, record_failure (m, d) now uid row db)"
    using Cons.prems g by (intro wrong_guess) auto
  have "row_by_email email (record_failure (m, d) now uid row db) = Some (uid, ?row)"
    using record_failure_row [OF Cons.prems(1), of m d now row] Cons.prems(7) by simp
  from Cons.IH [OF this] Cons.prems show ?case
    by (simp add: wrong_guesses_def g step add.assoc add.commute)
qed

section \<open>Properties\<close>

text \<open>
  (C28) Account lockout. With a limit of \<open>n + 1\<close> attempts, an active account with no failures stays
  usable through \<open>n\<close> wrong passwords: the right one still gets in and resets the counter. The next wrong
  one locks it: until the duration has passed, nobody gets in, the right password included, and the
  refused attempts change nothing.
\<close>

theorem lockout_after_failures:
  assumes "row_by_email email db = Some (uid, row)" and "table_ok (users db)" and "row_status row = Active"
    and "row_locked_until row = None" and "row_failed_attempts row = 0"
    and "row_password_hash row = Some h" and "h \<noteq> []"
    and "\<forall>(now, pw) \<in> set (gs @ [(t, bad)]). \<not> verify_password hs h pw" and "length gs = n"
    and "policy = (int (Suc n), duration)" and "db1 = wrong_guesses hs policy email gs db"
    and "db2 = snd (authenticate hs policy t email bad db1)"
  shows "(verify_password hs h good \<and> \<not> needs_rehash hs h \<longrightarrow>
      (\<exists>u db'. authenticate hs policy now email good db1 = (Inr (Some u), db') \<and> user_id u = uid
        \<and> map_option row_failed_attempts (map_of (users db') uid) = Some 0))
    \<and> (later < t + duration \<longrightarrow> authenticate hs policy later email any db2 = (Inr None, db2))"
proof -
  let ?row1 = "row\<lparr>row_failed_attempts := int n\<rparr>"
  have r1: "row_by_email email db1 = Some (uid, ?row1)"
    using wrong_guesses_row [OF assms(1,3,4,6,7), of gs hs "int (Suc n)" duration] assms(5,8,9) by (simp add: assms(10,11))
  have "table_ok (users (wrong_guesses hs policy email gs d)) = table_ok (users d)" for gs d
  proof (induction gs arbitrary: d)
    case (Cons g gs)
    have "table_ok (users (snd (authenticate hs policy now email pw d))) = table_ok (users d)" for now pw
      by (auto simp: authenticate_def Let_def record_failure_def split: option.splits sum.splits prod.splits)
    with Cons show ?case by (simp add: wrong_guesses_def split_def)
  qed (simp add: wrong_guesses_def)
  then have m1: "map_of (users db1) uid = Some ?row1" using row_by_email_get [OF _ r1] assms(2,11) by blast
  have bad: "authenticate hs policy t email bad db1 = (Inr None, record_failure policy t uid ?row1 db1)"
    using wrong_guess [OF r1] assms(3,4,6,7,8) by simp
  have "row_by_email email db2 = Some (uid, ?row1\<lparr>row_failed_attempts := int n + 1, row_locked_until := Some (t + duration)\<rparr>)"
    unfolding assms(12) bad snd_conv unfolding assms(10) record_failure_row [OF r1] by simp
  then have "later < t + duration \<longrightarrow> authenticate hs policy later email any db2 = (Inr None, db2)"
    by (simp add: authenticate_def to_user_def is_locked_def Let_def)
  moreover have "\<exists>u db'. authenticate hs policy now email good db1 = (Inr (Some u), db') \<and> user_id u = uid
        \<and> map_option row_failed_attempts (map_of (users db') uid) = Some 0"
    if "verify_password hs h good" "\<not> needs_rehash hs h"
    using that r1 m1 assms(3,4,6,7)
    by (simp add: authenticate_def is_locked_def is_active_def Let_def get_user_update, simp add: to_user_def update_user_def tmap_lookup)
  ultimately show ?thesis by blast
qed

definition toy_hasher :: hasher where
  "toy_hasher = \<lparr>argon_hash = (\<lambda>p. CHR ''#'' # p), argon_verify = (\<lambda>h q. h = CHR ''#'' # q), argon_needs_rehash = (\<lambda>_. False)\<rparr>"

definition example_user_row :: user_row where
  "example_user_row = \<lparr>row_email = ''Ana@firm'', row_display_name = ''Ana'', row_password_hash = Some ''#correct horse!'', row_idp_subject = None,
     row_status = Active, row_must_change = False, row_mfa_enrolled_at = None, row_failed_attempts = 0, row_locked_until = None,
     row_disabled_at = None, row_disabled_by = None\<rparr>"

definition example_users :: user_db where
  "example_users = \<lparr>users = [(''u1'', example_user_row)], known_roles = [''admin'', ''member''], user_roles = [(''u1'', ''member'')], user_groups = []\<rparr>"

theorem lockout_after_failures_witness:
  "row_by_email ''ana@firm'' example_users = Some (''u1'', example_user_row)
   \<and> (let db2 = snd (authenticate toy_hasher (2, 900) 11 ''ana@firm'' ''b'' (wrong_guesses toy_hasher (2, 900) ''ana@firm'' [(10, ''a'')] example_users))
      in authenticate toy_hasher (2, 900) 20 ''ana@firm'' ''correct horse!'' db2 = (Inr None, db2))"
proof -
  have r: "row_by_email ''ana@firm'' example_users = Some (''u1'', example_user_row)" by code_simp
  have "policy = (int (Suc 1), 900) \<Longrightarrow> (let db2 = snd (authenticate toy_hasher policy 11 ''ana@firm'' ''b'' (wrong_guesses toy_hasher policy ''ana@firm'' [(10, ''a'')] example_users))
      in authenticate toy_hasher policy 20 ''ana@firm'' ''correct horse!'' db2 = (Inr None, db2))" for policy
    using lockout_after_failures [OF r _ _ _ _ _ _ _ _ _ refl refl, where h = "''#correct horse!''" and gs = "[(10, ''a'')]" and t = 11
        and bad = "''b''" and hs = toy_hasher and n = 1 and policy = policy and duration = 900 and later = 20 and any = "''correct horse!''"]
    by (simp add: example_users_def example_user_row_def table_ok_def verify_password_def toy_hasher_def Let_def)
  from this [of "(2, 900)"] r show ?thesis by simp
qed

text \<open>
  Who gets in. An account is returned only to a password its stored hash verifies, when it exists, is
  active and is not locked now; with Argon2 working, that is the password that was set. Every refusal
  is the same answer.
\<close>

theorem authenticate_sound:
  assumes "argon_law hs" and "table_ok (users db)" and "authenticate hs policy now email password db = (Inr (Some u), db')"
  shows "\<exists>row h. row_by_email email db = Some (user_id u, row) \<and> row_status row = Active
    \<and> (case row_locked_until row of None \<Rightarrow> True | Some t \<Rightarrow> t \<le> now)
    \<and> row_password_hash row = Some h \<and> verify_password hs h password
    \<and> (\<forall>p. h = argon_hash hs p \<longrightarrow> password = p)
    \<and> get_user (user_id u) db' = Some u \<and> user_status u = Active"
proof -
  have law: "h = argon_hash hs p \<Longrightarrow> argon_verify hs h password \<Longrightarrow> password = p" for h p
    using assms(1) by (auto simp: argon_law_def)
  obtain uid row where r: "row_by_email email db = Some (uid, row)"
    using assms(3) by (cases "row_by_email email db") (auto simp: authenticate_def)
  note m = row_by_email_get [OF assms(2) r]
  have open_row: "row_status row = Active" "\<not> is_locked now (to_user uid row db)"
    using assms(3) r by (auto simp: authenticate_def Let_def is_active_def to_user_def split: if_splits)
  then obtain h where h: "row_password_hash row = Some h" "verify_password hs h password"
    using assms(3) r by (auto simp: authenticate_def Let_def split: if_splits option.splits)
  have db': "get_user uid db' = Some u" "\<exists>row'. map_of (users db') uid = Some row' \<and> row_status row' = Active"
    using assms(3) r h open_row m
    by (auto simp: authenticate_def Let_def update_user_def tmap_lookup split: if_splits option.splits sum.splits)
  then have "user_id u = uid" "user_status u = Active" by (auto simp: get_user_def to_user_def)
  moreover have "case row_locked_until row of None \<Rightarrow> True | Some t \<Rightarrow> t \<le> now"
    using open_row(2) by (auto simp: is_locked_def to_user_def split: option.splits)
  moreover have "\<forall>p. h = argon_hash hs p \<longrightarrow> password = p" using law h(2) by (auto simp: verify_password_def split: if_splits)
  ultimately show ?thesis using r h db'(1) open_row(1) by auto
qed

text \<open>
  Parallel wrong guesses count as one. The counter is computed from the row read before the
  password check, so any number of wrong guesses that read it before one of them writes raise it by
  one in all, and lock nothing while that is below the limit.
\<close>

theorem parallel_failures_count_once:
  assumes "row_by_email email db = Some (uid, row)" and "row_failed_attempts row + 1 < m" and "ts \<noteq> []"
  shows "row_by_email email (fold (\<lambda>now. record_failure (m, d) now uid row) ts db) =
    Some (uid, row\<lparr>row_failed_attempts := row_failed_attempts row + 1, row_locked_until := None\<rparr>)"
  using assms(1,3)
proof (induction ts rule: rev_induct)
  case (snoc t ts)
  have one: "row_by_email email (record_failure (m, d) t uid row db1) = Some (uid, row\<lparr>row_failed_attempts := row_failed_attempts row + 1, row_locked_until := None\<rparr>)"
    if "row_by_email email db1 = Some (uid, row\<lparr>row_failed_attempts := k, row_locked_until := l\<rparr>)" for db1 k l
    using record_failure_row [OF that, of m d t row] assms(2) by simp
  show ?case
  proof (cases "ts = []")
    case True
    then show ?thesis using record_failure_row [OF assms(1), of m d t row] assms(2) by simp
  next
    case False
    with snoc show ?thesis using one by simp
  qed
qed simp

theorem parallel_failures_count_once_witness:
  "row_by_email ''ana@firm'' example_users = Some (''u1'', example_user_row)
   \<and> map_option (row_failed_attempts \<circ> snd) (row_by_email ''ana@firm'' (fold (\<lambda>now. record_failure (5, 900) now ''u1'' example_user_row) [1, 1, 1, 2, 2, 2, 2, 3] example_users)) = Some 1"
proof -
  have r: "row_by_email ''ana@firm'' example_users = Some (''u1'', example_user_row)" by code_simp
  have "row_failed_attempts example_user_row + 1 < 5" by (simp add: example_user_row_def)
  from parallel_failures_count_once [OF r this, of "[1, 1, 1, 2, 2, 2, 2, 3]" 900] r show ?thesis by (simp add: example_user_row_def)
qed

theorem authenticate_sound_witness:
  "argon_law toy_hasher \<and> (\<exists>u db'. authenticate toy_hasher (5, 900) 0 ''ana@firm'' ''correct horse!'' example_users = (Inr (Some u), db') \<and> get_user (user_id u) db' = Some u)"
proof -
  have law: "argon_law toy_hasher" by (auto simp: argon_law_def toy_hasher_def)
  have ok: "table_ok (users example_users)" by (simp add: example_users_def table_ok_def)
  have "case fst (authenticate toy_hasher (5, 900) 0 ''ana@firm'' ''correct horse!'' example_users) of Inr (Some u) \<Rightarrow> True | _ \<Rightarrow> False" by code_simp
  then obtain u db' where r: "authenticate toy_hasher (5, 900) 0 ''ana@firm'' ''correct horse!'' example_users = (Inr (Some u), db')"
    by (cases "authenticate toy_hasher (5, 900) 0 ''ana@firm'' ''correct horse!'' example_users") (auto split: sum.splits option.splits)
  from authenticate_sound [OF law ok r] law r show ?thesis by blast
qed

end
