(* ===== verification/Sessions.thy ===== *)
theory Sessions
  imports Users
begin

text \<open>
  Server-side sessions (\<open>identity/sessions.py\<close>) over the accounts of \<open>Users\<close>. The table is an
  association list keyed by the session id; the id PostgreSQL draws is an argument, and so is
  \<open>cast\<close>, its conversion of a text to an id, \<open>None\<close> where it raises. \<open>now\<close> is the clock of both the
  database and the process.

  What the store relies on of the accounts is the locale \<open>account_repo\<close>, interpreted on the
  repository; the lemma proved there is that an account that was disabled is let in by no session.
\<close>

record session_row =
  ses_user_id :: string
  ses_created_at :: int
  ses_last_seen_at :: int
  ses_expires_at :: int
  ses_revoked_at :: "int option"
  ses_mfa_passed :: bool
  ses_ip :: "string option"
  ses_user_agent :: "string option"

type_synonym session_table = "(string, session_row) table"

record session =
  session_id :: string
  session_user :: user
  session_created_at :: int
  session_expires_at :: int
  session_mfa_passed :: bool

definition DEFAULT_LIFETIME :: int where
  "DEFAULT_LIFETIME = 12 * 3600"

definition open_session ::
    "int \<Rightarrow> string \<Rightarrow> int \<Rightarrow> user \<Rightarrow> string option \<Rightarrow> string option \<Rightarrow> session_table \<Rightarrow> session py \<times> session_table" where
  "open_session lifetime new_id now u ip agent t =
     (if map_of t new_id \<noteq> None then (Inl DatabaseError, t)
      else (Inr \<lparr>session_id = new_id, session_user = u, session_created_at = now, session_expires_at = now + lifetime, session_mfa_passed = False\<rparr>,
            AList.update new_id \<lparr>ses_user_id = user_id u, ses_created_at = now, ses_last_seen_at = now, ses_expires_at = now + lifetime,
              ses_revoked_at = None, ses_mfa_passed = False, ses_ip = ip, ses_user_agent = agent\<rparr> t))"

definition live :: "int \<Rightarrow> session_row \<Rightarrow> bool" where
  "live now row \<longleftrightarrow> ses_revoked_at row = None \<and> now < ses_expires_at row"

definition revoke :: "int \<Rightarrow> string \<Rightarrow> session_table \<Rightarrow> session_table" where
  "revoke now sid t = tmap (\<lambda>k row. if k = sid \<and> ses_revoked_at row = None then row\<lparr>ses_revoked_at := Some now\<rparr> else row) t"

definition permitted :: "int \<Rightarrow> user option \<Rightarrow> bool" where
  "permitted now u \<longleftrightarrow> (case u of None \<Rightarrow> False | Some a \<Rightarrow> is_active a \<and> \<not> is_locked now a)"

definition resolve ::
    "(string \<Rightarrow> string option) \<Rightarrow> int \<Rightarrow> string option \<Rightarrow> user_db \<Rightarrow> session_table \<Rightarrow> session option \<times> session_table" where
  "resolve cast now presented db t =
     (case presented of None \<Rightarrow> (None, t)
      | Some text_id \<Rightarrow>
          if text_id = [] then (None, t)
          else case cast text_id of None \<Rightarrow> (None, t)
          | Some sid \<Rightarrow>
              (case map_of t sid of None \<Rightarrow> (None, t)
               | Some row \<Rightarrow>
                   if \<not> live now row then (None, t)
                   else (let account = get_user (ses_user_id row) db
                         in case account of
                              None \<Rightarrow> (None, revoke now sid t)
                            | Some u \<Rightarrow>
                                if \<not> is_active u \<or> is_locked now u then (None, revoke now sid t)
                                else (Some \<lparr>session_id = sid, session_user = u, session_created_at = ses_created_at row,
                                        session_expires_at = ses_expires_at row, session_mfa_passed = ses_mfa_passed row\<rparr>,
                                      tmap (\<lambda>k r. if k = sid then r\<lparr>ses_last_seen_at := now\<rparr> else r) t))))"

definition mark_mfa_passed :: "string \<Rightarrow> session_table \<Rightarrow> session_table" where
  "mark_mfa_passed sid t = tmap (\<lambda>k r. if k = sid then r\<lparr>ses_mfa_passed := True\<rparr> else r) t"

definition revoke_all_for_user :: "int \<Rightarrow> string \<Rightarrow> session_table \<Rightarrow> int \<times> session_table" where
  "revoke_all_for_user now uid t =
     (int (length (filter (\<lambda>(k, r). ses_user_id r = uid \<and> ses_revoked_at r = None) t)),
      tmap (\<lambda>k r. if ses_user_id r = uid \<and> ses_revoked_at r = None then r\<lparr>ses_revoked_at := Some now\<rparr> else r) t)"

definition list_for_user :: "int \<Rightarrow> string \<Rightarrow> session_table \<Rightarrow> (string \<times> session_row) list" where
  "list_for_user now uid t =
     sort_key (\<lambda>(k, r). - ses_last_seen_at r) (filter (\<lambda>(k, r). ses_user_id r = uid \<and> live now r) t)"

definition purge_expired :: "int \<Rightarrow> session_table \<Rightarrow> int \<times> session_table" where
  "purge_expired now t =
     (int (length (filter (\<lambda>(k, r). ses_expires_at r \<le> now) t)), filter (\<lambda>(k, r). \<not> ses_expires_at r \<le> now) t)"

section \<open>The accounts a session relies on\<close>

locale account_repo =
  fixes lookup :: "string \<Rightarrow> 'd \<Rightarrow> user option"
    and switch_off :: "int \<Rightarrow> string \<Rightarrow> string option \<Rightarrow> 'd \<Rightarrow> 'd"
  assumes off_status: "lookup uid (switch_off t uid who d) = Some u \<Longrightarrow> \<not> is_active u"
    and off_others: "v \<noteq> uid \<Longrightarrow> lookup v (switch_off t uid who d) = lookup v d"
begin

lemma switched_off: "\<not> permitted now (lookup uid (switch_off t uid who d))"
  by (auto simp: permitted_def dest: off_status split: option.splits)

lemma only_that_one: "v \<noteq> uid \<Longrightarrow> permitted now (lookup v (switch_off t uid who d)) = permitted now (lookup v d)"
  by (simp add: off_others)

end

interpretation accounts: account_repo get_user disable
proof
  show "\<And>uid t who d u. get_user uid (disable t uid who d) = Some u \<Longrightarrow> \<not> is_active u"
    by (auto simp: disable_def get_user_update to_user_def is_active_def)
  show "\<And>v uid t who d. v \<noteq> uid \<Longrightarrow> get_user v (disable t uid who d) = get_user v d"
    by (simp add: disable_def get_user_update) (simp add: get_user_def)
qed

section \<open>Sequences\<close>

text \<open>
  Everything that happens to the sessions and the accounts behind them, except that a new session
  never draws the id \<open>sid\<close> again; accounts may change in any way.
\<close>

inductive session_step :: "string \<Rightarrow> user_db \<times> session_table \<Rightarrow> user_db \<times> session_table \<Rightarrow> bool" for sid where
  opens: "new_id \<noteq> sid \<Longrightarrow> session_step sid (db, t) (db, snd (open_session lifetime new_id now u ip agent t))"
| resolves: "session_step sid (db, t) (db, snd (resolve cast now presented db t))"
| mfa: "session_step sid (db, t) (db, mark_mfa_passed s t)"
| revokes: "session_step sid (db, t) (db, revoke now s t)"
| revokes_all: "session_step sid (db, t) (db, snd (revoke_all_for_user now uid t))"
| purges: "session_step sid (db, t) (db, snd (purge_expired now t))"
| accounts_change: "session_step sid (db, t) (db', t)"

definition dead :: "string \<Rightarrow> session_table \<Rightarrow> bool" where
  "dead sid t \<longleftrightarrow> (case map_of t sid of None \<Rightarrow> True | Some row \<Rightarrow> ses_revoked_at row \<noteq> None)"

lemma tmap_dead: "(\<And>k r. ses_revoked_at r \<noteq> None \<Longrightarrow> ses_revoked_at (f k r) \<noteq> None) \<Longrightarrow> dead sid t \<Longrightarrow> dead sid (tmap f t)"
  by (cases "map_of t sid") (simp_all add: dead_def tmap_lookup)

lemma resolve_table:
  "snd (resolve cast now presented db t) = t \<or> (\<exists>s. snd (resolve cast now presented db t) = revoke now s t)
   \<or> (\<exists>s. snd (resolve cast now presented db t) = tmap (\<lambda>k r. if k = s then r\<lparr>ses_last_seen_at := now\<rparr> else r) t)"
  by (auto simp: resolve_def Let_def split: option.splits)

lemma revoke_dead: "dead sid t \<Longrightarrow> dead sid (revoke now s t)"
  unfolding revoke_def by (rule tmap_dead) simp_all

lemma resolve_dead: "dead sid t \<Longrightarrow> dead sid (snd (resolve cast now presented db t))"
proof -
  assume d: "dead sid t"
  have "dead sid (tmap (\<lambda>k r. if k = s then r\<lparr>ses_last_seen_at := now\<rparr> else r) t)" for s
    by (rule tmap_dead [OF _ d]) simp
  note seen = this
  from resolve_table [of cast now presented db t] show ?thesis
  proof (elim disjE exE)
    assume "snd (resolve cast now presented db t) = t"
    with d show ?thesis by (simp only:)
  next
    fix s assume "snd (resolve cast now presented db t) = revoke now s t"
    with revoke_dead [OF d] show ?thesis by (simp only:)
  next
    fix s assume "snd (resolve cast now presented db t) = tmap (\<lambda>k r. if k = s then r\<lparr>ses_last_seen_at := now\<rparr> else r) t"
    with seen show ?thesis by (simp only:)
  qed
qed

lemma resolve_valid: "table_ok t \<Longrightarrow> table_ok (snd (resolve cast now presented db t))"
  using resolve_table [of cast now presented db t] by (auto simp: revoke_def)

lemma session_step_valid: "session_step sid x y \<Longrightarrow> table_ok (snd x) \<Longrightarrow> table_ok (snd y)"
  by (induction rule: session_step.induct)
    (simp_all add: resolve_valid open_session_def mark_mfa_passed_def revoke_def revoke_all_for_user_def purge_expired_def)

lemma session_step_dead: "session_step sid x y \<Longrightarrow> table_ok (snd x) \<Longrightarrow> dead sid (snd x) \<Longrightarrow> dead sid (snd y)"
proof (induction rule: session_step.induct)
  case (opens new_id db t lifetime now u ip agent)
  then show ?case by (simp add: dead_def open_session_def at.lookup_put)
next
  case (mfa db t s)
  then show ?case unfolding mark_mfa_passed_def snd_conv by (intro tmap_dead) simp_all
next
  case (revokes_all db t now uid)
  then show ?case unfolding revoke_all_for_user_def snd_conv by (intro tmap_dead) simp_all
next
  case (purges db t now)
  then show ?case by (cases "map_of t sid") (simp_all add: dead_def purge_expired_def map_of_filter_ok)
qed (simp_all add: resolve_dead revoke_dead)

lemma steps_dead:
  assumes "(session_step sid)\<^sup>*\<^sup>* x y" and "table_ok (snd x)" and "dead sid (snd x)"
  shows "table_ok (snd y) \<and> dead sid (snd y)"
  using assms by (induction rule: rtranclp_induct) (auto dest: session_step_valid session_step_dead)

lemma dead_unresolved: "dead sid t \<Longrightarrow> cast text_id = Some sid \<Longrightarrow> fst (resolve cast now (Some text_id) db t) = None"
  by (auto simp: dead_def resolve_def live_def split: option.splits)

lemma resolve_not_permitted:
  assumes "cast text_id = Some sid" and "map_of t sid = Some row" and "live now row" and "\<not> permitted now (get_user (ses_user_id row) db)" and "text_id \<noteq> []"
  shows "resolve cast now (Some text_id) db t = (None, revoke now sid t)"
  using assms by (auto simp: resolve_def permitted_def Let_def split: option.splits)

lemma revoke_kills: "dead sid (revoke now sid t)"
  by (cases "map_of t sid") (auto simp: dead_def revoke_def tmap_lookup)

section \<open>Properties\<close>

text \<open>
  (C29) A leaver is out at once and stays out. Once an account is disabled, the next request with any of
  its sessions is refused and ends that session; and however the story goes on, with other sessions
  opened, accounts changed, the account enabled again or the table purged, that session never gets anyone in.
\<close>

theorem leaver_is_out:
  assumes "table_ok t" and "map_of t sid = Some row" and "ses_user_id row = uid" and "live now row"
    and "cast text_id = Some sid" and "text_id \<noteq> []"
    and "resolve cast now (Some text_id) (disable since uid who db) t = (answer, t1)"
    and "(session_step sid)\<^sup>*\<^sup>* (db1, t1) (db2, t2)"
  shows "answer = None \<and> fst (resolve cast later (Some text_id) db2 t2) = None"
proof -
  have r: "resolve cast now (Some text_id) (disable since uid who db) t = (None, revoke now sid t)"
    by (rule resolve_not_permitted) (use assms(2-6) accounts.switched_off in blast)+
  then have "answer = None" "t1 = revoke now sid t" using assms(7) by auto
  then have "table_ok t1" "dead sid t1" using assms(1) revoke_kills by (auto simp: revoke_def)
  with steps_dead [OF assms(8)] have "dead sid t2" by simp
  from dead_unresolved [where cast = cast, OF this assms(5)] \<open>answer = None\<close> show ?thesis by blast
qed

definition example_sessions :: session_table where
  "example_sessions = [(''s1'', \<lparr>ses_user_id = ''u1'', ses_created_at = 0, ses_last_seen_at = 0, ses_expires_at = 43200, ses_revoked_at = None,
     ses_mfa_passed = False, ses_ip = None, ses_user_agent = None\<rparr>)]"

theorem leaver_is_out_witness:
  "fst (resolve Some 10 (Some ''s1'') example_users example_sessions) \<noteq> None
   \<and> (let t1 = snd (resolve Some 10 (Some ''s1'') (disable 5 ''u1'' None example_users) example_sessions)
      in fst (resolve Some 20 (Some ''s1'') (enable ''u1'' (disable 5 ''u1'' None example_users)) t1) = None)"
proof -
  have before: "fst (resolve Some 10 (Some ''s1'') example_users example_sessions) \<noteq> None" by code_simp
  obtain answer t1 where r: "resolve Some 10 (Some ''s1'') (disable 5 ''u1'' None example_users) example_sessions = (answer, t1)" by fastforce
  have step: "(session_step ''s1'')\<^sup>*\<^sup>* (disable 5 ''u1'' None example_users, t1) (enable ''u1'' (disable 5 ''u1'' None example_users), t1)"
    by (rule r_into_rtranclp) (rule session_step.accounts_change)
  show ?thesis
    using before leaver_is_out [OF _ _ _ _ _ _ r step, where row = "snd (hd example_sessions)" and later = 20] r
    by (simp add: example_sessions_def table_ok_def live_def)
qed

text \<open>
  What a session proves. A session is returned only for an id that names a row that is neither
  revoked nor expired, together with the account as it is now, which exists, is active and not locked;
  and then only the time it was last seen changes.
\<close>

theorem resolve_sound:
  assumes "table_ok t" and "resolve cast now presented db t = (Some s, t')"
  shows "\<exists>text_id row. presented = Some text_id \<and> cast text_id = Some (session_id s) \<and> map_of t (session_id s) = Some row
    \<and> ses_revoked_at row = None \<and> now < ses_expires_at row
    \<and> get_user (ses_user_id row) db = Some (session_user s) \<and> user_status (session_user s) = Active \<and> \<not> is_locked now (session_user s)
    \<and> session_expires_at s = ses_expires_at row \<and> session_mfa_passed s = ses_mfa_passed row
    \<and> (\<forall>k. map_of t' k = (if k = session_id s then Some (row\<lparr>ses_last_seen_at := now\<rparr>) else map_of t k))"
proof -
  obtain text_id sid row u where p: "presented = Some text_id" "cast text_id = Some sid" "map_of t sid = Some row" "live now row"
      "get_user (ses_user_id row) db = Some u" "is_active u" "\<not> is_locked now u"
    and s: "s = \<lparr>session_id = sid, session_user = u, session_created_at = ses_created_at row,
      session_expires_at = ses_expires_at row, session_mfa_passed = ses_mfa_passed row\<rparr>"
    and t': "t' = tmap (\<lambda>k r. if k = sid then r\<lparr>ses_last_seen_at := now\<rparr> else r) t"
    using assms(2) by (auto simp: resolve_def Let_def split: option.splits if_splits)
  have "map_of t' k = (if k = sid then Some (row\<lparr>ses_last_seen_at := now\<rparr>) else map_of t k)" for k
    by (cases "map_of t k") (auto simp: t' tmap_lookup p(3))
  then show ?thesis using p s by (auto simp: live_def is_active_def)
qed

theorem resolve_sound_witness:
  "\<exists>s t'. resolve Some 10 (Some ''s1'') example_users example_sessions = (Some s, t') \<and> user_status (session_user s) = Active"
proof -
  have "fst (resolve Some 10 (Some ''s1'') example_users example_sessions) \<noteq> None" by code_simp
  then obtain s t' where r: "resolve Some 10 (Some ''s1'') example_users example_sessions = (Some s, t')"
    by (cases "resolve Some 10 (Some ''s1'') example_users example_sessions") auto
  have "table_ok example_sessions" by (simp add: example_sessions_def table_ok_def)
  from resolve_sound [OF this r] r show ?thesis by blast
qed

end
