(* ===== verification/Node_Grants.thy ===== *)
theory Node_Grants
  imports Python_Values
begin

text \<open>
  Who may edit a node of the knowledge graph (\<open>identity/node_grants.py\<close>). The table is an
  association list from (node, user) to the grant; the unique index \<open>idx_node_grants_one_owner\<close> of the
  migration is the check in \<open>set_owner\<close>. Times are arguments; users are their ids, and the foreign keys
  to the accounts are not modelled. \<open>node_uuid\<close> reads a node id as Python's \<open>UUID\<close> does.
\<close>

section \<open>Node ids\<close>

text \<open>\<open>s.replace(p, '')\<close>.\<close>

function py_remove :: "string \<Rightarrow> string \<Rightarrow> string" where
  "py_remove p s =
     (case s of [] \<Rightarrow> []
      | c # cs \<Rightarrow> if p \<noteq> [] \<and> take (length p) s = p then py_remove p (drop (length p - 1) cs) else c # py_remove p cs)"
  by pat_completeness auto
termination
  by (relation "measure (\<lambda>(p, s). length s)") (auto simp: less_Suc_eq_le)

declare py_remove.simps [simp del]

definition hex_value :: "char \<Rightarrow> int option" where
  "hex_value c =
     (let n = (of_char c :: int)
      in if 48 \<le> n \<and> n \<le> 57 then Some (n - 48)
         else if 97 \<le> n \<and> n \<le> 102 then Some (n - 87)
         else if 65 \<le> n \<and> n \<le> 70 then Some (n - 55) else None)"

text \<open>\<open>int(s, 16)\<close>: outer blanks, a sign, a prefix \<open>0x\<close> and single underscores are accepted.\<close>

definition py_int16 :: "string \<Rightarrow> int py" where
  "py_int16 s =
     (let t = py_strip s;
          neg = (t \<noteq> [] \<and> hd t = CHR ''-'');
          body = (if t \<noteq> [] \<and> (hd t = CHR ''-'' \<or> hd t = CHR ''+'') then tl t else t);
          prefixed = (map ascii_lower (take 2 body) = ''0x'');
          rest = (if prefixed then drop 2 body else body);
          rest' = (if prefixed \<and> take 1 rest = ''_'' then drop 1 rest else rest);
          parts = split_char (CHR ''_'') rest'
      in if list_all (\<lambda>p. p \<noteq> [] \<and> list_all (\<lambda>c. hex_value c \<noteq> None) p) parts
         then Inr ((if neg then -1 else 1) * foldl (\<lambda>n c. 16 * n + the (hex_value c)) 0 (concat parts))
         else Inl ValueError)"

definition hex_char :: "int \<Rightarrow> char" where
  "hex_char d = (if d < 10 then char_of (48 + d) else char_of (87 + d))"

fun hex_digits :: "nat \<Rightarrow> int \<Rightarrow> string" where
  "hex_digits 0 n = []"
| "hex_digits (Suc k) n = hex_digits k (n div 16) @ [hex_char (n mod 16)]"

definition uuid_text :: "int \<Rightarrow> string" where
  "uuid_text n =
     (let h = hex_digits 32 n
      in slice 0 8 h @ ''-'' @ slice 8 12 h @ ''-'' @ slice 12 16 h @ ''-'' @ slice 16 20 h @ ''-'' @ slice 20 32 h)"

definition node_uuid :: "string \<Rightarrow> string option" where
  "node_uuid node_id =
     (let braces = (\<lambda>c. c = CHR ''{'' \<or> c = CHR ''}'');
          h = py_remove ''-'' (py_rstrip braces (py_lstrip braces (py_remove ''uuid:'' (py_remove ''urn:'' node_id))))
      in if length h \<noteq> 32 then None
         else case py_int16 h of Inl _ \<Rightarrow> None | Inr n \<Rightarrow> if 0 \<le> n then Some (uuid_text n) else None)"

section \<open>Grants\<close>

datatype node_role = Owner | Editor

record node_grant =
  grant_role_of :: node_role
  granted_by :: "string option"
  granted_at :: int

type_synonym node_grants = "(string \<times> string, node_grant) table"

datatype grant_error = Bad_Node_Id | OwnerRevokeError | NodeOwnerConflict

definition require_node_uuid :: "string \<Rightarrow> grant_error + string" where
  "require_node_uuid node_id = (case node_uuid node_id of None \<Rightarrow> Inl Bad_Node_Id | Some n \<Rightarrow> Inr n)"

definition set_owner :: "int \<Rightarrow> string \<Rightarrow> string \<Rightarrow> node_grants \<Rightarrow> grant_error option \<times> node_grants" where
  "set_owner now node_id uid t =
     (case require_node_uuid node_id of Inl e \<Rightarrow> (Some e, t)
      | Inr node \<Rightarrow>
          if list_ex (\<lambda>((n, u), g). n = node \<and> u \<noteq> uid \<and> grant_role_of g = Owner) t then (Some NodeOwnerConflict, t)
          else (None,
            case map_of t (node, uid) of
              None \<Rightarrow> AList.update (node, uid) \<lparr>grant_role_of = Owner, granted_by = Some uid, granted_at = now\<rparr> t
            | Some g \<Rightarrow> AList.update (node, uid) (g\<lparr>grant_role_of := Owner\<rparr>) t))"

definition grant_editor :: "int \<Rightarrow> string \<Rightarrow> string \<Rightarrow> string option \<Rightarrow> node_grants \<Rightarrow> grant_error option \<times> node_grants" where
  "grant_editor now node_id uid who t =
     (case require_node_uuid node_id of Inl e \<Rightarrow> (Some e, t)
      | Inr node \<Rightarrow>
          (None, if map_of t (node, uid) \<noteq> None then t
                 else AList.update (node, uid) \<lparr>grant_role_of = Editor, granted_by = who, granted_at = now\<rparr> t))"

text \<open>Rows ordered by role, editors before the owner as the texts compare, and then by time.\<close>

definition node_rows :: "string \<Rightarrow> node_grants \<Rightarrow> (string \<times> node_grant) list" where
  "node_rows node t =
     (let rows = sort_key (\<lambda>(u, g). granted_at g) (map (\<lambda>((n, u), g). (u, g)) (filter (\<lambda>((n, u), g). n = node) t))
      in filter (\<lambda>(u, g). grant_role_of g = Editor) rows @ filter (\<lambda>(u, g). grant_role_of g = Owner) rows)"

definition for_node :: "string \<Rightarrow> node_grants \<Rightarrow> string option \<times> string list" where
  "for_node node_id t =
     (case node_uuid node_id of None \<Rightarrow> (None, [])
      | Some node \<Rightarrow>
          (let rows = node_rows node t
           in (map_option fst (find (\<lambda>(u, g). grant_role_of g = Owner) rows),
               map fst (filter (\<lambda>(u, g). grant_role_of g = Editor) rows))))"

definition revoke_grant :: "string \<Rightarrow> string \<Rightarrow> node_grants \<Rightarrow> grant_error option \<times> node_grants" where
  "revoke_grant node_id uid t =
     (case require_node_uuid node_id of Inl e \<Rightarrow> (Some e, t)
      | Inr node \<Rightarrow>
          (let hit = (\<lambda>((n, u), g). n = node \<and> u = uid \<and> grant_role_of g = Editor);
               t' = filter (\<lambda>row. \<not> hit row) t
           in (if \<not> list_ex hit t \<and> fst (for_node node_id t') = Some uid then Some OwnerRevokeError else None, t')))"

record grant_user =
  gu_id :: string
  gu_roles :: "string list"

definition may_write :: "string \<Rightarrow> grant_user option \<Rightarrow> node_grants \<Rightarrow> bool" where
  "may_write node_id who t =
     (case who of None \<Rightarrow> False
      | Some u \<Rightarrow>
          if ''admin'' \<in> set (gu_roles u) then True
          else if node_uuid node_id = None then False
          else (let grants = for_node node_id t in Some (gu_id u) = fst grants \<or> gu_id u \<in> set (snd grants)))"

definition nodes_for_user :: "string \<Rightarrow> node_grants \<Rightarrow> string list" where
  "nodes_for_user uid t = map (fst \<circ> fst) (filter (\<lambda>((n, u), g). u = uid) t)"

section \<open>Invariant\<close>

definition one_owner :: "node_grants \<Rightarrow> bool" where
  "one_owner t \<longleftrightarrow> table_ok t \<and> (\<forall>n u v g h. map_of t (n, u) = Some g \<longrightarrow> map_of t (n, v) = Some h \<longrightarrow>
     grant_role_of g = Owner \<longrightarrow> grant_role_of h = Owner \<longrightarrow> u = v)"

definition owns :: "string \<Rightarrow> string \<Rightarrow> node_grants \<Rightarrow> bool" where
  "owns node u t \<longleftrightarrow> (\<exists>g. map_of t (node, u) = Some g \<and> grant_role_of g = Owner)"

lemma one_owner_owns: "one_owner t \<longleftrightarrow> table_ok t \<and> (\<forall>n u v. owns n u t \<longrightarrow> owns n v t \<longrightarrow> u = v)"
  unfolding one_owner_def owns_def by blast

lemma owns_put: "owns n u (AList.update (m, v) g t) = (if n = m \<and> u = v then grant_role_of g = Owner else owns n u t)"
  by (simp add: owns_def at.lookup_put)

lemma owns_filter: "table_ok t \<Longrightarrow> owns n u (filter P t) \<Longrightarrow> owns n u t"
  by (auto simp: owns_def map_of_filter_ok split: option.splits if_splits)

inductive grant_step :: "node_grants \<Rightarrow> node_grants \<Rightarrow> bool" where
  own: "grant_step t (snd (set_owner now node_id uid t))"
| edit: "grant_step t (snd (grant_editor now node_id uid who t))"
| revoke: "grant_step t (snd (revoke_grant node_id uid t))"

lemma node_rows_mem:
  "table_ok t \<Longrightarrow> (u, g) \<in> set (node_rows node t) \<longleftrightarrow> map_of t (node, u) = Some g"
  by (cases "grant_role_of g") (force simp: node_rows_def Let_def table_ok_map_of [symmetric])+

lemma for_node_owner:
  assumes "one_owner t" and "node_uuid node_id = Some node"
  shows "fst (for_node node_id t) = Some u \<longleftrightarrow> owns node u t"
proof -
  have ok: "table_ok t" using assms(1) by (simp add: one_owner_def)
  let ?P = "\<lambda>(u, g). grant_role_of g = Owner"
  show ?thesis
  proof (cases "find ?P (node_rows node t)")
    case None
    then have "fst (for_node node_id t) = None" using assms(2) by (simp add: for_node_def Let_def)
    moreover have "\<not> owns node u t" using None node_rows_mem [OF ok] by (auto simp: find_None_iff owns_def)
    ultimately show ?thesis by simp
  next
    case (Some x)
    obtain v g where x: "x = (v, g)" by (cases x)
    have "(v, g) \<in> set (node_rows node t)" "grant_role_of g = Owner" using Some x by (auto simp: find_Some_iff dest: nth_mem)
    then have v: "map_of t (node, v) = Some g" "grant_role_of g = Owner" using node_rows_mem [OF ok] by auto
    have "owns node w t \<longleftrightarrow> w = v" for w using v assms(1) unfolding one_owner_def owns_def by blast
    then show ?thesis using Some x assms(2) by (auto simp: for_node_def Let_def)
  qed
qed

lemma for_node_editors:
  assumes "table_ok t" and "node_uuid node_id = Some node"
  shows "u \<in> set (snd (for_node node_id t)) \<longleftrightarrow> (\<exists>g. map_of t (node, u) = Some g \<and> grant_role_of g = Editor)"
  using node_rows_mem [OF assms(1)] assms(2) by (force simp: for_node_def Let_def image_iff)

lemma grant_step_one_owner: "grant_step t t' \<Longrightarrow> one_owner t \<Longrightarrow> one_owner t'"
proof (induction rule: grant_step.induct)
  case (own t now node_id uid)
  have ok: "table_ok t" using own by (simp add: one_owner_def)
  have other: "list_ex (\<lambda>((n, u), g). n = node \<and> u \<noteq> uid \<and> grant_role_of g = Owner) t \<longleftrightarrow> (\<exists>u. u \<noteq> uid \<and> owns node u t)" for node
    unfolding list_ex_iff owns_def using table_ok_map_of [OF ok] by fastforce
  have uniq: "owns n u t \<Longrightarrow> owns n v t \<Longrightarrow> u = v" for n u v using own unfolding one_owner_owns by blast
  have put: "one_owner (AList.update (node, uid) g t)" if none: "\<not> (\<exists>u. u \<noteq> uid \<and> owns node u t)" for node g
  proof -
    have "owns node u t \<Longrightarrow> u = uid" for u using none by blast
    then show ?thesis by (auto simp: one_owner_owns owns_put ok split: if_splits dest: uniq)
  qed
  then show ?case using own by (auto simp: set_owner_def other split: sum.splits option.splits)
next
  case (edit t now node_id uid who)
  have "one_owner (AList.update (node, uid) \<lparr>grant_role_of = Editor, granted_by = who, granted_at = now\<rparr> t)" for node
  proof -
    have "table_ok t" "owns n u t \<Longrightarrow> owns n v t \<Longrightarrow> u = v" for n u v using edit unfolding one_owner_owns by blast+
    then show ?thesis by (auto simp: one_owner_owns owns_put split: if_splits)
  qed
  then show ?case using edit by (simp add: grant_editor_def split: sum.splits)
next
  case (revoke t node_id uid)
  then have ok: "table_ok t" by (simp add: one_owner_def)
  have "one_owner (filter P t)" for P
    unfolding one_owner_owns using revoke [unfolded one_owner_owns] owns_filter [OF ok] table_ok_filter [OF ok] by blast
  then show ?case using revoke by (simp add: revoke_grant_def Let_def split: sum.splits)
qed

lemma grant_step_owns: "grant_step t t' \<Longrightarrow> one_owner t \<Longrightarrow> owns node u t \<Longrightarrow> owns node u t'"
proof (induction rule: grant_step.induct)
  case (own t now node_id uid)
  then show ?case by (auto simp: set_owner_def owns_def at.lookup_put split: sum.splits option.splits)
next
  case (edit t now node_id uid who)
  then show ?case by (auto simp: grant_editor_def owns_def at.lookup_put split: sum.splits)
next
  case (revoke t node_id uid)
  then have "table_ok t" by (simp add: one_owner_def)
  with revoke show ?case by (auto simp: revoke_grant_def Let_def owns_def map_of_filter_ok split: sum.splits)
qed

lemma steps_owns:
  assumes "grant_step\<^sup>*\<^sup>* t t'" and "one_owner t"
  shows "one_owner t' \<and> (owns node u t \<longrightarrow> owns node u t')"
  using assms by (induction rule: rtranclp_induct) (auto dest: grant_step_one_owner grant_step_owns)

section \<open>Properties\<close>

text \<open>
  (C30) Ownership of a node. From an empty table, after any sequence of owner, editor and revocation
  calls, a node has at most one owner; who owns it then owns it after any further sequence and may write
  to it; revoking the owner is refused and changes nothing; and writing is allowed exactly to an administrator,
  the owner and the editors, and to nobody but an administrator for an id that is no UUID.
\<close>

theorem node_owner_stays:
  assumes "grant_step\<^sup>*\<^sup>* [] t" and "grant_step\<^sup>*\<^sup>* t t'" and "node_uuid node_id = Some node"
  shows "(owns node u t \<and> owns node v t \<longrightarrow> u = v)
    \<and> (owns node u t \<longrightarrow> fst (for_node node_id t') = Some u \<and> may_write node_id (Some \<lparr>gu_id = u, gu_roles = roles\<rparr>) t'
        \<and> revoke_grant node_id u t' = (Some OwnerRevokeError, t'))
    \<and> (may_write node_id (Some who) t' \<longleftrightarrow> ''admin'' \<in> set (gu_roles who) \<or> map_of t' (node, gu_id who) \<noteq> None)
    \<and> (node_uuid bad = None \<longrightarrow> may_write bad (Some who) t' = (''admin'' \<in> set (gu_roles who)))"
proof -
  have inv: "one_owner t" using steps_owns [OF assms(1)] by (simp add: one_owner_def)
  note later = steps_owns [OF assms(2) inv]
  have inv': "one_owner t'" using later by blast
  then have ok': "table_ok t'" by (simp add: one_owner_def)
  have may: "may_write node_id (Some who) t' \<longleftrightarrow> ''admin'' \<in> set (gu_roles who) \<or> map_of t' (node, gu_id who) \<noteq> None" for who
  proof -
    have "Some (gu_id who) = fst (for_node node_id t') \<longleftrightarrow> owns node (gu_id who) t'"
      using for_node_owner [OF inv' assms(3), of "gu_id who"] by auto
    moreover have "map_of t' (node, gu_id who) \<noteq> None \<longleftrightarrow> owns node (gu_id who) t' \<or> gu_id who \<in> set (snd (for_node node_id t'))"
    proof (cases "map_of t' (node, gu_id who)")
      case None
      then show ?thesis using for_node_editors [OF ok' assms(3), of "gu_id who"] by (simp add: owns_def)
    next
      case (Some g)
      then show ?thesis using for_node_editors [OF ok' assms(3), of "gu_id who"] by (cases "grant_role_of g") (simp_all add: owns_def)
    qed
    ultimately show ?thesis using assms(3) by (simp add: may_write_def Let_def)
  qed
  have unique: "owns node u t \<Longrightarrow> owns node v t \<Longrightarrow> u = v"
    using for_node_owner [OF inv assms(3), of u] for_node_owner [OF inv assms(3), of v] by simp
  have owner: "fst (for_node node_id t') = Some u" "map_of t' (node, u) \<noteq> None" "revoke_grant node_id u t' = (Some OwnerRevokeError, t')"
    if "owns node u t"
  proof -
    have o: "owns node u t'" using later that by blast
    then show f: "fst (for_node node_id t') = Some u" using for_node_owner [OF inv' assms(3)] by blast
    show "map_of t' (node, u) \<noteq> None" using o by (auto simp: owns_def)
    let ?hit = "\<lambda>((n, w), g). n = node \<and> w = u \<and> grant_role_of g = Editor"
    have "\<not> ?hit row" if "row \<in> set t'" for row
      using that o by (auto simp: owns_def table_ok_map_of [OF ok'])
    then have "filter (\<lambda>row. \<not> ?hit row) t' = t'" "\<not> list_ex ?hit t'"
      by (auto simp: list_ex_iff intro!: filter_True)
    then show "revoke_grant node_id u t' = (Some OwnerRevokeError, t')"
      using f assms(3) by (simp add: revoke_grant_def require_node_uuid_def Let_def)
  qed
  have "node_uuid bad = None \<longrightarrow> may_write bad (Some who) t' = (''admin'' \<in> set (gu_roles who))" by (simp add: may_write_def)
  with unique owner may may [of "\<lparr>gu_id = u, gu_roles = roles\<rparr>"] show ?thesis by simp
qed

definition example_node :: string where
  "example_node = ''6F9619FF-8B86-D011-B42D-00C04FC964FF''"

definition example_grants :: node_grants where
  "example_grants = snd (set_owner 1 example_node ''ana'' [])"

theorem node_owner_stays_witness:
  "node_uuid example_node = Some ''6f9619ff-8b86-d011-b42d-00c04fc964ff'' \<and> owns ''6f9619ff-8b86-d011-b42d-00c04fc964ff'' ''ana'' example_grants
   \<and> revoke_grant example_node ''ana'' (snd (grant_editor 2 example_node ''bob'' None example_grants))
     = (Some OwnerRevokeError, snd (grant_editor 2 example_node ''bob'' None example_grants))"
proof -
  have n: "node_uuid example_node = Some ''6f9619ff-8b86-d011-b42d-00c04fc964ff''" by code_simp
  have r: "grant_step\<^sup>*\<^sup>* [] example_grants" unfolding example_grants_def by (rule r_into_rtranclp) (rule grant_step.own)
  have s: "grant_step\<^sup>*\<^sup>* example_grants (snd (grant_editor 2 example_node ''bob'' None example_grants))"
    by (rule r_into_rtranclp) (rule grant_step.edit)
  have o: "owns ''6f9619ff-8b86-d011-b42d-00c04fc964ff'' ''ana'' example_grants"
    by (simp add: example_grants_def set_owner_def require_node_uuid_def n owns_def)
  from node_owner_stays [OF r s n, where u = "''ana''" and v = "''ana''" and roles = "[]" and bad = "[]"
      and who = "\<lparr>gu_id = ''bob'', gu_roles = []\<rparr>"] n o
  show ?thesis by blast
qed

end
