(* ===== verification/Ocr_Cache.thy ===== *)
theory Ocr_Cache
  imports Python_Values "HOL-Library.Multiset" "HOL-Library.Product_Lexorder"
begin

text \<open>
  The size-capped OCR cache of the Connector (\<open>sync/ocr_cache.py\<close>). The two SQLite tables are an
  association list of entries and a list of (key, path) pairs; clock readings are rationals and
  arguments. A failing database call is a flag, and is taken to leave the tables unchanged. Forking,
  file modes and the connection are left out; \<open>ocr_file\<close> says whether the file exists.

  The lemmas show that the batched eviction is one-by-one eviction in order of last use, that the cap
  holds after every operation, and what a purge removes.
\<close>

definition DEFAULT_OCR_CACHE_MAX_MB :: int where
  "DEFAULT_OCR_CACHE_MAX_MB = 512"

definition EVICT_BATCH :: nat where
  "EVICT_BATCH = 64"

record ocr_entry =
  oe_value :: string
  oe_size :: int
  oe_created_at :: rat
  oe_last_used_at :: rat

record ocr_cache =
  ocr_max_bytes :: int
  ocr_entries :: "(string, ocr_entry) table"
  ocr_documents :: "(string \<times> string) list"
  ocr_file :: bool
  ocr_hits :: int
  ocr_misses :: int

definition ocr_cache_max_mb :: "string option \<Rightarrow> int" where
  "ocr_cache_max_mb raw_env =
     (let raw = py_strip (case raw_env of Some v \<Rightarrow> v | None \<Rightarrow> [])
      in if raw = [] then DEFAULT_OCR_CACHE_MAX_MB
         else case py_int raw of Inr n \<Rightarrow> max 0 n | Inl _ \<Rightarrow> DEFAULT_OCR_CACHE_MAX_MB)"

definition ocr_cache_init :: "int \<Rightarrow> bool \<Rightarrow> ocr_cache" where
  "ocr_cache_init max_bytes file_exists = \<lparr>ocr_max_bytes = max 0 max_bytes, ocr_entries = [], ocr_documents = [],
     ocr_file = file_exists, ocr_hits = 0, ocr_misses = 0\<rparr>"

definition ocr_enabled :: "ocr_cache \<Rightarrow> bool" where
  "ocr_enabled c \<longleftrightarrow> ocr_max_bytes c > 0"

text \<open>The number of bytes of the UTF-8 encoding.\<close>

definition utf8_len :: "string \<Rightarrow> int" where
  "utf8_len s = sum_list (map (\<lambda>c. if (of_char c :: nat) < 128 then 1 else 2) s)"

definition ocr_get :: "bool \<Rightarrow> rat \<Rightarrow> string \<Rightarrow> ocr_cache \<Rightarrow> string option \<times> ocr_cache" where
  "ocr_get db_ok now key c =
     (if \<not> ocr_enabled c then (None, c\<lparr>ocr_misses := ocr_misses c + 1\<rparr>)
      else if \<not> db_ok then (None, c\<lparr>ocr_misses := ocr_misses c + 1\<rparr>)
      else case map_of (ocr_entries c) key of
        None \<Rightarrow> (None, c\<lparr>ocr_file := True, ocr_misses := ocr_misses c + 1\<rparr>)
      | Some e \<Rightarrow> (Some (oe_value e), c\<lparr>ocr_file := True,
          ocr_entries := tmap (\<lambda>k v. if k = key then v\<lparr>oe_last_used_at := now\<rparr> else v) (ocr_entries c),
          ocr_hits := ocr_hits c + 1\<rparr>))"

definition total_bytes :: "ocr_cache \<Rightarrow> int" where
  "total_bytes c = sum_list (map (\<lambda>(k, e). oe_size e) (ocr_entries c))"

text \<open>\<open>ORDER BY last_used_at ASC, key ASC\<close>.\<close>

definition lru :: "ocr_cache \<Rightarrow> (string \<times> int) list" where
  "lru c = map (\<lambda>(k, e). (k, oe_size e)) (sort_key (\<lambda>(k, e). (oe_last_used_at e, k)) (ocr_entries c))"

definition delete_entry :: "string \<Rightarrow> ocr_cache \<Rightarrow> ocr_cache" where
  "delete_entry key c = c\<lparr>ocr_entries := AList.delete key (ocr_entries c),
     ocr_documents := filter (\<lambda>(k, p). k \<noteq> key) (ocr_documents c)\<rparr>"

fun evict_rows :: "(string \<times> int) list \<Rightarrow> int \<Rightarrow> ocr_cache \<Rightarrow> int \<times> ocr_cache" where
  "evict_rows [] tot c = (tot, c)"
| "evict_rows ((key, sz) # rows) tot c =
     (let c' = delete_entry key c; tot' = tot - sz
      in if tot' \<le> ocr_max_bytes c' then (tot', c') else evict_rows rows tot' c')"

lemma evict_rows_shrinks:
  "length (ocr_entries (snd (evict_rows rows tot c))) \<le> length (ocr_entries c)
   \<and> ocr_max_bytes (snd (evict_rows rows tot c)) = ocr_max_bytes c"
proof (induction rows tot c rule: evict_rows.induct)
  case (2 key sz rows tot c)
  have "length (AList.delete key (ocr_entries c)) \<le> length (ocr_entries c)" by (simp add: AList.delete_eq)
  with 2 show ?case by (fastforce simp: Let_def delete_entry_def)
qed simp

lemma evict_rows_drops:
  assumes "rows = take EVICT_BATCH (lru c)" and "rows \<noteq> []"
  shows "length (ocr_entries (snd (evict_rows rows tot c))) < length (ocr_entries c)"
proof -
  obtain key sz rest where r: "rows = (key, sz) # rest" using assms(2) by (cases rows) auto
  have "(key, sz) \<in> set (lru c)" using assms(1) r by (metis in_set_takeD list.set_intros(1))
  then have "key \<in> fst ` set (ocr_entries c)" by (force simp: lru_def)
  then have "length (AList.delete key (ocr_entries c)) < length (ocr_entries c)"
    by (auto simp: AList.delete_eq intro!: length_filter_less)
  then show ?thesis
    using evict_rows_shrinks [of rest "tot - sz" "delete_entry key c"] by (auto simp: r Let_def delete_entry_def)
qed

function evict_loop :: "int \<Rightarrow> ocr_cache \<Rightarrow> ocr_cache" where
  "evict_loop tot c =
     (if tot > ocr_max_bytes c then
        (let rows = take EVICT_BATCH (lru c)
         in if rows = [] then c
            else let (tot', c') = evict_rows rows tot c in evict_loop tot' c')
      else c)"
  by pat_completeness auto
termination
proof (relation "measure (\<lambda>(tot, c). length (ocr_entries c))")
  fix tot c rows x tot' c'
  assume "rows = take EVICT_BATCH (lru c)" "rows \<noteq> []" "x = evict_rows rows tot c" "(tot', c') = x"
  then show "((tot', c'), tot, c) \<in> measure (\<lambda>(tot, c). length (ocr_entries c))"
    using evict_rows_drops [of rows c tot] by (metis case_prod_conv in_measure snd_conv)
qed simp

declare evict_loop.simps [simp del]

definition evict :: "ocr_cache \<Rightarrow> ocr_cache" where
  "evict c = evict_loop (total_bytes c) c"

definition ocr_put :: "bool \<Rightarrow> rat \<Rightarrow> string \<Rightarrow> string \<Rightarrow> string option \<Rightarrow> ocr_cache \<Rightarrow> ocr_cache" where
  "ocr_put db_ok now key v path c =
     (let sz = utf8_len v
      in if \<not> ocr_enabled c then c
         else if sz > ocr_max_bytes c then c
         else if \<not> db_ok then c
         else let c1 = c\<lparr>ocr_file := True, ocr_entries := AList.update key
                  \<lparr>oe_value = v, oe_size = sz, oe_created_at = now, oe_last_used_at = now\<rparr> (ocr_entries c)\<rparr>;
                  c2 = (case path of None \<Rightarrow> c1
                        | Some p \<Rightarrow> if p = [] \<or> (key, p) \<in> set (ocr_documents c1) then c1
                                   else c1\<lparr>ocr_documents := ocr_documents c1 @ [(key, p)]\<rparr>)
              in evict c2)"

fun purge_rows :: "string \<Rightarrow> string list \<Rightarrow> ocr_cache \<Rightarrow> int \<times> ocr_cache" where
  "purge_rows path [] c = (0, c)"
| "purge_rows path (key # ks) c =
     (if list_ex (\<lambda>(k, p). k = key \<and> p \<noteq> path) (ocr_documents c) then purge_rows path ks c
      else let (n, c') = purge_rows path ks (c\<lparr>ocr_entries := AList.delete key (ocr_entries c)\<rparr>) in (n + 1, c'))"

definition purge_document :: "bool \<Rightarrow> string \<Rightarrow> ocr_cache \<Rightarrow> int \<times> ocr_cache" where
  "purge_document db_ok path c =
     (if path = [] \<or> \<not> ocr_file c then (0, c)
      else if \<not> ocr_enabled c then (0, c)
      else if \<not> db_ok then (0, c)
      else let keys = map fst (filter (\<lambda>(k, p). p = path) (ocr_documents c));
               (n, c') = purge_rows path keys c
           in (n, c'\<lparr>ocr_documents := filter (\<lambda>(k, p). p \<noteq> path) (ocr_documents c')\<rparr>))"

definition purge_all :: "ocr_cache \<Rightarrow> ocr_cache" where
  "purge_all c = c\<lparr>ocr_entries := [], ocr_documents := [], ocr_file := False\<rparr>"

definition ocr_stats :: "ocr_cache \<Rightarrow> (string \<times> int) list" where
  "ocr_stats c =
     [(''hits'', ocr_hits c), (''misses'', ocr_misses c),
      (''entries'', if ocr_enabled c \<and> ocr_file c then int (length (ocr_entries c)) else 0),
      (''bytes'', if ocr_enabled c \<and> ocr_file c then total_bytes c else 0), (''max_bytes'', ocr_max_bytes c)]"

section \<open>Eviction one by one\<close>

fun trim :: "int \<Rightarrow> (string \<times> int) list \<Rightarrow> (string \<times> int) list" where
  "trim mx [] = []"
| "trim mx (x # xs) = (if sum_list (map snd (x # xs)) > mx then trim mx xs else x # xs)"

lemma trim_fits: "sum_list (map snd xs) \<le> mx \<Longrightarrow> trim mx xs = xs"
  by (cases xs) auto

lemma trim_sum: "0 \<le> mx \<Longrightarrow> sum_list (map snd (trim mx xs)) \<le> mx"
  by (induction xs) auto

lemma trim_keeps_last: "snd x \<le> mx \<Longrightarrow> x \<in> set (trim mx (xs @ [x]))"
  by (induction xs) auto

lemma sum_list_sort_key: "sum_list (map g (sort_key f xs)) = sum_list (map g xs)" for g :: "'a \<Rightarrow> int"
  by (metis mset_map mset_sort sum_mset_sum_list)

lemma total_lru: "total_bytes c = sum_list (map snd (lru c))"
  by (simp add: total_bytes_def lru_def o_def split_def sum_list_sort_key)

lemma lru_keys: "map fst (lru c) = map fst (sort_key (\<lambda>(k, e). (oe_last_used_at e, k)) (ocr_entries c))"
  by (simp add: lru_def split_def)

lemma lru_delete:
  assumes "table_ok (ocr_entries c)" and "lru c = (k, s) # rest"
  shows "lru (delete_entry k c) = rest"
proof -
  let ?f = "\<lambda>(k, e). (oe_last_used_at e, k)" and ?g = "\<lambda>(k, e). (k, oe_size e)"
  have "distinct (map fst (sort_key ?f (ocr_entries c)))"
    using assms(1) by (metis table_ok_def distinct_map mset_sort set_mset_mset mset_eq_imp_distinct_iff mset_map)
  then have d: "distinct (map fst (lru c))" unfolding lru_keys .
  have "lru (delete_entry k c) = map ?g (filter (\<lambda>x. fst x \<noteq> k) (sort_key ?f (ocr_entries c)))"
    by (simp add: lru_def delete_entry_def AList.delete_eq filter_sort split_def eq_commute)
  also have "\<dots> = filter (\<lambda>x. fst x \<noteq> k) (lru c)"
    by (simp add: lru_def filter_map o_def split_def)
  also have "\<dots> = rest" using d assms(2) by (auto intro!: filter_True)
  finally show ?thesis .
qed

lemma delete_entry_simps [simp]:
  "ocr_max_bytes (delete_entry k c) = ocr_max_bytes c" "table_ok (ocr_entries c) \<Longrightarrow> table_ok (ocr_entries (delete_entry k c))"
  "map_of (ocr_entries (delete_entry k c)) k' = (if k' = k then None else map_of (ocr_entries c) k')"
  by (simp_all add: delete_entry_def at.lookup_del)

lemma evict_rows_trim:
  assumes "table_ok (ocr_entries c)" and "tot = total_bytes c" and "tot > ocr_max_bytes c"
    and "evict_rows (take n (lru c)) tot c = (tot', c')"
  shows "table_ok (ocr_entries c') \<and> tot' = total_bytes c' \<and> ocr_max_bytes c' = ocr_max_bytes c
    \<and> trim (ocr_max_bytes c) (lru c') = trim (ocr_max_bytes c) (lru c)
    \<and> (\<forall>k. map_of (ocr_entries c') k = None \<or> map_of (ocr_entries c') k = map_of (ocr_entries c) k)"
  using assms
proof (induction n arbitrary: c tot)
  case 0
  then have "tot' = tot" "c' = c" by auto
  with 0 show ?case by simp
next
  case (Suc n)
  show ?case
  proof (cases "lru c")
    case Nil
    then have "tot' = tot" "c' = c" using Suc.prems(4) by auto
    with Suc.prems show ?thesis by simp
  next
    case (Cons x rest)
    obtain k s where x: "x = (k, s)" by (cases x)
    let ?c = "delete_entry k c"
    have rest: "lru ?c = rest" using lru_delete [OF Suc.prems(1)] Cons x by simp
    have tot: "tot - s = total_bytes ?c" using Suc.prems(2) total_lru [of c] total_lru [of ?c] Cons x rest by simp
    have trim: "trim (ocr_max_bytes c) (lru c) = trim (ocr_max_bytes c) (lru ?c)"
      using Suc.prems(2,3) total_lru [of c] Cons rest by simp
    show ?thesis
    proof (cases "tot - s \<le> ocr_max_bytes c")
      case True
      with Suc.prems Cons x tot trim show ?thesis by (auto simp: Let_def)
    next
      case False
      then have "evict_rows (take n (lru ?c)) (tot - s) ?c = (tot', c')"
        using Suc.prems(4) Cons x rest by (simp add: Let_def)
      from Suc.IH [OF _ tot _ this] False Suc.prems(1) trim show ?thesis by (simp) (metis)
    qed
  qed
qed

lemma evict_loop_trim:
  assumes "table_ok (ocr_entries c)" and "tot = total_bytes c"
  shows "table_ok (ocr_entries (evict_loop tot c)) \<and> ocr_max_bytes (evict_loop tot c) = ocr_max_bytes c
    \<and> lru (evict_loop tot c) = trim (ocr_max_bytes c) (lru c)
    \<and> (\<forall>k. map_of (ocr_entries (evict_loop tot c)) k = None \<or> map_of (ocr_entries (evict_loop tot c)) k = map_of (ocr_entries c) k)"
  using assms
proof (induction tot c rule: evict_loop.induct)
  case (1 tot c)
  show ?case
  proof (cases "tot > ocr_max_bytes c")
    case False
    then have "evict_loop tot c = c" by (simp add: evict_loop.simps [of tot c])
    moreover have "trim (ocr_max_bytes c) (lru c) = lru c" using False 1(3) by (simp add: total_lru trim_fits)
    ultimately show ?thesis using 1(2) by simp
  next
    case True
    let ?rows = "take EVICT_BATCH (lru c)"
    show ?thesis
    proof (cases "?rows = []")
      case True
      then have "lru c = []" by (simp add: EVICT_BATCH_def)
      moreover have "evict_loop tot c = c" using True by (simp add: evict_loop.simps [of tot c])
      ultimately show ?thesis using 1(2) by simp
    next
      case False
      obtain tot' c' where e: "evict_rows ?rows tot c = (tot', c')" by fastforce
      note step = evict_rows_trim [OF 1(2,3) True e]
      have loop: "evict_loop tot c = evict_loop tot' c'" using True False e by (simp add: evict_loop.simps [of tot c])
      from 1(1) [OF True refl False refl, of tot' c'] e step show ?thesis unfolding loop by (simp) (metis)
    qed
  qed
qed

section \<open>Invariant\<close>

definition ocr_ok :: "ocr_cache \<Rightarrow> bool" where
  "ocr_ok c \<longleftrightarrow> table_ok (ocr_entries c) \<and> 0 \<le> ocr_max_bytes c \<and> (\<forall>(k, e) \<in> set (ocr_entries c). 0 \<le> oe_size e)
     \<and> (ocr_enabled c \<longrightarrow> total_bytes c \<le> ocr_max_bytes c)"

lemma utf8_len_nonneg: "0 \<le> utf8_len s"
  unfolding utf8_len_def by (rule sum_list_nonneg) auto

lemma last_is_max:
  fixes f :: "'a \<Rightarrow> 'b::linorder"
  assumes "x \<in> set xs" and "\<And>y. y \<in> set xs \<Longrightarrow> y \<noteq> x \<Longrightarrow> f y < f x"
  shows "\<exists>ys. sort_key f xs = ys @ [x]"
proof -
  have "sort_key f xs \<noteq> []" using assms(1) set_sort [of f xs] by (cases xs) auto
  then obtain ys z where s: "sort_key f xs = ys @ [z]" by (metis append_butlast_last_id)
  have z: "z \<in> set xs" using s by (metis in_set_conv_decomp set_sort)
  have x: "x \<in> set (ys @ [z])" using assms(1) s by (metis set_sort)
  have "sorted (map f (ys @ [z]))" using s by (metis sorted_sort_key)
  then have "f x \<le> f z" using x by (auto simp: sorted_append)
  then have "z = x" using assms(2) [OF z] by (metis not_le)
  with s show ?thesis by blast
qed

definition insert_entry :: "rat \<Rightarrow> string \<Rightarrow> string \<Rightarrow> ocr_cache \<Rightarrow> ocr_cache" where
  "insert_entry now key v c = c\<lparr>ocr_entries := AList.update key
     \<lparr>oe_value = v, oe_size = utf8_len v, oe_created_at = now, oe_last_used_at = now\<rparr> (ocr_entries c)\<rparr>"

lemma lru_entries: "lru (c\<lparr>ocr_file := f, ocr_entries := t\<rparr>) = lru (c\<lparr>ocr_entries := t\<rparr>)"
  "lru (c\<lparr>ocr_file := f, ocr_entries := t, ocr_documents := d\<rparr>) = lru (c\<lparr>ocr_entries := t\<rparr>)"
  by (simp_all add: lru_def)

lemma ocr_put_evicts:
  assumes "ocr_enabled c" and "utf8_len v \<le> ocr_max_bytes c"
  shows "\<exists>c2. ocr_put True now key v path c = evict c2 \<and> ocr_entries c2 = ocr_entries (insert_entry now key v c)
    \<and> ocr_max_bytes c2 = ocr_max_bytes c \<and> lru c2 = lru (insert_entry now key v c)"
  using assms by (auto simp: ocr_put_def Let_def insert_entry_def lru_entries not_less split: option.splits)

section \<open>Properties\<close>

text \<open>
  The cache keeps its cap and forgets the least recently used. Putting a text that fits into a
  consistent cache evicts, in batches, exactly what evicting one entry at a time in the order of last
  use would, until the rest fits; the loop ends; the result is within the cap; and when no other entry
  was used at or after this moment, the text just put is found again.
\<close>

theorem ocr_put_within_cap:
  assumes "ocr_ok c" and "ocr_enabled c" and "utf8_len v \<le> ocr_max_bytes c"
    and "\<forall>(k, e) \<in> set (ocr_entries c). oe_last_used_at e < now"
    and "c' = ocr_put True now key v path c"
  shows "lru c' = trim (ocr_max_bytes c) (lru (insert_entry now key v c)) \<and> total_bytes c' \<le> ocr_max_bytes c
    \<and> ocr_max_bytes c' = ocr_max_bytes c \<and> table_ok (ocr_entries c')
    \<and> fst (ocr_get True later key c') = Some v"
proof -
  obtain c2 where c2: "c' = evict c2" "ocr_entries c2 = ocr_entries (insert_entry now key v c)" "ocr_max_bytes c2 = ocr_max_bytes c"
      "lru c2 = lru (insert_entry now key v c)"
    using ocr_put_evicts [OF assms(2,3)] assms(5) by blast
  have ok2: "table_ok (ocr_entries c2)" using assms(1) by (simp add: c2(2) insert_entry_def ocr_ok_def)
  note ev = evict_loop_trim [OF ok2 refl, folded evict_def, folded c2(1)]
  have lru: "lru c' = trim (ocr_max_bytes c) (lru (insert_entry now key v c))" using ev c2 by simp
  have cap: "total_bytes c' \<le> ocr_max_bytes c" unfolding total_lru lru using assms(1) by (intro trim_sum) (simp add: ocr_ok_def)
  let ?e = "\<lparr>oe_value = v, oe_size = utf8_len v, oe_created_at = now, oe_last_used_at = now\<rparr>"
  let ?t = "ocr_entries (insert_entry now key v c)" and ?f = "\<lambda>(k, e). (oe_last_used_at e, k)"
  have t: "table_ok ?t" "map_of ?t k = (if k = key then Some ?e else map_of (ocr_entries c) k)" for k
    using ok2 c2(2) by (simp_all add: insert_entry_def at.lookup_put)
  have "?f y < ?f (key, ?e)" if y: "y \<in> set ?t" "y \<noteq> (key, ?e)" for y
  proof -
    obtain k e where ke: "y = (k, e)" by (cases y)
    then have "map_of (ocr_entries c) k = Some e" using y t(2) [of k] table_ok_map_of [OF t(1)] by (auto split: if_splits)
    then have "oe_last_used_at e < now" using assms(4) by (auto dest: map_of_SomeD)
    then show ?thesis by (simp add: ke)
  qed
  moreover have "(key, ?e) \<in> set ?t" using t by (simp add: table_ok_map_of)
  ultimately obtain ys where "sort_key ?f ?t = ys @ [(key, ?e)]" using last_is_max [of "(key, ?e)" ?t ?f] by blast
  then have "lru (insert_entry now key v c) = map (\<lambda>(k, e). (k, oe_size e)) ys @ [(key, utf8_len v)]" by (simp add: lru_def)
  with lru trim_keeps_last [of "(key, utf8_len v)"] assms(3) have "(key, utf8_len v) \<in> set (lru c')" by simp
  then have "key \<in> fst ` set (ocr_entries c')" by (force simp: lru_def)
  then have "map_of (ocr_entries c') key \<noteq> None" by (simp add: map_of_eq_None_iff)
  moreover have "map_of (ocr_entries c') key = None \<or> map_of (ocr_entries c') key = Some ?e"
    using ev t(2) [of key] unfolding c2(2) by (metis (full_types))
  ultimately have "map_of (ocr_entries c') key = Some ?e" by (elim disjE) simp_all
  then have "fst (ocr_get True later key c') = Some v"
    using assms(2) ev c2(3) by (simp add: ocr_get_def ocr_enabled_def)
  with lru cap ev c2(3) show ?thesis by simp
qed

definition example_ocr :: ocr_cache where
  "example_ocr = ocr_put True 1 ''k1'' ''abcdef'' (Some ''a.pdf'') (ocr_cache_init 10 False)"

theorem ocr_put_within_cap_witness:
  "ocr_ok example_ocr \<and> fst (ocr_get True 9 ''k2'' (ocr_put True 2 ''k2'' ''ghijkl'' None example_ocr)) = Some ''ghijkl''
   \<and> total_bytes (ocr_put True 2 ''k2'' ''ghijkl'' None example_ocr) \<le> ocr_max_bytes example_ocr"
proof -
  have e: "ocr_entries example_ocr = [(''k1'', \<lparr>oe_value = ''abcdef'', oe_size = 6, oe_created_at = 1, oe_last_used_at = 1\<rparr>)]"
    "ocr_max_bytes example_ocr = 10" by code_simp+
  then have ok: "ocr_ok example_ocr" by (simp add: ocr_ok_def table_ok_def total_bytes_def)
  have "utf8_len ''ghijkl'' = 6" by code_simp
  then show ?thesis
    using ocr_put_within_cap [OF ok _ _ _ refl, of "''ghijkl''" 2 "''k2''" None 9] ok e by (simp add: ocr_enabled_def)
qed

section \<open>Purging\<close>

lemma purge_rows_entries:
  "map_of (ocr_entries (snd (purge_rows path ks c))) k =
     (if k \<in> set ks \<and> \<not> (\<exists>p. (k, p) \<in> set (ocr_documents c) \<and> p \<noteq> path) then None else map_of (ocr_entries c) k)
   \<and> ocr_documents (snd (purge_rows path ks c)) = ocr_documents c"
proof (induction ks arbitrary: c)
  case (Cons key ks)
  have "list_ex (\<lambda>(k, p). k = key \<and> p \<noteq> path) (ocr_documents c) \<longleftrightarrow> (\<exists>p. (key, p) \<in> set (ocr_documents c) \<and> p \<noteq> path)"
    by (auto simp: list_ex_iff)
  with Cons show ?case by (auto simp: split_def Let_def at.lookup_del)
qed simp

text \<open>
  A purge removes every entry only this document put and every row that names it; entries another
  document also put stay, and so does everything when the cache is disabled.
\<close>

theorem purge_document_removes:
  assumes "path \<noteq> []" and "ocr_file c" and "ocr_enabled c" and "purge_document True path c = (n, c')"
  shows "(\<forall>k. map_of (ocr_entries c') k = (if (k, path) \<in> set (ocr_documents c) \<and> \<not> (\<exists>p. (k, p) \<in> set (ocr_documents c) \<and> p \<noteq> path)
      then None else map_of (ocr_entries c) k))
    \<and> set (ocr_documents c') = {(k, p) \<in> set (ocr_documents c). p \<noteq> path}"
proof -
  let ?keys = "map fst (filter (\<lambda>(k, p). p = path) (ocr_documents c))"
  have keys: "k \<in> set ?keys \<longleftrightarrow> (k, path) \<in> set (ocr_documents c)" for k by force
  have c': "ocr_entries c' = ocr_entries (snd (purge_rows path ?keys c))"
    "ocr_documents c' = filter (\<lambda>(k, p). p \<noteq> path) (ocr_documents (snd (purge_rows path ?keys c)))"
    using assms by (auto simp: purge_document_def Let_def split_def)
  have docs: "ocr_documents (snd (purge_rows path ?keys c)) = ocr_documents c" using purge_rows_entries by blast
  have "set (ocr_documents c') = {(k, p) \<in> set (ocr_documents c). p \<noteq> path}" unfolding c' docs by auto
  then show ?thesis unfolding c'(1) using purge_rows_entries [of path ?keys c] keys by presburger
qed

text \<open>
  After the cap is set to 0 the file of an earlier configuration is still there, and a purge leaves
  the text of a removed document in it.
\<close>

theorem disabled_purge_keeps_text:
  "snd (purge_document True ''a.pdf'' (example_ocr\<lparr>ocr_max_bytes := 0\<rparr>)) = example_ocr\<lparr>ocr_max_bytes := 0\<rparr>
   \<and> map_option oe_value (map_of (ocr_entries (example_ocr\<lparr>ocr_max_bytes := 0\<rparr>)) ''k1'') = Some ''abcdef''"
proof -
  have "map_option oe_value (map_of (ocr_entries example_ocr) ''k1'') = Some ''abcdef''" by code_simp
  then show ?thesis by (simp add: purge_document_def ocr_enabled_def)
qed

end
