(* ===== verification/Rc_Pointers.thy ===== *)
theory Rc_Pointers
  imports Python_Values
begin

text \<open>
  From folders on the Connector's host to pointer prefixes (\<open>identity/rc_pointers.py\<close>), with Python's
  \<open>posixpath.normpath\<close>.
\<close>

section \<open>Python's path functions\<close>

fun norm_comps :: "bool \<Rightarrow> string list \<Rightarrow> string list \<Rightarrow> string list" where
  "norm_comps rooted [] acc = acc"
| "norm_comps rooted (seg # segs) acc =
     (if seg = [] \<or> seg = ''.'' then norm_comps rooted segs acc
      else if seg \<noteq> ''..'' \<or> (\<not> rooted \<and> acc = []) \<or> (acc \<noteq> [] \<and> last acc = ''..'') then norm_comps rooted segs (acc @ [seg])
      else if acc \<noteq> [] then norm_comps rooted segs (butlast acc)
      else norm_comps rooted segs acc)"

definition normpath :: "string \<Rightarrow> string" where
  "normpath path =
     (if path = [] then ''.''
      else let slashes = (if py_startswith path ''//'' \<and> \<not> py_startswith path ''///'' then 2
                          else if py_startswith path ''/'' then 1 else 0 :: nat);
               p = replicate slashes (CHR ''/'') @ py_join (CHR ''/'') (norm_comps (slashes > 0) (split_char (CHR ''/'') path) [])
           in if p = [] then ''.'' else p)"

section \<open>Pointer prefixes\<close>

datatype pointer_error = Pointer_Value_Error | FolderOutsideSources

definition MAX_PREFIX_CHARS :: nat where
  "MAX_PREFIX_CHARS = 2000"

definition norm_folder :: "string \<Rightarrow> string" where
  "norm_folder path =
     (let txt = unbackslash path
      in if py_strip txt = [] then []
         else let normed = normpath txt
         in if normed = ''.'' then []
            else let r = py_rstrip (\<lambda>c. c = CHR ''/'') normed in if r = [] then ''/'' else r)"

definition is_letter :: "char \<Rightarrow> bool" where
  "is_letter c \<longleftrightarrow> (let n = (of_char c :: nat) in 65 \<le> n \<and> n \<le> 90 \<or> 97 \<le> n \<and> n \<le> 122)"

definition is_windows :: "string \<Rightarrow> bool" where
  "is_windows path \<longleftrightarrow> (3 \<le> length path \<and> is_letter (path ! 0) \<and> path ! 1 = CHR '':'' \<and> path ! 2 = CHR ''/'') \<or> py_startswith path ''//''"

definition strip_slashes :: "string \<Rightarrow> string" where
  "strip_slashes s = py_rstrip (\<lambda>c. c = CHR ''/'') (py_lstrip (\<lambda>c. c = CHR ''/'') s)"

definition ends_with_slash :: "nat list \<Rightarrow> bool" where
  "ends_with_slash s \<longleftrightarrow> s \<noteq> [] \<and> last s = 47"

definition relative_folder :: "string \<Rightarrow> string \<Rightarrow> string option" where
  "relative_folder source_path folder_path =
     (let source = norm_folder source_path; folder = norm_folder folder_path
      in if source = [] \<or> folder = [] then None
         else let win = (is_windows source \<or> is_windows folder);
                  s_cmp = (if win then casefold source else code_points source);
                  f_cmp = (if win then casefold folder else code_points folder)
         in if f_cmp = s_cmp then Some []
            else let head = (if ends_with_slash s_cmp then s_cmp else s_cmp @ [47])
            in if \<not> py_startswith f_cmp head then None
               else let rel = strip_slashes (drop (length head) folder)
               in if rel = [] \<or> list_ex (\<lambda>p. p = [] \<or> p = ''.'' \<or> p = ''..'') (split_char (CHR ''/'') rel) then None
                  else Some rel)"

definition rc_pointer_prefix :: "string \<Rightarrow> string \<Rightarrow> string \<Rightarrow> pointer_error + string" where
  "rc_pointer_prefix identifier_prefix source_path folder_path =
     (let prefix = py_strip identifier_prefix
      in if prefix = [] then Inl Pointer_Value_Error
         else case relative_folder source_path folder_path of
           None \<Rightarrow> Inl FolderOutsideSources
         | Some rel \<Rightarrow>
             (let out = (if rel \<noteq> [] then prefix @ ''/'' @ rel @ ''/'' else prefix @ ''/'')
              in if length out > MAX_PREFIX_CHARS then Inl Pointer_Value_Error else Inr out))"

text \<open>\<open>max(matches, key=len)\<close>: the first of the longest.\<close>

fun longest :: "string list \<Rightarrow> string \<Rightarrow> string" where
  "longest [] best = best"
| "longest (x # xs) best = longest xs (if length x > length best then x else best)"

definition prefix_for_folder :: "string \<Rightarrow> string list \<Rightarrow> string \<Rightarrow> pointer_error + (string \<times> nat)" where
  "prefix_for_folder identifier_prefix source_paths folder_path =
     (case map norm_folder (filter (\<lambda>s. relative_folder s folder_path \<noteq> None) source_paths) of
        [] \<Rightarrow> Inl FolderOutsideSources
      | m # ms \<Rightarrow>
          (case rc_pointer_prefix identifier_prefix (longest ms m) folder_path of
             Inl e \<Rightarrow> Inl e | Inr p \<Rightarrow> Inr (p, Suc (length ms))))"

definition normalize_pointer_prefix :: "string \<Rightarrow> pointer_error + string" where
  "normalize_pointer_prefix raw =
     (if CHR 0x00 \<in> set raw then Inl Pointer_Value_Error
      else let prefix = unbackslash (py_strip raw)
      in if strip_slashes prefix = [] then Inl Pointer_Value_Error
         else let prefix' = (if last prefix = CHR ''/'' then prefix else prefix @ ''/'')
         in if list_ex (\<lambda>p. p = ''.'' \<or> p = ''..'') (split_char (CHR ''/'') prefix') then Inl Pointer_Value_Error
            else if length prefix' > MAX_PREFIX_CHARS then Inl Pointer_Value_Error
            else Inr prefix')"

definition prefix_depth :: "string \<Rightarrow> nat" where
  "prefix_depth prefix = length (filter (\<lambda>p. p \<noteq> []) (split_char (CHR ''/'') prefix))"

section \<open>Lemmas\<close>

lemma code_points_inject [simp]: "code_points a = code_points b \<longleftrightarrow> a = b"
  by (simp add: code_points_def inj_map_eq_map inj_def)

lemma startswith_append: "py_startswith s p \<longleftrightarrow> (\<exists>r. s = p @ r)"
  by (metis append_eq_conv_conj append_take_drop_id py_startswith_def)

lemma startswith_same: "py_startswith (a @ s) (a @ p) = py_startswith s p"
  by (auto simp: startswith_append)

lemma strip_slashes_id:
  assumes "s \<noteq> []" and "hd s \<noteq> CHR ''/''" and "last s \<noteq> CHR ''/''"
  shows "strip_slashes s = s"
proof -
  have "py_lstrip (\<lambda>c. c = CHR ''/'') s = s" using assms by (cases s) (simp_all add: py_lstrip_def)
  moreover have "py_rstrip (\<lambda>c. c = CHR ''/'') s = s" using assms by (cases s rule: rev_cases) (simp_all add: py_rstrip_def)
  ultimately show ?thesis by (simp add: strip_slashes_def)
qed

lemma rstrip_slash_id: "s \<noteq> [] \<Longrightarrow> last s \<noteq> CHR ''/'' \<Longrightarrow> py_rstrip (\<lambda>c. c = CHR ''/'') s = s"
  by (cases s rule: rev_cases) (simp_all add: py_rstrip_def)

section \<open>Normalised paths\<close>

definition no_double :: "string \<Rightarrow> bool" where
  "no_double s \<longleftrightarrow> successively (\<lambda>c d. \<not> (c = CHR ''/'' \<and> d = CHR ''/'')) s"

definition plain_seg :: "string \<Rightarrow> bool" where
  "plain_seg s \<longleftrightarrow> s \<noteq> [] \<and> CHR ''/'' \<notin> set s"

lemma split_char_segs: "seg \<in> set (split_char d s) \<Longrightarrow> d \<notin> set seg"
proof (induction s arbitrary: seg)
  case (Cons c cs)
  obtain p ps where "split_char d cs = p # ps" by (cases "split_char d cs") auto
  with Cons show ?case by (auto split: if_splits)
qed simp

lemma norm_comps_plain:
  "\<forall>s \<in> set segs. CHR ''/'' \<notin> set s \<Longrightarrow> \<forall>s \<in> set acc. plain_seg s \<Longrightarrow> \<forall>s \<in> set (norm_comps rooted segs acc). plain_seg s"
proof (induction segs arbitrary: acc)
  case (Cons seg segs)
  have step: "\<forall>s \<in> set acc'. plain_seg s \<Longrightarrow> \<forall>s \<in> set (norm_comps rooted segs acc'). plain_seg s" for acc'
    by (rule Cons.IH) (use Cons.prems(1) in simp_all)
  have less: "\<forall>s \<in> set (butlast acc). plain_seg s" using Cons.prems(2) by (blast dest: in_set_butlastD)
  show ?case
  proof (cases "seg = []")
    case True
    then show ?thesis using step [OF Cons.prems(2)] by simp
  next
    case False
    then have "plain_seg seg" using Cons.prems(1) by (simp add: plain_seg_def)
    then have "\<forall>s \<in> set (acc @ [seg]). plain_seg s" using Cons.prems(2) by simp
    from step [OF this] step [OF less] step [OF Cons.prems(2)] show ?thesis
      by (simp only: norm_comps.simps split: if_split) blast
  qed
qed simp

lemma plain_seg_no_double: "plain_seg s \<Longrightarrow> no_double s"
  unfolding no_double_def plain_seg_def by (induction s) (auto simp: successively_Cons)

lemma join_no_double:
  "\<forall>s \<in> set segs. plain_seg s \<Longrightarrow> no_double (py_join (CHR ''/'') segs) \<and> (segs \<noteq> [] \<longrightarrow> py_join (CHR ''/'') segs \<noteq> []
     \<and> hd (py_join (CHR ''/'') segs) \<noteq> CHR ''/'' \<and> last (py_join (CHR ''/'') segs) \<noteq> CHR ''/'')"
proof (induction "CHR ''/''" segs rule: py_join.induct)
  case 1
  then show ?case by (simp add: no_double_def)
next
  case (2 x)
  then show ?case using plain_seg_no_double [of x] by (auto simp: plain_seg_def dest: hd_in_set last_in_set)
next
  case (3 x y ys)
  have x: "x \<noteq> []" "CHR ''/'' \<notin> set x" "no_double x" using 3 plain_seg_no_double [of x] by (auto simp: plain_seg_def)
  have ih: "no_double (py_join (CHR ''/'') (y # ys))" "py_join (CHR ''/'') (y # ys) \<noteq> []"
    "hd (py_join (CHR ''/'') (y # ys)) \<noteq> CHR ''/''" "last (py_join (CHR ''/'') (y # ys)) \<noteq> CHR ''/''"
    using 3 by auto
  have "last x \<noteq> CHR ''/''" "hd x \<noteq> CHR ''/''" using x(1,2) last_in_set hd_in_set by metis+
  with x ih show ?case by (simp add: no_double_def successively_append_iff successively_Cons)
qed

lemma normpath_cases:
  "normpath path = ''.'' \<or> (\<exists>r. let js = py_join (CHR ''/'') (norm_comps r (split_char (CHR ''/'') path) [])
     in normpath path = js \<or> normpath path = CHR ''/'' # js \<or> normpath path = CHR ''/'' # CHR ''/'' # js)"
proof -
  define n :: nat where "n = (if py_startswith path ''//'' \<and> \<not> py_startswith path ''///'' then 2 else if py_startswith path ''/'' then 1 else 0)"
  define js where "js = py_join (CHR ''/'') (norm_comps (n > 0) (split_char (CHR ''/'') path) [])"
  have "n = 0 \<or> n = 1 \<or> n = 2" by (simp add: n_def)
  moreover have "normpath path = ''.'' \<or> normpath path = replicate n (CHR ''/'') @ js"
    unfolding normpath_def n_def js_def Let_def by (simp only: if_splits) simp
  ultimately show ?thesis unfolding js_def Let_def by (auto simp: numeral_2_eq_2)
qed

lemma norm_folder_shape:
  assumes "norm_folder path = s" and "s \<noteq> []" and "\<not> is_windows s"
  shows "no_double s" and "s = ''/'' \<or> last s \<noteq> CHR ''/''"
proof -
  define p where "p = normpath (unbackslash path)"
  have s: "s = (let r = py_rstrip (\<lambda>c. c = CHR ''/'') p in if r = [] then ''/'' else r)"
    using assms(1,2) by (auto simp: norm_folder_def Let_def p_def split: if_splits)
  define segs where "segs r = norm_comps r (split_char (CHR ''/'') (unbackslash path)) []" for r
  have plain: "\<forall>x \<in> set (segs r). plain_seg x" for r
    unfolding segs_def by (rule norm_comps_plain) (auto dest: split_char_segs)
  note join = join_no_double [OF plain]
  consider "p = ''.''" | r where "p = py_join (CHR ''/'') (segs r)" | r where "p = CHR ''/'' # py_join (CHR ''/'') (segs r)"
    | r where "p = CHR ''/'' # CHR ''/'' # py_join (CHR ''/'') (segs r)"
    using normpath_cases [of "unbackslash path"] unfolding p_def segs_def Let_def by blast
  then have "s = ''/'' \<or> (s = p \<and> no_double p \<and> last p \<noteq> CHR ''/'')"
  proof cases
    case 1
    then show ?thesis by (simp add: s py_rstrip_def no_double_def)
  next
    case 2
    then show ?thesis using join [of r] by (cases "segs r = []") (simp_all add: s rstrip_slash_id, simp add: py_rstrip_def)
  next
    case 3
    show ?thesis
    proof (cases "segs r = []")
      case True
      then show ?thesis using 3 by (simp add: s py_rstrip_def)
    next
      case False
      then show ?thesis using 3 join [of r] by (simp add: s rstrip_slash_id no_double_def successively_Cons)
    qed
  next
    case 4
    show ?thesis
    proof (cases "segs r = []")
      case True
      then show ?thesis using 4 by (simp add: s py_rstrip_def)
    next
      case False
      then have "s = p" using 4 join [of r] by (simp add: s rstrip_slash_id)
      then show ?thesis using 4 assms(3) by (simp add: is_windows_def py_startswith_def)
    qed
  qed
  then show "no_double s" "s = ''/'' \<or> last s \<noteq> CHR ''/''" by (auto simp: no_double_def)
qed


section \<open>What a computed prefix matches\<close>

text \<open>The folder a relative part names below a source folder; \<open>[]\<close> is the source folder itself.\<close>

definition slashed :: "string \<Rightarrow> string" where
  "slashed s = (if last s = CHR ''/'' then s else s @ ''/'')"

definition folder_under :: "string \<Rightarrow> string \<Rightarrow> string" where
  "folder_under source rel = (if rel = [] then source else slashed source @ rel)"

lemma code_points_append [simp]: "code_points (a @ b) = code_points a @ code_points b"
  by (simp add: code_points_def)

lemma code_points_length [simp]: "length (code_points s) = length s"
  by (simp add: code_points_def)

lemma code_points_startswith [simp]: "py_startswith (code_points s) (code_points p) = py_startswith s p"
  by (simp add: py_startswith_def take_map code_points_def inj_map_eq_map inj_def)

lemma code_points_slash: "s \<noteq> [] \<Longrightarrow> (if ends_with_slash (code_points s) then code_points s else code_points s @ [47]) = code_points (slashed s)"
proof -
  assume "s \<noteq> []"
  then have "ends_with_slash (code_points s) \<longleftrightarrow> (of_char (last s) :: nat) = of_char (CHR ''/'')"
    by (simp add: ends_with_slash_def code_points_def last_map)
  then have "ends_with_slash (code_points s) \<longleftrightarrow> last s = CHR ''/''" by (simp only: of_char_eq_iff)
  then show ?thesis by (simp add: slashed_def code_points_def)
qed

lemma rest_not_slashed:
  assumes "no_double (slashed s @ rest)" and "s \<noteq> []" and "rest \<noteq> []"
  shows "hd rest \<noteq> CHR ''/''"
proof -
  have "last (slashed s) = CHR ''/''" "slashed s \<noteq> []" using assms(2) by (simp_all add: slashed_def)
  then show ?thesis using assms(1,3) by (auto simp: no_double_def successively_append_iff)
qed

lemma relative_folder_under:
  assumes rel: "relative_folder source folder = Some rel"
    and plain: "\<not> is_windows (norm_folder source)" "\<not> is_windows (norm_folder folder)"
  shows "norm_folder folder = folder_under (norm_folder source) rel"
proof -
  define s where "s = norm_folder source"
  define f where "f = norm_folder folder"
  have ne: "s \<noteq> []" "f \<noteq> []" using rel by (auto simp: relative_folder_def Let_def s_def f_def split: if_splits)
  have win: "\<not> (is_windows s \<or> is_windows f)" using plain by (simp add: s_def f_def)
  note unfolded = rel [unfolded relative_folder_def Let_def, folded s_def f_def, unfolded if_not_P [OF win] code_points_slash [OF ne(1)]]
  show ?thesis
  proof (cases "f = s")
    case True
    then show ?thesis using unfolded ne by (simp add: folder_under_def flip: s_def f_def)
  next
    case False
    then have start: "py_startswith f (slashed s)" and rel': "rel = strip_slashes (drop (length (slashed s)) f)" and "rel \<noteq> []"
      using unfolded ne by (simp_all split: if_splits)
    then obtain rest where f: "f = slashed s @ rest" and rel'': "rel = strip_slashes rest" by (auto simp: startswith_append)
    then have rest: "rest \<noteq> []" using \<open>rel \<noteq> []\<close> by (auto simp: strip_slashes_def py_lstrip_def py_rstrip_def)
    have shape: "no_double f" "f = ''/'' \<or> last f \<noteq> CHR ''/''"
      using norm_folder_shape [OF f_def [symmetric] ne(2)] plain(2) by (simp_all add: f_def)
    have "f \<noteq> ''/''" using f rest ne(1) by (cases s) (auto simp: slashed_def split: if_splits)
    then have "last rest \<noteq> CHR ''/''" using shape(2) f rest by simp
    then have "rel = rest" using rest_not_slashed [of s rest] shape(1) f ne(1) rest rel'' strip_slashes_id by simp
    then show ?thesis using f rest by (simp add: folder_under_def flip: s_def f_def)
  qed
qed

text \<open>
  The prefix computed for a folder matches exactly the documents of that folder. On a Linux host the folder is
  the source folder or lies at the relative path below it, the prefix ends in a slash, fits the server's limit and
  starts the pointer of a document (the identifier prefix, a slash and the document's path below the source) exactly
  when the document's path lies below the relative folder: a sibling whose name merely continues the folder's name
  is not matched.
\<close>

theorem prefix_matches_folder:
  assumes "rc_pointer_prefix ident source folder = Inr p"
    and "\<not> is_windows (norm_folder source)" and "\<not> is_windows (norm_folder folder)"
  shows "\<exists>rel. norm_folder folder = folder_under (norm_folder source) rel
    \<and> (\<forall>d. py_startswith (py_strip ident @ ''/'' @ d) p \<longleftrightarrow> rel = [] \<or> py_startswith d (rel @ ''/''))
    \<and> last p = CHR ''/'' \<and> length p \<le> MAX_PREFIX_CHARS"
proof -
  obtain rel where rel: "relative_folder source folder = Some rel"
    and p: "p = py_strip ident @ ''/'' @ (if rel = [] then [] else rel @ ''/'')" "length p \<le> MAX_PREFIX_CHARS"
    using assms(1) by (auto simp: rc_pointer_prefix_def Let_def split: if_splits option.splits)
  have "py_startswith (py_strip ident @ ''/'' @ d) p \<longleftrightarrow> rel = [] \<or> py_startswith d (rel @ ''/'')" for d
    unfolding p(1) startswith_same by (simp add: py_startswith_def)
  moreover have "last p = CHR ''/''" by (simp add: p(1))
  ultimately show ?thesis using relative_folder_under [OF rel assms(2,3)] p(2) by blast
qed

theorem prefix_matches_folder_witness:
  "rc_pointer_prefix '' kanzlei '' ''/srv/akten/'' ''/srv/akten/x/../Mandate/2024'' = Inr ''kanzlei/Mandate/2024/''
   \<and> (\<exists>rel. norm_folder ''/srv/akten/x/../Mandate/2024'' = folder_under (norm_folder ''/srv/akten/'') rel
      \<and> \<not> py_startswith (py_strip '' kanzlei '' @ ''/'' @ ''Mandate/2024-alt/a.pdf'') ''kanzlei/Mandate/2024/'')"
proof -
  have p: "rc_pointer_prefix '' kanzlei '' ''/srv/akten/'' ''/srv/akten/x/../Mandate/2024'' = Inr ''kanzlei/Mandate/2024/''"
    by code_simp
  have "\<not> is_windows (norm_folder ''/srv/akten/'')" "\<not> is_windows (norm_folder ''/srv/akten/x/../Mandate/2024'')" by code_simp+
  from prefix_matches_folder [OF p this] have
    "\<exists>rel. norm_folder ''/srv/akten/x/../Mandate/2024'' = folder_under (norm_folder ''/srv/akten/'') rel" by blast
  moreover have "\<not> py_startswith (py_strip '' kanzlei '' @ ''/'' @ ''Mandate/2024-alt/a.pdf'') ''kanzlei/Mandate/2024/''" by code_simp
  ultimately show ?thesis using p by blast
qed

text \<open>
  On Windows the comparison folds the case of both paths but the relative part is cut out of the unfolded folder at the
  length of the folded source: a source folder with a sharp s, which folds to two letters, loses the first character
  of the relative part, and the rule gets the prefix of another folder.
\<close>

theorem casefold_cuts_prefix:
  "rc_pointer_prefix ''kanzlei'' (''C:/Stra'' @ [CHR 0xDF] @ ''e'') (''C:/Stra'' @ [CHR 0xDF] @ ''e/2024'') = Inr ''kanzlei/024/''"
  by code_simp

end
