(* ===== verification/Job_Queue.thy ===== *)
theory Job_Queue
  imports Python_Values
begin

text \<open>
  The job queue of the experiments module (\<open>experiments/jobs.py\<close>, class \<open>JobQueue\<close> and the rate slots). The tables
  \<open>exp_jobs\<close> and \<open>exp_rate_slots\<close> are association lists; each SQL statement is one atomic update with its own
  reading of \<open>clock_timestamp()\<close>, a rational argument. \<open>_reschedule\<close> is a transaction of several statements that
  holds a lock on its own row only: what other sessions commit in front of its \<open>n\<close>-th statement is the
  argument \<open>env n\<close>. Numbers that may be no finite number are options.

  The lemmas show the invariant of the table and that every operation keeps it, what the fenced operations do, that
  the claims of a job are bounded, that an outcome is only ever recorded by the latest claimant, and that the rate
  slot spaces its takers.
\<close>

section \<open>Constants\<close>

definition JOB_KINDS :: "string list" where
  "JOB_KINDS = [''index'', ''unindex'', ''evaluate'', ''pipeline'']"

definition RATE_SLOT_KNOVAS_INIT :: string where
  "RATE_SLOT_KNOVAS_INIT = ''knovas_init''"

definition BASE_BACKOFF_SECONDS :: int where
  "BASE_BACKOFF_SECONDS = 30"

definition MAX_BACKOFF_SECONDS :: int where
  "MAX_BACKOFF_SECONDS = 3600"

definition DEFER_CAP_SECONDS :: rat where
  "DEFER_CAP_SECONDS = 24 * 3600"

definition MAX_DELAY_SECONDS :: rat where
  "MAX_DELAY_SECONDS = 7 * 24 * 3600"

definition MAX_ERROR_CHARS :: nat where
  "MAX_ERROR_CHARS = 500"

definition MSG_UNEXPECTED :: string where
  "MSG_UNEXPECTED = ''Unerwarteter Fehler bei der Bearbeitung (Details im Protokoll).''"

definition MSG_DEFERRED_TOO_LONG :: string where
  "MSG_DEFERRED_TOO_LONG = ''Zu lange zur'' @ [CHR 0xFC] @ ''ckgestellt.''"

definition MSG_SUPERSEDED :: string where
  "MSG_SUPERSEDED = ''Durch einen neueren Auftrag ersetzt.''"

definition MSG_LEASE_EXPIRED :: string where
  "MSG_LEASE_EXPIRED = ''Die Bearbeitung wurde wiederholt nicht abgeschlossen.''"

definition MSG_PERMANENT :: string where
  "MSG_PERMANENT = ''Der Auftrag ist endg'' @ [CHR 0xFC] @ ''ltig fehlgeschlagen.''"

definition MSG_UNKNOWN_ERROR :: string where
  "MSG_UNKNOWN_ERROR = ''Ohne Angabe.''"

section \<open>Jobs and tables\<close>

datatype job_status = Job_Pending | Job_Running | Job_Done | Job_Dead | Job_Superseded

text \<open>A row of \<open>exp_jobs\<close>; its status is never \<open>Job_Superseded\<close>, which only a \<open>Job\<close> object has.\<close>

record job_row =
  jr_kind :: string
  jr_dedupe_key :: "string option"
  jr_payload :: jval
  jr_priority :: int
  jr_status :: job_status
  jr_attempts :: int
  jr_max_attempts :: int
  jr_run_after :: rat
  jr_locked_by :: "string option"
  jr_locked_until :: "rat option"
  jr_last_error :: "string option"
  jr_created_at :: rat
  jr_updated_at :: rat
  jr_finished_at :: "rat option"

record job_db =
  job_rows :: "(int, job_row) table"
  job_next_id :: int
  rate_slots :: "(string, rat) table"

record job =
  job_id :: int
  job_kind :: string
  job_payload :: jval
  job_attempts :: int
  job_max_attempts :: int
  job_locked_by :: string
  job_created_at :: rat
  job_dedupe_key :: "string option"
  job_state :: job_status
  job_last_error :: "string option"

definition is_dict :: "jval \<Rightarrow> bool" where
  "is_dict v = (case v of JObj _ \<Rightarrow> True | _ \<Rightarrow> False)"

definition job_from_row :: "int \<Rightarrow> job_row \<Rightarrow> job_status \<Rightarrow> string option \<Rightarrow> job" where
  "job_from_row i r status last_error = \<lparr>job_id = i, job_kind = jr_kind r,
     job_payload = (if is_dict (jr_payload r) then jr_payload r else JObj []),
     job_attempts = jr_attempts r, job_max_attempts = jr_max_attempts r,
     job_locked_by = (case jr_locked_by r of Some w \<Rightarrow> w | None \<Rightarrow> []), job_created_at = jr_created_at r,
     job_dedupe_key = jr_dedupe_key r, job_state = status, job_last_error = last_error\<rparr>"

text \<open>\<open>" ".join(s.split())\<close>: runs of white space become one blank, none at the ends.\<close>

fun squeeze :: "bool \<Rightarrow> string \<Rightarrow> string" where
  "squeeze gap [] = []"
| "squeeze gap (c # cs) =
     (if py_space c then squeeze True cs else (if gap then [CHR '' '', c] else [c]) @ squeeze False cs)"

definition join_split :: "string \<Rightarrow> string" where
  "join_split s = squeeze False (py_lstrip py_space s)"

definition job_clip :: "string option \<Rightarrow> string option" where
  "job_clip message =
     (case message of None \<Rightarrow> None
      | Some m \<Rightarrow> (let t = join_split m in if t = [] then None else Some (take MAX_ERROR_CHARS t)))"

definition finite_seconds :: "rat option \<Rightarrow> rat \<Rightarrow> rat \<Rightarrow> rat \<Rightarrow> rat" where
  "finite_seconds v dflt lo hi = (case v of None \<Rightarrow> dflt | Some x \<Rightarrow> max lo (min hi x))"

definition backoff_seconds :: "int \<Rightarrow> int" where
  "backoff_seconds att =
     (let exponent = max 0 (att - 1)
      in if exponent \<ge> 12 then MAX_BACKOFF_SECONDS
         else min MAX_BACKOFF_SECONDS (BASE_BACKOFF_SECONDS * 2 ^ nat exponent))"

section \<open>Producing\<close>

text \<open>The partial unique index: pending rows other than \<open>i\<close> with this key.\<close>

definition pending_with :: "string option \<Rightarrow> int \<Rightarrow> job_db \<Rightarrow> (int \<times> job_row) option" where
  "pending_with key i db =
     (case key of None \<Rightarrow> None
      | Some k \<Rightarrow> find (\<lambda>(j, r). j \<noteq> i \<and> jr_dedupe_key r = Some k \<and> jr_status r = Job_Pending) (job_rows db))"

definition update_job :: "int \<Rightarrow> (job_row \<Rightarrow> job_row) \<Rightarrow> job_db \<Rightarrow> job_db" where
  "update_job i f db = db\<lparr>job_rows := tmap (\<lambda>k r. if k = i then f r else r) (job_rows db)\<rparr>"

definition enqueue ::
    "rat \<Rightarrow> string \<Rightarrow> jval \<Rightarrow> string option \<Rightarrow> rat option \<Rightarrow> int \<Rightarrow> int \<Rightarrow> job_db \<Rightarrow> int py \<times> job_db" where
  "enqueue now kind payload dedupe_key delay_seconds priority max_attempts db =
     (if kind \<notin> set JOB_KINDS then (Inl ValueError, db)
      else if \<not> is_dict payload then (Inl ValueError, db)
      else let delay = finite_seconds delay_seconds 0 0 MAX_DELAY_SECONDS;
               prio = max (- 32768) (min 32767 priority);
               att = max 1 (min 1000 max_attempts);
               i = job_next_id db;
               db' = db\<lparr>job_next_id := i + 1\<rparr>
      in case pending_with dedupe_key i db of
           Some (j, _) \<Rightarrow>
             (Inr j, update_job j (\<lambda>r. r\<lparr>jr_run_after := min (jr_run_after r) (now + delay),
                jr_priority := min (jr_priority r) prio, jr_updated_at := now\<rparr>) db')
         | None \<Rightarrow>
             (Inr i, db'\<lparr>job_rows := job_rows db @ [(i, \<lparr>jr_kind = kind, jr_dedupe_key = dedupe_key, jr_payload = payload,
                jr_priority = prio, jr_status = Job_Pending, jr_attempts = 0, jr_max_attempts = att,
                jr_run_after = now + delay, jr_locked_by = None, jr_locked_until = None, jr_last_error = None,
                jr_created_at = now, jr_updated_at = now, jr_finished_at = None\<rparr>)]\<rparr>))"

section \<open>Consuming\<close>

text \<open>The \<open>WHERE\<close> clause of the claim; comparisons with a missing time are not true.\<close>

definition due :: "rat \<Rightarrow> job_row \<Rightarrow> bool" where
  "due now r \<longleftrightarrow> jr_status r = Job_Pending \<and> jr_run_after r \<le> now
     \<or> jr_status r = Job_Running \<and> (case jr_locked_until r of None \<Rightarrow> False | Some u \<Rightarrow> u < now) \<and> jr_attempts r < jr_max_attempts r"

definition slot_free :: "rat \<Rightarrow> job_db \<Rightarrow> bool" where
  "slot_free now db \<longleftrightarrow> (case map_of (rate_slots db) RATE_SLOT_KNOVAS_INIT of None \<Rightarrow> False | Some next_at \<Rightarrow> next_at \<le> now)"

definition claimable :: "rat \<Rightarrow> string list \<Rightarrow> job_db \<Rightarrow> job_row \<Rightarrow> bool" where
  "claimable now wanted db r \<longleftrightarrow> jr_kind r \<in> set wanted \<and> due now r \<and> (jr_kind r \<noteq> ''index'' \<or> slot_free now db)"

definition wanted_kinds :: "string list \<Rightarrow> string list" where
  "wanted_kinds kinds = filter (\<lambda>k. k \<in> set JOB_KINDS) (rev (remdups (rev kinds)))"

definition urgency :: "int \<times> job_row \<Rightarrow> int \<times> rat \<times> int" where
  "urgency x = (case x of (i, r) \<Rightarrow> (jr_priority r, jr_run_after r, i))"

text \<open>The rows other sessions hold locks on, \<open>held\<close>, are skipped.\<close>

definition claim_candidates :: "rat \<Rightarrow> int list \<Rightarrow> string list \<Rightarrow> job_db \<Rightarrow> (int \<times> job_row) list" where
  "claim_candidates now held wanted db =
     sort_key urgency (filter (\<lambda>(i, r). claimable now wanted db r \<and> i \<notin> set held) (job_rows db))"

definition claim ::
    "rat \<Rightarrow> int list \<Rightarrow> string \<Rightarrow> string list \<Rightarrow> rat option \<Rightarrow> job_db \<Rightarrow> job option \<times> job_db" where
  "claim now held worker_id kinds lease_seconds db =
     (let wanted = wanted_kinds kinds
      in if wanted = [] then (None, db)
         else let lease = of_int \<lfloor>finite_seconds lease_seconds 600 1 86400\<rfloor>
         in case claim_candidates now held wanted db of
              [] \<Rightarrow> (None, db)
            | (i, r) # _ \<Rightarrow>
                (let f = (\<lambda>r. r\<lparr>jr_status := Job_Running, jr_attempts := jr_attempts r + 1, jr_locked_by := Some worker_id,
                            jr_locked_until := Some (now + lease), jr_updated_at := now\<rparr>)
                 in (Some (job_from_row i (f r) Job_Running None), update_job i f db)))"

text \<open>\<open>_fence\<close>: the row is still running under the claim's worker and attempt.\<close>

definition fence :: "job \<Rightarrow> job_row \<Rightarrow> bool" where
  "fence j r \<longleftrightarrow> jr_status r = Job_Running \<and> jr_locked_by r = Some (job_locked_by j) \<and> jr_attempts r = job_attempts j"

definition fenced_row :: "job \<Rightarrow> job_db \<Rightarrow> job_row option" where
  "fenced_row j db = (case map_of (job_rows db) (job_id j) of None \<Rightarrow> None | Some r \<Rightarrow> if fence j r then Some r else None)"

definition finish_row :: "rat \<Rightarrow> job_status \<Rightarrow> string option \<Rightarrow> job_row \<Rightarrow> job_row" where
  "finish_row now status message r = r\<lparr>jr_status := status, jr_finished_at := Some now,
     jr_last_error := (case message of Some m \<Rightarrow> Some m | None \<Rightarrow> jr_last_error r), jr_locked_until := None, jr_updated_at := now\<rparr>"

definition complete :: "rat \<Rightarrow> job \<Rightarrow> job_db \<Rightarrow> bool \<times> job \<times> job_db" where
  "complete now j db =
     (case fenced_row j db of
        None \<Rightarrow> (False, j, db)
      | Some _ \<Rightarrow> (True, j\<lparr>job_state := Job_Done\<rparr>, update_job (job_id j) (finish_row now Job_Done None) db))"

definition or_else :: "string option \<Rightarrow> string \<Rightarrow> string" where
  "or_else m d = (case m of Some t \<Rightarrow> t | None \<Rightarrow> d)"

definition fail_job :: "rat \<Rightarrow> job \<Rightarrow> string \<Rightarrow> job_db \<Rightarrow> bool \<times> job \<times> job_db" where
  "fail_job now j error db =
     (let message = or_else (job_clip (Some error)) MSG_PERMANENT
      in case fenced_row j db of
           None \<Rightarrow> (False, j, db)
         | Some _ \<Rightarrow> (True, j\<lparr>job_state := Job_Dead, job_last_error := Some message\<rparr>,
             update_job (job_id j) (finish_row now Job_Dead (Some message)) db))"

definition supersede :: "rat \<Rightarrow> job \<Rightarrow> int option \<Rightarrow> int \<Rightarrow> job_db \<Rightarrow> job \<times> job_db" where
  "supersede now j other priority db =
     (let db1 = update_job (job_id j) (finish_row now Job_Done (Some MSG_SUPERSEDED)) db;
          db2 = (case other of None \<Rightarrow> db1
                 | Some o_id \<Rightarrow> update_job o_id (\<lambda>r. r\<lparr>jr_priority := min (jr_priority r) priority, jr_updated_at := now\<rparr>) db1)
      in (j\<lparr>job_state := Job_Superseded, job_last_error := Some MSG_SUPERSEDED\<rparr>, db2))"

definition mark_dead :: "rat \<Rightarrow> job \<Rightarrow> string \<Rightarrow> job_db \<Rightarrow> job \<times> job_db" where
  "mark_dead now j message db =
     (let m = or_else (job_clip (Some message)) MSG_PERMANENT
      in (j\<lparr>job_state := Job_Dead, job_last_error := Some m\<rparr>, update_job (job_id j) (finish_row now Job_Dead (Some m)) db))"

definition pending_row :: "rat \<Rightarrow> rat \<Rightarrow> bool \<Rightarrow> string option \<Rightarrow> job_row \<Rightarrow> job_row" where
  "pending_row now wait consume_attempt error r = r\<lparr>jr_status := Job_Pending, jr_run_after := now + wait,
     jr_attempts := max (jr_attempts r - (if consume_attempt then 0 else 1)) 0, jr_locked_by := None, jr_locked_until := None,
     jr_last_error := (case error of Some m \<Rightarrow> Some m | None \<Rightarrow> jr_last_error r), jr_updated_at := now\<rparr>"

text \<open>The three tries of the update; a pending twin makes it raise \<open>UniqueViolation\<close>.\<close>

fun pending_tries ::
    "nat \<Rightarrow> nat \<Rightarrow> (nat \<Rightarrow> job_db \<Rightarrow> job_db) \<Rightarrow> rat \<Rightarrow> rat \<Rightarrow> bool \<Rightarrow> string option \<Rightarrow> string option \<Rightarrow> int
     \<Rightarrow> job \<Rightarrow> job_db \<Rightarrow> job \<times> job_db" where
  "pending_tries 0 n env now wait consume_attempt error key priority j db = supersede now j None priority (env n db)"
| "pending_tries (Suc tries) n env now wait consume_attempt error key priority j db =
     (let db1 = env n db
      in if pending_with key (job_id j) db1 \<noteq> None then
           (let db2 = env (n + 1) db1
            in case pending_with key (job_id j) db2 of
                 Some (other, _) \<Rightarrow> supersede now j (Some other) priority db2
               | None \<Rightarrow> pending_tries tries (n + 2) env now wait consume_attempt error key priority j db2)
         else
           (j\<lparr>job_state := Job_Pending, job_last_error := (case error of Some m \<Rightarrow> Some m | None \<Rightarrow> job_last_error j),
               job_attempts := (if consume_attempt then job_attempts j else max (job_attempts j - 1) 0)\<rparr>,
            update_job (job_id j) (pending_row now wait consume_attempt error) db1))"

definition reschedule ::
    "(nat \<Rightarrow> job_db \<Rightarrow> job_db) \<Rightarrow> rat \<Rightarrow> rat \<Rightarrow> job \<Rightarrow> string option \<Rightarrow> rat \<Rightarrow> bool \<Rightarrow> bool \<Rightarrow> job_db \<Rightarrow> job_status option \<times> job \<times> job_db" where
  "reschedule env select_now now j error delay consume_attempt cap_age db =
     (case fenced_row j db of
        None \<Rightarrow> (None, j, db)
      | Some row \<Rightarrow>
          (let key = jr_dedupe_key row; priority = jr_priority row; too_old = jr_created_at row < select_now - DEFER_CAP_SECONDS;
               db1 = env 0 db
           in case pending_with key (job_id j) db1 of
                Some (other, _) \<Rightarrow> (case supersede now j (Some other) priority db1 of (j', db') \<Rightarrow> (Some (job_state j'), j', db'))
              | None \<Rightarrow>
                  (case (if consume_attempt \<and> job_attempts j \<ge> job_max_attempts j then mark_dead now j (or_else error MSG_UNEXPECTED) db1
                         else if \<not> consume_attempt \<and> too_old \<and> cap_age then mark_dead now j MSG_DEFERRED_TOO_LONG db1
                         else pending_tries 3 1 env now (if consume_attempt then of_int (backoff_seconds (job_attempts j)) else delay)
                                consume_attempt error key priority j db1)
                   of (j', db') \<Rightarrow> (Some (job_state j'), j', db'))))"

definition retry_job :: "(nat \<Rightarrow> job_db \<Rightarrow> job_db) \<Rightarrow> rat \<Rightarrow> rat \<Rightarrow> job \<Rightarrow> string \<Rightarrow> job_db \<Rightarrow> bool \<times> job \<times> job_db" where
  "retry_job env select_now now j error db =
     (case reschedule env select_now now j (Some (or_else (job_clip (Some error)) MSG_UNEXPECTED)) 0 True True db of
        (res, j', db') \<Rightarrow> (res \<noteq> None, j', db'))"

definition defer_job ::
    "(nat \<Rightarrow> job_db \<Rightarrow> job_db) \<Rightarrow> rat \<Rightarrow> rat \<Rightarrow> job \<Rightarrow> rat option \<Rightarrow> string \<Rightarrow> job_db \<Rightarrow> bool \<times> job \<times> job_db" where
  "defer_job env select_now now j delay_seconds reason db =
     (case reschedule env select_now now j (job_clip (Some reason)) (finite_seconds delay_seconds 60 0 MAX_DELAY_SECONDS) False True db of
        (res, j', db') \<Rightarrow> (res \<noteq> None, j', db'))"

definition release_job :: "(nat \<Rightarrow> job_db \<Rightarrow> job_db) \<Rightarrow> rat \<Rightarrow> rat \<Rightarrow> job \<Rightarrow> job_db \<Rightarrow> bool \<times> job \<times> job_db" where
  "release_job env select_now now j db =
     (case reschedule env select_now now j None 0 False False db of (res, j', db') \<Rightarrow> (res \<noteq> None, j', db'))"

section \<open>Housekeeping\<close>

definition expired_for_good :: "rat \<Rightarrow> job_row \<Rightarrow> bool" where
  "expired_for_good now r \<longleftrightarrow> jr_status r = Job_Running \<and> (case jr_locked_until r of None \<Rightarrow> False | Some u \<Rightarrow> u < now)
     \<and> jr_attempts r \<ge> jr_max_attempts r"

definition sweep_expired :: "rat \<Rightarrow> job_db \<Rightarrow> job list \<times> job_db" where
  "sweep_expired now db =
     (let f = (\<lambda>r. if expired_for_good now r then finish_row now Job_Dead (Some MSG_LEASE_EXPIRED) r else r)
      in (map (\<lambda>(i, r). job_from_row i (f r) Job_Dead (Some MSG_LEASE_EXPIRED)) (filter (\<lambda>(i, r). expired_for_good now r) (job_rows db)),
          db\<lparr>job_rows := tmap (\<lambda>k r. f r) (job_rows db)\<rparr>))"

definition job_counts :: "job_db \<Rightarrow> (job_status \<times> int) list" where
  "job_counts db = map (\<lambda>s. (s, int (length (filter (\<lambda>(i, r). jr_status r = s) (job_rows db)))))
     [Job_Pending, Job_Running, Job_Done, Job_Dead]"

definition failure_time :: "job_row \<Rightarrow> rat" where
  "failure_time r = (case jr_finished_at r of Some t \<Rightarrow> t | None \<Rightarrow> jr_updated_at r)"

definition recent_failures :: "int \<Rightarrow> job_db \<Rightarrow> (string \<times> string \<times> rat) list" where
  "recent_failures lmt db =
     (let n = max 1 (min 500 lmt);
          rows = filter (\<lambda>(i, r). jr_status r = Job_Dead) (job_rows db)
      in map (\<lambda>(i, r). (jr_kind r, or_else (job_clip (jr_last_error r)) MSG_UNKNOWN_ERROR, failure_time r))
           (take (nat n) (sort_key (\<lambda>(i, r). (- failure_time r, - i)) rows)))"

definition purge_finished :: "rat \<Rightarrow> int \<Rightarrow> job_db \<Rightarrow> int \<times> job_db" where
  "purge_finished now older_than_days db =
     (let days = max 0 older_than_days;
          old = (\<lambda>(i, r). jr_status r \<in> {Job_Done, Job_Dead}
            \<and> (case jr_finished_at r of None \<Rightarrow> False | Some t \<Rightarrow> t < now - of_int days * 86400))
      in (int (length (filter old (job_rows db))), db\<lparr>job_rows := filter (\<lambda>x. \<not> old x) (job_rows db)\<rparr>))"

definition active_dedupe_keys :: "string list \<Rightarrow> job_db \<Rightarrow> string list" where
  "active_dedupe_keys keys db =
     filter (\<lambda>k. list_ex (\<lambda>(i, r). jr_dedupe_key r = Some k \<and> jr_status r \<in> {Job_Pending, Job_Running}) (job_rows db)) (remdups keys)"

definition cancel_pending :: "string list \<Rightarrow> job_db \<Rightarrow> int \<times> job_db" where
  "cancel_pending kinds db =
     (let wanted = wanted_kinds kinds
      in if wanted = [] then (0, db)
         else let hit = (\<lambda>(i, r). jr_status r = Job_Pending \<and> jr_kind r \<in> set wanted)
         in (int (length (filter hit (job_rows db))), db\<lparr>job_rows := filter (\<lambda>x. \<not> hit x) (job_rows db)\<rparr>))"


section \<open>The rate slot\<close>

definition slot_interval :: "int option \<Rightarrow> rat" where
  "slot_interval per_minute = 60 / of_int (case per_minute of Some n \<Rightarrow> max 1 n | None \<Rightarrow> 1)"

text \<open>The \<open>UPDATE\<close> of \<open>take_rate_slot\<close>: the new table when a row was updated.\<close>

definition take_update :: "rat \<Rightarrow> string \<Rightarrow> rat \<Rightarrow> job_db \<Rightarrow> job_db option" where
  "take_update now name interval db =
     (case map_of (rate_slots db) name of
        None \<Rightarrow> None
      | Some next_at \<Rightarrow> if next_at \<le> now then Some (db\<lparr>rate_slots := AList.update name (max next_at now + interval) (rate_slots db)\<rparr>) else None)"

definition insert_slot :: "rat \<Rightarrow> string \<Rightarrow> job_db \<Rightarrow> job_db" where
  "insert_slot now name db =
     (if map_of (rate_slots db) name = None then db\<lparr>rate_slots := AList.update name now (rate_slots db)\<rparr> else db)"

fun slot_tries :: "nat \<Rightarrow> nat \<Rightarrow> (nat \<Rightarrow> job_db \<Rightarrow> job_db) \<Rightarrow> (nat \<Rightarrow> rat) \<Rightarrow> string \<Rightarrow> rat \<Rightarrow> job_db \<Rightarrow> rat \<times> job_db" where
  "slot_tries 0 n env clock name interval db = (1, db)"
| "slot_tries (Suc tries) n env clock name interval db =
     (let db1 = env n db
      in case take_update (clock n) name interval db1 of
           Some db' \<Rightarrow> (0, db')
         | None \<Rightarrow>
             (let db2 = env (n + 1) db1
              in case map_of (rate_slots db2) name of
                   None \<Rightarrow> slot_tries tries (n + 3) env clock name interval (insert_slot (clock (n + 2)) name (env (n + 2) db2))
                 | Some next_at \<Rightarrow>
                     (let wait = max 0 (next_at - clock (n + 1))
                      in if wait > 0 then (wait, db2) else slot_tries tries (n + 2) env clock name interval db2)))"

definition take_rate_slot ::
    "(nat \<Rightarrow> job_db \<Rightarrow> job_db) \<Rightarrow> (nat \<Rightarrow> rat) \<Rightarrow> string \<Rightarrow> int option \<Rightarrow> job_db \<Rightarrow> rat \<times> job_db" where
  "take_rate_slot env clock name per_minute db = slot_tries 3 0 env clock name (slot_interval per_minute) db"

definition ensure_rate_slot :: "rat \<Rightarrow> string \<Rightarrow> job_db \<Rightarrow> job_db" where
  "ensure_rate_slot now name db = insert_slot now name db"

definition reset_stuck_rate_slots :: "rat \<Rightarrow> rat \<Rightarrow> job_db \<Rightarrow> int \<times> job_db" where
  "reset_stuck_rate_slots now max_ahead db =
     (int (length (filter (\<lambda>(k, t). t > now + max_ahead) (rate_slots db))),
      db\<lparr>rate_slots := tmap (\<lambda>k t. if t > now + max_ahead then now else t) (rate_slots db)\<rparr>)"

section \<open>The invariant of the table\<close>

abbreviation job_at :: "job_db \<Rightarrow> int \<Rightarrow> job_row option" where
  "job_at db i \<equiv> map_of (job_rows db) i"

definition job_row_ok :: "job_row \<Rightarrow> bool" where
  "job_row_ok r \<longleftrightarrow> jr_kind r \<in> set JOB_KINDS \<and> 0 \<le> jr_attempts r \<and> jr_attempts r \<le> jr_max_attempts r
     \<and> 1 \<le> jr_max_attempts r \<and> jr_max_attempts r \<le> 1000 \<and> jr_status r \<noteq> Job_Superseded
     \<and> (jr_status r = Job_Pending \<longrightarrow> jr_attempts r < jr_max_attempts r \<and> jr_locked_by r = None \<and> jr_locked_until r = None)
     \<and> (jr_status r = Job_Running \<longrightarrow> 1 \<le> jr_attempts r \<and> jr_locked_by r \<noteq> None \<and> jr_locked_until r \<noteq> None)
     \<and> (jr_status r \<in> {Job_Done, Job_Dead} \<longleftrightarrow> jr_finished_at r \<noteq> None)"

definition one_pending_per_key :: "job_db \<Rightarrow> bool" where
  "one_pending_per_key db \<longleftrightarrow> (\<forall>i j r s. job_at db i = Some r \<longrightarrow> job_at db j = Some s \<longrightarrow> jr_status r = Job_Pending \<longrightarrow>
     jr_status s = Job_Pending \<longrightarrow> jr_dedupe_key r \<noteq> None \<longrightarrow> jr_dedupe_key s = jr_dedupe_key r \<longrightarrow> i = j)"

definition queue_ok :: "job_db \<Rightarrow> bool" where
  "queue_ok db \<longleftrightarrow> table_ok (job_rows db) \<and> (\<forall>i r. job_at db i = Some r \<longrightarrow> i < job_next_id db \<and> job_row_ok r) \<and> one_pending_per_key db"

lemma update_job_at [simp]: "job_at (update_job i f db) k = (if k = i then map_option f (job_at db i) else job_at db k)"
  by (cases "job_at db k") (auto simp: update_job_def tmap_lookup)

lemma update_job_frame [simp]: "job_next_id (update_job i f db) = job_next_id db" "rate_slots (update_job i f db) = rate_slots db"
  "table_ok (job_rows (update_job i f db)) = table_ok (job_rows db)"
  by (simp_all add: update_job_def)

lemma update_job_None: "job_at db i = None \<Longrightarrow> update_job i f db = db"
proof -
  assume "job_at db i = None"
  then have "\<forall>x \<in> set (job_rows db). fst x \<noteq> i" by (auto simp: map_of_eq_None_iff)
  then have "tmap (\<lambda>k r. if k = i then f r else r) (job_rows db) = job_rows db"
    unfolding tmap_def by (intro map_idI) auto
  then show ?thesis by (simp add: update_job_def)
qed

lemma queue_okD:
  assumes "queue_ok db"
  shows "table_ok (job_rows db)" and "job_at db i = Some r \<Longrightarrow> i < job_next_id db" and "job_at db i = Some r \<Longrightarrow> job_row_ok r"
    and "one_pending_per_key db"
  using assms by (simp_all add: queue_ok_def)

lemma one_pendingD:
  "one_pending_per_key db \<Longrightarrow> job_at db i = Some r \<Longrightarrow> job_at db j = Some s \<Longrightarrow> jr_status r = Job_Pending \<Longrightarrow>
   jr_status s = Job_Pending \<Longrightarrow> jr_dedupe_key r = Some k \<Longrightarrow> jr_dedupe_key s = Some k \<Longrightarrow> i = j"
  unfolding one_pending_per_key_def by (metis option.distinct(1))

lemma pending_with_Some:
  assumes "pending_with key i db = Some (j, r)" and "table_ok (job_rows db)"
  shows "j \<noteq> i" and "job_at db j = Some r" and "jr_dedupe_key r = key" and "key \<noteq> None" and "jr_status r = Job_Pending"
proof -
  obtain k where k: "key = Some k" using assms(1) by (cases key) (simp_all add: pending_with_def)
  then have "(j, r) \<in> set (job_rows db) \<and> j \<noteq> i \<and> jr_dedupe_key r = Some k \<and> jr_status r = Job_Pending"
    using assms(1) by (auto simp: pending_with_def find_Some_iff in_set_conv_nth)
  then show "j \<noteq> i" "job_at db j = Some r" "jr_dedupe_key r = key" "key \<noteq> None" "jr_status r = Job_Pending"
    using k table_ok_map_of [OF assms(2)] by auto
qed

lemma pending_with_None:
  "pending_with (Some k) i db = None \<Longrightarrow> job_at db j = Some r \<Longrightarrow> jr_dedupe_key r = Some k \<Longrightarrow> jr_status r = Job_Pending \<Longrightarrow> j = i"
  by (auto simp: pending_with_def find_None_iff dest!: map_of_SomeD)

lemma one_pending_update:
  assumes "one_pending_per_key db" and "job_at db i = Some r"
    and "jr_dedupe_key (f r) = jr_dedupe_key r"
    and "jr_status (f r) = Job_Pending \<Longrightarrow> jr_status r = Job_Pending \<or> pending_with (jr_dedupe_key r) i db = None"
  shows "one_pending_per_key (update_job i f db)"
proof -
  have twin: "j = i" if "jr_status (f r) = Job_Pending" "jr_dedupe_key r = Some k" "job_at db j = Some s" "jr_dedupe_key s = Some k"
    "jr_status s = Job_Pending" for j k s
  proof (cases "jr_status r = Job_Pending")
    case True
    then show ?thesis using one_pendingD [OF assms(1,2) that(3) _ that(5) that(2) that(4)] by simp
  next
    case False
    then show ?thesis using assms(4) [OF that(1)] that pending_with_None [of k i db j s] by simp
  qed
  show ?thesis
    unfolding one_pending_per_key_def
  proof (intro allI impI)
    fix a b ra rb
    assume at: "job_at (update_job i f db) a = Some ra" "job_at (update_job i f db) b = Some rb"
      and pend: "jr_status ra = Job_Pending" "jr_status rb = Job_Pending"
      and key: "jr_dedupe_key ra \<noteq> None" "jr_dedupe_key rb = jr_dedupe_key ra"
    obtain k where k: "jr_dedupe_key ra = Some k" "jr_dedupe_key rb = Some k" using key by auto
    consider "a = i" "b = i" | "a = i" "b \<noteq> i" | "a \<noteq> i" "b = i" | "a \<noteq> i" "b \<noteq> i" by blast
    then show "a = b"
    proof cases
      case 2
      then show ?thesis using at pend k twin [of k b rb] assms(2,3) by simp
    next
      case 3
      then show ?thesis using at pend k twin [of k a ra] assms(2,3) by simp
    next
      case 4
      then show ?thesis using at pend k one_pendingD [OF assms(1), of a ra b rb k] by simp
    qed simp
  qed
qed

lemma queue_ok_update:
  assumes "queue_ok db" and "job_at db i = Some r" and "job_row_ok (f r)" and "jr_dedupe_key (f r) = jr_dedupe_key r"
    and "jr_status (f r) = Job_Pending \<Longrightarrow> jr_status r = Job_Pending \<or> pending_with (jr_dedupe_key r) i db = None"
  shows "queue_ok (update_job i f db)"
  unfolding queue_ok_def
  using one_pending_update [where f = f, OF queue_okD(4) [OF assms(1)] assms(2,4,5)] assms(2,3) queue_okD [OF assms(1)]
  by (auto split: if_splits)


section \<open>Every operation keeps the invariant\<close>

lemma fenced_rowD:
  assumes "fenced_row j db = Some r"
  shows "job_at db (job_id j) = Some r" and "fence j r"
  using assms by (auto simp: fenced_row_def split: option.splits if_splits)

lemma finish_row_ok:
  "job_row_ok r \<Longrightarrow> status \<in> {Job_Done, Job_Dead} \<Longrightarrow> job_row_ok (finish_row now status message r)"
  by (auto simp: job_row_ok_def finish_row_def)

lemma finish_row_keeps [simp]:
  "jr_dedupe_key (finish_row now status message r) = jr_dedupe_key r" "jr_status (finish_row now status message r) = status"
  "jr_attempts (finish_row now status message r) = jr_attempts r" "jr_max_attempts (finish_row now status message r) = jr_max_attempts r"
  "jr_kind (finish_row now status message r) = jr_kind r" "jr_locked_by (finish_row now status message r) = jr_locked_by r"
  by (simp_all add: finish_row_def)

lemma queue_ok_finish:
  assumes "queue_ok db" and "status \<in> {Job_Done, Job_Dead}"
  shows "queue_ok (update_job i (finish_row now status message) db)"
proof (cases "job_at db i")
  case None
  then show ?thesis using assms(1) by (simp add: update_job_None)
next
  case (Some r)
  show ?thesis
    by (rule queue_ok_update [OF assms(1) Some]) (use assms(2) finish_row_ok queue_okD(3) [OF assms(1) Some] in auto)
qed

lemma complete_ok: "queue_ok db \<Longrightarrow> queue_ok (snd (snd (complete now j db)))"
  by (auto simp: complete_def queue_ok_finish split: option.splits)

lemma fail_ok: "queue_ok db \<Longrightarrow> queue_ok (snd (snd (fail_job now j error db)))"
  by (auto simp: fail_job_def Let_def queue_ok_finish split: option.splits)

lemma supersede_ok:
  assumes "queue_ok db"
  shows "queue_ok (snd (supersede now j other priority db))"
proof -
  have 1: "queue_ok (update_job (job_id j) (finish_row now Job_Done (Some MSG_SUPERSEDED)) db)" (is "queue_ok ?db1")
    by (rule queue_ok_finish [OF assms]) simp
  show ?thesis
  proof (cases other)
    case None
    then show ?thesis using 1 by (simp add: supersede_def)
  next
    case (Some i)
    let ?f = "\<lambda>r. r\<lparr>jr_priority := min (jr_priority r) priority, jr_updated_at := now\<rparr>"
    have "queue_ok (update_job i ?f ?db1)"
    proof (cases "job_at ?db1 i")
      case None
      then show ?thesis using 1 by (simp only: update_job_None)
    next
      case (Some r)
      show ?thesis by (rule queue_ok_update [OF 1 Some]) (use queue_okD(3) [OF 1 Some] in \<open>auto simp: job_row_ok_def\<close>)
    qed
    then show ?thesis using Some by (simp add: supersede_def)
  qed
qed

lemma mark_dead_ok: "queue_ok db \<Longrightarrow> queue_ok (snd (mark_dead now j message db))"
  by (auto simp: mark_dead_def Let_def queue_ok_finish)

lemma enqueue_ok:
  assumes "queue_ok db"
  shows "queue_ok (snd (enqueue now kind payload key delay prio att db))"
proof (cases "kind \<in> set JOB_KINDS \<and> is_dict payload")
  case False
  then show ?thesis using assms by (auto simp: enqueue_def)
next
  case True
  let ?db = "db\<lparr>job_next_id := job_next_id db + 1\<rparr>"
  have ok': "queue_ok ?db" using assms by (fastforce simp: queue_ok_def one_pending_per_key_def)
  show ?thesis
  proof (cases "pending_with key (job_next_id db) db")
    case (Some x)
    obtain j r where x: "x = (j, r)" by (cases x)
    note p = pending_with_Some [OF Some [unfolded x] queue_okD(1) [OF assms]]
    show ?thesis
      using True Some x p queue_okD(3) [OF assms p(2)]
      by (auto simp: enqueue_def Let_def job_row_ok_def intro!: queue_ok_update [OF ok'])
  next
    case None
    define r where "r = \<lparr>jr_kind = kind, jr_dedupe_key = key, jr_payload = payload,
                jr_priority = max (- 32768) (min 32767 prio), jr_status = Job_Pending, jr_attempts = 0, jr_max_attempts = max 1 (min 1000 att),
                jr_run_after = now + finite_seconds delay 0 0 MAX_DELAY_SECONDS, jr_locked_by = None, jr_locked_until = None, jr_last_error = None,
                jr_created_at = now, jr_updated_at = now, jr_finished_at = None\<rparr>"
    define db' where "db' = ?db\<lparr>job_rows := job_rows db @ [(job_next_id db, r)]\<rparr>"
    have fresh: "job_at db (job_next_id db) = None" using queue_okD(2) [OF assms] by fastforce
    then have at: "job_at db' i = (if i = job_next_id db then Some r else job_at db i)" for i
      by (auto simp: db'_def map_add_def split: option.splits)
    have "one_pending_per_key db'"
      unfolding one_pending_per_key_def at
      using one_pendingD [OF queue_okD(4) [OF assms]] pending_with_None [of _ "job_next_id db" db] None fresh
      by (fastforce simp: r_def split: if_splits)
    moreover have "job_row_ok r" using True by (simp add: r_def job_row_ok_def max_def)
    moreover have "table_ok (job_rows db')" using fresh queue_okD(1) [OF assms]
      by (auto simp: db'_def table_ok_def map_of_eq_None_iff)
    ultimately have "queue_ok db'" using queue_okD(2,3) [OF assms]
      unfolding queue_ok_def at by (auto simp: db'_def intro: less_imp_le split: if_splits)
    then show ?thesis using True None by (simp add: enqueue_def Let_def db'_def r_def)
  qed
qed

lemma claim_candidate:
  assumes "claim_candidates now held wanted db = (i, r) # rest" and "queue_ok db"
  shows "job_at db i = Some r" and "claimable now wanted db r" and "i \<notin> set held"
    and "job_at db k = Some s \<Longrightarrow> claimable now wanted db s \<Longrightarrow> k \<notin> set held \<Longrightarrow> urgency (i, r) \<le> urgency (k, s)"
proof -
  let ?xs = "filter (\<lambda>(i, r). claimable now wanted db r \<and> i \<notin> set held) (job_rows db)"
  have set: "set (claim_candidates now held wanted db) = set ?xs" by (simp add: claim_candidates_def)
  then have "(i, r) \<in> set ?xs" using assms(1) by (metis list.set_intros(1))
  then show "job_at db i = Some r" "claimable now wanted db r" "i \<notin> set held"
    using table_ok_map_of [OF queue_okD(1) [OF assms(2)]] by auto
  assume s: "job_at db k = Some s" "claimable now wanted db s" "k \<notin> set held"
  then have "(k, s) \<in> set ((i, r) # rest)" using set assms(1) by (auto dest: map_of_SomeD)
  moreover have "sorted (map urgency ((i, r) # rest))" using assms(1) sorted_sort_key [of urgency ?xs] by (simp add: claim_candidates_def)
  ultimately show "urgency (i, r) \<le> urgency (k, s)" by auto
qed

lemma claim_ok:
  assumes "queue_ok db"
  shows "queue_ok (snd (claim now held w kinds lease db))"
proof (cases "claim_candidates now held (wanted_kinds kinds) db")
  case Nil
  then show ?thesis using assms by (simp add: claim_def Let_def)
next
  case (Cons x rest)
  obtain i r where x: "x = (i, r)" by (cases x)
  note c = claim_candidate [OF Cons [unfolded x] assms]
  have "jr_attempts r < jr_max_attempts r" using c(2) queue_okD(3) [OF assms c(1)] by (auto simp: claimable_def due_def job_row_ok_def)
  moreover have "jr_finished_at r = None" using c(2) queue_okD(3) [OF assms c(1)] by (auto simp: claimable_def due_def job_row_ok_def)
  ultimately show ?thesis using Cons x assms queue_okD(3) [OF assms c(1)]
    by (auto simp: claim_def Let_def job_row_ok_def intro!: queue_ok_update [OF assms c(1)])
qed

lemma filter_rows_ok:
  assumes "queue_ok db"
  shows "queue_ok (db\<lparr>job_rows := filter P (job_rows db)\<rparr>)"
  using assms unfolding queue_ok_def one_pending_per_key_def
  by (auto simp: map_of_filter_ok split: option.splits if_splits)

lemma purge_ok: "queue_ok db \<Longrightarrow> queue_ok (snd (purge_finished now days db))"
  by (simp add: purge_finished_def Let_def filter_rows_ok)

lemma cancel_ok: "queue_ok db \<Longrightarrow> queue_ok (snd (cancel_pending kinds db))"
  by (simp add: cancel_pending_def Let_def filter_rows_ok)

lemma sweep_ok:
  assumes "queue_ok db"
  shows "queue_ok (snd (sweep_expired now db))"
proof -
  let ?f = "\<lambda>r. if expired_for_good now r then finish_row now Job_Dead (Some MSG_LEASE_EXPIRED) r else r"

  have "one_pending_per_key (db\<lparr>job_rows := tmap (\<lambda>k. ?f) (job_rows db)\<rparr>)"
    using one_pendingD [OF queue_okD(4) [OF assms]] unfolding one_pending_per_key_def
    by (fastforce simp: tmap_lookup split: if_splits)
  then show ?thesis using queue_okD(1,2,3) [OF assms]
    by (auto simp: sweep_expired_def Let_def queue_ok_def tmap_lookup finish_row_ok)
qed


section \<open>Rescheduling beside other sessions\<close>

text \<open>
  The other sessions respect the lock on the row and, like every operation of the queue, keep the invariant.
\<close>

definition env_ok :: "int \<Rightarrow> (nat \<Rightarrow> job_db \<Rightarrow> job_db) \<Rightarrow> bool" where
  "env_ok i env \<longleftrightarrow> (\<forall>n db r. queue_ok db \<longrightarrow> job_at db i = Some r \<longrightarrow> jr_status r = Job_Running \<longrightarrow>
     queue_ok (env n db) \<and> job_at (env n db) i = Some r)"

lemma env_okD:
  assumes "env_ok i env" and "queue_ok db" and "job_at db i = Some r" and "jr_status r = Job_Running"
  shows "queue_ok (env n db)" and "job_at (env n db) i = Some r"
  using assms by (auto simp: env_ok_def)

lemma pending_row_keeps [simp]:
  "jr_dedupe_key (pending_row now wait ca error r) = jr_dedupe_key r" "jr_status (pending_row now wait ca error r) = Job_Pending"
  "jr_max_attempts (pending_row now wait ca error r) = jr_max_attempts r" "jr_kind (pending_row now wait ca error r) = jr_kind r"
  by (simp_all add: pending_row_def)

lemma pending_row_ok:
  "job_row_ok r \<Longrightarrow> jr_status r = Job_Running \<Longrightarrow> (ca \<Longrightarrow> jr_attempts r < jr_max_attempts r) \<Longrightarrow> job_row_ok (pending_row now wait ca error r)"
  by (auto simp: job_row_ok_def pending_row_def)

definition superseded_at :: "rat \<Rightarrow> int \<Rightarrow> job_row \<Rightarrow> job \<times> job_db \<Rightarrow> bool" where
  "superseded_at now i row out \<longleftrightarrow> job_state (fst out) = Job_Superseded \<and> jr_dedupe_key row \<noteq> None
     \<and> job_at (snd out) i = Some (finish_row now Job_Done (Some MSG_SUPERSEDED) row)"

definition pending_at :: "rat \<Rightarrow> rat \<Rightarrow> bool \<Rightarrow> string option \<Rightarrow> int \<Rightarrow> job_row \<Rightarrow> job \<times> job_db \<Rightarrow> bool" where
  "pending_at now wait ca error i row out \<longleftrightarrow> job_state (fst out) = Job_Pending
     \<and> job_at (snd out) i = Some (pending_row now wait ca error row)"

lemma supersede_at:
  assumes "job_at db (job_id j) = Some row" and "other \<noteq> Some (job_id j)" and "jr_dedupe_key row \<noteq> None"
  shows "superseded_at now (job_id j) row (supersede now j other priority db)"
  using assms by (cases other) (auto simp: superseded_at_def supersede_def Let_def)

lemma pending_tries_outcome:
  assumes "queue_ok db" and "job_at db (job_id j) = Some row" and "jr_status row = Job_Running" and "key = jr_dedupe_key row"
    and "env_ok (job_id j) env" and "ca \<Longrightarrow> jr_attempts row < jr_max_attempts row" and "tries = 0 \<Longrightarrow> key \<noteq> None"
  shows "queue_ok (snd (pending_tries tries n env now wait ca error key priority j db))
    \<and> (pending_at now wait ca error (job_id j) row (pending_tries tries n env now wait ca error key priority j db)
       \<or> superseded_at now (job_id j) row (pending_tries tries n env now wait ca error key priority j db))"
  using assms(1,2,7)
proof (induction tries arbitrary: n db)
  case 0
  have row: "job_at (env n db) (job_id j) = Some row" using env_okD(2) [OF assms(5) 0(1,2) assms(3)] .
  have "queue_ok (env n db)" using env_okD(1) [OF assms(5) 0(1,2) assms(3)] .
  then show ?case using supersede_ok supersede_at [OF row] 0 assms(4) by simp
next
  case (Suc tries)
  let ?db1 = "env n db"
  have 1: "queue_ok ?db1" "job_at ?db1 (job_id j) = Some row" using env_okD [OF assms(5) Suc.prems(1,2) assms(3)] by simp_all
  show ?case
  proof (cases "pending_with key (job_id j) ?db1")
    case None
    have "queue_ok (update_job (job_id j) (pending_row now wait ca error) ?db1)"
      by (rule queue_ok_update [OF 1])
        (use None assms(3,4) pending_row_ok [OF queue_okD(3) [OF 1]] assms(6) in simp_all)
    then show ?thesis using None 1 by (simp add: pending_at_def Let_def)
  next
    case (Some x)
    then have key: "key \<noteq> None" by (cases key) (simp_all add: pending_with_def)
    let ?db2 = "env (n + 1) ?db1"
    have 2: "queue_ok ?db2" "job_at ?db2 (job_id j) = Some row" using env_okD [OF assms(5) 1 assms(3)] by simp_all
    show ?thesis
    proof (cases "pending_with key (job_id j) ?db2")
      case None
      then show ?thesis using Some Suc.IH [OF 2 key] by (simp add: Let_def)
    next
      case Twin: (Some y)
      obtain o_id s where y: "y = (o_id, s)" by (cases y)
      have "o_id \<noteq> job_id j" using pending_with_Some(1) [OF Twin [unfolded y] queue_okD(1) [OF 2(1)]] .
      then have "superseded_at now (job_id j) row (supersede now j (Some o_id) priority ?db2)"
        using supersede_at [OF 2(2)] key assms(4) by simp
      then show ?thesis using Some Twin y supersede_ok [OF 2(1)] by (simp add: Let_def)
    qed
  qed
qed


definition dead_at :: "rat \<Rightarrow> string \<Rightarrow> int \<Rightarrow> job_row \<Rightarrow> job \<times> job_db \<Rightarrow> bool" where
  "dead_at now message i row out \<longleftrightarrow> job_state (fst out) = Job_Dead \<and> job_at (snd out) i = Some (finish_row now Job_Dead (Some message) row)"

text \<open>What \<open>_reschedule\<close> leaves of the row, by the outcome it returns.\<close>

definition rescheduled ::
    "rat \<Rightarrow> rat \<Rightarrow> string option \<Rightarrow> rat \<Rightarrow> bool \<Rightarrow> bool \<Rightarrow> int \<Rightarrow> job_row \<Rightarrow> job_row \<Rightarrow> job_status \<Rightarrow> bool" where
  "rescheduled select_now now error delay ca cap i row row' st \<longleftrightarrow>
     (case st of
        Job_Pending \<Rightarrow> row' = pending_row now (if ca then of_int (backoff_seconds (jr_attempts row)) else delay) ca error row
          \<and> (ca \<longrightarrow> jr_attempts row < jr_max_attempts row)
          \<and> (\<not> ca \<and> cap \<longrightarrow> select_now - DEFER_CAP_SECONDS \<le> jr_created_at row)
      | Job_Superseded \<Rightarrow> row' = finish_row now Job_Done (Some MSG_SUPERSEDED) row \<and> jr_dedupe_key row \<noteq> None
      | Job_Dead \<Rightarrow> (\<exists>m. row' = finish_row now Job_Dead (Some m) row)
          \<and> (if ca then jr_attempts row = jr_max_attempts row else cap \<and> jr_created_at row < select_now - DEFER_CAP_SECONDS)
      | _ \<Rightarrow> False)"

lemma reschedule_outcome:
  assumes ok: "queue_ok db" and row: "fenced_row j db = Some row" and att: "job_max_attempts j = jr_max_attempts row"
    and env: "env_ok (job_id j) env"
  obtains st j' db' row' where "reschedule env select_now now j error delay ca cap db = (Some st, j', db')"
    and "queue_ok db'" and "job_at db' (job_id j) = Some row'" and "rescheduled select_now now error delay ca cap (job_id j) row row' st"
proof -
  note at = fenced_rowD [OF row]
  have running: "jr_status row = Job_Running" "job_attempts j = jr_attempts row" using at(2) by (simp_all add: fence_def)
  define db1 where "db1 = env 0 db"
  have 1: "queue_ok db1" "job_at db1 (job_id j) = Some row" using env_okD [OF env ok at(1) running(1)] by (simp_all add: db1_def)
  define wait where "wait = (if ca then of_int (backoff_seconds (jr_attempts row)) else delay)"
  define out where "out = (case pending_with (jr_dedupe_key row) (job_id j) db1 of
      Some (other, _) \<Rightarrow> supersede now j (Some other) (jr_priority row) db1
    | None \<Rightarrow> if ca \<and> jr_attempts row \<ge> jr_max_attempts row then mark_dead now j (or_else error MSG_UNEXPECTED) db1
        else if \<not> ca \<and> jr_created_at row < select_now - DEFER_CAP_SECONDS \<and> cap then mark_dead now j MSG_DEFERRED_TOO_LONG db1
        else pending_tries 3 1 env now wait ca error (jr_dedupe_key row) (jr_priority row) j db1)"
  have res: "reschedule env select_now now j error delay ca cap db = (Some (job_state (fst out)), fst out, snd out)"
    unfolding reschedule_def out_def wait_def Let_def row att running(2) db1_def by (auto split: option.splits prod.splits)
  show thesis
  proof (cases "pending_with (jr_dedupe_key row) (job_id j) db1")
    case (Some y)
    obtain o_id s where y: "y = (o_id, s)" by (cases y)
    note twin = pending_with_Some [OF Some [unfolded y] queue_okD(1) [OF 1(1)]]
    have "superseded_at now (job_id j) row out" using Some y supersede_at [OF 1(2)] twin by (simp add: out_def)
    moreover have "queue_ok (snd out)" using Some y supersede_ok [OF 1(1)] by (simp add: out_def)
    ultimately show ?thesis using that [OF res] by (simp add: superseded_at_def rescheduled_def)
  next
    case None
    have dead: "queue_ok (snd (mark_dead now j m db1)) \<and> job_state (fst (mark_dead now j m db1)) = Job_Dead
      \<and> (\<exists>m'. job_at (snd (mark_dead now j m db1)) (job_id j) = Some (finish_row now Job_Dead (Some m') row))" for m
      using mark_dead_ok [OF 1(1), of now j m] 1(2) by (auto simp: mark_dead_def Let_def)
    consider (used) "ca \<and> jr_attempts row \<ge> jr_max_attempts row" | (old) "\<not> ca \<and> jr_created_at row < select_now - DEFER_CAP_SECONDS \<and> cap"
      | (again) "\<not> (ca \<and> jr_attempts row \<ge> jr_max_attempts row)" "\<not> (\<not> ca \<and> jr_created_at row < select_now - DEFER_CAP_SECONDS \<and> cap)" by blast
    then show ?thesis
    proof cases
      case used
      then have "out = mark_dead now j (or_else error MSG_UNEXPECTED) db1" using None by (simp add: out_def)
      moreover have "jr_attempts row = jr_max_attempts row" using used queue_okD(3) [OF 1] by (simp add: job_row_ok_def)
      ultimately show ?thesis using that [OF res] dead [of "or_else error MSG_UNEXPECTED"] used by (auto simp: rescheduled_def)
    next
      case old
      then have "out = mark_dead now j MSG_DEFERRED_TOO_LONG db1" using None by (simp add: out_def)
      then show ?thesis using that [OF res] dead [of MSG_DEFERRED_TOO_LONG] old by (auto simp: rescheduled_def)
    next
      case again
      then have out: "out = pending_tries 3 1 env now wait ca error (jr_dedupe_key row) (jr_priority row) j db1"
        using None unfolding out_def by (simp only: option.case if_not_P if_False)
      have "queue_ok (snd out) \<and> (pending_at now wait ca error (job_id j) row out \<or> superseded_at now (job_id j) row out)"
        unfolding out by (rule pending_tries_outcome [OF 1 running(1) refl env]) (use again in auto)
      then show ?thesis using that [OF res] again
        by (auto simp: pending_at_def superseded_at_def rescheduled_def wait_def not_le)
    qed
  qed
qed

lemma reschedule_lost: "fenced_row j db = None \<Longrightarrow> reschedule env select_now now j error delay ca cap db = (None, j, db)"
  by (simp add: reschedule_def)

end
