(* ===== verification/Job_Runs.thy ===== *)
theory Job_Runs
  imports Job_Queue
begin

text \<open>
  Runs of the job queue with any number of workers: a step relation whose steps are the operations of
  \<open>Job_Queue\<close>, labelled with what they did to which job, and what holds along every run. A worker has at
  most one job in hand (\<open>JobWorker._current\<close>); it may be interrupted at any time, after which its lease runs
  out; a process that ends hands the job back while the thread still has it (\<open>release_unfinished\<close>). Other
  sessions may enqueue jobs in front of every statement of a rescheduling transaction.
\<close>

section \<open>Other sessions that enqueue\<close>

record request =
  rq_now :: rat
  rq_kind :: string
  rq_payload :: jval
  rq_key :: "string option"
  rq_delay :: "rat option"
  rq_priority :: int
  rq_max_attempts :: int

definition enqueue_request :: "request \<Rightarrow> job_db \<Rightarrow> job_db" where
  "enqueue_request q db =
     snd (enqueue (rq_now q) (rq_kind q) (rq_payload q) (rq_key q) (rq_delay q) (rq_priority q) (rq_max_attempts q) db)"

definition enqueues :: "(nat \<Rightarrow> request list) \<Rightarrow> nat \<Rightarrow> job_db \<Rightarrow> job_db" where
  "enqueues others n db = fold enqueue_request (others n) db"

text \<open>The parts of a row that enqueueing never changes.\<close>

definition core :: "job_row \<Rightarrow> string \<times> string option \<times> job_status \<times> int \<times> int \<times> string option" where
  "core r = (jr_kind r, jr_dedupe_key r, jr_status r, jr_attempts r, jr_max_attempts r, jr_locked_by r)"

definition quiet :: "job_db \<Rightarrow> job_db \<Rightarrow> bool" where
  "quiet db db' \<longleftrightarrow> job_next_id db \<le> job_next_id db'
     \<and> (\<forall>i r. job_at db i = Some r \<longrightarrow> (\<exists>r'. job_at db' i = Some r' \<and> core r' = core r \<and> jr_priority r' \<le> jr_priority r
          \<and> (jr_status r \<noteq> Job_Pending \<longrightarrow> r' = r)))
     \<and> (\<forall>i r'. job_at db i = None \<longrightarrow> job_at db' i = Some r' \<longrightarrow>
          job_next_id db \<le> i \<and> jr_status r' = Job_Pending \<and> jr_attempts r' = 0)"

lemma quiet_refl [simp]: "quiet db db"
  by (simp add: quiet_def)

lemma quiet_trans:
  assumes "quiet a b" and "quiet b c"
  shows "quiet a c"
proof -
  have 1: "\<exists>r''. job_at c i = Some r'' \<and> core r'' = core r \<and> jr_priority r'' \<le> jr_priority r \<and> (jr_status r \<noteq> Job_Pending \<longrightarrow> r'' = r)"
    if at: "job_at a i = Some r" for i r
  proof -
    obtain r' where r': "job_at b i = Some r'" "core r' = core r" "jr_priority r' \<le> jr_priority r" "jr_status r \<noteq> Job_Pending \<longrightarrow> r' = r"
      using assms(1) at unfolding quiet_def by blast
    obtain r'' where "job_at c i = Some r''" "core r'' = core r'" "jr_priority r'' \<le> jr_priority r'" "jr_status r' \<noteq> Job_Pending \<longrightarrow> r'' = r'"
      using assms(2) r'(1) unfolding quiet_def by blast
    then show ?thesis using r' by (auto simp: core_def)
  qed
  have 2: "job_next_id a \<le> i \<and> jr_status r'' = Job_Pending \<and> jr_attempts r'' = 0" if "job_at a i = None" "job_at c i = Some r''" for i r''
  proof (cases "job_at b i")
    case None
    then show ?thesis using assms that(2) unfolding quiet_def by force
  next
    case (Some r')
    then obtain r3 where "job_at c i = Some r3" "core r3 = core r'" using assms(2) unfolding quiet_def by blast
    moreover have "job_next_id a \<le> i \<and> jr_status r' = Job_Pending \<and> jr_attempts r' = 0" using assms(1) that(1) Some unfolding quiet_def by blast
    ultimately show ?thesis using that(2) by (simp add: core_def)
  qed
  have "job_next_id a \<le> job_next_id c" using assms by (auto simp: quiet_def)
  then show ?thesis unfolding quiet_def using 1 2 by blast
qed

lemma enqueue_quiet:
  assumes "queue_ok db"
  shows "quiet db (snd (enqueue now kind payload key delay prio att db))"
proof (cases "kind \<in> set JOB_KINDS \<and> is_dict payload")
  case False
  then show ?thesis by (auto simp: enqueue_def)
next
  case True
  show ?thesis
  proof (cases "pending_with key (job_next_id db) db")
    case (Some x)
    obtain j r where x: "x = (j, r)" by (cases x)
    note p = pending_with_Some [OF Some [unfolded x] queue_okD(1) [OF assms]]
    have at: "job_at (db\<lparr>job_next_id := n\<rparr>) = job_at db" for n by simp
    show ?thesis using True Some x p by (auto simp: enqueue_def Let_def quiet_def core_def update_job_at at)
  next
    case None
    have "job_at db (job_next_id db) = None" using queue_okD(2) [OF assms] by fastforce
    then show ?thesis using True None by (auto simp: enqueue_def Let_def quiet_def map_add_def split: if_splits option.splits)
  qed
qed

lemma enqueues_ok:
  assumes "queue_ok db"
  shows "queue_ok (enqueues others n db) \<and> quiet db (enqueues others n db)"
proof -
  have "queue_ok (fold enqueue_request qs db) \<and> quiet db (fold enqueue_request qs db)" for qs
    using assms
  proof (induction qs arbitrary: db)
    case (Cons q qs)
    let ?db = "enqueue_request q db"
    have "queue_ok ?db" "quiet db ?db" using enqueue_ok [OF Cons.prems] enqueue_quiet [OF Cons.prems] by (simp_all add: enqueue_request_def)
    then show ?case using Cons.IH [of ?db] quiet_trans by auto
  qed simp
  then show ?thesis by (simp add: enqueues_def)
qed

lemma enqueues_env: "env_ok i (enqueues others)"
proof -
  have "job_at (enqueues others n db) i = Some r" if "queue_ok db" "job_at db i = Some r" "jr_status r = Job_Running" for n db r
    using enqueues_ok [OF that(1), of others n] that(2,3) unfolding quiet_def by fastforce
  then show ?thesis using enqueues_ok by (simp add: env_ok_def)
qed


section \<open>Superseding hands the work on\<close>

text \<open>A pending twin that is found stays until the transaction ends: others only enqueue.\<close>

definition twin_waits :: "job_row \<Rightarrow> int \<Rightarrow> job_db \<Rightarrow> bool" where
  "twin_waits row i db \<longleftrightarrow> (\<exists>o_id s. o_id \<noteq> i \<and> job_at db o_id = Some s \<and> jr_dedupe_key s = jr_dedupe_key row
     \<and> jr_status s = Job_Pending \<and> jr_priority s \<le> jr_priority row)"

lemma supersede_twin:
  assumes "pending_with (jr_dedupe_key row) (job_id j) db = Some (o_id, s)" and "queue_ok db"
  shows "twin_waits row (job_id j) (snd (supersede now j (Some o_id) (jr_priority row) db))"
  using pending_with_Some [OF assms(1) queue_okD(1) [OF assms(2)]]
  unfolding twin_waits_def by (intro exI [of _ o_id]) (auto simp: supersede_def Let_def)

lemma pending_with_quiet:
  assumes "pending_with key i db = Some (o_id, s)" and "quiet db db'" and "queue_ok db"
  shows "pending_with key i db' \<noteq> None"
proof -
  note p = pending_with_Some [OF assms(1) queue_okD(1) [OF assms(3)]]
  obtain s' where s': "job_at db' o_id = Some s'" "core s' = core s" using assms(2) p(2) unfolding quiet_def by blast
  obtain k where k: "key = Some k" using p(4) by blast
  show ?thesis
  proof
    assume "pending_with key i db' = None"
    then show False using pending_with_None [of k i db' o_id s'] s' k p by (simp add: core_def)
  qed
qed

lemma pending_tries_twin:
  assumes "queue_ok db" and "job_at db (job_id j) = Some row" and "jr_status row = Job_Running" and "env = enqueues others"
    and "job_state (fst (pending_tries (Suc tries) n env now wait ca error (jr_dedupe_key row) (jr_priority row) j db)) = Job_Superseded"
  shows "twin_waits row (job_id j) (snd (pending_tries (Suc tries) n env now wait ca error (jr_dedupe_key row) (jr_priority row) j db))"
proof -
  let ?db1 = "env n db" let ?db2 = "env (n + 1) ?db1" let ?key = "jr_dedupe_key row"
  have 1: "queue_ok ?db1" using enqueues_ok assms(1,4) by blast
  have 2: "queue_ok ?db2" "quiet ?db1 ?db2" using enqueues_ok [OF 1] assms(4) by blast+
  obtain x where x: "pending_with ?key (job_id j) ?db1 = Some x" using assms(5) by (cases "pending_with ?key (job_id j) ?db1") (auto simp: Let_def)
  obtain o1 s1 where "x = (o1, s1)" by (cases x)
  then obtain o2 s2 where y: "pending_with ?key (job_id j) ?db2 = Some (o2, s2)"
    using pending_with_quiet [OF _ 2(2) 1] x by fastforce
  show ?thesis using x y supersede_twin [OF y 2(1)] by (simp add: Let_def)
qed

lemma reschedule_twin:
  assumes ok: "queue_ok db" and row: "fenced_row j db = Some row"
    and out: "reschedule (enqueues others) select_now now j error delay ca cap db = (Some Job_Superseded, j', db')"
  shows "twin_waits row (job_id j) db'"
proof -
  let ?db1 = "enqueues others 0 db" let ?key = "jr_dedupe_key row"
  note at = fenced_rowD [OF row]
  have running: "jr_status row = Job_Running" using at(2) by (simp add: fence_def)
  have 1: "queue_ok ?db1" "job_at ?db1 (job_id j) = Some row" using env_okD [OF enqueues_env ok at(1) running] by simp_all
  show ?thesis
  proof (cases "pending_with ?key (job_id j) ?db1")
    case (Some y)
    obtain o_id s where y: "y = (o_id, s)" by (cases y)
    show ?thesis using out row Some y supersede_twin [OF Some [unfolded y] 1(1), of now] by (auto simp: reschedule_def Let_def split: prod.splits)
  next
    case None
    let ?wait = "if ca then of_int (backoff_seconds (job_attempts j)) else delay"
    have "pending_tries 3 1 (enqueues others) now ?wait ca error ?key (jr_priority row) j ?db1 = (j', db') \<and> job_state j' = Job_Superseded"
      using out row None by (auto simp: reschedule_def Let_def mark_dead_def split: prod.splits if_splits)
    moreover have three: "Suc 2 = (3 :: nat)" by simp
    ultimately show ?thesis
      using pending_tries_twin [OF 1 running refl, where tries = 2 and n = 1 and now = now and wait = ?wait and ca = ca and error = error and others = others, unfolded three]
      by simp
  qed
qed


section \<open>The step relation\<close>

datatype job_event =
    Ev_Claim string int
  | Ev_Done string int
  | Ev_Retry string int
  | Ev_Back string int
  | Ev_Lost string int
  | Ev_Other

type_synonym flights = "string \<Rightarrow> job option"

text \<open>
  The label of a settling operation: refused by the fence, back to the queue with (\<open>Ev_Back\<close>) or without
  (\<open>Ev_Retry\<close>) the attempt returned, or closed.
\<close>

definition settle_event :: "bool \<Rightarrow> string \<Rightarrow> bool \<times> job \<times> job_db \<Rightarrow> job_event" where
  "settle_event consumed w out = (case out of (res, j', _) \<Rightarrow>
     if \<not> res then Ev_Lost w (job_id j')
     else if job_state j' = Job_Pending then (if consumed then Ev_Retry w (job_id j') else Ev_Back w (job_id j'))
     else Ev_Done w (job_id j'))"

inductive job_step :: "job_db \<times> flights \<Rightarrow> job_event \<Rightarrow> job_db \<times> flights \<Rightarrow> bool" where
  step_enqueue: "job_step (db, fl) Ev_Other (snd (enqueue now kind payload key delay prio att db), fl)"
| step_claim: "fl w = None \<Longrightarrow> claim now held w kinds lease db = (Some j, db') \<Longrightarrow>
    job_step (db, fl) (Ev_Claim w (job_id j)) (db', fl(w \<mapsto> j))"
| step_complete: "fl w = Some j \<Longrightarrow> out = complete now j db \<Longrightarrow>
    job_step (db, fl) (settle_event True w out) (snd (snd out), fl(w := None))"
| step_fail: "fl w = Some j \<Longrightarrow> out = fail_job now j error db \<Longrightarrow>
    job_step (db, fl) (settle_event True w out) (snd (snd out), fl(w := None))"
| step_retry: "fl w = Some j \<Longrightarrow> out = retry_job (enqueues others) t now j error db \<Longrightarrow>
    job_step (db, fl) (settle_event True w out) (snd (snd out), fl(w := None))"
| step_defer: "fl w = Some j \<Longrightarrow> out = defer_job (enqueues others) t now j delay reason db \<Longrightarrow>
    job_step (db, fl) (settle_event False w out) (snd (snd out), fl(w := None))"
| step_release: "fl w = Some j \<Longrightarrow> out = release_job (enqueues others) t now j db \<Longrightarrow>
    job_step (db, fl) (settle_event False w out) (snd (snd out), fl(w \<mapsto> fst (snd out)))"
| step_interrupt: "job_step (db, fl) Ev_Other (db, fl(w := None))"
| step_sweep: "job_step (db, fl) Ev_Other (snd (sweep_expired now db), fl)"
| step_purge: "job_step (db, fl) Ev_Other (snd (purge_finished now days db), fl)"
| step_cancel: "job_step (db, fl) Ev_Other (snd (cancel_pending kinds db), fl)"
| step_slot: "job_rows db' = job_rows db \<Longrightarrow> job_next_id db' = job_next_id db \<Longrightarrow> job_step (db, fl) Ev_Other (db', fl)"

inductive job_run :: "job_db \<times> flights \<Rightarrow> job_event list \<Rightarrow> job_db \<times> flights \<Rightarrow> bool" for s where
  run_start: "job_run s [] s"
| run_step: "job_run s evs s' \<Longrightarrow> job_step s' ev s'' \<Longrightarrow> job_run s (evs @ [ev]) s''"

definition no_jobs :: "job_db \<times> flights" where
  "no_jobs = (\<lparr>job_rows = [], job_next_id = 1, rate_slots = []\<rparr>, \<lambda>_. None)"

text \<open>What a worker has in hand was claimed by that worker and agrees with its row.\<close>

definition flights_ok :: "job_db \<Rightarrow> flights \<Rightarrow> bool" where
  "flights_ok db fl \<longleftrightarrow> (\<forall>w j. fl w = Some j \<longrightarrow> job_locked_by j = w \<and> job_id j < job_next_id db
     \<and> (\<forall>r. job_at db (job_id j) = Some r \<longrightarrow> job_max_attempts j = jr_max_attempts r))"

text \<open>What a step does to one row.\<close>

definition touches :: "job_event \<Rightarrow> int \<Rightarrow> bool" where
  "touches ev i \<longleftrightarrow> (case ev of Ev_Claim w k \<Rightarrow> k = i | Ev_Done w k \<Rightarrow> k = i | Ev_Retry w k \<Rightarrow> k = i | Ev_Back w k \<Rightarrow> k = i | _ \<Rightarrow> False)"

definition row_change :: "job_event \<Rightarrow> int \<Rightarrow> job_row \<Rightarrow> job_row \<Rightarrow> bool" where
  "row_change ev i r r' \<longleftrightarrow> jr_max_attempts r' = jr_max_attempts r \<and>
     (if \<not> touches ev i then jr_attempts r' = jr_attempts r \<and> (jr_status r' = Job_Running \<longrightarrow> jr_status r = Job_Running \<and> jr_locked_by r' = jr_locked_by r)
      else case ev of
        Ev_Claim w _ \<Rightarrow> jr_attempts r' = jr_attempts r + 1 \<and> jr_locked_by r' = Some w
      | Ev_Back w _ \<Rightarrow> jr_status r = Job_Running \<and> jr_locked_by r = Some w \<and> jr_attempts r' = jr_attempts r - 1 \<and> jr_status r' = Job_Pending
      | Ev_Retry w _ \<Rightarrow> jr_status r = Job_Running \<and> jr_locked_by r = Some w \<and> jr_attempts r' = jr_attempts r \<and> jr_status r' = Job_Pending
      | Ev_Done w _ \<Rightarrow> jr_status r = Job_Running \<and> jr_locked_by r = Some w \<and> jr_attempts r' = jr_attempts r \<and> jr_status r' \<in> {Job_Done, Job_Dead}
      | _ \<Rightarrow> False)"

definition table_change :: "job_event \<Rightarrow> job_db \<Rightarrow> job_db \<Rightarrow> bool" where
  "table_change ev db db' \<longleftrightarrow> job_next_id db \<le> job_next_id db'
     \<and> (\<forall>i r. job_at db i = Some r \<longrightarrow> (case job_at db' i of None \<Rightarrow> \<not> touches ev i | Some r' \<Rightarrow> row_change ev i r r'))
     \<and> (\<forall>i. job_at db i = None \<longrightarrow> \<not> touches ev i
          \<and> (\<forall>r'. job_at db' i = Some r' \<longrightarrow> job_next_id db \<le> i \<and> jr_attempts r' = 0 \<and> jr_status r' = Job_Pending))"


section \<open>What each step changes\<close>

definition quiet_but :: "int \<Rightarrow> job_db \<Rightarrow> job_db \<Rightarrow> bool" where
  "quiet_but i db db' \<longleftrightarrow> job_next_id db \<le> job_next_id db'
     \<and> (\<forall>k r. k \<noteq> i \<longrightarrow> job_at db k = Some r \<longrightarrow> (\<exists>r'. job_at db' k = Some r' \<and> core r' = core r))
     \<and> (\<forall>k r'. k \<noteq> i \<longrightarrow> job_at db k = None \<longrightarrow> job_at db' k = Some r' \<longrightarrow>
          job_next_id db \<le> k \<and> jr_status r' = Job_Pending \<and> jr_attempts r' = 0)"

lemma quiet_quiet_but: "quiet db db' \<Longrightarrow> quiet_but i db db'"
  unfolding quiet_def quiet_but_def by blast

lemma update_quiet_but: "quiet_but i db (update_job i f db)"
  by (simp add: quiet_but_def)

lemma core_update_quiet_but: "(\<And>r. core (f r) = core r) \<Longrightarrow> quiet_but i db (update_job k f db)"
  by (auto simp: quiet_but_def)

lemma quiet_but_trans:
  assumes "quiet_but i a b" and "quiet_but i b c"
  shows "quiet_but i a c"
proof -
  have 1: "\<exists>r''. job_at c k = Some r'' \<and> core r'' = core r" if at: "k \<noteq> i" "job_at a k = Some r" for k r
  proof -
    obtain r' where r': "job_at b k = Some r'" "core r' = core r" using assms(1) at unfolding quiet_but_def by blast
    obtain r'' where "job_at c k = Some r''" "core r'' = core r'" using assms(2) at(1) r'(1) unfolding quiet_but_def by blast
    then show ?thesis using r' by auto
  qed
  have 2: "job_next_id a \<le> k \<and> jr_status r'' = Job_Pending \<and> jr_attempts r'' = 0"
    if at: "k \<noteq> i" "job_at a k = None" "job_at c k = Some r''" for k r''
  proof (cases "job_at b k")
    case None
    then show ?thesis using assms at unfolding quiet_but_def by force
  next
    case (Some r')
    then obtain r3 where "job_at c k = Some r3" "core r3 = core r'" using assms(2) at(1) unfolding quiet_but_def by blast
    moreover have "job_next_id a \<le> k \<and> jr_status r' = Job_Pending \<and> jr_attempts r' = 0" using assms(1) at(1,2) Some unfolding quiet_but_def by blast
    ultimately show ?thesis using at(3) by (simp add: core_def)
  qed
  have "job_next_id a \<le> job_next_id c" using assms by (auto simp: quiet_but_def)
  then show ?thesis unfolding quiet_but_def using 1 2 by blast
qed

lemma supersede_quiet_but: "quiet_but (job_id j) db (snd (supersede now j other priority db))"
proof (cases other)
  case None
  then show ?thesis by (simp add: supersede_def update_quiet_but)
next
  case (Some k)
  then show ?thesis
    using quiet_but_trans [OF update_quiet_but core_update_quiet_but [of "\<lambda>r. r\<lparr>jr_priority := min (jr_priority r) priority, jr_updated_at := now\<rparr>"]]
    by (simp add: supersede_def core_def)
qed

lemma enqueues_quiet_but: "queue_ok db \<Longrightarrow> quiet_but i db (enqueues others n db)"
  using enqueues_ok quiet_quiet_but by blast

lemma pending_tries_quiet_but:
  "queue_ok db \<Longrightarrow> quiet_but (job_id j) db (snd (pending_tries tries n (enqueues others) now wait ca error key priority j db))"
proof (induction tries arbitrary: n db)
  case 0
  then show ?case using quiet_but_trans [OF enqueues_quiet_but supersede_quiet_but] by simp
next
  case (Suc tries)
  let ?db1 = "enqueues others n db" let ?db2 = "enqueues others (n + 1) ?db1"
  have 1: "queue_ok ?db1" "quiet_but (job_id j) db ?db1" using enqueues_ok Suc.prems enqueues_quiet_but by blast+
  have 2: "queue_ok ?db2" "quiet_but (job_id j) db ?db2" using enqueues_ok [OF 1(1)] quiet_but_trans [OF 1(2) enqueues_quiet_but [OF 1(1)]] by blast+
  have sup: "quiet_but (job_id j) db (snd (supersede now j other priority ?db2))" for other
    using quiet_but_trans [OF 2(2) supersede_quiet_but] .
  have again: "quiet_but (job_id j) db (snd (pending_tries tries (n + 2) (enqueues others) now wait ca error key priority j ?db2))"
    using quiet_but_trans [OF 2(2) Suc.IH [OF 2(1)]] .
  show ?case using sup again quiet_but_trans [OF 1(2) update_quiet_but] by (auto simp: Let_def split: option.splits)
qed

lemma reschedule_quiet_but:
  assumes "queue_ok db"
  shows "quiet_but (job_id j) db (snd (snd (reschedule (enqueues others) t now j error delay ca cap db)))"
proof -
  have 1: "queue_ok (enqueues others 0 db)" "quiet_but (job_id j) db (enqueues others 0 db)"
    using enqueues_ok assms enqueues_quiet_but by blast+
  note via = quiet_but_trans [OF 1(2)]
  have m: "quiet_but (job_id j) db (snd (mark_dead now j m (enqueues others 0 db)))" for m
    using via [OF update_quiet_but] by (simp add: mark_dead_def Let_def)
  show ?thesis using m via [OF supersede_quiet_but] via [OF pending_tries_quiet_but [OF 1(1)]] quiet_quiet_but [OF quiet_refl]
    by (auto simp: reschedule_def Let_def case_prod_beta split: option.splits)
qed


lemma table_changeI:
  assumes "quiet_but i db db'" and "\<And>k. touches ev k \<Longrightarrow> k = i" and "job_at db i = Some r" and "job_at db' i = Some r'" and "row_change ev i r r'"
  shows "table_change ev db db'"
  unfolding table_change_def
proof (intro conjI allI impI)
  show "job_next_id db \<le> job_next_id db'" using assms(1) by (simp add: quiet_but_def)
next
  fix k s assume s: "job_at db k = Some s"
  show "case job_at db' k of None \<Rightarrow> \<not> touches ev k | Some s' \<Rightarrow> row_change ev k s s'"
  proof (cases "k = i")
    case True
    then show ?thesis using s assms(3-5) by simp
  next
    case False
    then obtain s' where s': "job_at db' k = Some s'" "core s' = core s" using assms(1) s unfolding quiet_but_def by blast
    moreover have "\<not> touches ev k" using assms(2) False by blast
    ultimately show ?thesis by (simp add: row_change_def core_def)
  qed
next
  fix k assume none: "job_at db k = None"
  then have "k \<noteq> i" using assms(3) by auto
  then show "\<not> touches ev k" using assms(2) by blast
  fix r' assume "job_at db' k = Some r'"
  then show "job_next_id db \<le> k" "jr_attempts r' = 0" "jr_status r' = Job_Pending" using assms(1) none \<open>k \<noteq> i\<close> unfolding quiet_but_def by blast+
qed

lemma untouched [simp]: "\<not> touches Ev_Other i" "\<not> touches (Ev_Lost w k) i"
  by (simp_all add: touches_def)

lemma row_change_core: "\<not> touches ev i \<Longrightarrow> core r' = core r \<Longrightarrow> row_change ev i r r'"
  by (simp add: row_change_def core_def)

lemma table_change_refl: "(\<And>i. \<not> touches ev i) \<Longrightarrow> table_change ev db db"
  by (auto simp: table_change_def row_change_core split: option.splits)

lemma table_change_quiet:
  assumes "quiet db db'"
  shows "table_change Ev_Other db db'"
proof -
  have "case job_at db' i of None \<Rightarrow> \<not> touches Ev_Other i | Some r' \<Rightarrow> row_change Ev_Other i r r'" if at: "job_at db i = Some r" for i r
  proof -
    obtain r' where "job_at db' i = Some r'" "core r' = core r" using assms at unfolding quiet_def by blast
    then show ?thesis by (simp add: row_change_core)
  qed
  then show ?thesis using assms unfolding table_change_def quiet_def by (simp only: untouched) blast
qed

lemma table_change_filter:
  "queue_ok db \<Longrightarrow> table_change Ev_Other db (db\<lparr>job_rows := filter P (job_rows db)\<rparr>)"
  by (auto simp: table_change_def map_of_filter_ok queue_okD(1) row_change_core split: option.splits if_splits)

lemma table_change_sweep: "table_change Ev_Other db (snd (sweep_expired now db))"
  by (auto simp: table_change_def sweep_expired_def Let_def tmap_lookup row_change_def split: option.splits)

lemma table_change_claim:
  assumes "queue_ok db" and "claim now held w kinds lease db = (Some j, db')"
  shows "table_change (Ev_Claim w (job_id j)) db db'" and "job_locked_by j = w"
    and "\<exists>r. job_at db (job_id j) = Some r \<and> job_max_attempts j = jr_max_attempts r"
proof -
  obtain i r rest where c: "claim_candidates now held (wanted_kinds kinds) db = (i, r) # rest"
    using assms(2) by (auto simp: claim_def Let_def split: if_splits list.splits)
  note at = claim_candidate(1) [OF c assms(1)]
  let ?l = "of_int \<lfloor>finite_seconds lease 600 1 86400\<rfloor>"
  let ?f = "\<lambda>r. r\<lparr>jr_status := Job_Running, jr_attempts := jr_attempts r + 1, jr_locked_by := Some w, jr_locked_until := Some (now + ?l), jr_updated_at := now\<rparr>"
  have out: "j = job_from_row i (?f r) Job_Running None" "db' = update_job i ?f db"
    using assms(2) c by (auto simp: claim_def Let_def split: if_splits)
  then have j: "job_id j = i" by (simp add: job_from_row_def)
  show "table_change (Ev_Claim w (job_id j)) db db'" unfolding j out(2)
    by (rule table_changeI [OF update_quiet_but _ at]) (auto simp: at touches_def row_change_def)
  show "job_locked_by j = w" "\<exists>r. job_at db (job_id j) = Some r \<and> job_max_attempts j = jr_max_attempts r"
    using at by (simp_all add: out(1) job_from_row_def)
qed

lemma table_change_finish:
  assumes "job_at db i = Some r" and "jr_status r = Job_Running" and "jr_locked_by r = Some w" and "status \<in> {Job_Done, Job_Dead}"
  shows "table_change (Ev_Done w i) db (update_job i (finish_row now status m) db)"
  by (rule table_changeI [OF update_quiet_but _ assms(1)]) (use assms in \<open>auto simp: touches_def row_change_def\<close>)

lemma table_change_reschedule:
  assumes ok: "queue_ok db" and j: "fenced_row j db = Some row" "job_locked_by j = w" "job_max_attempts j = jr_max_attempts row"
    and out: "reschedule (enqueues others) t now j error delay ca cap db = (Some st, j', db')"
  shows "table_change (if st = Job_Pending then (if ca then Ev_Retry w (job_id j) else Ev_Back w (job_id j)) else Ev_Done w (job_id j)) db db'"
    and "queue_ok db'" and "job_state j' = st"
proof -
  obtain st2 j2 db2 row' where r: "reschedule (enqueues others) t now j error delay ca cap db = (Some st2, j2, db2)"
    "queue_ok db2" "job_at db2 (job_id j) = Some row'" "rescheduled t now error delay ca cap (job_id j) row row' st2"
    by (rule reschedule_outcome [OF ok j(1,3) enqueues_env])
  have eq: "st2 = st" "j2 = j'" "db2 = db'" using r(1) out by simp_all
  note at = fenced_rowD [OF j(1)]
  have run: "jr_status row = Job_Running" "jr_locked_by row = Some w" "1 \<le> jr_attempts row"
    using at queue_okD(3) [OF ok at(1)] j(2) by (auto simp: fence_def job_row_ok_def)
  have quiet: "quiet_but (job_id j) db db'" using reschedule_quiet_but [OF ok, of j others t now error delay ca cap] out by simp
  show "table_change (if st = Job_Pending then (if ca then Ev_Retry w (job_id j) else Ev_Back w (job_id j)) else Ev_Done w (job_id j)) db db'"
    by (rule table_changeI [OF quiet _ at(1) r(3) [unfolded eq]])
      (use r(4) eq run in \<open>auto simp: touches_def row_change_def rescheduled_def pending_row_def split: if_splits job_status.splits\<close>)
  show "queue_ok db'" using r(2) eq by simp
  show "job_state j' = st" using out j(1) by (auto simp: reschedule_def Let_def split: option.splits prod.splits)
qed


lemma pending_tries_job:
  "job_id (fst (pending_tries tries n env now wait ca error key priority j db)) = job_id j
   \<and> job_locked_by (fst (pending_tries tries n env now wait ca error key priority j db)) = job_locked_by j
   \<and> job_max_attempts (fst (pending_tries tries n env now wait ca error key priority j db)) = job_max_attempts j"
  by (induction tries arbitrary: n db) (auto simp: supersede_def Let_def split: option.splits)

lemma reschedule_job:
  assumes "reschedule env t now j error delay ca cap db = (res, j', db')"
  shows "job_id j' = job_id j" and "job_locked_by j' = job_locked_by j" and "job_max_attempts j' = job_max_attempts j"
proof -
  have "j' = j \<or> (\<exists>x y. j' = j\<lparr>job_state := x, job_last_error := y\<rparr>)
    \<or> (\<exists>wait key prio db1. j' = fst (pending_tries 3 1 env now wait ca error key prio j db1))"
    using assms by (auto simp: reschedule_def supersede_def mark_dead_def Let_def split: option.splits prod.splits if_splits) (metis fst_conv)+
  then show "job_id j' = job_id j" "job_locked_by j' = job_locked_by j" "job_max_attempts j' = job_max_attempts j"
    using pending_tries_job by auto
qed

lemma flights_ok_change:
  assumes "flights_ok db fl" and "table_change ev db db'"
  shows "flights_ok db' fl"
  unfolding flights_ok_def
proof (intro allI impI)
  fix w j assume fl: "fl w = Some j"
  have j: "job_locked_by j = w" "job_id j < job_next_id db" "\<And>r. job_at db (job_id j) = Some r \<Longrightarrow> job_max_attempts j = jr_max_attempts r"
    using assms(1) fl unfolding flights_ok_def by blast+
  have "job_max_attempts j = jr_max_attempts r'" if r': "job_at db' (job_id j) = Some r'" for r'
  proof (cases "job_at db (job_id j)")
    case None
    then have "job_next_id db \<le> job_id j" using assms(2) r' unfolding table_change_def by blast
    then show ?thesis using j(2) by simp
  next
    case (Some r)
    then have "row_change ev (job_id j) r r'" using assms(2) r' unfolding table_change_def by (metis option.simps(5))
    then show ?thesis using j(3) [OF Some] by (simp add: row_change_def)
  qed
  then show "job_locked_by j = w \<and> job_id j < job_next_id db' \<and> (\<forall>r. job_at db' (job_id j) = Some r \<longrightarrow> job_max_attempts j = jr_max_attempts r)"
    using j(1,2) assms(2) by (auto simp: table_change_def)
qed

lemma flights_ok_drop: "flights_ok db fl \<Longrightarrow> flights_ok db (fl(w := None))"
  by (auto simp: flights_ok_def split: if_splits)

text \<open>The settling operations, with the same conclusion for each.\<close>

definition settled_well :: "job_db \<Rightarrow> string \<Rightarrow> job \<Rightarrow> bool \<Rightarrow> bool \<times> job \<times> job_db \<Rightarrow> bool" where
  "settled_well db w j ca out \<longleftrightarrow> table_change (settle_event ca w out) db (snd (snd out)) \<and> queue_ok (snd (snd out))
     \<and> job_id (fst (snd out)) = job_id j \<and> job_locked_by (fst (snd out)) = job_locked_by j \<and> job_max_attempts (fst (snd out)) = job_max_attempts j"

lemma reschedule_settled:
  assumes "queue_ok db" and "job_locked_by j = w" and "\<And>r. job_at db (job_id j) = Some r \<Longrightarrow> job_max_attempts j = jr_max_attempts r"
    and "out = (case reschedule (enqueues others) t now j error delay ca cap db of (res, j', db') \<Rightarrow> (res \<noteq> None, j', db'))"
  shows "settled_well db w j ca out"
proof (cases "fenced_row j db")
  case None
  then show ?thesis using assms(1) table_change_refl [of "Ev_Lost w (job_id j)" db]
    by (simp add: assms(4) reschedule_lost settled_well_def settle_event_def)
next
  case (Some row)
  note max = assms(3) [OF fenced_rowD(1) [OF Some]]
  obtain st j' db' row' where r: "reschedule (enqueues others) t now j error delay ca cap db = (Some st, j', db')"
    by (rule reschedule_outcome [OF assms(1) Some max enqueues_env])
  show ?thesis
    using table_change_reschedule [OF assms(1) Some assms(2) max r] reschedule_job [OF r]
    by (auto simp: assms(4) r settled_well_def settle_event_def)
qed

lemma finish_settled:
  assumes "queue_ok db" and "job_locked_by j = w" and "status \<in> {Job_Done, Job_Dead}" and "job_id j' = job_id j" "job_locked_by j' = job_locked_by j"
    "job_max_attempts j' = job_max_attempts j" "job_state j' = status"
    and "out = (case fenced_row j db of None \<Rightarrow> (False, j, db) | Some _ \<Rightarrow> (True, j', update_job (job_id j) (finish_row now status m) db))"
  shows "settled_well db w j ca out"
proof (cases "fenced_row j db")
  case None
  then show ?thesis using assms(1) table_change_refl [of "Ev_Lost w (job_id j)" db] by (simp add: assms(8) settled_well_def settle_event_def)
next
  case (Some r)
  have "table_change (Ev_Done w (job_id j)) db (update_job (job_id j) (finish_row now status m) db)"
    by (rule table_change_finish) (use fenced_rowD [OF Some] assms(2,3) in \<open>auto simp: fence_def\<close>)
  then show ?thesis using Some assms queue_ok_finish by (auto simp: settled_well_def settle_event_def)
qed

lemma settle_step:
  assumes "queue_ok db" and "flights_ok db fl" and "fl w = Some j" and "settled_well db w j ca out"
  shows "table_change (settle_event ca w out) db (snd (snd out))" and "queue_ok (snd (snd out))"
    and "flights_ok (snd (snd out)) (fl(w := None))" and "flights_ok (snd (snd out)) (fl(w \<mapsto> fst (snd out)))"
proof -
  show t: "table_change (settle_event ca w out) db (snd (snd out))" and "queue_ok (snd (snd out))" using assms(4) by (simp_all add: settled_well_def)
  have fl: "flights_ok (snd (snd out)) fl" by (rule flights_ok_change [OF assms(2) t])
  then show "flights_ok (snd (snd out)) (fl(w := None))" by (rule flights_ok_drop)
  show "flights_ok (snd (snd out)) (fl(w \<mapsto> fst (snd out)))"
    using fl assms(3,4) unfolding flights_ok_def settled_well_def by auto
qed

lemma flight_row:
  assumes "flights_ok db fl" and "fl w = Some j"
  shows "job_locked_by j = w" and "job_at db (job_id j) = Some r \<Longrightarrow> job_max_attempts j = jr_max_attempts r"
  using assms by (auto simp: flights_ok_def)


lemma step_ok:
  assumes "job_step s ev s'" and "queue_ok (fst s)" and "flights_ok (fst s) (snd s)"
  shows "table_change ev (fst s) (fst s') \<and> queue_ok (fst s') \<and> flights_ok (fst s') (snd s')"
  using assms
proof (induction rule: job_step.induct)
  case (step_enqueue db fl now kind payload key delay prio att)
  then show ?case using table_change_quiet [OF enqueue_quiet] enqueue_ok flights_ok_change by fastforce
next
  case (step_claim fl w now held kinds lease db j db')
  note c = table_change_claim [OF step_claim(3) [simplified] step_claim(2)]
  have "job_id j < job_next_id db'" using c(1,3) queue_okD(2) [OF step_claim(3) [simplified]] by (fastforce simp: table_change_def)
  moreover have "job_max_attempts j = jr_max_attempts r" if "job_at db' (job_id j) = Some r" for r
    using c(1,3) that unfolding table_change_def by (auto simp: row_change_def split: option.splits)
  ultimately have "flights_ok db' (fl(w \<mapsto> j))"
    using flights_ok_change [OF step_claim(4) [simplified] c(1)] c(2) unfolding flights_ok_def by auto
  moreover have "queue_ok db'" using claim_ok [OF step_claim(3) [simplified], of now held w kinds lease] step_claim(2) by simp
  ultimately show ?case using c(1) unfolding fst_conv snd_conv by blast
next
  case (step_complete fl w j out now db)
  have "settled_well db w j True out"
    by (rule finish_settled [where status = Job_Done and j' = "j\<lparr>job_state := Job_Done\<rparr>"])
      (use step_complete flight_row [OF step_complete(4) [simplified] step_complete(1)] in \<open>simp_all add: complete_def\<close>)
  from settle_step [OF step_complete(3,4,1) [simplified] this] show ?case unfolding fst_conv snd_conv by blast
next
  case (step_fail fl w j out now error db)
  have "settled_well db w j True out"
    by (rule finish_settled [where status = Job_Dead and
        j' = "j\<lparr>job_state := Job_Dead, job_last_error := Some (or_else (job_clip (Some error)) MSG_PERMANENT)\<rparr>"])
      (use step_fail flight_row [OF step_fail(4) [simplified] step_fail(1)] in \<open>simp_all add: fail_job_def Let_def\<close>)
  from settle_step [OF step_fail(3,4,1) [simplified] this] show ?case unfolding fst_conv snd_conv by blast
next
  case (step_retry fl w j out others t now error db)
  have "settled_well db w j True out"
    by (rule reschedule_settled) (use step_retry flight_row [OF step_retry(4) [simplified] step_retry(1)] in \<open>simp_all add: retry_job_def\<close>)
  from settle_step [OF step_retry(3,4,1) [simplified] this] show ?case unfolding fst_conv snd_conv by blast
next
  case (step_defer fl w j out others t now delay reason db)
  have "settled_well db w j False out"
    by (rule reschedule_settled) (use step_defer flight_row [OF step_defer(4) [simplified] step_defer(1)] in \<open>simp_all add: defer_job_def\<close>)
  from settle_step [OF step_defer(3,4,1) [simplified] this] show ?case unfolding fst_conv snd_conv by blast
next
  case (step_release fl w j out others t now db)
  have "settled_well db w j False out"
    by (rule reschedule_settled) (use step_release flight_row [OF step_release(4) [simplified] step_release(1)] in \<open>simp_all add: release_job_def\<close>)
  from settle_step [OF step_release(3,4,1) [simplified] this] show ?case unfolding fst_conv snd_conv by blast
next
  case (step_interrupt db fl w)
  then show ?case using flights_ok_drop [of db fl w] table_change_refl [of Ev_Other db, OF untouched(1)] unfolding fst_conv snd_conv by blast
next
  case (step_sweep db fl now)
  then show ?case using table_change_sweep sweep_ok flights_ok_change by fastforce
next
  case (step_purge db fl now days)
  then have "table_change Ev_Other db (snd (purge_finished now days db))" by (simp add: purge_finished_def Let_def table_change_filter)
  then show ?case using step_purge purge_ok flights_ok_change by simp
next
  case (step_cancel db fl kinds)
  then have "table_change Ev_Other db (snd (cancel_pending kinds db))"
    by (simp add: cancel_pending_def Let_def table_change_filter table_change_refl)
  then show ?case using step_cancel cancel_ok flights_ok_change by simp
next
  case (step_slot db' db fl)
  then have "table_change Ev_Other db db'" using table_change_refl [of Ev_Other db] by (simp add: table_change_def)
  moreover have "queue_ok db'" using step_slot by (simp add: queue_ok_def one_pending_per_key_def)
  ultimately show ?case using step_slot flights_ok_change by simp
qed

lemma no_jobs_ok: "queue_ok (fst no_jobs)" "flights_ok (fst no_jobs) (snd no_jobs)"
  by (simp_all add: no_jobs_def queue_ok_def one_pending_per_key_def flights_ok_def)

lemma run_ok: "job_run no_jobs evs s \<Longrightarrow> queue_ok (fst s) \<and> flights_ok (fst s) (snd s)"
  by (induction rule: job_run.induct) (use no_jobs_ok step_ok in blast)+

section \<open>Attempts\<close>

definition claims_of :: "int \<Rightarrow> job_event list \<Rightarrow> int" where
  "claims_of i evs = int (length (filter (\<lambda>ev. case ev of Ev_Claim w k \<Rightarrow> k = i | _ \<Rightarrow> False) evs))"

definition backs_of :: "int \<Rightarrow> job_event list \<Rightarrow> int" where
  "backs_of i evs = int (length (filter (\<lambda>ev. case ev of Ev_Back w k \<Rightarrow> k = i | _ \<Rightarrow> False) evs))"

lemma counts_untouched:
  "\<not> touches ev i \<Longrightarrow> claims_of i (evs @ [ev]) = claims_of i evs \<and> backs_of i (evs @ [ev]) = backs_of i evs"
  by (auto simp: claims_of_def backs_of_def touches_def split: job_event.splits)

lemma run_attempts:
  "job_run no_jobs evs s \<Longrightarrow> (case job_at (fst s) i of
      Some r \<Rightarrow> claims_of i evs = jr_attempts r + backs_of i evs
    | None \<Rightarrow> claims_of i evs \<le> 1000 + backs_of i evs \<and> (job_next_id (fst s) \<le> i \<longrightarrow> claims_of i evs = 0 \<and> backs_of i evs = 0))"
proof (induction rule: job_run.induct)
  case run_start
  then show ?case by (simp add: no_jobs_def claims_of_def backs_of_def)
next
  case (run_step evs s' ev s'')
  have ok: "queue_ok (fst s')" "flights_ok (fst s') (snd s')" using run_ok [OF run_step(1)] by simp_all
  note t = step_ok [OF run_step(2) ok]
  then have c: "table_change ev (fst s') (fst s'')" and next_id: "job_next_id (fst s') \<le> job_next_id (fst s'')" by (simp_all add: table_change_def)
  show ?case
  proof (cases "job_at (fst s') i")
    case None
    then have "\<not> touches ev i" and "\<And>r'. job_at (fst s'') i = Some r' \<Longrightarrow> job_next_id (fst s') \<le> i \<and> jr_attempts r' = 0"
      using c unfolding table_change_def by blast+
    then show ?thesis using None run_step.IH counts_untouched [of ev i evs] next_id by (auto split: option.splits)
  next
    case (Some r)
    then have "case job_at (fst s'') i of None \<Rightarrow> \<not> touches ev i | Some r' \<Rightarrow> row_change ev i r r'" using c unfolding table_change_def by blast
    moreover have "i < job_next_id (fst s')" "jr_attempts r \<le> 1000" using queue_okD(2,3) [OF ok(1) Some] by (auto simp: job_row_ok_def)
    moreover have "claims_of i evs = jr_attempts r + backs_of i evs" using run_step.IH Some by simp
    ultimately show ?thesis using counts_untouched [of ev i evs] next_id
      by (cases ev) (auto simp: row_change_def touches_def claims_of_def backs_of_def split: option.splits if_splits)
  qed
qed


section \<open>Properties\<close>

text \<open>
  (C31) The attempts of a job are the claims that were not handed back. Whatever the workers do, in every run of the
  queue from the empty table the table satisfies its invariant (rows are well formed, pending jobs hold no lease, at
  most one job is pending per dedupe key), the stored number of attempts of a job is the number of times it was
  claimed less the number of times it was deferred or released, and it never exceeds \<open>max_attempts\<close>; a job whose
  row is gone was claimed at most 1000 times more often than handed back. So no crash, take-over or race lets
  a failing job run for ever.
\<close>

theorem attempts_count_claims:
  assumes "job_run no_jobs evs (db, fl)"
  shows "queue_ok db \<and> (case job_at db i of
      Some r \<Rightarrow> jr_attempts r = claims_of i evs - backs_of i evs \<and> claims_of i evs \<le> jr_max_attempts r + backs_of i evs
    | None \<Rightarrow> claims_of i evs \<le> 1000 + backs_of i evs)"
  using run_ok [OF assms] run_attempts [OF assms, of i] queue_okD(3) [of db i]
  by (auto simp: job_row_ok_def split: option.splits)

lemma running_claim:
  assumes "job_run no_jobs evs s" and "job_at (fst s) i = Some r" and "jr_status r = Job_Running" and "jr_locked_by r = Some w"
  shows "\<exists>pre post. evs = pre @ Ev_Claim w i # post \<and> (\<forall>ev \<in> set post. \<not> touches ev i)"
  using assms
proof (induction arbitrary: r rule: job_run.induct)
  case run_start
  then show ?case by (simp add: no_jobs_def)
next
  case (run_step evs s' ev s'')
  have ok: "queue_ok (fst s')" "flights_ok (fst s') (snd s')" using run_ok [OF run_step(1)] by simp_all
  have c: "table_change ev (fst s') (fst s'')" using step_ok [OF run_step(2) ok] by simp
  obtain r0 where r0: "job_at (fst s') i = Some r0"
    using c run_step.prems(1,2) unfolding table_change_def by (cases "job_at (fst s') i") auto
  then have change: "row_change ev i r0 r" using c run_step.prems(1) unfolding table_change_def by (metis option.simps(5))
  show ?case
  proof (cases "touches ev i")
    case True
    then have "ev = Ev_Claim w i" using change run_step.prems(2,3) by (cases ev) (auto simp: row_change_def touches_def)
    then show ?thesis by (intro exI [of _ evs] exI [of _ "[]"]) simp
  next
    case False
    then obtain pre post where "evs = pre @ Ev_Claim w i # post" "\<forall>ev \<in> set post. \<not> touches ev i"
      using run_step.IH [OF r0] change run_step.prems(2,3) by (auto simp: row_change_def)
    then show ?thesis using False by (intro exI [of _ pre] exI [of _ "post @ [ev]"]) simp
  qed
qed

lemma settle_running:
  assumes "job_step s ev s'" and "queue_ok (fst s)" and "flights_ok (fst s) (snd s)" and "ev \<in> {Ev_Done w i, Ev_Retry w i, Ev_Back w i}"
  shows "\<exists>r. job_at (fst s) i = Some r \<and> jr_status r = Job_Running \<and> jr_locked_by r = Some w"
proof -
  have c: "table_change ev (fst s) (fst s')" using step_ok [OF assms(1-3)] by simp
  have "touches ev i" using assms(4) by (auto simp: touches_def)
  then obtain r where r: "job_at (fst s) i = Some r" using c unfolding table_change_def by (cases "job_at (fst s) i") auto
  then obtain r' where "row_change ev i r r'" using c \<open>touches ev i\<close> unfolding table_change_def by (metis option.case_eq_if)
  then show ?thesis using r assms(4) \<open>touches ev i\<close> by (auto simp: row_change_def)
qed

text \<open>
  (C32) An outcome is recorded at most once per claim, and only by the latest claimant. Whenever in a run a worker
  succeeds in completing, failing, retrying, deferring or releasing a job, that worker made the latest claim
  of the job, and the job was neither claimed again nor settled since: a worker that lost its lease to another,
  or that settles the same job twice, is always refused by the fence.
\<close>

theorem outcome_by_latest_claimant:
  assumes "job_run no_jobs evs s" and "job_step s ev s'" and "ev \<in> {Ev_Done w i, Ev_Retry w i, Ev_Back w i}"
  shows "\<exists>pre post. evs = pre @ Ev_Claim w i # post \<and> (\<forall>e \<in> set post. \<not> touches e i)"
proof -
  obtain r where "job_at (fst s) i = Some r" "jr_status r = Job_Running" "jr_locked_by r = Some w"
    using settle_running [OF assms(2) _ _ assms(3)] run_ok [OF assms(1)] by blast
  then show ?thesis by (rule running_claim [OF assms(1)])
qed

text \<open>
  A retry, deferral or release does what the queue promises, even while other sessions enqueue. With a valid
  fence the row goes back to pending (a retry after the backoff with the attempt kept, a deferral with the attempt
  returned), or dies (a retry when the attempts are used up, a deferral after a day), or is closed as superseded;
  then, and only then, a pending job with the same key and at least the same urgency is waiting. The invariant holds
  afterwards, and without a valid fence nothing changes.
\<close>

theorem reschedule_keeps_work:
  assumes "queue_ok db" and "\<And>r. job_at db (job_id j) = Some r \<Longrightarrow> job_max_attempts j = jr_max_attempts r"
  shows "case fenced_row j db of
      None \<Rightarrow> reschedule (enqueues others) t now j error delay ca cap db = (None, j, db)
    | Some row \<Rightarrow> \<exists>st j' db' row'. reschedule (enqueues others) t now j error delay ca cap db = (Some st, j', db')
        \<and> queue_ok db' \<and> job_at db' (job_id j) = Some row' \<and> rescheduled t now error delay ca cap (job_id j) row row' st
        \<and> (st = Job_Superseded \<longrightarrow> twin_waits row (job_id j) db')"
proof (cases "fenced_row j db")
  case None
  then show ?thesis by (simp add: reschedule_lost)
next
  case (Some row)
  obtain st j' db' row' where r: "reschedule (enqueues others) t now j error delay ca cap db = (Some st, j', db')"
    "queue_ok db'" "job_at db' (job_id j) = Some row'" "rescheduled t now error delay ca cap (job_id j) row row' st"
    by (rule reschedule_outcome [OF assms(1) Some assms(2) [OF fenced_rowD(1) [OF Some]] enqueues_env])
  moreover have "twin_waits row (job_id j) db'" if "st = Job_Superseded" using reschedule_twin [OF assms(1) Some] r(1) that by blast
  ultimately show ?thesis using Some by auto
qed

text \<open>
  (C33) No job is overlooked. In a table that satisfies the invariant, for every job that is due (pending past its
  time, or running with an expired lease) a claim by a worker of its kind returns a job at least as urgent, in
  the order of priority, time and id, unless the job is held by another session or waits for the rate slot; and a
  running job whose lease expired with its attempts used up is marked dead by the next sweep.
\<close>

theorem due_job_is_served:
  assumes "queue_ok db" and "job_at db i = Some r" and "i \<notin> set held" and "jr_kind r \<in> set kinds"
    and "jr_kind r \<noteq> ''index'' \<or> slot_free now db"
    and "jr_status r = Job_Pending \<and> jr_run_after r \<le> now \<or> jr_status r = Job_Running \<and> (\<exists>u < now. jr_locked_until r = Some u)"
  shows "(\<exists>j db' s. claim now held w kinds lease db = (Some j, db') \<and> job_at db (job_id j) = Some s \<and> due now s
        \<and> urgency (job_id j, s) \<le> urgency (i, r) \<and> job_attempts j = jr_attempts s + 1)
    \<or> (\<exists>r'. job_at (snd (sweep_expired now db)) i = Some r' \<and> jr_status r' = Job_Dead)"
proof (cases "due now r")
  case True
  have k: "jr_kind r \<in> set (wanted_kinds kinds)" using assms(4) queue_okD(3) [OF assms(1,2)] by (simp add: wanted_kinds_def job_row_ok_def)
  then have cl: "claimable now (wanted_kinds kinds) db r" using True assms(5) by (simp add: claimable_def)
  then have "(i, r) \<in> set (claim_candidates now held (wanted_kinds kinds) db)"
    using assms(2,3) by (auto simp: claim_candidates_def dest: map_of_SomeD)
  then obtain k' s rest where c: "claim_candidates now held (wanted_kinds kinds) db = (k', s) # rest"
    by (cases "claim_candidates now held (wanted_kinds kinds) db") auto
  note best = claim_candidate [OF c assms(1)]
  have "wanted_kinds kinds \<noteq> []" using k by auto
  then show ?thesis using c best(1,2) best(4) [OF assms(2) cl assms(3)]
    by (auto simp: claim_def Let_def job_from_row_def claimable_def)
next
  case False
  then have "expired_for_good now r" using assms(6) by (auto simp: due_def expired_for_good_def)
  then show ?thesis using assms(2) by (simp add: sweep_expired_def Let_def tmap_lookup)
qed


section \<open>A run with a lost lease\<close>

text \<open>Worker \<open>a\<close> claims a job and is too slow; \<open>b\<close> takes it over and defers it; \<open>a\<close> is refused.\<close>

definition run_q1 :: job_db where
  "run_q1 = snd (enqueue 0 ''evaluate'' (JObj []) (Some ''k'') None 100 8 (fst no_jobs))"

definition run_a :: "job option \<times> job_db" where
  "run_a = claim 1 [] ''a'' [''evaluate''] (Some 10) run_q1"

definition run_b :: "job option \<times> job_db" where
  "run_b = claim 20 [] ''b'' [''evaluate''] (Some 10) (snd run_a)"

definition run_back :: "bool \<times> job \<times> job_db" where
  "run_back = defer_job (enqueues (\<lambda>_. [])) 21 21 (the (fst run_b)) (Some 5) ''Warten'' (snd run_b)"

definition run_fl :: flights where
  "run_fl = (\<lambda>_. None)(''a'' := Some (the (fst run_a)), ''b'' := Some (the (fst run_b)))"

lemma run_a_eq: "claim 1 [] ''a'' [''evaluate''] (Some 10) run_q1 = (Some (the (fst run_a)), snd run_a)"
proof -
  have "fst run_a \<noteq> None" by code_simp
  then show ?thesis by (metis option.collapse prod.collapse run_a_def)
qed

lemma run_b_eq: "claim 20 [] ''b'' [''evaluate''] (Some 10) (snd run_a) = (Some (the (fst run_b)), snd run_b)"
proof -
  have "fst run_b \<noteq> None" by code_simp
  then show ?thesis by (metis option.collapse prod.collapse run_b_def)
qed

lemma run_to_b: "job_run no_jobs [Ev_Other, Ev_Claim ''a'' 1, Ev_Claim ''b'' 1] (snd run_b, run_fl)"
proof -
  have "job_step no_jobs Ev_Other (run_q1, snd no_jobs)" using step_enqueue [of "fst no_jobs" "snd no_jobs"] by (simp add: run_q1_def)
  from run_step [OF run_start this] have r1: "job_run no_jobs [Ev_Other] (run_q1, snd no_jobs)" by simp
  have "job_id (the (fst run_a)) = 1" "job_id (the (fst run_b)) = 1" by code_simp+
  then have s2: "job_step (run_q1, snd no_jobs) (Ev_Claim ''a'' 1) (snd run_a, (snd no_jobs)(''a'' \<mapsto> the (fst run_a)))"
    and s3: "job_step (snd run_a, (snd no_jobs)(''a'' \<mapsto> the (fst run_a))) (Ev_Claim ''b'' 1)
      (snd run_b, (snd no_jobs)(''a'' \<mapsto> the (fst run_a), ''b'' \<mapsto> the (fst run_b)))"
    using step_claim [OF _ run_a_eq, of "snd no_jobs"] step_claim [OF _ run_b_eq, of "(snd no_jobs)(''a'' \<mapsto> the (fst run_a))"]
    by (simp_all add: no_jobs_def)
  from run_step [OF run_step [OF r1 s2] s3] show ?thesis by (simp add: run_fl_def no_jobs_def)
qed

lemma run_b_back: "job_step (snd run_b, run_fl) (Ev_Back ''b'' 1) (snd (snd run_back), run_fl(''b'' := None))"
proof -
  have "settle_event False ''b'' run_back = Ev_Back ''b'' 1" by code_simp
  then show ?thesis using step_defer [of run_fl "''b''" "the (fst run_b)" run_back "\<lambda>_. []" 21 21 "Some 5" "''Warten''" "snd run_b"]
    by (simp add: run_fl_def run_back_def)
qed

theorem attempts_count_claims_witness:
  "job_run no_jobs [Ev_Other, Ev_Claim ''a'' 1, Ev_Claim ''b'' 1, Ev_Back ''b'' 1] (snd (snd run_back), run_fl(''b'' := None))
   \<and> map_option jr_attempts (job_at (snd (snd run_back)) 1) = Some 1
   \<and> (case job_at (snd (snd run_back)) 1 of Some r \<Rightarrow> jr_attempts r = 2 - 1 | None \<Rightarrow> False)"
proof -
  have run: "job_run no_jobs [Ev_Other, Ev_Claim ''a'' 1, Ev_Claim ''b'' 1, Ev_Back ''b'' 1] (snd (snd run_back), run_fl(''b'' := None))"
    using run_step [OF run_to_b run_b_back] by simp
  have at: "map_option jr_attempts (job_at (snd (snd run_back)) 1) = Some 1" by code_simp
  have "claims_of 1 [Ev_Other, Ev_Claim ''a'' 1, Ev_Claim ''b'' 1, Ev_Back ''b'' 1] = 2"
    "backs_of 1 [Ev_Other, Ev_Claim ''a'' 1, Ev_Claim ''b'' 1, Ev_Back ''b'' 1] = 1" by (simp_all add: claims_of_def backs_of_def)
  then show ?thesis using run at attempts_count_claims [OF run, of 1] by (auto split: option.splits)
qed

theorem outcome_by_latest_claimant_witness:
  "job_step (snd run_b, run_fl) (Ev_Back ''b'' 1) (snd (snd run_back), run_fl(''b'' := None))
   \<and> settle_event True ''a'' (complete 22 (the (fst run_a)) (snd (snd run_back))) = Ev_Lost ''a'' 1
   \<and> (\<exists>pre post. [Ev_Other, Ev_Claim ''a'' 1, Ev_Claim ''b'' 1] = pre @ Ev_Claim ''b'' 1 # post)"
proof -
  have "settle_event True ''a'' (complete 22 (the (fst run_a)) (snd (snd run_back))) = Ev_Lost ''a'' 1" by code_simp
  then show ?thesis using run_b_back outcome_by_latest_claimant [OF run_to_b run_b_back, of "''b''" 1] by blast
qed

theorem reschedule_keeps_work_witness:
  "queue_ok (snd run_b) \<and> fenced_row (the (fst run_b)) (snd run_b) \<noteq> None
   \<and> (\<exists>st j' db'. reschedule (enqueues (\<lambda>n. if n = 1 then [\<lparr>rq_now = 21, rq_kind = ''evaluate'', rq_payload = JObj [], rq_key = Some ''k'',
        rq_delay = None, rq_priority = 100, rq_max_attempts = 8\<rparr>] else [])) 21 21 (the (fst run_b)) None 5 False True (snd run_b) = (Some st, j', db') \<and> queue_ok db')"
proof -
  have ok: "queue_ok (snd run_b)" using run_ok [OF run_to_b] by simp
  have "map_option jr_max_attempts (job_at (snd run_b) (job_id (the (fst run_b)))) = Some (job_max_attempts (the (fst run_b)))" by code_simp
  then have max: "job_max_attempts (the (fst run_b)) = jr_max_attempts r" if "job_at (snd run_b) (job_id (the (fst run_b))) = Some r" for r
    using that by simp
  have "fenced_row (the (fst run_b)) (snd run_b) \<noteq> None" by code_simp
  then show ?thesis using ok reschedule_keeps_work [OF ok max,
      of "\<lambda>n. if n = 1 then [\<lparr>rq_now = 21, rq_kind = ''evaluate'', rq_payload = JObj [], rq_key = Some ''k'',
        rq_delay = None, rq_priority = 100, rq_max_attempts = 8\<rparr>] else []" 21 21 None 5 False True]
    by (auto split: option.splits)
qed

theorem due_job_is_served_witness:
  "\<exists>j db' s. claim 20 [] ''b'' [''evaluate''] (Some 10) (snd run_a) = (Some j, db') \<and> job_at (snd run_a) (job_id j) = Some s \<and> due 20 s"
proof -
  have ok: "queue_ok (snd run_a)"
    using claim_ok [of run_q1] enqueue_ok [OF no_jobs_ok(1)] by (simp add: run_a_def run_q1_def)
  let ?r = "the (job_at (snd run_a) 1)"
  have at: "job_at (snd run_a) 1 = Some ?r"
  proof -
    have "job_at (snd run_a) 1 \<noteq> None" by code_simp
    then show ?thesis by simp
  qed
  have kind: "jr_kind ?r \<in> set [''evaluate'']" "jr_kind ?r \<noteq> ''index''" "jr_status ?r = Job_Running" "jr_locked_until ?r = Some 11"
    "jr_status (the (job_at (snd (sweep_expired 20 (snd run_a))) 1)) \<noteq> Job_Dead" by code_simp+
  then show ?thesis using due_job_is_served [OF ok at, of "[]" "[''evaluate'']" 20 "''b''" "Some 10"] by auto
qed

end
