(* ===== verification/Job_Worker.thy ===== *)
theory Job_Worker
  imports Job_Runs
begin

text \<open>
  The worker threads of the experiments module (\<open>experiments/jobs.py\<close>, class \<open>JobWorker\<close> and \<open>stop_workers\<close>) and
  the spacing of the shared rate slot. A handler and an on-dead hook are arguments: what they do to the tables
  and whether and what they raise. Connections, waiting and logging are left out.
\<close>

section \<open>One job\<close>

datatype handler_result =
    Handler_Ok
  | Raise_RetryLater "rat option" string
  | Raise_Permanent string bool
  | Raise_Experiments string
  | Raise_Other bool

type_synonym handler = "job \<Rightarrow> job_db \<Rightarrow> handler_result \<times> job_db"
type_synonym dead_hook = "job \<Rightarrow> job_db \<Rightarrow> job_db"

definition MSG_NO_HANDLER :: string where
  "MSG_NO_HANDLER = ''F'' @ [CHR 0xFC] @ ''r diese Auftragsart gibt es keine Bearbeitung.''"

definition retry_later_delay :: "rat option \<Rightarrow> rat" where
  "retry_later_delay delay_seconds = (let delay = (case delay_seconds of Some d \<Rightarrow> d | None \<Rightarrow> 60) in max 0 (min MAX_DELAY_SECONDS delay))"

text \<open>
  \<open>_process\<close> up to the on-dead hook: whether the hook is due, whether the interrupt is raised again, the job
  object and the tables.
\<close>

definition settle_result ::
    "(nat \<Rightarrow> job_db \<Rightarrow> job_db) \<Rightarrow> rat \<Rightarrow> rat \<Rightarrow> handler_result \<Rightarrow> job \<Rightarrow> job_db \<Rightarrow> bool \<times> bool \<times> job \<times> job_db" where
  "settle_result env t now result j db =
     (case result of
        Handler_Ok \<Rightarrow> (case complete now j db of (res, j', db') \<Rightarrow> (False, False, j', db'))
      | Raise_RetryLater delay reason \<Rightarrow>
          (case reschedule env t now j (job_clip (Some reason)) (retry_later_delay delay) False True db of
             (res, j', db') \<Rightarrow> (res = Some Job_Dead, False, j', db'))
      | Raise_Permanent message handled \<Rightarrow>
          (case fail_job now j (or_else (job_clip (Some message)) MSG_PERMANENT) db of (res, j', db') \<Rightarrow> (res \<and> \<not> handled, False, j', db'))
      | Raise_Experiments message \<Rightarrow>
          (case retry_job env t now j message db of (res, j', db') \<Rightarrow> (res \<and> job_state j' = Job_Dead, False, j', db'))
      | Raise_Other keyboard_interrupt \<Rightarrow>
          (case retry_job env t now j MSG_UNEXPECTED db of
             (res, j', db') \<Rightarrow> (res \<and> job_state j' = Job_Dead, keyboard_interrupt, j', db')))"

definition settle_job ::
    "(string, handler) table \<Rightarrow> (nat \<Rightarrow> job_db \<Rightarrow> job_db) \<Rightarrow> rat \<Rightarrow> rat \<Rightarrow> job \<Rightarrow> job_db \<Rightarrow> bool \<times> bool \<times> job \<times> job_db" where
  "settle_job handlers env t now j db =
     (case map_of handlers (job_kind j) of
        None \<Rightarrow> (case fail_job now j MSG_NO_HANDLER db of (res, j', db') \<Rightarrow> (res, False, j', db'))
      | Some h \<Rightarrow> (case h j db of (result, db1) \<Rightarrow> settle_result env t now result j db1))"

text \<open>A hook that raises is logged; what it committed before stays.\<close>

definition run_on_dead :: "(string, dead_hook) table \<Rightarrow> job \<Rightarrow> job_db \<Rightarrow> job_db" where
  "run_on_dead on_dead j db = (case map_of on_dead (job_kind j) of None \<Rightarrow> db | Some hook \<Rightarrow> hook j db)"

definition process_job ::
    "(string, handler) table \<Rightarrow> (string, dead_hook) table \<Rightarrow> (nat \<Rightarrow> job_db \<Rightarrow> job_db) \<Rightarrow> rat \<Rightarrow> rat \<Rightarrow> job \<Rightarrow> job_db \<Rightarrow> bool \<times> job_db" where
  "process_job handlers on_dead env t now j db =
     (case settle_job handlers env t now j db of
        (notify, reraise, j', db') \<Rightarrow> (reraise, if notify then run_on_dead on_dead j' db' else db'))"

record worker_cfg =
  wk_id :: string
  wk_kinds :: "string list"
  wk_lease :: int
  wk_handlers :: "(string, handler) table"
  wk_on_dead :: "(string, dead_hook) table"

definition worker_init ::
    "string \<Rightarrow> (string, handler) table \<Rightarrow> (string, dead_hook) table \<Rightarrow> string list \<Rightarrow> rat option \<Rightarrow> worker_cfg" where
  "worker_init ident handlers on_dead kinds lease_seconds =
     \<lparr>wk_id = ident, wk_kinds = wanted_kinds kinds, wk_lease = \<lfloor>finite_seconds lease_seconds 600 1 86400\<rfloor>,
      wk_handlers = handlers, wk_on_dead = on_dead\<rparr>"

definition run_once ::
    "worker_cfg \<Rightarrow> (nat \<Rightarrow> job_db \<Rightarrow> job_db) \<Rightarrow> rat \<Rightarrow> int list \<Rightarrow> rat \<Rightarrow> rat \<Rightarrow> job_db \<Rightarrow> bool \<times> job_db" where
  "run_once cfg env claim_now held t now db =
     (case claim claim_now held (wk_id cfg) (wk_kinds cfg) (Some (of_int (wk_lease cfg))) db of
        (None, db') \<Rightarrow> (False, db')
      | (Some j, db') \<Rightarrow> (True, snd (process_job (wk_handlers cfg) (wk_on_dead cfg) env t now j db')))"

section \<open>Housekeeping and shutdown\<close>

text \<open>Each step of \<open>run_maintenance\<close> may fail on its own; the others still run.\<close>

datatype maintenance_step = M_Sweep | M_Slots | M_Hook | M_Purge

definition run_maintenance ::
    "worker_cfg \<Rightarrow> (maintenance_step \<Rightarrow> bool) \<Rightarrow> (job_db \<Rightarrow> job_db) option \<Rightarrow> rat \<Rightarrow> job_db \<Rightarrow> job_db" where
  "run_maintenance cfg fails hook now db =
     (let db1 = (if fails M_Sweep then db
                 else case sweep_expired now db of (swept, db') \<Rightarrow> fold (run_on_dead (wk_on_dead cfg)) swept db');
          db2 = (if fails M_Slots then db1 else snd (reset_stuck_rate_slots now 300 db1));
          db3 = (case hook of None \<Rightarrow> db2 | Some f \<Rightarrow> if fails M_Hook then db2 else f db2)
      in if fails M_Purge then db3 else snd (purge_finished now 7 db3))"

text \<open>\<open>release_unfinished\<close>: the job in hand, if any, is released over a connection of its own.\<close>

definition release_unfinished ::
    "bool \<Rightarrow> (nat \<Rightarrow> job_db \<Rightarrow> job_db) \<Rightarrow> rat \<Rightarrow> rat \<Rightarrow> job option \<Rightarrow> job_db \<Rightarrow> bool \<times> job_db" where
  "release_unfinished db_ok env t now current db =
     (case current of None \<Rightarrow> (False, db)
      | Some j \<Rightarrow> if \<not> db_ok then (False, db) else (case release_job env t now j db of (res, _, db') \<Rightarrow> (res, db')))"

text \<open>The workers still alive after the join, each with the job it has in hand.\<close>

fun stop_workers :: "(nat \<Rightarrow> job_db \<Rightarrow> job_db) \<Rightarrow> rat \<Rightarrow> rat \<Rightarrow> (bool \<times> job option) list \<Rightarrow> job_db \<Rightarrow> int \<times> job_db" where
  "stop_workers env t now [] db = (0, db)"
| "stop_workers env t now ((db_ok, current) # ws) db =
     (case release_unfinished db_ok env t now current db of (res, db') \<Rightarrow>
        (case stop_workers env t now ws db' of (n, db'') \<Rightarrow> (n + (if res then 1 else 0), db'')))"


section \<open>Every job is settled\<close>

definition result_of :: "(string, handler) table \<Rightarrow> job \<Rightarrow> job_db \<Rightarrow> handler_result option \<times> job_db" where
  "result_of handlers j db = (case map_of handlers (job_kind j) of None \<Rightarrow> (None, db) | Some h \<Rightarrow> (case h j db of (r, db1) \<Rightarrow> (Some r, db1)))"

text \<open>Where a job ends by what its handler did.\<close>

definition may_become :: "handler_result option \<Rightarrow> job_row \<Rightarrow> job_row \<Rightarrow> bool" where
  "may_become result row row' \<longleftrightarrow> (case result of
      None \<Rightarrow> jr_status row' = Job_Dead
    | Some Handler_Ok \<Rightarrow> jr_status row' = Job_Done
    | Some (Raise_Permanent _ _) \<Rightarrow> jr_status row' = Job_Dead
    | Some (Raise_RetryLater _ _) \<Rightarrow> jr_status row' = Job_Pending \<and> jr_attempts row' = jr_attempts row - 1 \<or> jr_status row' \<in> {Job_Done, Job_Dead}
    | Some _ \<Rightarrow> jr_status row' = Job_Pending \<and> jr_attempts row' = jr_attempts row \<and> jr_attempts row < jr_max_attempts row
        \<or> jr_status row' = Job_Done \<or> jr_status row' = Job_Dead \<and> jr_attempts row = jr_max_attempts row)"

lemma settle_result_lost:
  "fenced_row j db = None \<Longrightarrow> settle_result env t now result j db = (False, result = Raise_Other True, j, db)"
  by (cases result) (auto simp: settle_result_def complete_def fail_job_def retry_job_def reschedule_lost Let_def)

lemma reschedule_status:
  assumes "rescheduled t now error delay ca cap i row row' st" and "1 \<le> jr_attempts row"
  shows "st = Job_Dead \<longleftrightarrow> jr_status row' = Job_Dead" and "jr_status row' \<in> {Job_Pending, Job_Done, Job_Dead}"
    and "jr_status row' = Job_Pending \<Longrightarrow> jr_attempts row' = (if ca then jr_attempts row else jr_attempts row - 1)"
    and "jr_status row' = Job_Pending \<Longrightarrow> ca \<Longrightarrow> jr_attempts row < jr_max_attempts row"
    and "jr_status row' = Job_Dead \<Longrightarrow> ca \<Longrightarrow> jr_attempts row = jr_max_attempts row"
  using assms by (auto simp: rescheduled_def pending_row_def split: job_status.splits if_splits)

lemma settle_result_settles:
  assumes ok: "queue_ok db" and row: "fenced_row j db = Some row" and max: "job_max_attempts j = jr_max_attempts row"
    and out: "settle_result (enqueues others) t now result j db = (notify, reraise, j', db')"
  shows "queue_ok db' \<and> (\<exists>row'. job_at db' (job_id j) = Some row' \<and> may_become (Some result) row row'
    \<and> (notify \<longleftrightarrow> jr_status row' = Job_Dead \<and> (\<forall>m. result \<noteq> Raise_Permanent m True)))"
proof -
  note at = fenced_rowD [OF row]
  have att: "1 \<le> jr_attempts row" using at(2) queue_okD(3) [OF ok at(1)] by (simp add: fence_def job_row_ok_def)
  have finish: "queue_ok (update_job (job_id j) (finish_row now st m) db)" if "st \<in> {Job_Done, Job_Dead}" for st m using queue_ok_finish [OF ok that] .
  show ?thesis
  proof (cases result)
    case Handler_Ok
    then show ?thesis using out row at(1) finish by (auto simp: settle_result_def complete_def may_become_def)
  next
    case (Raise_Permanent m handled)
    then show ?thesis using out row at(1) finish by (auto simp: settle_result_def fail_job_def Let_def may_become_def)
  next
    case (Raise_RetryLater d reason)
    let ?e = "job_clip (Some reason)" and ?d = "retry_later_delay d"
    obtain st j2 db2 row' where r: "reschedule (enqueues others) t now j ?e ?d False True db = (Some st, j2, db2)"
      "queue_ok db2" "job_at db2 (job_id j) = Some row'" "rescheduled t now ?e ?d False True (job_id j) row row' st"
      by (rule reschedule_outcome [OF ok row max enqueues_env])
    then show ?thesis using out Raise_RetryLater reschedule_status [OF r(4) att] by (auto simp: settle_result_def may_become_def)
  next
    case (Raise_Experiments m)
    let ?e = "Some (or_else (job_clip (Some m)) MSG_UNEXPECTED)"
    obtain st j2 db2 row' where r: "reschedule (enqueues others) t now j ?e 0 True True db = (Some st, j2, db2)"
      "queue_ok db2" "job_at db2 (job_id j) = Some row'" "rescheduled t now ?e 0 True True (job_id j) row row' st"
      by (rule reschedule_outcome [OF ok row max enqueues_env])
    have "job_state j2 = st" by (rule table_change_reschedule(3) [OF ok row refl max r(1)])
    then show ?thesis using out Raise_Experiments r reschedule_status [OF r(4) att] by (auto simp: settle_result_def retry_job_def may_become_def)
  next
    case (Raise_Other kb)
    let ?e = "Some (or_else (job_clip (Some MSG_UNEXPECTED)) MSG_UNEXPECTED)"
    obtain st j2 db2 row' where r: "reschedule (enqueues others) t now j ?e 0 True True db = (Some st, j2, db2)"
      "queue_ok db2" "job_at db2 (job_id j) = Some row'" "rescheduled t now ?e 0 True True (job_id j) row row' st"
      by (rule reschedule_outcome [OF ok row max enqueues_env])
    have "job_state j2 = st" by (rule table_change_reschedule(3) [OF ok row refl max r(1)])
    then show ?thesis using out Raise_Other r reschedule_status [OF r(4) att] by (auto simp: settle_result_def retry_job_def may_become_def)
  qed
qed

text \<open>
  (C34) A worker settles every job it still owns, whatever the handler raises. When the handler is done (or there is
  none) and the fence still holds, the job is no longer running: done after success, dead after a permanent error
  or without a handler, pending again with the attempt kept after an error while attempts remain and dead when they
  are used up, pending with the attempt returned after a request to wait; the on-dead hook runs exactly when the job
  died and the handler has not reported that itself. When the lease was lost meanwhile, nothing is written and no
  hook runs.
\<close>

theorem worker_settles_job:
  assumes "settle_job handlers (enqueues others) t now j db = (notify, reraise, j', db')"
    and "result_of handlers j db = (result, after)" and "queue_ok after"
    and "\<And>r. job_at after (job_id j) = Some r \<Longrightarrow> job_max_attempts j = jr_max_attempts r"
  shows "case fenced_row j after of
      None \<Rightarrow> \<not> notify \<and> db' = after
    | Some row \<Rightarrow> queue_ok db' \<and> fenced_row j db' = None \<and> (\<exists>row'. job_at db' (job_id j) = Some row' \<and> may_become result row row'
        \<and> (notify \<longleftrightarrow> jr_status row' = Job_Dead \<and> (\<forall>m. result \<noteq> Some (Raise_Permanent m True))))"
proof (cases "fenced_row j after")
  case None
  then show ?thesis using assms(1,2) settle_result_lost
    by (auto simp: settle_job_def result_of_def fail_job_def Let_def split: option.splits prod.splits)
next
  case (Some row)
  note at = fenced_rowD [OF Some]
  have "queue_ok db' \<and> (\<exists>row'. job_at db' (job_id j) = Some row' \<and> may_become result row row'
        \<and> (notify \<longleftrightarrow> jr_status row' = Job_Dead \<and> (\<forall>m. result \<noteq> Some (Raise_Permanent m True))))"
  proof (cases "map_of handlers (job_kind j)")
    case None
    then have "after = db" "result = None" using assms(2) by (simp_all add: result_of_def)
    then show ?thesis using assms(1,3) None Some at(1) queue_ok_finish
      by (auto simp: settle_job_def fail_job_def Let_def may_become_def)
  next
    case h: (Some h)
    then obtain res where res: "h j db = (res, after)" "result = Some res" using assms(2) by (auto simp: result_of_def split: prod.splits)
    then show ?thesis
      using settle_result_settles [OF assms(3) Some assms(4) [OF at(1)]] assms(1) h by (auto simp: settle_job_def)
  qed
  moreover have "jr_status row' \<noteq> Job_Running" if "may_become result row row'" for row'
    using that by (auto simp: may_become_def split: option.splits handler_result.splits)
  ultimately show ?thesis using Some by (auto simp: fenced_row_def fence_def)
qed

theorem worker_settles_job_witness:
  "fenced_row (the (fst run_b)) (snd run_b) \<noteq> None
   \<and> fst (settle_job [(''evaluate'', \<lambda>j db. (Raise_Permanent ''weg'' False, db))] (enqueues (\<lambda>_. [])) 21 21 (the (fst run_b)) (snd run_b))
   \<and> (\<exists>row'. job_at (snd (snd (snd (settle_job [(''evaluate'', \<lambda>j db. (Raise_Permanent ''weg'' False, db))]
        (enqueues (\<lambda>_. [])) 21 21 (the (fst run_b)) (snd run_b))))) 1 = Some row' \<and> jr_status row' = Job_Dead)"
proof -
  let ?h = "[(''evaluate'', \<lambda>j db. (Raise_Permanent ''weg'' False, db))] :: (string, handler) table"
  let ?out = "settle_job ?h (enqueues (\<lambda>_. [])) 21 21 (the (fst run_b)) (snd run_b)"
  have ok: "queue_ok (snd run_b)" using run_ok [OF run_to_b] by simp
  have id: "job_id (the (fst run_b)) = 1" "job_kind (the (fst run_b)) = ''evaluate''" "fenced_row (the (fst run_b)) (snd run_b) \<noteq> None" by code_simp+
  have "map_option jr_max_attempts (job_at (snd run_b) (job_id (the (fst run_b)))) = Some (job_max_attempts (the (fst run_b)))" by code_simp
  then have max: "job_max_attempts (the (fst run_b)) = jr_max_attempts r" if "job_at (snd run_b) (job_id (the (fst run_b))) = Some r" for r
    using that by simp
  have res: "result_of ?h (the (fst run_b)) (snd run_b) = (Some (Raise_Permanent ''weg'' False), snd run_b)" by (simp add: result_of_def id(2))
  obtain notify reraise j' db' where out: "?out = (notify, reraise, j', db')" by (cases ?out)
  show ?thesis using worker_settles_job [OF out res ok max] id(1,3) by (auto simp: out may_become_def split: option.splits)
qed

section \<open>The rate slot spaces its takers\<close>

text \<open>The statements on one slot, in the order the database executes them, and the times at which it was taken.\<close>

datatype slot_op = Slot_Take rat | Slot_Reset rat | Slot_Ensure rat

primrec slot_time :: "slot_op \<Rightarrow> rat" where
  "slot_time (Slot_Take t) = t"
| "slot_time (Slot_Reset t) = t"
| "slot_time (Slot_Ensure t) = t"

fun slot_takes :: "string \<Rightarrow> rat \<Rightarrow> slot_op list \<Rightarrow> job_db \<Rightarrow> rat list" where
  "slot_takes name interval [] db = []"
| "slot_takes name interval (Slot_Take t # ops) db =
     (case take_update t name interval db of
        None \<Rightarrow> slot_takes name interval ops db
      | Some db' \<Rightarrow> t # slot_takes name interval ops db')"
| "slot_takes name interval (Slot_Reset t # ops) db = slot_takes name interval ops (snd (reset_stuck_rate_slots t 300 db))"
| "slot_takes name interval (Slot_Ensure t # ops) db = slot_takes name interval ops (ensure_rate_slot t name db)"

lemma slot_interval_bounds: "0 < slot_interval n" "slot_interval n \<le> 60"
  by (auto simp: slot_interval_def field_simps split: option.splits)

lemma slot_takes_spaced:
  assumes "map_of (rate_slots db) name = Some nx" and "nx \<le> T + 60" and "sorted (T # map slot_time ops)" and "interval = slot_interval n"
  shows "(\<forall>g \<in> set (slot_takes name interval ops db). nx \<le> g) \<and> successively (\<lambda>a b. a + interval \<le> b) (slot_takes name interval ops db)"
  using assms(1-3)
proof (induction ops arbitrary: db nx T)
  case (Cons op ops)
  have T: "T \<le> slot_time op" and later: "sorted (slot_time op # map slot_time ops)" using Cons.prems(3) by auto
  show ?case
  proof (cases op)
    case (Slot_Take t)
    show ?thesis
    proof (cases "nx \<le> t")
      case True
      let ?db = "db\<lparr>rate_slots := AList.update name (t + interval) (rate_slots db)\<rparr>"
      have upd: "take_update t name interval db = Some ?db" using True Cons.prems(1) by (simp add: take_update_def max_def)
      have ih: "\<forall>g \<in> set (slot_takes name interval ops ?db). t + interval \<le> g" "successively (\<lambda>a b. a + interval \<le> b) (slot_takes name interval ops ?db)"
        using Cons.IH [where T = t and db = ?db and nx = "t + interval"] later Slot_Take slot_interval_bounds(2) [of n] assms(4)
        by (simp_all add: at.lookup_put)
      have "0 < interval" using slot_interval_bounds(1) assms(4) by simp
      then have "\<forall>g \<in> set (slot_takes name interval ops ?db). nx \<le> g" using ih(1) True by fastforce
      moreover have "slot_takes name interval (op # ops) db = t # slot_takes name interval ops ?db" by (simp add: Slot_Take upd)
      moreover have "slot_takes name interval ops ?db = [] \<or> t + interval \<le> hd (slot_takes name interval ops ?db)" using ih(1) hd_in_set by blast
      ultimately show ?thesis using True ih(2) by (auto simp: successively_Cons)
    next
      case False
      then have "take_update t name interval db = None" using Cons.prems(1) by (simp add: take_update_def)
      then show ?thesis using Cons.IH [OF Cons.prems(1), of "slot_time op"] T later Cons.prems(2) by (simp add: Slot_Take)
    qed
  next
    case (Slot_Reset t)
    have "map_of (rate_slots (snd (reset_stuck_rate_slots t 300 db))) name = Some nx"
      using Cons.prems(1,2) T by (simp add: reset_stuck_rate_slots_def tmap_lookup Slot_Reset)
    then show ?thesis using Cons.IH [of "snd (reset_stuck_rate_slots t 300 db)" nx "slot_time op"] T later Cons.prems(2) by (simp add: Slot_Reset)
  next
    case (Slot_Ensure t)
    then show ?thesis using Cons.IH [OF Cons.prems(1), of "slot_time op"] T later Cons.prems by (simp add: ensure_rate_slot_def insert_slot_def)
  qed
qed simp

lemma spaced_count:
  "successively (\<lambda>a b. a + d \<le> b) gs \<Longrightarrow> gs \<noteq> [] \<Longrightarrow> of_nat (length gs - 1) * d \<le> last gs - hd (gs :: rat list)"
proof (induction gs rule: induct_list012)
  case (3 a b gs)
  have "of_nat (length (b # gs) - 1) * d \<le> last (b # gs) - b" using 3 by simp
  then show ?case using 3(3) by (simp add: algebra_simps)
qed simp_all

text \<open>
  (C35) The rate slot keeps all processes together under the rate. However the statements of the sessions interleave,
  with clock readings that do not go back and a slot that is not ahead of the clock by more than a minute, any two
  takes of the slot are at least \<open>60 / per_minute\<close> seconds apart, so \<open>n\<close> takes span at least \<open>n - 1\<close> intervals; the
  repair of stuck slots never lets one through early. And \<open>take_rate_slot\<close> reports the slot taken only when one of
  its own statements took it.
\<close>

theorem rate_slot_spacing:
  assumes "map_of (rate_slots db) name = Some nx" and "nx \<le> T + 60" and "sorted (T # map slot_time ops)"
    and "takes = slot_takes name (slot_interval per_minute) ops db"
  shows "successively (\<lambda>a b. a + slot_interval per_minute \<le> b) takes
    \<and> (takes \<noteq> [] \<longrightarrow> of_nat (length takes - 1) * slot_interval per_minute \<le> last takes - hd takes)
    \<and> (fst (take_rate_slot env clock name per_minute db0) = 0 \<longrightarrow>
        (\<exists>n db1. take_update (clock n) name (slot_interval per_minute) db1 = Some (snd (take_rate_slot env clock name per_minute db0))))"
proof -
  have s: "successively (\<lambda>a b. a + slot_interval per_minute \<le> b) takes" using slot_takes_spaced [OF assms(1-3) refl] assms(4) by simp
  have "fst (slot_tries tries n env clock name interval db) = 0 \<Longrightarrow>
    \<exists>m db1. take_update (clock m) name interval db1 = Some (snd (slot_tries tries n env clock name interval db))" for tries n interval db
    by (induction tries arbitrary: n db) (auto simp: Let_def split: option.splits if_splits)
  then show ?thesis using s spaced_count [OF s] by (simp add: take_rate_slot_def)
qed

theorem rate_slot_spacing_witness:
  "slot_takes ''s'' (slot_interval (Some 30)) [Slot_Take 1, Slot_Take 2, Slot_Reset 2, Slot_Take (7 / 2)]
     \<lparr>job_rows = [], job_next_id = 1, rate_slots = [(''s'', 0)]\<rparr> = [1, 7 / 2]
   \<and> successively (\<lambda>a b. a + slot_interval (Some 30) \<le> b) [1, 7 / 2 :: rat]"
proof -
  have takes: "[1, 7 / 2] = slot_takes ''s'' (slot_interval (Some 30)) [Slot_Take 1, Slot_Take 2, Slot_Reset 2, Slot_Take (7 / 2)]
     \<lparr>job_rows = [], job_next_id = 1, rate_slots = [(''s'', 0)]\<rparr>" by code_simp
  have slot: "map_of (rate_slots \<lparr>job_rows = [], job_next_id = 1, rate_slots = [(''s'', 0)]\<rparr>) ''s'' = Some 0" by simp
  have "sorted (0 # map slot_time [Slot_Take 1, Slot_Take 2, Slot_Reset 2, Slot_Take (7 / 2)])" by simp
  from rate_slot_spacing [OF slot _ this takes] show ?thesis using takes by simp
qed

end
