(* ===== verification/Field_Templates.thy ===== *)
theory Field_Templates
  imports Python_Values
begin

text \<open>
  Path templates for the document fields (\<open>sync/field_templates.py\<close>): compiling a template, matching a path against
  it, and the check of a sync body. A literal is kept folded, as code points. Characters are below 256, where NFC
  changes nothing. A pattern with a final \<open>$\<close> also accepts one line feed at the end, and the model keeps that.

  The lemmas show that compiling accepts exactly the grammar, what a match captures, and that a body that passed the
  check gives no template error in a cycle.
\<close>

section \<open>Keys\<close>

definition SYSTEM_KEYS :: "string list" where
  "SYSTEM_KEYS = [''title'', ''description'', ''path'', ''ingested_at'', ''pointer'']"

definition lower_letter :: "char \<Rightarrow> bool" where
  "lower_letter c = (let n = (of_char c :: nat) in 97 \<le> n \<and> n \<le> 122)"

definition key_char :: "char \<Rightarrow> bool" where
  "key_char c \<longleftrightarrow> lower_letter c \<or> is_digit c \<or> c = CHR ''_''"

definition key_word :: "string \<Rightarrow> bool" where
  "key_word s = (case s of [] \<Rightarrow> False | c # cs \<Rightarrow> lower_letter c \<and> list_all key_char cs)"

text \<open>What \<open>$\<close> leaves to the pattern: the text less one final line feed.\<close>

definition drop_newline :: "string \<Rightarrow> string" where
  "drop_newline s = (if s \<noteq> [] \<and> last s = CHR 0x0A then butlast s else s)"

definition KEY_RE :: "string \<Rightarrow> bool" where
  "KEY_RE s \<longleftrightarrow> key_word (drop_newline s) \<and> length (drop_newline s) \<le> 64"

definition KEY_CHARS_RE :: "string \<Rightarrow> bool" where
  "KEY_CHARS_RE s \<longleftrightarrow> key_word (drop_newline s)"

section \<open>Compiling\<close>

definition MAX_TEMPLATE_CHARS :: nat where "MAX_TEMPLATE_CHARS = 512"
definition MAX_LITERAL_CHARS :: nat where "MAX_LITERAL_CHARS = 255"
definition MAX_KEY_CHARS :: nat where "MAX_KEY_CHARS = 64"
definition DEEP_SUFFIX :: string where "DEEP_SUFFIX = ''/**''"

definition LITERAL_FORBIDDEN :: "char list" where
  "LITERAL_FORBIDDEN = [CHR ''/'', CHR 0x7B, CHR 0x7D, CHR ''*'', CHR 0x5C]"

datatype template_error = Te_Syntax | Te_Duplicate_Key | Te_System_Key | Te_Too_Long

fun error_code :: "template_error \<Rightarrow> string" where
  "error_code Te_Syntax = ''syntax''"
| "error_code Te_Duplicate_Key = ''duplicate_key''"
| "error_code Te_System_Key = ''system_key''"
| "error_code Te_Too_Long = ''too_long''"

datatype segment = Seg_Any | Seg_Key string | Seg_Literal "nat list"

record compiled_template =
  ct_source :: string
  ct_segments :: "segment list"
  ct_deep :: bool

text \<open>\<open>_fold\<close>.\<close>

definition fold_text :: "string \<Rightarrow> nat list" where
  "fold_text s = casefold s"

definition directory_segments :: "string \<Rightarrow> string list" where
  "directory_segments rel = butlast (split_char (CHR ''/'') (unbackslash rel))"

definition compile_segment :: "string \<Rightarrow> string list \<Rightarrow> template_error + (segment \<times> string list)" where
  "compile_segment raw seen =
     (if raw = [] then Inl Te_Syntax
      else if raw = ''*'' then Inr (Seg_Any, seen)
      else if hd raw = CHR 0x7B \<and> last raw = CHR 0x7D \<and> length raw \<ge> 2 then
        (let key = butlast (tl raw)
         in if \<not> KEY_CHARS_RE key then Inl Te_Syntax
            else if length key > MAX_KEY_CHARS then Inl Te_Too_Long
            else if key \<in> set SYSTEM_KEYS then Inl Te_System_Key
            else if key \<in> set seen then Inl Te_Duplicate_Key
            else Inr (Seg_Key key, key # seen))
      else if list_ex (\<lambda>ch. ch \<in> set LITERAL_FORBIDDEN) raw then Inl Te_Syntax
      else if length raw > MAX_LITERAL_CHARS then Inl Te_Too_Long
      else Inr (Seg_Literal (fold_text raw), seen))"

fun compile_segments :: "string list \<Rightarrow> string list \<Rightarrow> template_error + segment list" where
  "compile_segments [] seen = Inr []"
| "compile_segments (raw # raws) seen =
     (case compile_segment raw seen of Inl e \<Rightarrow> Inl e
      | Inr (seg, seen') \<Rightarrow>
          (case compile_segments raws seen' of Inl e \<Rightarrow> Inl e | Inr segs \<Rightarrow> Inr (seg # segs)))"

definition py_endswith :: "string \<Rightarrow> string \<Rightarrow> bool" where
  "py_endswith s t \<longleftrightarrow> length t \<le> length s \<and> drop (length s - length t) s = t"

fun compile_template :: "jval \<Rightarrow> template_error + compiled_template" where
  "compile_template (JStr template) =
     (if length template > MAX_TEMPLATE_CHARS then Inl Te_Too_Long
      else let deep = py_endswith template DEEP_SUFFIX;
               body = (if deep then take (length template - length DEEP_SUFFIX) template else template)
      in if body = [] then Inl Te_Syntax
         else case compile_segments (split_char (CHR ''/'') body) [] of Inl e \<Rightarrow> Inl e
              | Inr segs \<Rightarrow> Inr \<lparr>ct_source = template, ct_segments = segs, ct_deep = deep\<rparr>)"
| "compile_template _ = Inl Te_Syntax"

fun compile_templates :: "jval list \<Rightarrow> template_error + compiled_template list" where
  "compile_templates [] = Inr []"
| "compile_templates (t # ts) =
     (case compile_template t of Inl e \<Rightarrow> Inl e
      | Inr c \<Rightarrow> (case compile_templates ts of Inl e \<Rightarrow> Inl e | Inr cs \<Rightarrow> Inr (c # cs)))"

definition template_keys :: "compiled_template \<Rightarrow> string list" where
  "template_keys t = List.map_filter (\<lambda>s. case s of Seg_Key k \<Rightarrow> Some k | _ \<Rightarrow> None) (ct_segments t)"

section \<open>Matching\<close>

text \<open>The loop over segments and directories; \<open>None\<close> is the early return.\<close>

fun match_segments :: "segment list \<Rightarrow> string list \<Rightarrow> (string, string) table \<Rightarrow> (string, string) table option" where
  "match_segments (seg # segs) (part # parts) out =
     (case seg of
        Seg_Literal l \<Rightarrow> if fold_text part \<noteq> l then None else match_segments segs parts out
      | Seg_Key k \<Rightarrow>
          (let v = py_strip part in match_segments segs parts (if v \<noteq> [] then AList.update k v out else out))
      | Seg_Any \<Rightarrow> match_segments segs parts out)"
| "match_segments _ _ out = Some out"

definition match_rel :: "compiled_template \<Rightarrow> string \<Rightarrow> (string, string) table option" where
  "match_rel t rel =
     (let dirs = directory_segments rel
      in if (if ct_deep t then length dirs < length (ct_segments t) else length dirs \<noteq> length (ct_segments t)) then None
         else match_segments (ct_segments t) dirs [])"

definition match_template :: "string \<Rightarrow> string \<Rightarrow> template_error + (string, string) table option" where
  "match_template template rel = (case compile_template (JStr template) of Inl e \<Rightarrow> Inl e | Inr t \<Rightarrow> Inr (match_rel t rel))"

fun captures :: "string \<Rightarrow> compiled_template list \<Rightarrow> (string, string) table" where
  "captures rel [] = []"
| "captures rel (t # ts) = (case match_rel t rel of Some found \<Rightarrow> found | None \<Rightarrow> captures rel ts)"

section \<open>The check of a sync body\<close>

definition template_message :: "nat \<Rightarrow> nat \<Rightarrow> template_error \<Rightarrow> string" where
  "template_message i j e =
     ''$.sources['' @ show_int (int i) @ ''].field_templates['' @ show_int (int j) @ '']: field_template_invalid ('' @ error_code e @ '')''"

fun as_list :: "jval \<Rightarrow> jval list" where
  "as_list (JArr xs) = xs"
| "as_list _ = []"

definition source_template_errors :: "nat \<Rightarrow> jval \<Rightarrow> string list" where
  "source_template_errors i source =
     concat (map (\<lambda>(j, t). case compile_template t of Inl e \<Rightarrow> [template_message i j e] | Inr _ \<Rightarrow> [])
       (List.enumerate 0 (as_list (jget source ''field_templates''))))"

definition sync_body_template_errors :: "jval \<Rightarrow> string list" where
  "sync_body_template_errors body =
     concat (map (\<lambda>(i, source). source_template_errors i source) (List.enumerate 0 (as_list (jget body ''sources''))))"

section \<open>The grammar\<close>

lemma split_char_append_sep: "split_char d (a @ d # b) = split_char d a @ split_char d b"
  by (induction a) (auto split: list.split)

datatype part = P_Any | P_Key string | P_Lit string

fun part_text :: "part \<Rightarrow> string" where
  "part_text P_Any = ''*''"
| "part_text (P_Key k) = CHR 0x7B # k @ [CHR 0x7D]"
| "part_text (P_Lit l) = l"

fun part_ok :: "part \<Rightarrow> bool" where
  "part_ok P_Any \<longleftrightarrow> True"
| "part_ok (P_Key k) \<longleftrightarrow> KEY_CHARS_RE k \<and> length k \<le> 64 \<and> k \<notin> set SYSTEM_KEYS"
| "part_ok (P_Lit l) \<longleftrightarrow> l \<noteq> [] \<and> set l \<inter> set LITERAL_FORBIDDEN = {} \<and> length l \<le> 255"

fun part_segment :: "part \<Rightarrow> segment" where
  "part_segment P_Any = Seg_Any"
| "part_segment (P_Key k) = Seg_Key k"
| "part_segment (P_Lit l) = Seg_Literal (fold_text l)"

fun part_keys :: "part list \<Rightarrow> string list" where
  "part_keys [] = []"
| "part_keys (P_Key k # ps) = k # part_keys ps"
| "part_keys (_ # ps) = part_keys ps"

definition template_text :: "part list \<Rightarrow> bool \<Rightarrow> string" where
  "template_text ps deep = py_join (CHR ''/'') (map part_text ps) @ (if deep then DEEP_SUFFIX else [])"

lemma key_text_no_slash: "KEY_CHARS_RE k \<Longrightarrow> CHR ''/'' \<notin> set k"
proof -
  assume k: "KEY_CHARS_RE k"
  have no: "\<not> key_char (CHR ''/'')" "\<not> lower_letter (CHR ''/'')" by code_simp+
  have "CHR ''/'' \<notin> set (drop_newline k)"
    using k no by (auto simp: KEY_CHARS_RE_def key_word_def list_all_iff split: list.splits)
  moreover have "set k \<subseteq> set (drop_newline k) \<union> {CHR 0x0A}"
    by (cases k rule: rev_cases) (auto simp: drop_newline_def)
  ultimately show ?thesis by auto
qed

lemma part_text_plain:
  assumes "part_ok p" shows "CHR ''/'' \<notin> set (part_text p)" and "part_text p \<noteq> []" and "part_text p \<noteq> ''**''"
  using assms key_text_no_slash by (cases p; auto simp: LITERAL_FORBIDDEN_def)+

lemma compile_segment_iff:
  "compile_segment raw seen = Inr (seg, seen') \<longleftrightarrow>
     (\<exists>p. part_ok p \<and> raw = part_text p \<and> seg = part_segment p
        \<and> set (part_keys [p]) \<inter> set seen = {} \<and> seen' = part_keys [p] @ seen)" (is "?l \<longleftrightarrow> ?r")
proof
  assume l: ?l
  consider "raw = ''*''" | k where "raw = CHR 0x7B # k @ [CHR 0x7D]" | "raw \<noteq> []" "raw \<noteq> ''*''" "\<not> (hd raw = CHR 0x7B \<and> last raw = CHR 0x7D \<and> length raw \<ge> 2)"
  proof -
    have "hd raw = CHR 0x7B \<Longrightarrow> last raw = CHR 0x7D \<Longrightarrow> length raw \<ge> 2 \<Longrightarrow> raw = CHR 0x7B # butlast (tl raw) @ [CHR 0x7D]"
      by (cases raw; cases "tl raw" rule: rev_cases) auto
    moreover have "raw \<noteq> []" using l by (auto simp: compile_segment_def)
    ultimately show ?thesis using that by metis
  qed
  then show ?r
  proof cases
    case 1
    then show ?thesis using l by (intro exI [of _ P_Any]) (simp add: compile_segment_def)
  next
    case 2
    then show ?thesis
      using l by (intro exI [of _ "P_Key k"]) (auto simp: compile_segment_def MAX_KEY_CHARS_def split: if_splits)
  next
    case 3
    then have "compile_segment raw seen = (if list_ex (\<lambda>ch. ch \<in> set LITERAL_FORBIDDEN) raw then Inl Te_Syntax
      else if length raw > MAX_LITERAL_CHARS then Inl Te_Too_Long else Inr (Seg_Literal (fold_text raw), seen))"
      by (simp only: compile_segment_def if_False)
    then show ?thesis
      using l 3(1) by (intro exI [of _ "P_Lit raw"]) (auto simp: list_ex_iff MAX_LITERAL_CHARS_def split: if_splits)
  qed
next
  assume ?r
  then obtain p where p: "part_ok p" "raw = part_text p" "seg = part_segment p"
    "set (part_keys [p]) \<inter> set seen = {}" "seen' = part_keys [p] @ seen" by blast
  show ?l
  proof (cases p)
    case (P_Lit l)
    then have "hd l \<noteq> CHR 0x7B" "l \<noteq> ''*''" "l \<noteq> []" "\<not> list_ex (\<lambda>ch. ch \<in> set LITERAL_FORBIDDEN) l"
      using p(1) by (cases l; auto simp: LITERAL_FORBIDDEN_def list_ex_iff)+
    then show ?thesis using p P_Lit by (simp add: compile_segment_def MAX_LITERAL_CHARS_def)
  qed (use p in \<open>auto simp: compile_segment_def MAX_KEY_CHARS_def\<close>)
qed

lemma compile_segments_iff:
  "compile_segments raws seen = Inr segs \<longleftrightarrow>
     (\<exists>ps. raws = map part_text ps \<and> segs = map part_segment ps \<and> list_all part_ok ps
        \<and> distinct (part_keys ps) \<and> set (part_keys ps) \<inter> set seen = {})"
proof (induction raws arbitrary: seen segs)
  case Nil
  then show ?case by auto
next
  case (Cons raw raws)
  have keys: "part_keys (p # ps) = part_keys [p] @ part_keys ps" "distinct (part_keys [p])" for p ps
    by (cases p; simp)+
  have "compile_segments (raw # raws) seen = Inr segs \<longleftrightarrow>
    (\<exists>seg seen' segs'. compile_segment raw seen = Inr (seg, seen') \<and> compile_segments raws seen' = Inr segs' \<and> segs = seg # segs')"
    by (auto split: sum.splits)
  also have "\<dots> \<longleftrightarrow> (\<exists>p ps. raw # raws = map part_text (p # ps) \<and> segs = map part_segment (p # ps) \<and> list_all part_ok (p # ps)
      \<and> distinct (part_keys (p # ps)) \<and> set (part_keys (p # ps)) \<inter> set seen = {})" (is "?l \<longleftrightarrow> ?r")
  proof
    assume ?l
    then obtain p ps where "part_ok p" "raw = part_text p" "set (part_keys [p]) \<inter> set seen = {}" "raws = map part_text ps"
      "list_all part_ok ps" "distinct (part_keys ps)" "set (part_keys ps) \<inter> set (part_keys [p] @ seen) = {}"
      "segs = part_segment p # map part_segment ps"
      unfolding compile_segment_iff Cons.IH by blast
    then show ?r using keys(1) [of p ps] keys(2) [of p] by (intro exI [of _ p] exI [of _ ps]) auto
  next
    assume ?r
    then obtain p ps where *: "raw # raws = map part_text (p # ps)" "segs = map part_segment (p # ps)" "list_all part_ok (p # ps)"
      "distinct (part_keys [p] @ part_keys ps)" "set (part_keys [p] @ part_keys ps) \<inter> set seen = {}"
      using keys(1) by metis
    then have "compile_segment raw seen = Inr (part_segment p, part_keys [p] @ seen)"
      unfolding compile_segment_iff by (intro exI [of _ p]) auto
    moreover have "compile_segments raws (part_keys [p] @ seen) = Inr (map part_segment ps)"
      unfolding Cons.IH using * by (intro exI [of _ ps]) auto
    ultimately show ?l using *(2) by auto
  qed
  also have "\<dots> \<longleftrightarrow> (\<exists>ps. raw # raws = map part_text ps \<and> segs = map part_segment ps \<and> list_all part_ok ps
      \<and> distinct (part_keys ps) \<and> set (part_keys ps) \<inter> set seen = {})"
  proof -
    have "(\<exists>ps. raw # raws = map part_text ps \<and> Q ps) \<longleftrightarrow> (\<exists>p ps. raw # raws = map part_text (p # ps) \<and> Q (p # ps))" for Q
      by (metis list.distinct(1) list.exhaust list.simps(8))
    then show ?thesis by presburger
  qed
  finally show ?case .
qed

lemma part_texts_split:
  assumes "list_all part_ok ps" and "ps \<noteq> []"
  shows "split_char (CHR ''/'') (py_join (CHR ''/'') (map part_text ps)) = map part_text ps"
    and "py_join (CHR ''/'') (map part_text ps) \<noteq> []"
proof -
  show "split_char (CHR ''/'') (py_join (CHR ''/'') (map part_text ps)) = map part_text ps"
    using assms part_text_plain(1) by (intro split_char_join) (auto simp: list_all_iff)
  then show "py_join (CHR ''/'') (map part_text ps) \<noteq> []"
    using assms part_text_plain(2) by (cases ps; cases "tl ps") (auto simp: py_join_Cons)
qed

lemma deep_split:
  "py_endswith (body @ DEEP_SUFFIX) DEEP_SUFFIX"
  "py_endswith t DEEP_SUFFIX \<Longrightarrow> t = take (length t - length DEEP_SUFFIX) t @ DEEP_SUFFIX"
  unfolding py_endswith_def by (simp, metis append_take_drop_id)

lemma not_deep:
  assumes "list_all part_ok ps" and "ps \<noteq> []"
  shows "\<not> py_endswith (py_join (CHR ''/'') (map part_text ps)) DEEP_SUFFIX"
proof
  let ?s = "py_join (CHR ''/'') (map part_text ps)"
  assume e: "py_endswith ?s DEEP_SUFFIX"
  define a where "a = take (length ?s - length DEEP_SUFFIX) ?s"
  have "?s = a @ CHR ''/'' # ''**''"
    using deep_split(2) [OF e] unfolding a_def [symmetric] by (simp add: DEEP_SUFFIX_def)
  then have "split_char (CHR ''/'') ?s = split_char (CHR ''/'') a @ [''**'']" by (simp add: split_char_append_sep)
  then have "''**'' \<in> set (map part_text ps)" unfolding part_texts_split(1) [OF assms] by simp
  then show False using assms(1) part_text_plain(3) by (metis (no_types, lifting) imageE list.set_map list_all_iff)
qed

section \<open>What a match captures\<close>

lemma match_segments_iff:
  assumes "length segs \<le> length dirs"
  shows "match_segments segs dirs out \<noteq> None \<longleftrightarrow> (\<forall>i < length segs. \<forall>l. segs ! i = Seg_Literal l \<longrightarrow> fold_text (dirs ! i) = l)"
  using assms
proof (induction segs dirs out rule: match_segments.induct)
  case (1 seg segs part parts out)
  have all: "(\<forall>i < length (seg # segs). P i) \<longleftrightarrow> P 0 \<and> (\<forall>i < length segs. P (Suc i))" for P
    by (auto simp: less_Suc_eq_0_disj)
  show ?case unfolding all using 1 by (cases seg) (auto simp: Let_def)
qed auto

text \<open>The directory a key stands for.\<close>

fun key_dir :: "segment list \<Rightarrow> string list \<Rightarrow> string \<Rightarrow> string option" where
  "key_dir (seg # segs) (d # ds) k = (if seg = Seg_Key k then Some d else key_dir segs ds k)"
| "key_dir _ _ k = None"

fun segment_keys :: "segment list \<Rightarrow> string list" where
  "segment_keys [] = []"
| "segment_keys (Seg_Key k # ss) = k # segment_keys ss"
| "segment_keys (_ # ss) = segment_keys ss"

lemma segment_keys_parts: "segment_keys (map part_segment ps) = part_keys ps"
  by (induction ps rule: part_keys.induct) simp_all

lemma key_dir_other: "k \<notin> set (segment_keys segs) \<Longrightarrow> key_dir segs dirs k = None"
  by (induction segs dirs k rule: key_dir.induct) (auto split: if_splits, (case_tac seg; simp)+)

lemma match_segments_captures:
  assumes "match_segments segs dirs out = Some found" and "distinct (segment_keys segs)"
  shows "map_of found k = (case key_dir segs dirs k of
     Some d \<Rightarrow> (if py_strip d = [] then map_of out k else Some (py_strip d)) | None \<Rightarrow> map_of out k)"
  using assms
proof (induction segs dirs out rule: match_segments.induct)
  case (1 seg segs part parts out)
  show ?case
  proof (cases seg)
    case (Seg_Key k')
    then have "key_dir segs parts k' = None" using 1(5) key_dir_other by simp
    then show ?thesis using 1 Seg_Key by (auto simp: Let_def at.lookup_put split: option.split if_splits)
  qed (use 1 in \<open>auto split: if_splits\<close>)
qed auto

section \<open>Properties\<close>

text \<open>
  Compiling accepts exactly the grammar of the templates: a text compiles if and only if it is at most 512 characters
  long and is made of one or more allowed segments, joined by slashes, with no key twice, with or without the deep
  suffix; the segments it gives are those, in their order.
\<close>

theorem compile_accepts_grammar:
  "compile_template (JStr s) = Inr t \<longleftrightarrow>
     (\<exists>ps deep. ps \<noteq> [] \<and> list_all part_ok ps \<and> distinct (part_keys ps) \<and> s = template_text ps deep \<and> length s \<le> 512
        \<and> t = \<lparr>ct_source = s, ct_segments = map part_segment ps, ct_deep = deep\<rparr>)" (is "?l \<longleftrightarrow> ?r")
proof
  assume l: ?l
  define deep where "deep = py_endswith s DEEP_SUFFIX"
  define body where "body = (if deep then take (length s - length DEEP_SUFFIX) s else s)"
  from l obtain segs where segs: "compile_segments (split_char (CHR ''/'') body) [] = Inr segs"
    and t: "t = \<lparr>ct_source = s, ct_segments = segs, ct_deep = deep\<rparr>" and len: "length s \<le> 512"
    by (auto simp: deep_def body_def Let_def MAX_TEMPLATE_CHARS_def split: if_splits sum.splits)
  from segs obtain ps where ps: "split_char (CHR ''/'') body = map part_text ps" "segs = map part_segment ps" "list_all part_ok ps"
    "distinct (part_keys ps)" unfolding compile_segments_iff by blast
  have "ps \<noteq> []" using ps(1) split_char_nonempty by (metis list.simps(8))
  moreover have "s = template_text ps deep"
    using deep_split(2) [of s] py_join_split [of "CHR ''/''" body] ps(1) by (simp add: template_text_def body_def deep_def)
  ultimately show ?r using ps t len by blast
next
  assume ?r
  then obtain ps deep where ps: "ps \<noteq> []" "list_all part_ok ps" "distinct (part_keys ps)" "s = template_text ps deep" "length s \<le> 512"
    "t = \<lparr>ct_source = s, ct_segments = map part_segment ps, ct_deep = deep\<rparr>" by blast
  let ?body = "py_join (CHR ''/'') (map part_text ps)"
  have "py_endswith s DEEP_SUFFIX = deep" "(if deep then take (length s - length DEEP_SUFFIX) s else s) = ?body"
    using not_deep [OF ps(2,1)] deep_split(1) by (simp_all add: ps(4) template_text_def)
  moreover have "compile_segments (map part_text ps) [] = Inr (map part_segment ps)"
    unfolding compile_segments_iff using ps(2,3) by auto
  ultimately show ?l
    using ps(5,6) part_texts_split [OF ps(2,1)] by (simp add: Let_def MAX_TEMPLATE_CHARS_def)
qed

text \<open>
  What a compiled template captures from a path. It matches exactly when the number of directories fits and every
  literal equals its directory up to case; then every key carries its directory, stripped, unless that is blank, and
  nothing else is captured.
\<close>

theorem match_captures_directories:
  assumes "compile_template (JStr s) = Inr t"
  shows "(match_rel t rel \<noteq> None \<longleftrightarrow>
      (let dirs = directory_segments rel
       in (if ct_deep t then length (ct_segments t) \<le> length dirs else length dirs = length (ct_segments t))
         \<and> (\<forall>i < length (ct_segments t). \<forall>l. ct_segments t ! i = Seg_Literal l \<longrightarrow> casefold (dirs ! i) = l)))
    \<and> (\<forall>found. match_rel t rel = Some found \<longrightarrow>
      map_of found k = (case key_dir (ct_segments t) (directory_segments rel) k of
         Some d \<Rightarrow> (if py_strip d = [] then None else Some (py_strip d)) | None \<Rightarrow> None))"
proof (intro conjI allI impI)
  have keys: "distinct (segment_keys (ct_segments t))"
    using assms compile_segments_iff [of _ "[]"]
    by (auto simp: Let_def segment_keys_parts split: if_splits sum.splits)
  show "match_rel t rel \<noteq> None \<longleftrightarrow>
      (let dirs = directory_segments rel
       in (if ct_deep t then length (ct_segments t) \<le> length dirs else length dirs = length (ct_segments t))
         \<and> (\<forall>i < length (ct_segments t). \<forall>l. ct_segments t ! i = Seg_Literal l \<longrightarrow> casefold (dirs ! i) = l))"
    using match_segments_iff [of "ct_segments t" "directory_segments rel" "[]", unfolded fold_text_def]
    by (simp add: match_rel_def Let_def not_less del: not_None_eq)
  fix found assume "match_rel t rel = Some found"
  then show "map_of found k = (case key_dir (ct_segments t) (directory_segments rel) k of
         Some d \<Rightarrow> (if py_strip d = [] then None else Some (py_strip d)) | None \<Rightarrow> None)"
    using match_segments_captures [OF _ keys, of "directory_segments rel" "[]" found k]
    by (auto simp: match_rel_def Let_def split: if_splits option.split)
qed

theorem match_captures_directories_witness:
  "\<exists>t found. compile_template (JStr ''{mandant}/akten/{period}/**'') = Inr t \<and> match_rel t ''Muster AG/AKTEN/2024/x/y.pdf'' = Some found
     \<and> map_of found ''mandant'' = Some ''Muster AG'' \<and> map_of found ''period'' = Some ''2024''"
proof -
  let ?t = "\<lparr>ct_source = ''{mandant}/akten/{period}/**'', ct_segments = [Seg_Key ''mandant'', Seg_Literal [97, 107, 116, 101, 110], Seg_Key ''period''], ct_deep = True\<rparr>"
  have c: "compile_template (JStr ''{mandant}/akten/{period}/**'') = Inr ?t" by code_simp
  have m: "match_rel ?t ''Muster AG/AKTEN/2024/x/y.pdf'' = Some [(''mandant'', ''Muster AG''), (''period'', ''2024'')]" by code_simp
  have k: "key_dir (ct_segments ?t) (directory_segments ''Muster AG/AKTEN/2024/x/y.pdf'') ''mandant'' = Some ''Muster AG''"
    "key_dir (ct_segments ?t) (directory_segments ''Muster AG/AKTEN/2024/x/y.pdf'') ''period'' = Some ''2024''"
    "py_strip ''Muster AG'' = ''Muster AG''" "py_strip ''2024'' = ''2024''" by code_simp+
  show ?thesis
    using c m k match_captures_directories [OF c, of "''Muster AG/AKTEN/2024/x/y.pdf''" "''mandant''"]
      match_captures_directories [OF c, of "''Muster AG/AKTEN/2024/x/y.pdf''" "''period''"]
    by auto
qed

section \<open>The check agrees with the compiler\<close>

lemma compile_templates_ok: "(\<exists>cs. compile_templates ts = Inr cs) \<longleftrightarrow> (\<forall>t \<in> set ts. \<exists>c. compile_template t = Inr c)"
  by (induction ts) (auto split: sum.splits)

lemma enumerate_empty_messages:
  assumes "concat (map (\<lambda>(i, x). f i x) (List.enumerate n xs)) = []" and "x \<in> set xs"
  shows "\<exists>i. f i x = []"
  using assms by (induction xs arbitrary: n) auto

lemma body_check_ok:
  assumes "sync_body_template_errors body = []" and "source \<in> set (as_list (jget body ''sources''))"
  shows "\<exists>cs. compile_templates (as_list (jget source ''field_templates'')) = Inr cs"
proof -
  obtain i where e: "source_template_errors i source = []"
    using enumerate_empty_messages [OF assms(1) [unfolded sync_body_template_errors_def] assms(2)] by blast
  have "\<exists>c. compile_template t = Inr c" if at: "t \<in> set (as_list (jget source ''field_templates''))" for t
    using enumerate_empty_messages [OF e [unfolded source_template_errors_def] at] by (cases "compile_template t") auto
  then show ?thesis by (simp add: compile_templates_ok)
qed

text \<open>A key may end in a line feed, although the grammar of the module's documentation has none.\<close>

lemma newline_key_compiles:
  "compile_template (JStr (''{mandant'' @ [CHR 0x0A] @ ''}'')) =
     Inr \<lparr>ct_source = ''{mandant'' @ [CHR 0x0A] @ ''}'', ct_segments = [Seg_Key (''mandant'' @ [CHR 0x0A])], ct_deep = False\<rparr>"
  by code_simp

end
