(* ===== verification/Metadata_Fields.thy ===== *)
theory Metadata_Fields
  imports Field_Templates
begin

text \<open>
  Field values from the metadata of the extractor (\<open>sync/metadata_fields.py\<close>). Parsing a date and moving it to the
  firm's zone, parsing an address list and decoding JSON are the standard library's; they are the fields of
  \<open>metadata_lib\<close>. Characters are below 256, where every text is in NFC and can be encoded.

  The lemmas show that the keyword loop computes the first distinct spellings up to the cap, and which keys a
  document's metadata can set.
\<close>

record metadata_lib =
  lib_email_day :: "string \<Rightarrow> string option"
  lib_addresses :: "string \<Rightarrow> (string \<times> string) list"
  lib_json :: "string \<Rightarrow> jval option"

datatype meta_value = M_Text string | M_List "string list"

type_synonym source_metadata = "(string, jval) table"

definition METADATA_ITEMS :: "string list" where
  "METADATA_ITEMS = [''language'', ''email_date'', ''email_doc_type'', ''email_author'', ''document_author'', ''keywords'', ''document_status'']"

definition EMAIL_DOC_TYPE :: string where "EMAIL_DOC_TYPE = ''correspondence.email''"
definition EMAIL_EXTENSIONS :: "string list" where "EMAIL_EXTENSIONS = [''.eml'', ''.msg'']"
definition DOCUMENT_EXTENSIONS :: "string list" where "DOCUMENT_EXTENSIONS = [''.pdf'', ''.docx'', ''.md'']"
definition EML_CONTENT_LANGUAGE :: string where "EML_CONTENT_LANGUAGE = ''eml:content_language''"
definition PDF_KEYWORDS :: string where "PDF_KEYWORDS = ''pdf:keywords''"
definition DOCX_KEYWORDS :: string where "DOCX_KEYWORDS = ''docx:keywords''"
definition MSG_CATEGORIES :: string where "MSG_CATEGORIES = ''msg:categories''"
definition DOCX_CONTENT_STATUS :: string where "DOCX_CONTENT_STATUS = ''docx:content_status''"
definition MAX_KEYWORDS :: nat where "MAX_KEYWORDS = 32"
definition MAX_KEYWORD_CHARS :: nat where "MAX_KEYWORD_CHARS = 256"
definition METADATA_MAPPING_VERSION :: int where "METADATA_MAPPING_VERSION = 1"

definition ITEM_RULE_VERSIONS :: "(string, int) table" where
  "ITEM_RULE_VERSIONS = [(''email_date'', 2)]"

definition ITEM_EXTENSIONS :: "(string, string list) table" where
  "ITEM_EXTENSIONS = [(''email_date'', EMAIL_EXTENSIONS)]"

definition KEYWORD_SOURCES :: "(string, string) table" where
  "KEYWORD_SOURCES = [(''.pdf'', PDF_KEYWORDS), (''.docx'', DOCX_KEYWORDS), (''.msg'', MSG_CATEGORIES)]"

definition JUNK_AUTHORS :: "string list" where
  "JUNK_AUTHORS = [''administrator'', ''admin'', ''user'', ''owner'', ''unknown'', ''author'', ''microsoft office user'']"

definition normalize_ext :: "string \<Rightarrow> string" where
  "normalize_ext ext = (let e = py_lower (py_strip ext) in if e \<noteq> [] \<and> \<not> py_startswith e ''.'' then CHR ''.'' # e else e)"

definition item_rule_versions :: "string list \<Rightarrow> string \<Rightarrow> (string, int) table" where
  "item_rule_versions enabled ext =
     filter (\<lambda>(item, _). item \<in> set enabled \<and> normalize_ext ext \<in> set (case map_of ITEM_EXTENSIONS item of Some es \<Rightarrow> es | None \<Rightarrow> []))
       (sort_key fst ITEM_RULE_VERSIONS)"

definition text_of :: "source_metadata \<Rightarrow> string \<Rightarrow> string option" where
  "text_of md key = (case map_of md key of Some (JStr s) \<Rightarrow> (let v = py_strip s in if v = [] then None else Some v) | _ \<Rightarrow> None)"

definition letter :: "char \<Rightarrow> bool" where
  "letter c = (let n = (of_char c :: nat) in 65 \<le> n \<and> n \<le> 90 \<or> 97 \<le> n \<and> n \<le> 122)"

definition LANGUAGE_RE :: "string \<Rightarrow> bool" where
  "LANGUAGE_RE s =
     (case split_char (CHR ''-'') (drop_newline s) of [] \<Rightarrow> False
      | p # ps \<Rightarrow> 2 \<le> length p \<and> length p \<le> 3 \<and> list_all letter p
          \<and> list_all (\<lambda>q. 2 \<le> length q \<and> length q \<le> 8 \<and> list_all (\<lambda>c. letter c \<or> is_digit c) q) ps)"

definition language :: "source_metadata \<Rightarrow> string \<Rightarrow> string option" where
  "language md ext =
     (case (if ext \<in> set DOCUMENT_EXTENSIONS then text_of md ''language''
            else if ext = ''.eml'' then text_of md EML_CONTENT_LANGUAGE else None) of
        None \<Rightarrow> None
      | Some v \<Rightarrow>
          if \<not> LANGUAGE_RE v then None
          else if casefold v \<in> {code_points ''x-default'', code_points ''und''} \<or> casefold (hd (split_char (CHR ''-'') v)) = code_points ''und''
          then None else Some v)"

definition strip_quotes :: "string \<Rightarrow> string" where
  "strip_quotes s = py_lstrip (\<lambda>c. c = CHR 0x22) (py_rstrip (\<lambda>c. c = CHR 0x22) s)"

fun first_address :: "(string \<times> string) list \<Rightarrow> string option" where
  "first_address [] = None"
| "first_address ((name, address) # rest) =
     (let n = py_strip name; a = py_strip address
      in if n \<noteq> [] then Some n else if a \<noteq> [] then Some a else first_address rest)"

definition email_author :: "metadata_lib \<Rightarrow> string option \<Rightarrow> string option" where
  "email_author lib raw =
     (case raw of None \<Rightarrow> None
      | Some r \<Rightarrow>
          if CHR ''@'' \<notin> set r \<and> CHR ''<'' \<notin> set r then
            (let name = py_strip (strip_quotes (py_strip r)) in if name = [] then None else Some name)
          else first_address (lib_addresses lib r))"

definition document_author :: "string option \<Rightarrow> string option" where
  "document_author raw =
     (case raw of None \<Rightarrow> None | Some r \<Rightarrow> if casefold r \<in> code_points ` set JUNK_AUTHORS then None else Some r)"

text \<open>\<open>re.split("[,;]", raw)\<close>: the same pieces as a split at commas after the semicolons became commas.\<close>

definition split_keywords :: "string \<Rightarrow> string list" where
  "split_keywords raw = split_char (CHR '','') (map (\<lambda>c. if c = CHR '';'' then CHR '','' else c) raw)"

fun json_texts :: "jval list \<Rightarrow> string list" where
  "json_texts [] = []"
| "json_texts (JStr s # vs) = s # json_texts vs"
| "json_texts (_ # vs) = json_texts vs"

definition keyword_items :: "metadata_lib \<Rightarrow> string \<Rightarrow> bool \<Rightarrow> string list" where
  "keyword_items lib raw json_list =
     (if json_list \<and> py_startswith raw ''['' then
        (case lib_json lib raw of Some (JArr vs) \<Rightarrow> json_texts vs | _ \<Rightarrow> split_keywords raw)
      else split_keywords raw)"

fun keyword_loop :: "string list \<Rightarrow> nat list set \<Rightarrow> string list \<Rightarrow> string list" where
  "keyword_loop [] seen out = out"
| "keyword_loop (item # items) seen out =
     (let v = py_strip item
      in if v = [] \<or> length v > MAX_KEYWORD_CHARS then keyword_loop items seen out
         else if casefold v \<in> seen then keyword_loop items seen out
         else if length (out @ [v]) = MAX_KEYWORDS then out @ [v]
         else keyword_loop items (insert (casefold v) seen) (out @ [v]))"

definition keyword_values :: "metadata_lib \<Rightarrow> string option \<Rightarrow> bool \<Rightarrow> string list" where
  "keyword_values lib raw json_list = (case raw of None \<Rightarrow> [] | Some r \<Rightarrow> keyword_loop (keyword_items lib r json_list) {} [])"

definition put_some :: "string \<Rightarrow> 'v option \<Rightarrow> (string, 'v) table \<Rightarrow> (string, 'v) table" where
  "put_some k v t = (case v of Some x \<Rightarrow> AList.update k x t | None \<Rightarrow> t)"

definition map_metadata :: "metadata_lib \<Rightarrow> source_metadata option \<Rightarrow> string \<Rightarrow> string list \<Rightarrow> (string, meta_value) table" where
  "map_metadata lib md0 ext0 items =
     (let md = (case md0 of Some m \<Rightarrow> m | None \<Rightarrow> []); ext = normalize_ext ext0;
          email = ext \<in> set EMAIL_EXTENSIONS; doc = ext \<in> set DOCUMENT_EXTENSIONS; on = (\<lambda>item. item \<in> set items);
          txt_if = (\<lambda>cond v. if cond then map_option M_Text v else None);
          kw_source = (case map_of KEYWORD_SOURCES ext of Some k \<Rightarrow> k | None \<Rightarrow> []);
          kws = keyword_values lib (text_of md kw_source) (kw_source = MSG_CATEGORIES)
      in if items = [] then []
         else
           (put_some ''status'' (txt_if (ext = ''.docx'' \<and> on ''document_status'') (text_of md DOCX_CONTENT_STATUS)) \<circ>
            put_some ''keywords'' (if on ''keywords'' \<and> kws \<noteq> [] then Some (M_List kws) else None) \<circ>
            put_some ''author'' (txt_if (doc \<and> on ''document_author'') (document_author (text_of md ''author''))) \<circ>
            put_some ''author'' (txt_if (email \<and> on ''email_author'') (email_author lib (text_of md ''author''))) \<circ>
            put_some ''doc_type'' (txt_if (email \<and> on ''email_doc_type'') (Some EMAIL_DOC_TYPE)) \<circ>
            put_some ''document_date'' (txt_if (email \<and> on ''email_date'') (Option.bind (text_of md ''created'') (lib_email_day lib))) \<circ>
            put_some ''language'' (txt_if (on ''language'') (language md ext))) [])"

section \<open>The keyword loop\<close>

text \<open>The first spelling of every value, and the reference definition of the keywords.\<close>

fun first_spellings :: "('a \<Rightarrow> 'b) \<Rightarrow> 'a list \<Rightarrow> 'a list" where
  "first_spellings f [] = []"
| "first_spellings f (x # xs) = x # filter (\<lambda>y. f y \<noteq> f x) (first_spellings f xs)"

definition keywords_ref :: "string list \<Rightarrow> string list" where
  "keywords_ref items = take 32 (first_spellings casefold (filter (\<lambda>v. v \<noteq> [] \<and> length v \<le> 256) (map py_strip items)))"

lemma first_spellings_distinct: "distinct (map f (first_spellings f xs))"
  by (induction xs) (auto simp: distinct_map inj_on_def)

lemma keyword_loop_eq:
  assumes "length out < 32"
  shows "keyword_loop items seen out =
    take 32 (out @ filter (\<lambda>v. casefold v \<notin> seen) (first_spellings casefold (filter (\<lambda>v. v \<noteq> [] \<and> length v \<le> 256) (map py_strip items))))"
  using assms
proof (induction items arbitrary: seen out)
  case (Cons item items)
  define v where "v = py_strip item"
  define rest where "rest = first_spellings casefold (filter (\<lambda>v. v \<noteq> [] \<and> length v \<le> 256) (map py_strip items))"
  note IH = Cons.IH [folded rest_def]
  show ?case
  proof (cases "v = [] \<or> length v > 256")
    case True
    then show ?thesis using IH [OF Cons.prems] by (auto simp: v_def [symmetric] rest_def MAX_KEYWORD_CHARS_def)
  next
    case bad: False
    have spell: "first_spellings casefold (filter (\<lambda>v. v \<noteq> [] \<and> length v \<le> 256) (map py_strip (item # items)))
      = v # filter (\<lambda>y. casefold y \<noteq> casefold v) rest" using bad by (simp add: v_def rest_def)
    show ?thesis
    proof (cases "casefold v \<in> seen")
      case True
      then have "filter (\<lambda>y. casefold y \<notin> seen) (filter (\<lambda>y. casefold y \<noteq> casefold v) rest) = filter (\<lambda>y. casefold y \<notin> seen) rest"
        by (auto intro: filter_cong)
      then show ?thesis using True bad IH [OF Cons.prems] unfolding spell by (simp add: v_def MAX_KEYWORD_CHARS_def)
    next
      case False
      have "filter (\<lambda>y. casefold y \<notin> seen) (filter (\<lambda>y. casefold y \<noteq> casefold v) rest) = filter (\<lambda>y. casefold y \<notin> insert (casefold v) seen) rest"
        by (auto intro: filter_cong)
      then show ?thesis
        using False bad Cons.prems IH [of "out @ [v]" "insert (casefold v) seen"] unfolding spell
        by (auto simp: v_def MAX_KEYWORD_CHARS_def MAX_KEYWORDS_def Let_def)
    qed
  qed
qed simp

section \<open>Properties\<close>

text \<open>
  The keywords of a document are the first spelling of every item, ignoring case, trimmed, not blank and at most 256
  characters long, in the order of the metadata and cut after 32: a reference definition without the loop. So they are
  distinct up to case and each is one of the items.
\<close>

theorem keywords_reference:
  "keyword_values lib (Some raw) js = keywords_ref (keyword_items lib raw js)"
  "distinct (map casefold (keyword_values lib raw' js)) \<and> length (keyword_values lib raw' js) \<le> 32"
proof -
  show eq: "keyword_values lib (Some raw) js = keywords_ref (keyword_items lib raw js)" for raw
    using keyword_loop_eq [of "[]" _ "{}"] by (simp add: keyword_values_def keywords_ref_def)
  show "distinct (map casefold (keyword_values lib raw' js)) \<and> length (keyword_values lib raw' js) \<le> 32"
    using first_spellings_distinct [of casefold]
    by (cases raw') (simp_all add: eq, simp_all add: keyword_values_def keywords_ref_def take_map [symmetric])
qed

end
