(* ===== verification/Doc_Fields_Payload.thy ===== *)
theory Doc_Fields_Payload
  imports Sync_State_Db Metadata_Fields
begin

text \<open>
  The upload fields of one document (\<open>sync/doc_fields_payload.py\<close>): the configuration of a source, the payload with its
  caps, the reading of the server's answer and the record the state database stores. A configured value is decoded
  JSON; what is left of it on the wire is \<open>wval\<close>. The text of a floating-point number in JSON (\<open>float.__repr__\<close>) and
  the hash function are arguments.

  The lemmas show that a payload keeps the server's bounds, that the layers keep their precedence, what the caps drop,
  and that nothing counts as stored without the server's echo.
\<close>

section \<open>The configuration of a source\<close>

definition FIELDS_PAYLOAD_VERSION :: int where "FIELDS_PAYLOAD_VERSION = 1"
definition MAX_KEYS :: nat where "MAX_KEYS = 64"
definition MAX_VALUES_PER_KEY :: nat where "MAX_VALUES_PER_KEY = 32"
definition MAX_VALUE_CHARS :: nat where "MAX_VALUE_CHARS = 256"
definition MAX_PAYLOAD_BYTES :: nat where "MAX_PAYLOAD_BYTES = 16384"

datatype layer = LAYER_CAPTURE | LAYER_STATIC | LAYER_METADATA

text \<open>A value before cleaning; \<open>FFloat None\<close> is a number that is not finite, \<open>FOther\<close> null or an object.\<close>

datatype fval = FStr string | FInt int | FBool bool | FFloat "rat option" | FList "fval list" | FOther

fun fval_of :: "jval \<Rightarrow> fval" where
  "fval_of (JStr s) = FStr s"
| "fval_of (JInt n) = FInt n"
| "fval_of (JBool b) = FBool b"
| "fval_of (JReal r) = FFloat (Some r)"
| "fval_of (JArr vs) = FList (map fval_of vs)"
| "fval_of JNull = FOther"
| "fval_of (JObj _) = FOther"

record source_spec =
  spec_access_groups :: "jval list"
  spec_fields :: "(string, fval) table"
  spec_templates :: "compiled_template list"
  spec_metadata :: "string list"

definition has_fields :: "source_spec \<Rightarrow> bool" where
  "has_fields spec \<longleftrightarrow> spec_fields spec \<noteq> [] \<or> spec_templates spec \<noteq> [] \<or> spec_metadata spec \<noteq> []"

definition EMPTY_SOURCE_SPEC :: source_spec where
  "EMPTY_SOURCE_SPEC = \<lparr>spec_access_groups = [], spec_fields = [], spec_templates = [], spec_metadata = []\<rparr>"

datatype spec_error = Spec_Template template_error | Spec_Type_Error

text \<open>\<open>tuple(value or ())\<close>.\<close>

fun py_tuple :: "jval \<Rightarrow> spec_error + jval list" where
  "py_tuple (JArr xs) = Inr xs"
| "py_tuple (JStr s) = Inr (map (\<lambda>c. JStr [c]) s)"
| "py_tuple (JObj kvs) = Inr (map (JStr \<circ> fst) kvs)"
| "py_tuple v = (if jtruthy v then Inl Spec_Type_Error else Inr [])"

fun as_strings :: "jval list \<Rightarrow> string list" where
  "as_strings [] = []"
| "as_strings (JStr s # vs) = s # as_strings vs"
| "as_strings (_ # vs) = as_strings vs"

definition spec_from_source :: "jval \<Rightarrow> spec_error + source_spec" where
  "spec_from_source source =
     (case py_tuple (jget source ''access_groups'') of Inl e \<Rightarrow> Inl e
      | Inr groups \<Rightarrow>
          (let static = (case jget source ''fields'' of JObj kvs \<Rightarrow> map (\<lambda>(k, v). (k, fval_of v)) (sort_key fst kvs) | _ \<Rightarrow> []);
               raw = jget source ''field_templates''
           in case (if jtruthy raw then (case raw of JArr ts \<Rightarrow> compile_templates ts | _ \<Rightarrow> Inl Te_Syntax) else Inr []) of
                Inl e \<Rightarrow> Inl (Spec_Template e)
              | Inr templates \<Rightarrow>
                  Inr \<lparr>spec_access_groups = groups, spec_fields = static, spec_templates = templates,
                       spec_metadata = remdups (filter (\<lambda>i. i \<in> set METADATA_ITEMS) (as_strings (as_list (jget source ''metadata_fields''))))\<rparr>))"

section \<open>Assembling the payload\<close>

datatype wscalar = W_Str string | W_Int int | W_Bool bool | W_Float rat
datatype wval = W_One wscalar | W_Many "wscalar list"

type_synonym drops = "(string, int) table"
type_synonym kept = "(string, layer \<times> wval) table"

record payload =
  pl_values :: "(string, wval) table"
  pl_dropped :: drops

fun clean_scalar :: "fval \<Rightarrow> string + wscalar" where
  "clean_scalar (FBool b) = Inr (W_Bool b)"
| "clean_scalar (FInt n) = Inr (W_Int n)"
| "clean_scalar (FFloat (Some r)) = Inr (W_Float r)"
| "clean_scalar (FFloat None) = Inl ''invalid_value''"
| "clean_scalar (FStr s) =
     (if py_strip s = [] then Inl ''invalid_value'' else if length s > MAX_VALUE_CHARS then Inl ''value_too_long'' else Inr (W_Str s))"
| "clean_scalar _ = Inl ''invalid_value''"

fun clean_items :: "fval list \<Rightarrow> drops \<Rightarrow> wscalar list \<times> drops" where
  "clean_items [] d = ([], d)"
| "clean_items (v # vs) d =
     (case clean_scalar v of
        Inl reason \<Rightarrow> clean_items vs (tally_add reason 1 d)
      | Inr w \<Rightarrow> (let (ws, d') = clean_items vs d in (w # ws, d')))"

fun clean_value :: "fval \<Rightarrow> drops \<Rightarrow> wval option \<times> drops" where
  "clean_value (FList vs) d =
     (if vs = [] then (None, tally_add ''invalid_value'' 1 d)
      else if length vs > MAX_VALUES_PER_KEY then (None, tally_add ''cap_exceeded'' 1 d)
      else let (ws, d') = clean_items vs d in (if ws = [] then None else Some (W_Many ws), d'))"
| "clean_value v d = (case clean_scalar v of Inl reason \<Rightarrow> (None, tally_add reason 1 d) | Inr w \<Rightarrow> (Some (W_One w), d))"

text \<open>\<open>re.sub("[^a-z0-9]+", "_", s)\<close> on code points; the flag says that a run of other characters is open.\<close>

fun squash :: "bool \<Rightarrow> nat list \<Rightarrow> nat list" where
  "squash run [] = []"
| "squash run (n # ns) =
     (if 97 \<le> n \<and> n \<le> 122 \<or> 48 \<le> n \<and> n \<le> 57 then n # squash False ns
      else if run then squash True ns else 95 # squash True ns)"

definition strip_underscores :: "nat list \<Rightarrow> nat list" where
  "strip_underscores s = py_lstrip (\<lambda>n. n = 95) (py_rstrip (\<lambda>n. n = 95) s)"

definition key_reason :: "string \<Rightarrow> string option" where
  "key_reason key =
     (if strip_underscores (squash False (casefold key)) \<in> code_points ` set SYSTEM_KEYS then Some ''system_key''
      else if \<not> KEY_RE key then Some ''invalid_value'' else None)"

text \<open>The length of the compact JSON in UTF-8.\<close>

definition char_bytes :: "char \<Rightarrow> nat" where
  "char_bytes c =
     (let n = (of_char c :: nat)
      in if n \<in> {8, 9, 10, 12, 13, 34, 92} then 2 else if n < 32 then 6 else if n < 128 then 1 else 2)"

definition string_size :: "string \<Rightarrow> nat" where
  "string_size s = 2 + sum_list (map char_bytes s)"

fun scalar_size :: "(rat \<Rightarrow> string) \<Rightarrow> wscalar \<Rightarrow> nat" where
  "scalar_size repr (W_Str s) = string_size s"
| "scalar_size repr (W_Int n) = length (show_int n)"
| "scalar_size repr (W_Bool b) = (if b then 4 else 5)"
| "scalar_size repr (W_Float r) = length (repr r)"

definition seq_size :: "nat list \<Rightarrow> nat" where
  "seq_size ns = 2 + sum_list ns + (length ns - 1)"

fun value_size :: "(rat \<Rightarrow> string) \<Rightarrow> wval \<Rightarrow> nat" where
  "value_size repr (W_One w) = scalar_size repr w"
| "value_size repr (W_Many ws) = seq_size (map (scalar_size repr) ws)"

definition encoded_size :: "(rat \<Rightarrow> string) \<Rightarrow> (string, wval) table \<Rightarrow> nat" where
  "encoded_size repr values = seq_size (map (\<lambda>(k, v). string_size k + 1 + value_size repr v) values)"

definition keys_of_layer :: "kept \<Rightarrow> layer \<Rightarrow> string list" where
  "keys_of_layer kept lay = map fst (filter (\<lambda>(k, l, v). l = lay) kept)"

definition largest_key :: "(rat \<Rightarrow> string) \<Rightarrow> kept \<Rightarrow> string list \<Rightarrow> string" where
  "largest_key repr kept ks = snd (Max (set (map (\<lambda>k. (encoded_size repr [(k, snd (the (map_of kept k)))], k)) ks)))"

text \<open>\<open>None\<close> stands for the assertion error.\<close>

fun victim_in :: "(rat \<Rightarrow> string) \<Rightarrow> bool \<Rightarrow> kept \<Rightarrow> layer list \<Rightarrow> string option" where
  "victim_in repr largest kept [] = None"
| "victim_in repr largest kept (lay # lays) =
     (let ks = keys_of_layer kept lay
      in if ks = [] then victim_in repr largest kept lays
         else Some (if largest then largest_key repr kept ks else Max (set ks)))"

definition DROP_ORDER :: "layer list" where
  "DROP_ORDER = [LAYER_METADATA, LAYER_STATIC, LAYER_CAPTURE]"

definition victim :: "(rat \<Rightarrow> string) \<Rightarrow> bool \<Rightarrow> kept \<Rightarrow> string option" where
  "victim repr largest kept = victim_in repr largest kept DROP_ORDER"

lemma largest_key_in:
  assumes "ks \<noteq> []" shows "largest_key repr kept ks \<in> set ks"
proof -
  let ?S = "set (map (\<lambda>k. (encoded_size repr [(k, snd (the (map_of kept k)))], k)) ks)"
  have "Max ?S \<in> ?S" using assms by (intro Max_in) auto
  then show ?thesis unfolding largest_key_def by (metis (no_types, lifting) imageE list.set_map snd_conv)
qed

lemma victim_in_keys: "victim_in repr largest kept lays = Some k \<Longrightarrow> k \<in> fst ` set kept"
proof (induction lays)
  case (Cons lay lays)
  have sub: "set (keys_of_layer kept lay) \<subseteq> fst ` set kept" by (auto simp: keys_of_layer_def)
  show ?case
  proof (cases "keys_of_layer kept lay = []")
    case True
    then show ?thesis using Cons by simp
  next
    case False
    then have "k \<in> set (keys_of_layer kept lay)"
      using Cons.prems largest_key_in [OF False] Max_in [of "set (keys_of_layer kept lay)"] by (auto simp: Let_def split: if_splits)
    then show ?thesis using sub by auto
  qed
qed simp

lemma delete_shorter:
  assumes "k \<in> fst ` set t" shows "length (AList.delete k t) < length t"
proof -
  obtain v where "(k, v) \<in> set t" using assms by auto
  then show ?thesis unfolding AList.delete_eq by (rule length_filter_less) simp
qed

text \<open>The two loops; the condition of the second also needs a key.\<close>

function cap_loop :: "(rat \<Rightarrow> string) \<Rightarrow> bool \<Rightarrow> (kept \<Rightarrow> bool) \<Rightarrow> string \<Rightarrow> kept \<Rightarrow> drops \<Rightarrow> (kept \<times> drops) option" where
  "cap_loop repr largest over reason kept d =
     (if over kept then
        (case victim repr largest kept of None \<Rightarrow> None
         | Some k \<Rightarrow> cap_loop repr largest over reason (AList.delete k kept) (tally_add reason 1 d))
      else Some (kept, d))"
  by pat_completeness auto
termination
  by (relation "measure (\<lambda>(repr, largest, over, reason, kept, d). length kept)")
     (auto simp: victim_def dest!: victim_in_keys intro!: delete_shorter)

declare cap_loop.simps [simp del]

definition kept_values :: "kept \<Rightarrow> (string, wval) table" where
  "kept_values kept = map (\<lambda>(k, l, v). (k, v)) kept"

definition too_many_keys :: "kept \<Rightarrow> bool" where
  "too_many_keys kept \<longleftrightarrow> length kept > MAX_KEYS"

definition too_many_bytes :: "(rat \<Rightarrow> string) \<Rightarrow> kept \<Rightarrow> bool" where
  "too_many_bytes repr kept \<longleftrightarrow> kept \<noteq> [] \<and> encoded_size repr (kept_values kept) > MAX_PAYLOAD_BYTES"

fun meta_fval :: "meta_value \<Rightarrow> fval" where
  "meta_fval (M_Text s) = FStr s"
| "meta_fval (M_List ss) = FList (map FStr ss)"

definition layers :: "metadata_lib \<Rightarrow> string \<Rightarrow> source_spec \<Rightarrow> source_metadata option \<Rightarrow> string \<Rightarrow> layer \<Rightarrow> (string, fval) table" where
  "layers lib rel spec md ext lay =
     (case lay of
        LAYER_CAPTURE \<Rightarrow> map (\<lambda>(k, v). (k, FStr v)) (captures rel (spec_templates spec))
      | LAYER_STATIC \<Rightarrow> spec_fields spec
      | LAYER_METADATA \<Rightarrow> map (\<lambda>(k, v). (k, meta_fval v)) (map_metadata lib md ext (spec_metadata spec)))"

definition PRECEDENCE :: "layer list" where
  "PRECEDENCE = [LAYER_CAPTURE, LAYER_STATIC, LAYER_METADATA]"

definition set_default :: "'k \<Rightarrow> 'v \<Rightarrow> ('k, 'v) table \<Rightarrow> ('k, 'v) table" where
  "set_default k v t = (if map_of t k = None then t @ [(k, v)] else t)"

definition chosen_values :: "(layer \<Rightarrow> (string, fval) table) \<Rightarrow> (string, layer \<times> fval) table" where
  "chosen_values lays = fold (\<lambda>lay. fold (\<lambda>(k, v). set_default k (lay, v)) (lays lay)) PRECEDENCE []"

fun keep_loop :: "(string, layer \<times> fval) table \<Rightarrow> kept \<Rightarrow> drops \<Rightarrow> kept \<times> drops" where
  "keep_loop [] kept d = (kept, d)"
| "keep_loop ((key, lay, v) # rest) kept d =
     (case key_reason key of
        Some reason \<Rightarrow> keep_loop rest kept (tally_add reason 1 d)
      | None \<Rightarrow>
          (case clean_value v d of
             (Some w, d') \<Rightarrow> keep_loop rest (kept @ [(key, lay, w)]) d'
           | (None, d') \<Rightarrow> keep_loop rest kept d'))"

definition assemble ::
    "(rat \<Rightarrow> string) \<Rightarrow> metadata_lib \<Rightarrow> string \<Rightarrow> source_spec option \<Rightarrow> source_metadata option \<Rightarrow> string \<Rightarrow> payload option" where
  "assemble repr lib rel spec0 md ext =
     (case spec0 of None \<Rightarrow> Some \<lparr>pl_values = [], pl_dropped = []\<rparr>
      | Some spec \<Rightarrow>
          if \<not> has_fields spec then Some \<lparr>pl_values = [], pl_dropped = []\<rparr>
          else let chosen = chosen_values (layers lib rel spec md ext);
                   (kept, d) = keep_loop (sort_key fst chosen) [] []
          in case cap_loop repr False too_many_keys ''cap_exceeded'' kept d of None \<Rightarrow> None
             | Some (kept1, d1) \<Rightarrow>
                 (case cap_loop repr True (too_many_bytes repr) ''too_large'' kept1 d1 of None \<Rightarrow> None
                  | Some (kept2, d2) \<Rightarrow> Some \<lparr>pl_values = sort_key fst (kept_values kept2), pl_dropped = d2\<rparr>))"

section \<open>The digest of the configuration\<close>

text \<open>\<open>PurePosixPath(rel).suffix\<close>.\<close>

definition posix_suffix :: "string \<Rightarrow> string" where
  "posix_suffix path =
     (case rev (filter (\<lambda>s. s \<noteq> [] \<and> s \<noteq> ''.'') (split_char (CHR ''/'') path)) of [] \<Rightarrow> []
      | name # _ \<Rightarrow>
          (let tail = rev (takeWhile (\<lambda>c. c \<noteq> CHR ''.'') (rev name))
           in if CHR ''.'' \<notin> set name \<or> tail = [] \<or> length tail + 1 \<ge> length name then [] else CHR ''.'' # tail))"

record config_document =
  cd_version :: int
  cd_static :: "(string, fval) table"
  cd_captures :: "(string, string) table"
  cd_metadata :: "string list"
  cd_mapping_version :: int
  cd_item_rules :: "(string, int) table"

text \<open>\<open>json.dumps(..., sort_keys=True)\<close> and SHA-256 together are the argument \<open>hash\<close>; sorted tables stand for sorted keys.\<close>

definition config_digest :: "(config_document \<Rightarrow> string) \<Rightarrow> string \<Rightarrow> source_spec option \<Rightarrow> string" where
  "config_digest hash rel spec0 =
     (case spec0 of None \<Rightarrow> []
      | Some spec \<Rightarrow>
          (let static = spec_fields spec; caps = captures rel (spec_templates spec); metadata = sort (spec_metadata spec)
           in if static = [] \<and> caps = [] \<and> metadata = [] then []
              else hash \<lparr>cd_version = FIELDS_PAYLOAD_VERSION, cd_static = sort_key fst static, cd_captures = sort_key fst caps,
                     cd_metadata = metadata, cd_mapping_version = METADATA_MAPPING_VERSION,
                     cd_item_rules = item_rule_versions metadata (posix_suffix (unbackslash rel))\<rparr>))"

text \<open>A change of the templates that leaves the captures of a path alone keeps its digest.\<close>

lemma digest_by_captures:
  "captures rel ts = captures rel (spec_templates spec) \<Longrightarrow> config_digest hash rel (Some (spec\<lparr>spec_templates := ts\<rparr>)) = config_digest hash rel (Some spec)"
  by (simp add: config_digest_def)

section \<open>Reading the server's answer\<close>

definition fields_to_send :: "payload \<Rightarrow> bool \<Rightarrow> (string, wval) table option" where
  "fields_to_send p previous_fields_sent =
     (if pl_values p \<noteq> [] then Some (pl_values p) else if previous_fields_sent then Some [] else None)"

definition FIELD_SHAPE_CODES :: "string list" where
  "FIELD_SHAPE_CODES = [''invalid_fields'', ''fields_too_large'', ''ambiguous_field'', ''unknown_field'']"

definition TRANSIENT_REFUSAL_CODES :: "string list" where
  "TRANSIENT_REFUSAL_CODES = [''doc_fields_ingest_unavailable'', ''doc_fields_unavailable'']"

definition ASSERTION_REJECTED :: string where "ASSERTION_REJECTED = ''assertion_rejected''"
definition REFUSAL_OTHER :: string where "REFUSAL_OTHER = ''other''"

definition FIELD_REFUSAL_CODES :: "string list" where
  "FIELD_REFUSAL_CODES = FIELD_SHAPE_CODES @ TRANSIENT_REFUSAL_CODES @ [ASSERTION_REJECTED, REFUSAL_OTHER]"

definition MAX_SUGGESTIONS :: nat where "MAX_SUGGESTIONS = 3"

definition code_label :: "jval \<Rightarrow> string" where
  "code_label v = (case v of JStr s \<Rightarrow> if KEY_RE s then s else ''other'' | _ \<Rightarrow> ''other'')"

definition is_key :: "jval \<Rightarrow> bool" where
  "is_key v = (case v of JStr s \<Rightarrow> KEY_RE s | _ \<Rightarrow> False)"

fun key_loop :: "jval list \<Rightarrow> string list \<Rightarrow> string list" where
  "key_loop [] out = out"
| "key_loop (JStr s # vs) out = key_loop vs (if KEY_RE s \<and> s \<notin> set out then out @ [s] else out)"
| "key_loop (_ # vs) out = key_loop vs out"

definition keys_in :: "jval \<Rightarrow> string list" where
  "keys_in v = key_loop (as_list v) []"

definition warning_key :: "jval \<Rightarrow> string" where
  "warning_key v = (case v of JStr s \<Rightarrow> if KEY_RE s then s else [] | _ \<Rightarrow> [])"

section \<open>Outcomes of the document fields\<close>

definition OUTCOME_STAGED :: string where "OUTCOME_STAGED = ''staged''"
definition OUTCOME_CLEARED :: string where "OUTCOME_CLEARED = ''cleared''"
definition OUTCOME_NOT_ACCEPTED :: string where "OUTCOME_NOT_ACCEPTED = ''not_accepted''"
definition OUTCOME_NONE :: string where "OUTCOME_NONE = ''none''"
definition REFUSED_PREFIX :: string where "REFUSED_PREFIX = ''refused:''"
definition REUPLOAD_FAILED_PREFIX :: string where "REUPLOAD_FAILED_PREFIX = ''reupload_failed:''"

definition REUPLOAD_FAILURE_CLASSES :: "string list" where
  "REUPLOAD_FAILURE_CLASSES = [''init_401'', ''init_403'', ''init_4xx'', ''init_5xx'', ''fields_unavailable'', ''extract'', ''other'']"

record fields_outcome_t =
  fo_outcome :: string
  fo_staged :: int
  fo_warning_codes :: "(string, int) table"
  fo_unknown_keys :: "string list"
  fo_suggest :: "(string, string list) table"
  fo_digest :: string
  fo_transient :: bool
  fo_warnings :: "(string \<times> string) list"

definition plain_outcome :: "string \<Rightarrow> string \<Rightarrow> fields_outcome_t" where
  "plain_outcome name digest = \<lparr>fo_outcome = name, fo_staged = 0, fo_warning_codes = [], fo_unknown_keys = [], fo_suggest = [],
     fo_digest = digest, fo_transient = False, fo_warnings = []\<rparr>"

record fields_echo =
  echo_staged :: int
  echo_warning_codes :: "(string, int) table"
  echo_unknown_keys :: "string list"
  echo_suggest :: "(string, string list) table"
  echo_warnings :: "(string \<times> string) list"

definition outcome_after_init :: "(string, wval) table option \<Rightarrow> fields_echo option \<Rightarrow> string \<Rightarrow> fields_outcome_t" where
  "outcome_after_init sent echo digest =
     (case sent of None \<Rightarrow> plain_outcome OUTCOME_NONE digest
      | Some s \<Rightarrow>
          (case echo of None \<Rightarrow> plain_outcome OUTCOME_NOT_ACCEPTED digest
           | Some e \<Rightarrow> \<lparr>fo_outcome = (if s = [] then OUTCOME_CLEARED else OUTCOME_STAGED), fo_staged = echo_staged e,
               fo_warning_codes = echo_warning_codes e, fo_unknown_keys = echo_unknown_keys e, fo_suggest = echo_suggest e,
               fo_digest = digest, fo_transient = False, fo_warnings = echo_warnings e\<rparr>))"

definition frec :: "string option \<Rightarrow> string \<Rightarrow> fields_record" where
  "frec digest name = \<lparr>rec_digest = digest, rec_outcome = name, rec_sent = None, rec_warning_codes = [], rec_count_attempt = False\<rparr>"

definition record_for :: "fields_outcome_t \<Rightarrow> fields_record py" where
  "record_for out =
     (let codes = sort (map fst (fo_warning_codes out)); name = fo_outcome out; d = Some (fo_digest out)
      in if name = OUTCOME_STAGED then Inr ((frec d name)\<lparr>rec_sent := Some True, rec_warning_codes := codes\<rparr>)
         else if name = OUTCOME_CLEARED then Inr ((frec d name)\<lparr>rec_sent := Some False, rec_warning_codes := codes\<rparr>)
         else if name = OUTCOME_NOT_ACCEPTED \<or> name = OUTCOME_NONE then Inr (frec d name)
         else if py_startswith name REFUSED_PREFIX then
           (if fo_transient out then Inr ((frec None name)\<lparr>rec_count_attempt := True\<rparr>) else Inr (frec d name))
         else Inl ValueError)"

definition reupload_failed_record :: "string \<Rightarrow> string \<Rightarrow> fields_record" where
  "reupload_failed_record digest failure_class =
     frec (Some digest) (REUPLOAD_FAILED_PREFIX @ (if failure_class \<in> set REUPLOAD_FAILURE_CLASSES then failure_class else ''other''))"

fun is_object :: "jval \<Rightarrow> bool" where
  "is_object (JObj _) = True"
| "is_object _ = False"

text \<open>The pairs of the warnings that are objects, and the suggestions of key-shaped keys.\<close>

definition warning_pairs :: "jval \<Rightarrow> (string \<times> string) list" where
  "warning_pairs v = map (\<lambda>w. (code_label (jget w ''code''), warning_key (jget w ''key''))) (filter is_object (as_list v))"

definition suggestions :: "jval \<Rightarrow> (string, string list) table" where
  "suggestions v =
     (case v of JObj kvs \<Rightarrow>
        filter (\<lambda>(k, cs). cs \<noteq> []) (map (\<lambda>(k, c). (k, take MAX_SUGGESTIONS (keys_in c))) (sort_key fst (filter (\<lambda>(k, c). KEY_RE k) kvs)))
      | _ \<Rightarrow> [])"

definition parse_init_echo :: "jval \<Rightarrow> fields_echo option" where
  "parse_init_echo init_json =
     (case jget init_json ''fields'' of
        JObj kvs \<Rightarrow>
          (let echo = JObj kvs
           in case jget echo ''staged'' of
                JInt n \<Rightarrow>
                  if n < 0 then None
                  else let pairs = warning_pairs (jget echo ''warnings'')
                  in Some \<lparr>echo_staged = n, echo_warning_codes = fold (\<lambda>(c, k). tally_add c 1) pairs [],
                       echo_unknown_keys = keys_in (jget echo ''unknown_keys''), echo_suggest = suggestions (jget echo ''suggest''),
                       echo_warnings = pairs\<rparr>
              | _ \<Rightarrow> None)
      | _ \<Rightarrow> None)"

definition classify_init_refusal :: "int \<Rightarrow> jval \<Rightarrow> string option" where
  "classify_init_refusal status body =
     (if \<not> is_object body then None
      else let code = (case jget body ''error_code'' of JStr s \<Rightarrow> s | _ \<Rightarrow> [])
      in if status = 400 \<or> status = 422 then
           (if code \<in> set FIELD_SHAPE_CODES then Some code
            else case jget body ''path'' of
                   JStr path \<Rightarrow> if py_startswith path ''fields'' then Some (if code \<in> set FIELD_REFUSAL_CODES then code else REFUSAL_OTHER) else None
                 | _ \<Rightarrow> None)
         else if status = 503 \<and> code \<in> set TRANSIENT_REFUSAL_CODES then Some code
         else if status = 401 \<and> code = ASSERTION_REJECTED then Some code
         else None)"

definition is_transient_refusal :: "string \<Rightarrow> bool" where
  "is_transient_refusal code \<longleftrightarrow> code \<in> set TRANSIENT_REFUSAL_CODES"

definition is_doc_fields_unavailable :: "int \<Rightarrow> jval \<Rightarrow> bool" where
  "is_doc_fields_unavailable status body =
     (status = 503 \<and> is_object body \<and> (case jget body ''error_code'' of JStr s \<Rightarrow> py_startswith s ''doc_fields_'' | _ \<Rightarrow> False))"

definition refused_outcome :: "string \<Rightarrow> string \<Rightarrow> fields_outcome_t" where
  "refused_outcome code0 digest =
     (let code = (if code0 \<in> set FIELD_REFUSAL_CODES then code0 else REFUSAL_OTHER)
      in (plain_outcome (REFUSED_PREFIX @ code) digest)\<lparr>fo_transient := is_transient_refusal code\<rparr>)"

definition refusal_code :: "fields_outcome_t \<Rightarrow> string option" where
  "refusal_code f = (if py_startswith (fo_outcome f) REFUSED_PREFIX then Some (drop (length REFUSED_PREFIX) (fo_outcome f)) else None)"

section \<open>The caps\<close>

fun rank :: "layer \<Rightarrow> nat" where
  "rank LAYER_CAPTURE = 0"
| "rank LAYER_STATIC = 1"
| "rank LAYER_METADATA = 2"

lemma keys_of_layer_iff: "k \<in> set (keys_of_layer kept lay) \<longleftrightarrow> (\<exists>w. (k, lay, w) \<in> set kept)"
  by (force simp: keys_of_layer_def)

lemma victim_in_layer:
  assumes "victim_in repr largest kept lays = Some k"
  shows "\<exists>l w. l \<in> set lays \<and> (k, l, w) \<in> set kept"
  using assms
proof (induction lays)
  case (Cons lay lays)
  show ?case
  proof (cases "keys_of_layer kept lay = []")
    case False
    then have "k \<in> set (keys_of_layer kept lay)"
      using Cons.prems largest_key_in [OF False] Max_in [of "set (keys_of_layer kept lay)"] by (auto simp: Let_def split: if_splits)
    then show ?thesis by (auto simp: keys_of_layer_iff)
  qed (use Cons in auto)
qed simp

lemma victim_lowest:
  assumes "victim repr largest kept = Some k"
  shows "\<exists>l w. (k, l, w) \<in> set kept \<and> (\<forall>(k', l', w') \<in> set kept. rank l' \<le> rank l)"
proof -
  have empty: "keys_of_layer kept lay = [] \<Longrightarrow> (k', l', w') \<in> set kept \<Longrightarrow> l' \<noteq> lay" for lay k' l' w'
    using keys_of_layer_iff [of k' kept lay] by auto
  have pick: "\<exists>w. (k, lay, w) \<in> set kept" if at: "victim_in repr largest kept (lay # lays) = Some k" "keys_of_layer kept lay \<noteq> []" for lay lays
    using victim_in_layer [of repr largest kept "[lay]" k] at by (auto simp: Let_def)
  have rk: "rank l' \<le> 2" "l' \<noteq> LAYER_METADATA \<Longrightarrow> rank l' \<le> 1" "l' \<noteq> LAYER_METADATA \<Longrightarrow> l' \<noteq> LAYER_STATIC \<Longrightarrow> rank l' = 0" for l'
    by (cases l'; simp)+
  consider "keys_of_layer kept LAYER_METADATA \<noteq> []" | "keys_of_layer kept LAYER_METADATA = []" "keys_of_layer kept LAYER_STATIC \<noteq> []"
    | "keys_of_layer kept LAYER_METADATA = []" "keys_of_layer kept LAYER_STATIC = []" by blast
  then show ?thesis
  proof cases
    case 1
    then obtain w where "(k, LAYER_METADATA, w) \<in> set kept" using pick assms unfolding victim_def DROP_ORDER_def by blast
    then show ?thesis using rk(1) by (intro exI [of _ LAYER_METADATA] exI [of _ w]) auto
  next
    case 2
    then have "victim_in repr largest kept [LAYER_STATIC, LAYER_CAPTURE] = Some k"
      using assms by (simp add: victim_def DROP_ORDER_def)
    then obtain w where "(k, LAYER_STATIC, w) \<in> set kept" using pick 2(2) by blast
    then show ?thesis using rk(2) empty [OF 2(1)] by (intro exI [of _ LAYER_STATIC] exI [of _ w]) auto
  next
    case 3
    obtain l w where "(k, l, w) \<in> set kept" using victim_in_layer assms unfolding victim_def by blast
    moreover have "rank l' = 0" if at: "(k', l', w') \<in> set kept" for k' l' w'
      using rk(3) empty [OF 3(1) at] empty [OF 3(2) at] by blast
    ultimately show ?thesis by (intro exI [of _ l] exI [of _ w]) auto
  qed
qed

lemma victim_none: "victim repr largest kept = None \<Longrightarrow> kept = []"
proof (rule ccontr)
  assume none: "victim repr largest kept = None" and "kept \<noteq> []"
  then obtain k l w where "(k, l, w) \<in> set kept" by (cases kept) auto
  then have "keys_of_layer kept l \<noteq> []" using keys_of_layer_iff by (metis empty_iff empty_set)
  then show False using none by (cases l) (auto simp: victim_def DROP_ORDER_def Let_def split: if_splits)
qed

lemma cap_loop_spec:
  assumes "\<forall>t. over t \<longrightarrow> t \<noteq> []" and "table_ok kept"
  shows "\<exists>P d'. cap_loop repr largest over reason kept d = Some (filter P kept, d') \<and> \<not> over (filter P kept)
    \<and> (\<not> over kept \<longrightarrow> filter P kept = kept)
    \<and> (\<forall>(k, l, w) \<in> set kept. \<not> P (k, l, w) \<longrightarrow> (\<forall>(k', l', w') \<in> set (filter P kept). rank l' \<le> rank l))"
  using assms
proof (induction repr largest over reason kept d rule: cap_loop.induct)
  case (1 repr largest over reason kept d)
  show ?case
  proof (cases "over kept")
    case False
    then show ?thesis by (intro exI [of _ "\<lambda>_. True"] exI [of _ d]) (simp add: cap_loop.simps [of repr largest over])
  next
    case True
    then obtain k where k: "victim repr largest kept = Some k" using victim_none 1(2) by fastforce
    obtain l w where lw: "(k, l, w) \<in> set kept" "\<forall>(k', l', w') \<in> set kept. rank l' \<le> rank l" using victim_lowest [OF k] by blast
    have keys: "(k, l', w') \<in> set kept \<Longrightarrow> l' = l \<and> w' = w" for l' w'
      using lw(1) 1(3) by (auto simp: table_ok_map_of)
    have tab: "table_ok (AList.delete k kept)" using 1(3) by (rule at.valid_del)
    from 1(1) [OF True k 1(2) tab] obtain P d' where P: "cap_loop repr largest over reason (AList.delete k kept) (tally_add reason 1 d) = Some (filter P (AList.delete k kept), d')"
      "\<not> over (filter P (AList.delete k kept))"
      "\<forall>(a, b, c) \<in> set (AList.delete k kept). \<not> P (a, b, c) \<longrightarrow> (\<forall>(a', b', c') \<in> set (filter P (AList.delete k kept)). rank b' \<le> rank b)"
      by blast
    define Q where "Q = (\<lambda>(k', v). k' \<noteq> k \<and> P (k', v))"
    have eq: "filter P (AList.delete k kept) = filter Q kept"
      by (auto simp: AList.delete_eq Q_def intro!: filter_cong)
    show ?thesis
    proof (intro exI [of _ Q] exI [of _ d'] conjI)
      show "cap_loop repr largest over reason kept d = Some (filter Q kept, d')"
        using True k P(1) by (simp add: cap_loop.simps [of repr largest over reason kept] eq)
      show "\<not> over (filter Q kept)" using P(2) by (simp add: eq)
      show "\<not> over kept \<longrightarrow> filter Q kept = kept" using True by simp
      show "\<forall>(k, l, w) \<in> set kept. \<not> Q (k, l, w) \<longrightarrow> (\<forall>(k', l', w') \<in> set (filter Q kept). rank l' \<le> rank l)"
      proof (clarify)
        fix a b c a' b' c' assume at: "(a, b, c) \<in> set kept" "\<not> Q (a, b, c)" "(a', b', c') \<in> set (filter Q kept)"
        show "rank b' \<le> rank b"
        proof (cases "a = k")
          case True
          then show ?thesis using at keys lw(2) by auto
        next
          case False
          then have "(a, b, c) \<in> set (AList.delete k kept)" "\<not> P (a, b, c)" using at(1,2) by (auto simp: AList.delete_eq Q_def)
          then show ?thesis using P(3) at(3) unfolding eq by blast
        qed
      qed
    qed
  qed
qed

section \<open>The values that compete\<close>

text \<open>What the layers say of a key, by precedence, and what is left of it after cleaning.\<close>

definition candidate :: "(layer \<Rightarrow> (string, fval) table) \<Rightarrow> string \<Rightarrow> (layer \<times> fval) option" where
  "candidate lays k =
     (case map_of (lays LAYER_CAPTURE) k of Some v \<Rightarrow> Some (LAYER_CAPTURE, v)
      | None \<Rightarrow> (case map_of (lays LAYER_STATIC) k of Some v \<Rightarrow> Some (LAYER_STATIC, v)
                 | None \<Rightarrow> map_option (Pair LAYER_METADATA) (map_of (lays LAYER_METADATA) k)))"

definition cleaned :: "fval \<Rightarrow> wval option" where
  "cleaned v = fst (clean_value v [])"

definition wanted :: "(layer \<Rightarrow> (string, fval) table) \<Rightarrow> string \<Rightarrow> (layer \<times> wval) option" where
  "wanted lays k =
     (case candidate lays k of None \<Rightarrow> None
      | Some (l, v) \<Rightarrow> if key_reason k = None then map_option (Pair l) (cleaned v) else None)"

lemma clean_items_fst: "fst (clean_items vs d) = fst (clean_items vs [])"
proof (induction vs arbitrary: d)
  case (Cons v vs)
  show ?case
    using Cons [of d] Cons [of "tally_add r 1 d" for r] Cons [of "tally_add r 1 []" for r]
    by (auto simp: split_def Let_def split: sum.split)
qed simp

lemma clean_value_fst: "fst (clean_value v d) = cleaned v"
proof (cases v)
  case (FList vs)
  then show ?thesis using clean_items_fst [of vs d] by (simp add: cleaned_def split_def Let_def)
qed (auto simp: cleaned_def split: sum.split)

definition kept_of :: "string \<times> layer \<times> fval \<Rightarrow> kept" where
  "kept_of = (\<lambda>(k, l, v). if key_reason k = None then (case cleaned v of Some w \<Rightarrow> [(k, l, w)] | None \<Rightarrow> []) else [])"

lemma keep_loop_fst: "fst (keep_loop rest kept d) = kept @ concat (map kept_of rest)"
proof (induction rest kept d rule: keep_loop.induct)
  case (2 key lay v rest kept d)
  obtain w d' where c: "clean_value v d = (w, d')" by fastforce
  then have "w = cleaned v" using clean_value_fst [of v d] by simp
  then show ?case
    using 2 c by (cases "key_reason key"; cases "cleaned v") (simp_all add: kept_of_def)
qed simp

lemma kept_of_keys: "sorted (map fst rest) \<Longrightarrow> sorted (map fst (concat (map kept_of rest)))"
  and kept_of_lookup: "table_ok rest \<Longrightarrow> table_ok (concat (map kept_of rest))
    \<and> map_of (concat (map kept_of rest)) k = (case map_of rest k of None \<Rightarrow> None | Some (l, v) \<Rightarrow> map_of (kept_of (k, l, v)) k)"
proof -
  have one: "kept_of x = [] \<or> (\<exists>w. kept_of x = [(fst x, fst (snd x), w)])" for x
    by (auto simp: kept_of_def split_def split: option.split)
  have sub: "set (map fst (concat (map kept_of xs))) \<subseteq> set (map fst xs)" for xs
  proof (induction xs)
    case (Cons x xs)
    then show ?case using one [of x] by auto
  qed simp
  show "sorted (map fst rest) \<Longrightarrow> sorted (map fst (concat (map kept_of rest)))"
  proof (induction rest)
    case (Cons x rest)
    have "fst x \<le> k" if at: "k \<in> set (map fst (concat (map kept_of rest)))" for k
    proof -
      have "k \<in> set (map fst rest)" using at sub [of rest] by (rule subsetD [rotated])
      then show ?thesis using Cons.prems by auto
    qed
    then show ?case using Cons one [of x] by (auto simp del: map_concat set_concat)
  qed simp
  show "table_ok rest \<Longrightarrow> table_ok (concat (map kept_of rest))
    \<and> map_of (concat (map kept_of rest)) k = (case map_of rest k of None \<Rightarrow> None | Some (l, v) \<Rightarrow> map_of (kept_of (k, l, v)) k)"
  proof (induction rest)
    case (Cons x rest)
    obtain a l v where x: "x = (a, l, v)" by (cases x) auto
    define ck where "ck = concat (map kept_of rest)"
    have ar: "a \<notin> set (map fst rest)" "table_ok rest" using Cons.prems by (simp_all add: table_ok_def x)
    then have ac: "a \<notin> set (map fst ck)" using sub [of rest] unfolding ck_def by blast
    note ih = Cons.IH [OF ar(2), folded ck_def]
    have none: "map_of rest a = None" "map_of ck a = None" using ar(1) ac by (auto simp: map_of_eq_None_iff)
    have eq: "concat (map kept_of (x # rest)) = kept_of (a, l, v) @ ck" by (simp add: ck_def x)
    have new: "map_of (kept_of (a, l, v)) k = (if k = a then map_of (kept_of (a, l, v)) a else None)" "table_ok (kept_of (a, l, v) @ ck)"
      using one [of "(a, l, v)"] ih ac by (auto simp: table_ok_def image_iff)
    show ?case unfolding eq unfolding x using new ih none by (auto simp: map_add_def split: option.splits)
  qed simp
qed

lemma set_default_layer:
  "map_of (fold (\<lambda>(k, v). set_default k (lay, v)) xs t) k =
     (case map_of t k of Some x \<Rightarrow> Some x | None \<Rightarrow> map_option (Pair lay) (map_of xs k))"
  "table_ok t \<Longrightarrow> table_ok (fold (\<lambda>(k, v). set_default k (lay, v)) xs t)"
proof -
  have look: "map_of (set_default a x t) k = (case map_of t k of Some y \<Rightarrow> Some y | None \<Rightarrow> if k = a then Some x else None)" for a x t
    by (auto simp: set_default_def map_add_def split: option.split)
  have step: "table_ok t \<Longrightarrow> table_ok (set_default a x t)" for a x t
    by (auto simp: set_default_def table_ok_def map_of_eq_None_iff)
  show "table_ok t \<Longrightarrow> table_ok (fold (\<lambda>(k, v). set_default k (lay, v)) xs t)"
    by (induction xs arbitrary: t) (auto simp: step)
  show "map_of (fold (\<lambda>(k, v). set_default k (lay, v)) xs t) k =
     (case map_of t k of Some x \<Rightarrow> Some x | None \<Rightarrow> map_option (Pair lay) (map_of xs k))"
    by (induction xs arbitrary: t) (auto simp: look split: option.splits)
qed

lemma chosen_lookup: "map_of (chosen_values lays) k = candidate lays k" and chosen_ok: "table_ok (chosen_values lays)"
  by (auto simp: chosen_values_def PRECEDENCE_def set_default_layer candidate_def split: option.splits)

lemma sort_table:
  fixes t :: "('k::linorder, 'v) table"
  assumes "table_ok t"
  shows "table_ok (sort_key fst t)" and "map_of (sort_key fst t) k = map_of t k"
proof -
  show ok: "table_ok (sort_key fst t)" using assms by (simp add: table_ok_def distinct_map)
  have "map_of (sort_key fst t) k = Some v \<longleftrightarrow> map_of t k = Some v" for v
    using table_ok_map_of [OF ok] table_ok_map_of [OF assms] by (metis set_sort)
  then show "map_of (sort_key fst t) k = map_of t k" by (metis not_None_eq)
qed

definition competing :: "(layer \<Rightarrow> (string, fval) table) \<Rightarrow> kept" where
  "competing lays = fst (keep_loop (sort_key fst (chosen_values lays)) [] [])"

lemma kept_of_own: "map_of (kept_of (k, l, v)) k = (if key_reason k = None then map_option (Pair l) (cleaned v) else None)"
proof (cases "key_reason k = None")
  case True
  show ?thesis unfolding kept_of_def prod.case if_P [OF True] by (cases "cleaned v") simp_all
next
  case False
  show ?thesis unfolding kept_of_def prod.case if_not_P [OF False] by simp
qed

lemma competing_facts:
  "sorted (map fst (competing lays))" "table_ok (competing lays)" "map_of (competing lays) k = wanted lays k"
proof -
  let ?c = "sort_key fst (chosen_values lays)"
  have eq: "competing lays = concat (map kept_of ?c)" by (simp add: competing_def keep_loop_fst)
  note look = kept_of_lookup [OF sort_table(1) [OF chosen_ok], of lays k, unfolded sort_table(2) [OF chosen_ok] chosen_lookup]
  show "sorted (map fst (competing lays))" unfolding eq by (rule kept_of_keys) (rule sorted_sort_key)
  show "table_ok (competing lays)" unfolding eq using look by blast
  have k: "map_of (competing lays) k = (case candidate lays k of None \<Rightarrow> None | Some (l, v) \<Rightarrow> map_of (kept_of (k, l, v)) k)"
    unfolding eq using look by (rule conjunct2)
  show "map_of (competing lays) k = wanted lays k" unfolding k wanted_def kept_of_own ..
qed

lemma filter_sorted: "sorted (map f xs) \<Longrightarrow> sorted (map f (filter P xs))"
  by (induction xs) auto

lemma kept_values_keys: "map fst (kept_values kept) = map fst kept"
  by (simp add: kept_values_def split_def)

lemma kept_values_lookup: "map_of (kept_values kept) k = map_option snd (map_of kept k)"
  by (induction kept) (auto simp: kept_values_def)

text \<open>The whole assembly as a choice among the competing values.\<close>

lemma assemble_choice:
  assumes "has_fields spec"
    and "lays = layers lib rel spec md ext"
  shows "\<exists>P d. assemble repr lib rel (Some spec) md ext = Some \<lparr>pl_values = kept_values (filter P (competing lays)), pl_dropped = d\<rparr>
     \<and> \<not> too_many_keys (filter P (competing lays)) \<and> \<not> too_many_bytes repr (filter P (competing lays))
     \<and> (\<not> too_many_keys (competing lays) \<longrightarrow> \<not> too_many_bytes repr (competing lays) \<longrightarrow> filter P (competing lays) = competing lays)
     \<and> (\<forall>(k, l, w) \<in> set (competing lays). \<not> P (k, l, w) \<longrightarrow> (\<forall>(k', l', w') \<in> set (filter P (competing lays)). rank l' \<le> rank l))"
proof -
  let ?K = "competing lays"
  obtain d0 where d0: "keep_loop (sort_key fst (chosen_values lays)) [] [] = (?K, d0)"
    unfolding competing_def by (metis prod.collapse)
  have "\<forall>t. too_many_keys t \<longrightarrow> t \<noteq> []" by (auto simp: too_many_keys_def)
  from cap_loop_spec [OF this competing_facts(2), of repr False "''cap_exceeded''" lays d0] obtain P1 d1 where
    P1: "cap_loop repr False too_many_keys ''cap_exceeded'' ?K d0 = Some (filter P1 ?K, d1)" "\<not> too_many_keys (filter P1 ?K)"
    "\<not> too_many_keys ?K \<longrightarrow> filter P1 ?K = ?K"
    "\<forall>(k, l, w) \<in> set ?K. \<not> P1 (k, l, w) \<longrightarrow> (\<forall>(k', l', w') \<in> set (filter P1 ?K). rank l' \<le> rank l)" by blast
  let ?K1 = "filter P1 ?K"
  have "\<forall>t. too_many_bytes repr t \<longrightarrow> t \<noteq> []" by (auto simp: too_many_bytes_def)
  moreover have "table_ok ?K1" using competing_facts(2) by simp
  ultimately obtain P2 d2 where
    P2: "cap_loop repr True (too_many_bytes repr) ''too_large'' ?K1 d1 = Some (filter P2 ?K1, d2)" "\<not> too_many_bytes repr (filter P2 ?K1)"
    "\<not> too_many_bytes repr ?K1 \<longrightarrow> filter P2 ?K1 = ?K1"
    "\<forall>(k, l, w) \<in> set ?K1. \<not> P2 (k, l, w) \<longrightarrow> (\<forall>(k', l', w') \<in> set (filter P2 ?K1). rank l' \<le> rank l)"
    using cap_loop_spec [of "too_many_bytes repr" ?K1 repr True "''too_large''" d1] by blast
  define P where "P = (\<lambda>x. P1 x \<and> P2 x)"
  have eq: "filter P2 ?K1 = filter P ?K" by (simp add: P_def conj_commute)
  have "sort_key fst (kept_values (filter P ?K)) = kept_values (filter P ?K)"
    using filter_sorted [OF competing_facts(1)] by (intro sort_key_id_if_sorted) (simp add: kept_values_keys)
  then have "assemble repr lib rel (Some spec) md ext = Some \<lparr>pl_values = kept_values (filter P ?K), pl_dropped = d2\<rparr>"
    using assms(1) P1(1) P2(1) [unfolded eq] by (simp add: assemble_def assms(2) [symmetric] d0)
  moreover have "\<not> too_many_keys (filter P ?K)"
    using P1(2) length_filter_le [of P2 ?K1] unfolding eq by (auto simp: too_many_keys_def)
  moreover have "\<not> too_many_keys ?K \<longrightarrow> \<not> too_many_bytes repr ?K \<longrightarrow> filter P ?K = ?K"
    using P1(3) P2(3) unfolding eq by metis
  moreover have "rank l' \<le> rank l" if at: "(k, l, w) \<in> set ?K" "\<not> P (k, l, w)" "(k', l', w') \<in> set (filter P ?K)" for k l w k' l' w'
  proof (cases "P1 (k, l, w)")
    case True
    then have "(k, l, w) \<in> set ?K1" "\<not> P2 (k, l, w)" using at by (auto simp: P_def)
    then show ?thesis using P2(4) at(3) unfolding eq by blast
  next
    case False
    have "(k', l', w') \<in> set ?K1" using at(3) by (auto simp: P_def)
    then show ?thesis using P1(4) at(1) False by blast
  qed
  ultimately show ?thesis using P2(2) unfolding eq by blast
qed

section \<open>Clean values\<close>

fun scalar_ok :: "wscalar \<Rightarrow> bool" where
  "scalar_ok (W_Str s) \<longleftrightarrow> py_strip s \<noteq> [] \<and> length s \<le> 256"
| "scalar_ok _ \<longleftrightarrow> True"

fun wval_ok :: "wval \<Rightarrow> bool" where
  "wval_ok (W_One w) \<longleftrightarrow> scalar_ok w"
| "wval_ok (W_Many ws) \<longleftrightarrow> ws \<noteq> [] \<and> length ws \<le> 32 \<and> list_all scalar_ok ws"

lemma clean_scalar_ok: "clean_scalar v = Inr w \<Longrightarrow> scalar_ok w"
  by (induction v rule: clean_scalar.induct) (auto simp: MAX_VALUE_CHARS_def split: if_splits)

lemma clean_items_ok: "list_all scalar_ok (fst (clean_items vs d)) \<and> length (fst (clean_items vs d)) \<le> length vs"
proof (induction vs arbitrary: d)
  case (Cons v vs)
  show ?case using Cons [of d] Cons [of "tally_add r 1 d" for r] clean_scalar_ok [of v]
    by (auto simp: split_def Let_def intro: le_SucI split: sum.split)
qed simp

lemma cleaned_ok: "cleaned v = Some w \<Longrightarrow> wval_ok w"
proof (cases v)
  case (FList vs)
  then show "cleaned v = Some w \<Longrightarrow> wval_ok w"
    using clean_items_ok [of vs "[]"] by (auto simp: cleaned_def split_def Let_def MAX_VALUES_PER_KEY_def split: if_splits)
qed (auto simp: cleaned_def MAX_VALUE_CHARS_def dest: clean_scalar_ok split: sum.splits if_splits option.splits)

lemma wanted_ok: "wanted lays k = Some (l, w) \<Longrightarrow> key_reason k = None \<and> wval_ok w"
  by (auto simp: wanted_def cleaned_ok split: option.splits if_splits)

lemma in_kept_values:
  assumes "table_ok kept"
  shows "map_of (kept_values (filter P kept)) k = (case map_of kept k of Some (l, w) \<Rightarrow> if P (k, l, w) then Some w else None | None \<Rightarrow> None)"
  using assms
  by (induction kept) (auto simp: kept_values_def table_ok_def split: option.splits, (metis fst_conv image_eqI map_of_SomeD)+)

section \<open>Properties\<close>



definition example_spec :: source_spec where
  "example_spec = \<lparr>spec_access_groups = [], spec_fields = [(''mandant'', FStr ''Other''), (''year'', FInt 2024), (''path'', FStr ''x'')],
     spec_templates = [\<lparr>ct_source = ''{mandant}/**'', ct_segments = [Seg_Key ''mandant''], ct_deep = True\<rparr>], spec_metadata = []\<rparr>"

definition example_lib :: metadata_lib where
  "example_lib = \<lparr>lib_email_day = (\<lambda>_. None), lib_addresses = (\<lambda>_. []), lib_json = (\<lambda>_. None)\<rparr>"


text \<open>
  Nothing counts as stored without the server's word. Every outcome of an init has a record; the record says that
  fields were sent exactly when some were and the answer carried a well-formed echo; a refusal keeps what is known to
  be stored, has a code of the closed set, and keeps the digest, so that the document comes back, exactly when it is
  transient.
\<close>

theorem stored_only_with_echo:
  "(\<exists>r. record_for (outcome_after_init sent (parse_init_echo body) digest) = Inr r \<and> rec_digest r = Some digest
     \<and> (rec_sent r = Some True \<longleftrightarrow> sent \<noteq> None \<and> sent \<noteq> Some [] \<and> parse_init_echo body \<noteq> None)
     \<and> (rec_sent r = Some False \<longleftrightarrow> sent = Some [] \<and> parse_init_echo body \<noteq> None))
   \<and> (\<exists>r. record_for (refused_outcome code digest) = Inr r \<and> rec_sent r = None
     \<and> rec_outcome r = REFUSED_PREFIX @ (if code \<in> set FIELD_REFUSAL_CODES then code else REFUSAL_OTHER)
     \<and> rec_count_attempt r = is_transient_refusal code \<and> rec_digest r = (if is_transient_refusal code then None else Some digest))
   \<and> (classify_init_refusal status body = None \<or> the (classify_init_refusal status body) \<in> set FIELD_REFUSAL_CODES)"
proof (intro conjI)
  have names: "OUTCOME_CLEARED \<noteq> OUTCOME_STAGED" "OUTCOME_NONE \<noteq> OUTCOME_STAGED" "OUTCOME_NONE \<noteq> OUTCOME_CLEARED"
    "OUTCOME_NOT_ACCEPTED \<noteq> OUTCOME_STAGED" "OUTCOME_NOT_ACCEPTED \<noteq> OUTCOME_CLEARED" by code_simp+
  show "\<exists>r. record_for (outcome_after_init sent (parse_init_echo body) digest) = Inr r \<and> rec_digest r = Some digest
     \<and> (rec_sent r = Some True \<longleftrightarrow> sent \<noteq> None \<and> sent \<noteq> Some [] \<and> parse_init_echo body \<noteq> None)
     \<and> (rec_sent r = Some False \<longleftrightarrow> sent = Some [] \<and> parse_init_echo body \<noteq> None)"
    by (cases sent; cases "parse_init_echo body")
       (auto simp: outcome_after_init_def record_for_def plain_outcome_def frec_def Let_def names)
  have refused: "REFUSED_PREFIX @ c \<noteq> OUTCOME_STAGED" "REFUSED_PREFIX @ c \<noteq> OUTCOME_CLEARED" "REFUSED_PREFIX @ c \<noteq> OUTCOME_NOT_ACCEPTED"
    "REFUSED_PREFIX @ c \<noteq> OUTCOME_NONE" "py_startswith (REFUSED_PREFIX @ c) REFUSED_PREFIX" for c
    by (simp_all add: REFUSED_PREFIX_def OUTCOME_STAGED_def OUTCOME_CLEARED_def OUTCOME_NOT_ACCEPTED_def OUTCOME_NONE_def py_startswith_def)
  have "\<not> is_transient_refusal REFUSAL_OTHER" by code_simp
  then have trans: "is_transient_refusal (if code \<in> set FIELD_REFUSAL_CODES then code else REFUSAL_OTHER) = is_transient_refusal code"
    by (auto simp: is_transient_refusal_def FIELD_REFUSAL_CODES_def)
  show "\<exists>r. record_for (refused_outcome code digest) = Inr r \<and> rec_sent r = None
     \<and> rec_outcome r = REFUSED_PREFIX @ (if code \<in> set FIELD_REFUSAL_CODES then code else REFUSAL_OTHER)
     \<and> rec_count_attempt r = is_transient_refusal code \<and> rec_digest r = (if is_transient_refusal code then None else Some digest)"
    unfolding refused_outcome_def Let_def trans by (simp add: record_for_def plain_outcome_def frec_def Let_def refused)
  have codes: "set FIELD_SHAPE_CODES \<subseteq> set FIELD_REFUSAL_CODES" "set TRANSIENT_REFUSAL_CODES \<subseteq> set FIELD_REFUSAL_CODES"
    "ASSERTION_REJECTED \<in> set FIELD_REFUSAL_CODES" "REFUSAL_OTHER \<in> set FIELD_REFUSAL_CODES" by (auto simp: FIELD_REFUSAL_CODES_def)
  show "classify_init_refusal status body = None \<or> the (classify_init_refusal status body) \<in> set FIELD_REFUSAL_CODES"
    using codes unfolding classify_init_refusal_def Let_def
    by (cases "jget body ''path''") (simp_all add: subset_iff)
qed

section \<open>A checked body\<close>

text \<open>
  A sync body that passed the template check never loses a source to a template in a cycle: for every one of its
  sources whose templates are a list or absent, reading the source raises no template error.
\<close>

theorem checked_body_compiles:
  assumes "sync_body_template_errors body = []" and "source \<in> set (as_list (jget body ''sources''))"
    and "jget source ''field_templates'' = JArr ts \<or> \<not> jtruthy (jget source ''field_templates'')"
  shows "spec_from_source source \<noteq> Inl (Spec_Template e)"
proof -
  obtain cs where "compile_templates (as_list (jget source ''field_templates'')) = Inr cs"
    using body_check_ok [OF assms(1,2)] by blast
  moreover have "py_tuple v \<noteq> Inl (Spec_Template e)" for v by (cases v) simp_all
  ultimately show ?thesis
    using assms(3) by (cases "py_tuple (jget source ''access_groups'')") (auto simp: spec_from_source_def Let_def)
qed

theorem checked_body_compiles_witness:
  "let source = JObj [(''path'', JStr ''/data''), (''field_templates'', JArr [JStr ''{mandant}/**''])]
   in sync_body_template_errors (JObj [(''sources'', JArr [source])]) = [] \<and> spec_from_source source \<noteq> Inl (Spec_Template Te_Syntax)"
proof -
  let ?s = "JObj [(''path'', JStr ''/data''), (''field_templates'', JArr [JStr ''{mandant}/**''])]"
  have "sync_body_template_errors (JObj [(''sources'', JArr [?s])]) = []" by code_simp
  moreover have "?s \<in> set (as_list (jget (JObj [(''sources'', JArr [?s])]) ''sources''))" by simp
  ultimately show ?thesis using checked_body_compiles [of "JObj [(''sources'', JArr [?s])]" ?s "[JStr ''{mandant}/**'']"] by simp
qed

end
