(* ===== verification/Sync_Walk.thy ===== *)
theory Sync_Walk
  imports Doc_Fields_Payload "HOL-Library.Multiset"
begin

text \<open>
  The scan of a source (\<open>sync/sync_executor.py\<close>: \<open>_WalkBudget\<close>, \<open>_walk_text_files\<close>, \<open>_iter_candidate_files\<close>). What the
  operating system answers is the argument: a directory tree in which a folder may be unreadable and a call on an
  entry may fail. Matching a glob (\<open>Path.match\<close>, \<open>fnmatch\<close>) and the answers of \<open>should_stop\<close>, by the number of the
  call, are arguments too. The generator runs interleaved with its consumer; the consumer's only effect on it is
  whether a yielded file counts toward the cap, which is the function \<open>wc_counts\<close>.

  The lemmas show that a scan that was not stopped yields every file in scope exactly once, here or below the folders
  it leaves for the next cycle, and that a sequence of such cycles ends having yielded all of them.
\<close>

type_synonym file_item = "string \<times> string \<times> string \<times> int"

datatype tree =
    Dir_Node string "tree list option"
  | File_Node string "(string \<times> int) option"
  | Other_Node string
  | Broken_Node string

fun tree_path :: "tree \<Rightarrow> string" where
  "tree_path (Dir_Node p _) = p"
| "tree_path (File_Node p _) = p"
| "tree_path (Other_Node p) = p"
| "tree_path (Broken_Node p) = p"

text \<open>\<open>os.scandir\<close>: it fails on anything but a readable folder.\<close>

fun scandir :: "tree \<Rightarrow> tree list option" where
  "scandir (Dir_Node p es) = es"
| "scandir _ = None"

record walk_cfg =
  wc_rel_root :: string
  wc_recursive :: bool
  wc_include :: "string list"
  wc_exclude :: "string list"
  wc_max_bytes :: int
  wc_glob :: "string \<Rightarrow> string \<Rightarrow> bool"
  wc_counts :: "file_item \<Rightarrow> bool"
  wc_stop :: "nat \<Rightarrow> bool"

record walk_budget =
  wb_max_dir_visits :: int
  wb_dir_visits :: int
  wb_max_files :: int
  wb_files :: int
  wb_truncated :: bool
  wb_stopped :: bool
  wb_resume :: "string list"
  wb_unreadable :: "string list"
  wb_calls :: nat

text \<open>For absolute paths without dots or doubled slashes.\<close>

definition relative_posix :: "string \<Rightarrow> string \<Rightarrow> string option" where
  "relative_posix path base_dir =
     (let r = (if base_dir = ''/'' then base_dir else base_dir @ ''/'')
      in if path = base_dir then Some ''.'' else if py_startswith path r then Some (drop (length r) path) else None)"

definition note_unreadable :: "string \<Rightarrow> string \<Rightarrow> walk_budget \<Rightarrow> walk_budget" where
  "note_unreadable path base_dir b =
     b\<lparr>wb_unreadable := List.insert (case relative_posix path base_dir of Some r \<Rightarrow> r | None \<Rightarrow> ''.'') (wb_unreadable b)\<rparr>"

definition consume_dir :: "walk_budget \<Rightarrow> bool \<times> walk_budget" where
  "consume_dir b =
     (let b1 = b\<lparr>wb_dir_visits := wb_dir_visits b + 1\<rparr>
      in if wb_max_dir_visits b1 > 0 \<and> wb_dir_visits b1 > wb_max_dir_visits b1 then (False, b1\<lparr>wb_truncated := True\<rparr>) else (True, b1))"

definition note_file :: "bool \<Rightarrow> walk_budget \<Rightarrow> walk_budget" where
  "note_file counts b = (if counts then b\<lparr>wb_files := wb_files b + 1\<rparr> else b)"

definition file_cap_reached :: "walk_budget \<Rightarrow> bool" where
  "file_cap_reached b \<longleftrightarrow> wb_max_files b > 0 \<and> wb_files b \<ge> wb_max_files b"

definition SYNCABLE_EXTENSIONS :: "string list" where
  "SYNCABLE_EXTENSIONS = [''.md'', ''.txt'', ''.docx'', ''.pdf'', ''.eml'', ''.msg'']"

definition is_syncable_extension :: "string \<Rightarrow> bool" where
  "is_syncable_extension ext \<longleftrightarrow> py_lower ext \<in> set SYNCABLE_EXTENSIONS"

definition matches_globs :: "(string \<Rightarrow> string \<Rightarrow> bool) \<Rightarrow> string \<Rightarrow> string list \<Rightarrow> bool" where
  "matches_globs glob rel patterns = list_ex (glob rel) patterns"

datatype verdict = Left_Out | No_Stat | Yields file_item

definition file_verdict :: "walk_cfg \<Rightarrow> string \<Rightarrow> (string \<times> int) option \<Rightarrow> verdict" where
  "file_verdict cfg path stat =
     (if \<not> is_syncable_extension (posix_suffix path) then Left_Out
      else case relative_posix path (wc_rel_root cfg) of None \<Rightarrow> Left_Out
      | Some rel \<Rightarrow>
          if \<not> matches_globs (wc_glob cfg) rel (wc_include cfg) then Left_Out
          else if wc_exclude cfg \<noteq> [] \<and> matches_globs (wc_glob cfg) rel (wc_exclude cfg) then Left_Out
          else case stat of None \<Rightarrow> No_Stat
          | Some (mtime, sz) \<Rightarrow> if sz > wc_max_bytes cfg then Left_Out else Yields (path, rel, mtime, sz))"

definition ask_stop :: "walk_cfg \<Rightarrow> walk_budget \<Rightarrow> bool \<times> walk_budget" where
  "ask_stop cfg b = (wc_stop cfg (wb_calls b), b\<lparr>wb_calls := Suc (wb_calls b)\<rparr>)"

text \<open>
  The loop over the entries of one folder. \<open>rest\<close> is the stack to leave behind on an early return, which the first
  component of the result tells.
\<close>

fun walk_entries :: "walk_cfg \<Rightarrow> string list \<Rightarrow> tree list \<Rightarrow> tree list \<Rightarrow> file_item list \<Rightarrow> walk_budget
    \<Rightarrow> bool \<times> tree list \<times> file_item list \<times> walk_budget" where
  "walk_entries cfg rest [] dirs items b = (False, dirs, items, b)"
| "walk_entries cfg rest (e # es) dirs items b0 =
     (let (stop, b) = ask_stop cfg b0
      in if stop then (True, dirs, items, b\<lparr>wb_resume := rest, wb_stopped := True\<rparr>)
         else if wb_truncated b then (True, dirs, items, b\<lparr>wb_resume := rest\<rparr>)
         else case e of
           Dir_Node p sub \<Rightarrow> walk_entries cfg rest es (if wc_recursive cfg then dirs @ [e] else dirs) items b
         | Broken_Node p \<Rightarrow> walk_entries cfg rest es dirs items (note_unreadable p (wc_rel_root cfg) b)
         | Other_Node p \<Rightarrow> walk_entries cfg rest es dirs items b
         | File_Node p stat \<Rightarrow>
             (case file_verdict cfg p stat of
                Left_Out \<Rightarrow> walk_entries cfg rest es dirs items b
              | No_Stat \<Rightarrow> walk_entries cfg rest es dirs items (note_unreadable p (wc_rel_root cfg) b)
              | Yields item \<Rightarrow> walk_entries cfg rest es dirs (items @ [item]) (note_file (wc_counts cfg item) b)))"

fun tree_size :: "tree \<Rightarrow> nat" where
  "tree_size (Dir_Node p (Some es)) = Suc (sum_list (map tree_size es))"
| "tree_size _ = 1"

definition stack_size :: "tree list \<Rightarrow> nat" where
  "stack_size ts = sum_list (map tree_size ts)"

text \<open>What one folder holds: its files in scope and, when the walk is recursive, its folders.\<close>

fun entry_items :: "walk_cfg \<Rightarrow> tree \<Rightarrow> file_item list" where
  "entry_items cfg (File_Node p stat) = (case file_verdict cfg p stat of Yields item \<Rightarrow> [item] | _ \<Rightarrow> [])"
| "entry_items cfg _ = []"

fun entry_dirs :: "walk_cfg \<Rightarrow> tree \<Rightarrow> tree list" where
  "entry_dirs cfg (Dir_Node p sub) = (if wc_recursive cfg then [Dir_Node p sub] else [])"
| "entry_dirs cfg _ = []"

lemma walk_entries_done:
  "walk_entries cfg rest es dirs items b = (False, dirs', items', b') \<Longrightarrow>
     dirs' = dirs @ concat (map (entry_dirs cfg) es) \<and> items' = items @ concat (map (entry_items cfg) es)"
proof (induction cfg rest es dirs items b rule: walk_entries.induct)
  case (2 cfg rest e es dirs items b0)
  obtain stop b where a: "ask_stop cfg b0 = (stop, b)" by fastforce
  with 2(7) have go: "\<not> stop" "\<not> wb_truncated b" by (auto split: if_splits)
  note IH = 2(1-6) [OF a [symmetric] refl go]
  show ?case
  proof (cases e)
    case (File_Node p stat)
    then show ?thesis using 2(7) a go IH(2-4) by (cases "file_verdict cfg p stat") auto
  qed (use 2(7) a go IH in auto)
qed simp

lemma stack_size_simps [simp]:
  "stack_size [] = 0" "stack_size (t # ts) = tree_size t + stack_size ts" "stack_size (xs @ ys) = stack_size xs + stack_size ys"
  "stack_size (rev xs) = stack_size xs" "stack_size (sort_key f xs) = stack_size xs"
proof -
  show "stack_size (sort_key f xs) = stack_size xs"
    unfolding stack_size_def sum_mset_sum_list [symmetric] mset_map mset_sort ..
qed (simp_all add: stack_size_def rev_map [symmetric] sum_list_rev)

lemma entry_dirs_size: "stack_size (concat (map (entry_dirs cfg) es)) \<le> stack_size es"
proof (induction es)
  case (Cons e es)
  then show ?case by (cases e) auto
qed simp

lemma scandir_size: "scandir t = Some es \<Longrightarrow> tree_size t = Suc (stack_size es)"
  by (cases t) (auto simp: stack_size_def)

text \<open>The top of the stack is the head; a saved stack has it last.\<close>

definition stack_paths :: "tree list \<Rightarrow> string list" where
  "stack_paths ts = rev (map tree_path ts)"

function walk_stack :: "walk_cfg \<Rightarrow> tree list \<Rightarrow> file_item list \<Rightarrow> walk_budget \<Rightarrow> file_item list \<times> walk_budget" where
  "walk_stack cfg [] items b = (items, b\<lparr>wb_resume := []\<rparr>)"
| "walk_stack cfg (t # ts) items b0 =
     (let (stop, b) = ask_stop cfg b0
      in if stop then (items, b\<lparr>wb_resume := stack_paths (t # ts), wb_stopped := True\<rparr>)
         else if file_cap_reached b then (items, b\<lparr>wb_resume := stack_paths (t # ts), wb_truncated := True\<rparr>)
         else let (fits, b1) = consume_dir b
         in if \<not> fits then (items, b1\<lparr>wb_resume := stack_paths (t # ts)\<rparr>)
            else case scandir t of
              None \<Rightarrow> walk_stack cfg ts items (note_unreadable (tree_path t) (wc_rel_root cfg) b1)
            | Some es \<Rightarrow>
                (case walk_entries cfg (stack_paths ts) es [] items b1 of
                   (True, dirs, items', b2) \<Rightarrow> (items', b2)
                 | (False, dirs, items', b2) \<Rightarrow> walk_stack cfg (rev (sort_key tree_path dirs) @ ts) items' b2))"
  by pat_completeness auto
termination
proof (relation "measure (\<lambda>(cfg, ts, items, b). stack_size ts)", goal_cases)
  case (2 cfg t ts items b0 x stop b xa fits b1)
  then show ?case by (cases t) (auto split: option.splits)
next
  case (3 cfg t ts items b0 x stop b xa fits b1 es x2 r dirs y items' b2)
  then have "dirs = concat (map (entry_dirs cfg) es)"
    using walk_entries_done [of cfg "stack_paths ts" es "[]" items b1 dirs items' b2] by simp
  then show ?case using 3 scandir_size [of t es] entry_dirs_size [of cfg es] by auto
qed simp

section \<open>What a walk covers\<close>

text \<open>All files in scope below a folder.\<close>

fun tree_files :: "walk_cfg \<Rightarrow> tree \<Rightarrow> file_item list" where
  "tree_files cfg (Dir_Node p (Some es)) =
     concat (map (entry_items cfg) es) @ (if wc_recursive cfg then concat (map (tree_files cfg) es) else [])"
| "tree_files cfg _ = []"

definition stack_files :: "walk_cfg \<Rightarrow> tree list \<Rightarrow> file_item list" where
  "stack_files cfg ts = concat (map (tree_files cfg) ts)"

lemma stack_files_simps [simp]:
  "stack_files cfg [] = []" "stack_files cfg (t # ts) = tree_files cfg t @ stack_files cfg ts"
  "stack_files cfg (xs @ ys) = stack_files cfg xs @ stack_files cfg ys"
  by (simp_all add: stack_files_def)

lemma stack_files_order: "mset (stack_files cfg (rev (sort_key f ts))) = mset (stack_files cfg ts)"
proof -
  have eq: "mset (stack_files cfg us) = \<Sum>\<^sub># (image_mset (\<lambda>t. mset (tree_files cfg t)) (mset us))" for us
    by (induction us) simp_all
  show ?thesis unfolding eq by simp
qed

lemma scandir_files:
  "scandir t = Some es \<Longrightarrow> tree_files cfg t = concat (map (entry_items cfg) es) @ stack_files cfg (concat (map (entry_dirs cfg) es))"
  "scandir t = None \<Longrightarrow> tree_files cfg t = []"
proof -
  have "stack_files cfg (concat (map (entry_dirs cfg) es)) = (if wc_recursive cfg then concat (map (tree_files cfg) es) else [])"
  proof (induction es)
    case (Cons e es)
    then show ?case by (cases e) (auto split: if_splits)
  qed simp
  then show "scandir t = Some es \<Longrightarrow> tree_files cfg t = concat (map (entry_items cfg) es) @ stack_files cfg (concat (map (entry_dirs cfg) es))"
    by (cases t) auto
  show "scandir t = None \<Longrightarrow> tree_files cfg t = []"
    by (cases t) auto
qed

text \<open>The budget a walk starts a step with: neither cut off nor stopped.\<close>

definition running :: "walk_budget \<Rightarrow> bool" where
  "running b \<longleftrightarrow> \<not> wb_truncated b \<and> \<not> wb_stopped b"

lemma running_simps [simp]:
  "running (note_unreadable p r b) = running b" "running (note_file c b) = running b" "running (snd (ask_stop cfg b)) = running b"
  "running (b\<lparr>wb_calls := n\<rparr>) = running b"
  by (auto simp: running_def note_unreadable_def note_file_def ask_stop_def)

lemma walk_entries_running:
  assumes "walk_entries cfg rest es dirs items b = (r, dirs', items', b')" and "running b"
  shows "if r then wb_stopped b' else running b'"
  using assms
proof (induction cfg rest es dirs items b rule: walk_entries.induct)
  case (2 cfg rest e es dirs items b0)
  obtain stop b where a: "ask_stop cfg b0 = (stop, b)" by fastforce
  then have b: "running b" using 2(8) running_simps(3) [of cfg b0] by simp
  show ?case
  proof (cases stop)
    case False
    have go: "\<not> wb_truncated b" using b by (simp add: running_def)
    note IH = 2(1-6) [OF a [symmetric] refl False go]
    show ?thesis
    proof (cases e)
      case (File_Node p stat)
      then show ?thesis using 2(7) a go b False IH(2-4) by (cases "file_verdict cfg p stat") auto
    qed (use 2(7) a go b False IH in auto)
  qed (use 2(7) a in auto)
qed simp

lemma consume_dir_running: "consume_dir b = (ok, b1) \<Longrightarrow> running b \<Longrightarrow> (if ok then running b1 else wb_truncated b1 \<and> \<not> wb_stopped b1)"
  by (auto simp: consume_dir_def running_def Let_def split: if_splits)

text \<open>Every folder of a tree is found again under its path.\<close>

fun resolves :: "(string \<Rightarrow> tree) \<Rightarrow> tree \<Rightarrow> bool" where
  "resolves f (Dir_Node p (Some es)) \<longleftrightarrow> f p = Dir_Node p (Some es) \<and> list_all (resolves f) es"
| "resolves f t \<longleftrightarrow> f (tree_path t) = t"

lemma resolves_path: "resolves f t \<Longrightarrow> f (tree_path t) = t"
  by (cases t rule: tree_size.cases) auto

lemma resolves_dirs: "scandir t = Some es \<Longrightarrow> resolves f t \<Longrightarrow> list_all (resolves f) (concat (map (entry_dirs cfg) es))"
proof -
  have "list_all (resolves f) es \<Longrightarrow> list_all (resolves f) (concat (map (entry_dirs cfg) es))" for es
  proof (induction es)
    case (Cons e es)
    then show ?case by (cases e) auto
  qed simp
  then show "scandir t = Some es \<Longrightarrow> resolves f t \<Longrightarrow> list_all (resolves f) (concat (map (entry_dirs cfg) es))"
    by (cases t) auto
qed

text \<open>A walk that was not stopped covers its stack: what it yields and what lies below the folders it leaves.\<close>

lemma walk_stack_covers:
  assumes "walk_stack cfg ts items b = (items', b')" and "running b" and "\<not> wb_stopped b'"
  shows "\<exists>left. wb_resume b' = stack_paths left \<and> mset items' + mset (stack_files cfg left) = mset items + mset (stack_files cfg ts)
    \<and> (wb_truncated b' \<longleftrightarrow> left \<noteq> []) \<and> stack_size left \<le> stack_size ts \<and> (list_all (resolves f) ts \<longrightarrow> list_all (resolves f) left)"
  using assms
proof (induction cfg ts items b rule: walk_stack.induct)
  case (1 cfg items b)
  then show ?case by (intro exI [of _ "[]"]) (auto simp: stack_paths_def running_def)
next
  case (2 cfg t ts items b0)
  obtain stop b where a: "ask_stop cfg b0 = (stop, b)" by fastforce
  have b: "running b" using a 2(4) running_simps(3) [of cfg b0] by simp
  have stop: "\<not> stop" using 2(3,5) a by auto
  obtain fits b1 where c: "consume_dir b = (fits, b1)" by fastforce
  show ?case
  proof (cases "file_cap_reached b \<or> \<not> fits")
    case True
    then have "items' = items" "wb_resume b' = stack_paths (t # ts)" "wb_truncated b'"
      using 2(3) a c stop consume_dir_running [OF c b] by (auto split: if_splits)
    then show ?thesis by (intro exI [of _ "t # ts"]) auto
  next
    case go: False
    then have b1: "running b1" using consume_dir_running [OF c b] by simp
    show ?thesis
    proof (cases "scandir t")
      case None
      have "walk_stack cfg ts items (note_unreadable (tree_path t) (wc_rel_root cfg) b1) = (items', b')"
        using 2(3) a c stop go None by simp
      from 2(1) [OF a [symmetric] refl stop _ c [symmetric] refl _ None this] go b1 2(5) show ?thesis
        by (auto simp: scandir_files(2) [OF None])
    next
      case (Some es)
      obtain r dirs items1 b2 where e: "walk_entries cfg (stack_paths ts) es [] items b1 = (r, dirs, items1, b2)" by (metis prod_cases4)
      have r: "\<not> r" using 2(3,5) a c stop go Some e walk_entries_running [OF e b1] by (auto split: if_splits)
      have b2: "running b2" using walk_entries_running [OF e b1] r by simp
      have d: "dirs = concat (map (entry_dirs cfg) es)" "items1 = items @ concat (map (entry_items cfg) es)"
        using walk_entries_done [of cfg "stack_paths ts" es "[]" items b1 dirs items1 b2] e r by auto
      let ?ts = "rev (sort_key tree_path dirs) @ ts"
      have w: "walk_stack cfg ?ts items1 b2 = (items', b')" using 2(3) a c stop go Some e r by simp
      have "\<exists>left. wb_resume b' = stack_paths left \<and> mset items' + mset (stack_files cfg left) = mset items1 + mset (stack_files cfg ?ts)
          \<and> (wb_truncated b' \<longleftrightarrow> left \<noteq> []) \<and> stack_size left \<le> stack_size ?ts \<and> (list_all (resolves f) ?ts \<longrightarrow> list_all (resolves f) left)"
        using 2(2) [OF a [symmetric] refl stop _ c [symmetric] refl _ Some e [symmetric] _ refl refl w b2 2(5)] go r by simp
      moreover have "mset items1 + mset (stack_files cfg ?ts) = mset items + mset (stack_files cfg (t # ts))"
        using stack_files_order [of cfg tree_path dirs] by (simp add: d(2) scandir_files(1) [OF Some] d(1))
      moreover have "stack_size ?ts \<le> stack_size (t # ts)"
        using entry_dirs_size [of cfg es] scandir_size [OF Some] by (simp add: d(1))
      moreover have "list_all (resolves f) (t # ts) \<longrightarrow> list_all (resolves f) ?ts"
        using resolves_dirs [OF Some, of f cfg] by (auto simp: d(1) list_all_iff)
      ultimately show ?thesis by (elim exE) (intro exI conjI impI; (elim conjE)?; simp)
    qed
  qed
qed

section \<open>A scan over several cycles\<close>

text \<open>
  Each cycle starts with a fresh budget on the folders the last one left, looked up by their paths; the second
  component tells whether the last cycle finished.
\<close>

fun scan_cycles :: "walk_cfg \<Rightarrow> (string \<Rightarrow> tree) \<Rightarrow> walk_budget \<Rightarrow> nat \<Rightarrow> tree list \<Rightarrow> file_item list \<times> bool" where
  "scan_cycles cfg f fresh 0 ts = ([], False)"
| "scan_cycles cfg f fresh (Suc n) ts =
     (case walk_stack cfg ts [] fresh of (items, b) \<Rightarrow>
        if wb_truncated b \<or> wb_stopped b
        then (case scan_cycles cfg f fresh n (rev (map f (wb_resume b))) of (later, done_all) \<Rightarrow> (items @ later, done_all))
        else (items, True))"

definition new_budget :: "int \<Rightarrow> int \<Rightarrow> walk_budget" where
  "new_budget dirs files = \<lparr>wb_max_dir_visits = dirs, wb_dir_visits = 0, wb_max_files = files, wb_files = 0, wb_truncated = False,
     wb_stopped = False, wb_resume = [], wb_unreadable = [], wb_calls = 0\<rparr>"

lemma walk_entries_not_stopped:
  assumes "walk_entries cfg rest es dirs items b = (r, dirs', items', b')" and "\<forall>n. \<not> wc_stop cfg n" and "running b"
  shows "\<not> r \<and> running b'"
proof -
  have "\<not> r" using assms
  proof (induction cfg rest es dirs items b rule: walk_entries.induct)
    case (2 cfg rest e es dirs items b0)
    obtain stop b where a: "ask_stop cfg b0 = (stop, b)" by fastforce
    then have b: "running b" "\<not> stop" using 2(8,9) running_simps(3) [of cfg b0] by (auto simp: ask_stop_def)
    then have go: "\<not> wb_truncated b" by (simp add: running_def)
    note IH = 2(1-6) [OF a [symmetric] refl b(2) go]
    show ?case
    proof (cases e)
      case (File_Node p stat)
      show ?thesis
      proof (cases "file_verdict cfg p stat")
        case (Yields item)
        have "walk_entries cfg rest es dirs (items @ [item]) (note_file (wc_counts cfg item) b) = (r, dirs', items', b')"
          using 2(7) a go b File_Node Yields by simp
        then show ?thesis using IH(4) [OF File_Node Yields _ 2(8)] b(1) by simp
      qed (use 2(7,8) a go b File_Node IH(2,3) in auto)
    qed (use 2(7,8) a go b IH in auto)
  qed simp
  then show ?thesis using walk_entries_running [OF assms(1,3)] by simp
qed

lemma walk_stack_not_stopped:
  assumes "walk_stack cfg ts items b = (items', b')" and "\<forall>n. \<not> wc_stop cfg n" and "running b"
  shows "\<not> wb_stopped b'"
  using assms
proof (induction cfg ts items b rule: walk_stack.induct)
  case (1 cfg items b)
  then show ?case by (auto simp: running_def)
next
  case (2 cfg t ts items b0)
  obtain stop b where a: "ask_stop cfg b0 = (stop, b)" by fastforce
  have b: "running b" "\<not> stop" using a 2(4,5) running_simps(3) [of cfg b0] by (auto simp: ask_stop_def)
  obtain fits b1 where c: "consume_dir b = (fits, b1)" by fastforce
  note cr = consume_dir_running [OF c b(1)]
  show ?case
  proof (cases "file_cap_reached b \<or> \<not> fits")
    case True
    then show ?thesis using 2(3) a c b cr by (auto simp: running_def split: if_splits)
  next
    case go: False
    show ?thesis
    proof (cases "scandir t")
      case None
      have "walk_stack cfg ts items (note_unreadable (tree_path t) (wc_rel_root cfg) b1) = (items', b')"
        using 2(3) a c b go None by simp
      from 2(1) [OF a [symmetric] refl b(2) _ c [symmetric] refl _ None this] go cr 2(4) show ?thesis by simp
    next
      case (Some es)
      obtain r dirs items1 b2 where e: "walk_entries cfg (stack_paths ts) es [] items b1 = (r, dirs, items1, b2)" by (metis prod_cases4)
      have r: "\<not> r" "running b2" using walk_entries_not_stopped [OF e 2(4)] cr go by auto
      have w: "walk_stack cfg (rev (sort_key tree_path dirs) @ ts) items1 b2 = (items', b')" using 2(3) a c b go Some e r by simp
      show ?thesis using 2(2) [OF a [symmetric] refl b(2) _ c [symmetric] refl _ Some e [symmetric] _ refl refl w 2(4) r(2)] go r by simp
    qed
  qed
qed

text \<open>A cycle that is cut off has entered at least one folder.\<close>

lemma walk_progress:
  assumes "walk_stack cfg ts [] (new_budget dirs files) = (items, b)" and "\<forall>n. \<not> wc_stop cfg n" and "wb_truncated b"
  shows "\<exists>left. wb_resume b = stack_paths left \<and> mset items + mset (stack_files cfg left) = mset (stack_files cfg ts)
    \<and> stack_size left < stack_size ts \<and> (list_all (resolves f) ts \<longrightarrow> list_all (resolves f) left)"
proof (cases ts)
  case Nil
  then show ?thesis using assms by (auto simp: new_budget_def)
next
  case (Cons t us)
  let ?b1 = "(new_budget dirs files)\<lparr>wb_calls := 1, wb_dir_visits := 1\<rparr>"
  have go: "ask_stop cfg (new_budget dirs files) = (False, (new_budget dirs files)\<lparr>wb_calls := 1\<rparr>)"
    "\<not> file_cap_reached ((new_budget dirs files)\<lparr>wb_calls := 1\<rparr>)" "consume_dir ((new_budget dirs files)\<lparr>wb_calls := 1\<rparr>) = (True, ?b1)"
    using assms(2) by (auto simp: ask_stop_def new_budget_def file_cap_reached_def consume_dir_def Let_def)
  have b1: "running ?b1" by (simp add: running_def new_budget_def)
  show ?thesis
  proof (cases "scandir t")
    case None
    then have w: "walk_stack cfg us [] (note_unreadable (tree_path t) (wc_rel_root cfg) ?b1) = (items, b)" using assms(1) go by (simp add: Cons)
    have "running (note_unreadable (tree_path t) (wc_rel_root cfg) ?b1)" using b1 by simp
    moreover from this have "\<not> wb_stopped b" using walk_stack_not_stopped [OF w assms(2)] by blast
    moreover have "stack_size us < stack_size ts" using Cons by (cases t rule: tree_size.cases) auto
    ultimately show ?thesis
      using walk_stack_covers [OF w, of f] Cons scandir_files(2) [OF None, of cfg] by (auto intro: le_less_trans)
  next
    case (Some es)
    obtain r ds items1 b2 where e: "walk_entries cfg (stack_paths us) es [] [] ?b1 = (r, ds, items1, b2)" by (metis prod_cases4)
    have r: "\<not> r" "running b2" using walk_entries_not_stopped [OF e assms(2) b1] by auto
    let ?ts = "rev (sort_key tree_path ds) @ us"
    have d: "ds = concat (map (entry_dirs cfg) es)" "items1 = concat (map (entry_items cfg) es)"
      using walk_entries_done [of cfg "stack_paths us" es "[]" "[]" ?b1 ds items1 b2] e r by auto
    have w: "walk_stack cfg ?ts items1 b2 = (items, b)" using assms(1) go e r Some by (simp add: Cons)
    obtain left where left: "wb_resume b = stack_paths left" "mset items + mset (stack_files cfg left) = mset items1 + mset (stack_files cfg ?ts)"
      "stack_size left \<le> stack_size ?ts" "list_all (resolves f) ?ts \<longrightarrow> list_all (resolves f) left"
      using walk_stack_covers [OF w r(2) walk_stack_not_stopped [OF w assms(2) r(2)], of f] by blast
    have "mset items1 + mset (stack_files cfg ?ts) = mset (stack_files cfg ts)"
      using stack_files_order [of cfg tree_path ds] by (simp add: d(2) scandir_files(1) [OF Some] d(1) Cons)
    moreover have "stack_size ?ts < stack_size ts"
      using entry_dirs_size [of cfg es] scandir_size [OF Some] by (simp add: d(1) Cons)
    moreover have "list_all (resolves f) ts \<longrightarrow> list_all (resolves f) ?ts"
      using resolves_dirs [OF Some, of f cfg] by (auto simp: d(1) list_all_iff Cons)
    ultimately show ?thesis using left by (metis le_less_trans)
  qed
qed

lemma scan_cycles_cover:
  assumes "\<forall>n. \<not> wc_stop cfg n" and "list_all (resolves f) ts" and "stack_size ts < n"
  shows "snd (scan_cycles cfg f (new_budget dirs files) n ts)
    \<and> mset (fst (scan_cycles cfg f (new_budget dirs files) n ts)) = mset (stack_files cfg ts)"
  using assms(2,3)
proof (induction n arbitrary: ts)
  case (Suc n)
  obtain items b where w: "walk_stack cfg ts [] (new_budget dirs files) = (items, b)" by fastforce
  have fresh: "running (new_budget dirs files)" by (simp add: running_def new_budget_def)
  have ns: "\<not> wb_stopped b" by (rule walk_stack_not_stopped [OF w assms(1) fresh])
  show ?case
  proof (cases "wb_truncated b")
    case False
    then have "mset items = mset (stack_files cfg ts)" using walk_stack_covers [OF w fresh ns, of f] by auto
    then show ?thesis using w ns False by simp
  next
    case True
    obtain left where left: "wb_resume b = stack_paths left" "mset items + mset (stack_files cfg left) = mset (stack_files cfg ts)"
      "stack_size left < stack_size ts" "list_all (resolves f) left"
      using walk_progress [OF w assms(1) True, of f] Suc.prems(1) by blast
    have "rev (map f (wb_resume b)) = left"
      using left(4) by (auto simp: left(1) stack_paths_def rev_map list_all_iff resolves_path intro: map_idI)
    then show ?thesis
      using Suc.IH [OF left(4)] Suc.prems(2) left(2,3) w True by (auto simp: split_def)
  qed
qed simp

section \<open>The targets of a cycle\<close>

record walk_target =
  wt_stack :: "tree list"
  wt_rel_root :: string
  wt_recursive :: bool
  wt_spec :: source_spec

text \<open>\<open>_iter_candidate_files\<close>: the targets share the budget. A target holds its folder, or the folders of a saved stack.\<close>

fun iter_targets :: "walk_cfg \<Rightarrow> walk_target list \<Rightarrow> (file_item \<times> source_spec) list \<Rightarrow> walk_budget \<Rightarrow> (file_item \<times> source_spec) list \<times> walk_budget" where
  "iter_targets cfg [] out b = (out, b)"
| "iter_targets cfg (t # ts) out b0 =
     (let (stop, b) = ask_stop cfg b0
      in if stop then (out, b\<lparr>wb_stopped := True\<rparr>)
         else if wb_truncated b then (out, b)
         else let (items, b1) = walk_stack (cfg\<lparr>wc_rel_root := wt_rel_root t, wc_recursive := wt_recursive t\<rparr>) (wt_stack t) [] b;
                  out1 = out @ map (\<lambda>i. (i, wt_spec t)) items
         in if wb_truncated b1 then (out1, b1) else iter_targets cfg ts out1 b1)"

definition iter_candidate_files :: "walk_cfg \<Rightarrow> int \<Rightarrow> walk_target list \<Rightarrow> walk_budget \<Rightarrow> (file_item \<times> source_spec) list \<times> walk_budget" where
  "iter_candidate_files cfg max_scan_entries targets b =
     iter_targets cfg targets [] (if max_scan_entries > 0 \<and> wb_max_files b \<le> 0 then b\<lparr>wb_max_files := max_scan_entries\<rparr> else b)"

section \<open>Properties\<close>

text \<open>
  (C2) A scan with a budget comes to an end and misses nothing. Whatever the caps on folders and files per cycle, if no
  cycle is stopped from outside and the tree stays as it is, the cycles that each take up the folders the last one
  left finish after at most as many cycles as the tree has entries, and together yield every file in scope exactly
  once.
\<close>

theorem capped_scan_finishes:
  assumes "\<forall>n. \<not> wc_stop cfg n" and "list_all (resolves f) ts" and "stack_size ts < n"
  shows "snd (scan_cycles cfg f (new_budget dirs files) n ts)
    \<and> mset (fst (scan_cycles cfg f (new_budget dirs files) n ts)) = mset (stack_files cfg ts)"
  using assms by (rule scan_cycles_cover)

definition example_tree :: tree where
  "example_tree = Dir_Node ''/s/A'' (Some [Dir_Node ''/s/A/b'' (Some [File_Node ''/s/A/b/x.pdf'' (Some (''m'', 1))]),
     Dir_Node ''/s/A/c'' (Some [File_Node ''/s/A/c/y.pdf'' (Some (''m'', 2)), File_Node ''/s/A/c/z.pdf'' (Some (''m'', 3))])])"

definition example_find :: "string \<Rightarrow> tree" where
  "example_find p =
     (if p = ''/s/A'' then example_tree
      else if p = ''/s/A/b'' then Dir_Node ''/s/A/b'' (Some [File_Node ''/s/A/b/x.pdf'' (Some (''m'', 1))])
      else if p = ''/s/A/c'' then Dir_Node ''/s/A/c'' (Some [File_Node ''/s/A/c/y.pdf'' (Some (''m'', 2)), File_Node ''/s/A/c/z.pdf'' (Some (''m'', 3))])
      else if p = ''/s/A/b/x.pdf'' then File_Node p (Some (''m'', 1))
      else if p = ''/s/A/c/y.pdf'' then File_Node p (Some (''m'', 2)) else File_Node p (Some (''m'', 3)))"

definition example_walk :: "(nat \<Rightarrow> bool) \<Rightarrow> walk_cfg" where
  "example_walk stop = \<lparr>wc_rel_root = ''/s'', wc_recursive = True, wc_include = [''*''], wc_exclude = [], wc_max_bytes = 100,
     wc_glob = (\<lambda>_ _. True), wc_counts = (\<lambda>_. True), wc_stop = stop\<rparr>"

theorem capped_scan_finishes_witness:
  "mset (fst (scan_cycles (example_walk (\<lambda>_. False)) example_find (new_budget 1 1) 7 [example_tree])) =
     {#(''/s/A/b/x.pdf'', ''A/b/x.pdf'', ''m'', 1), (''/s/A/c/y.pdf'', ''A/c/y.pdf'', ''m'', 2), (''/s/A/c/z.pdf'', ''A/c/z.pdf'', ''m'', 3)#}"
proof -
  have r: "list_all (resolves example_find) [example_tree]" by code_simp
  have s: "stack_size [example_tree] < 7" by code_simp
  have f: "stack_files (example_walk (\<lambda>_. False)) [example_tree] =
     [(''/s/A/b/x.pdf'', ''A/b/x.pdf'', ''m'', 1), (''/s/A/c/y.pdf'', ''A/c/y.pdf'', ''m'', 2), (''/s/A/c/z.pdf'', ''A/c/z.pdf'', ''m'', 3)]"
    by code_simp
  show ?thesis
    using capped_scan_finishes [OF _ r s, of "example_walk (\<lambda>_. False)" 1 1, unfolded f] by (simp add: example_walk_def)
qed

text \<open>
  A scan that is stopped inside a folder does not leave that folder for the next cycle: its remaining files are
  neither yielded nor below what is saved.
\<close>

lemma stopped_scan_drops_folder:
  "let cfg = example_walk (\<lambda>n. n \<ge> 5); (items, b) = walk_stack cfg [example_tree] [] (new_budget 0 0)
   in wb_stopped b \<and> wb_resume b = [''/s/A/b''] \<and> map fst items = [''/s/A/c/y.pdf'']
     \<and> map fst (stack_files cfg (map example_find (wb_resume b))) = [''/s/A/b/x.pdf'']
     \<and> ''/s/A/c/z.pdf'' \<in> set (map fst (stack_files cfg [example_tree]))"
  by code_simp

end
