(* ===== verification/Upload_Outcome.thy ===== *)
theory Upload_Outcome
  imports Sync_State Doc_Fields_Payload
begin

text \<open>
  What the sync cycle records after an upload (\<open>sync/sync_executor.py\<close>: \<open>record_upload_outcome\<close>, the error classes,
  the counters of \<open>DocFieldsCycle\<close>, pruning), with the outcomes of \<open>sync/doc_fields_payload.py\<close> and
  \<open>is_unconvertible_error\<close> of \<open>sync/document_text.py\<close>. The store is that of \<open>Sync_State\<close>; the answer of the server
  to a deletion is an argument. Metrics and logging are left out.

  The lemmas show which uploads leave a fingerprint behind and which are tried again, that failing extractions and
  failing re-uploads end, and that pruning removes exactly what a complete scan no longer found.
\<close>

section \<open>Error classes\<close>

fun py_in :: "string \<Rightarrow> string \<Rightarrow> bool" where
  "py_in needle [] = (needle = [])"
| "py_in needle (c # cs) = (py_startswith (c # cs) needle \<or> py_in needle cs)"

text \<open>Lowering only the ASCII letters is enough: every needle is ASCII.\<close>

definition lowered :: "string \<Rightarrow> string" where
  "lowered s = map ascii_lower s"

definition CONFIG_INVALID_PREFIX :: string where
  "CONFIG_INVALID_PREFIX = ''extraction configuration invalid''"

definition EXTRACT_TIMEOUT_ERROR_PREFIX :: string where
  "EXTRACT_TIMEOUT_ERROR_PREFIX = ''extraction timeout''"

definition NEVER_UNCONVERTIBLE_PREFIXES :: "string list" where
  "NEVER_UNCONVERTIBLE_PREFIXES = [EXTRACT_TIMEOUT_ERROR_PREFIX, CONFIG_INVALID_PREFIX, ''extractor died'',
     ''ocr budget exceeded'', ''resource limit exceeded: ocr'']"

definition is_api_error :: "string \<Rightarrow> bool" where
  "is_api_error low \<longleftrightarrow> py_startswith low ''init failed:'' \<or> (py_startswith low ''part '' \<and> py_in '' failed:'' low)"

definition is_unconvertible_error :: "string option \<Rightarrow> bool" where
  "is_unconvertible_error error =
     (case error of None \<Rightarrow> False
      | Some e \<Rightarrow>
          if e = [] then False
          else let low = lowered e
          in if is_api_error low then False
             else if list_ex (py_startswith low) NEVER_UNCONVERTIBLE_PREFIXES then False
             else py_in ''no extractable text'' low \<or> py_in ''not valid utf-8'' low
               \<or> py_startswith low ''unsupported extension'' \<or> py_startswith low ''corrupt ''
               \<or> py_startswith low ''encrypted '' \<or> py_startswith low ''resource limit exceeded''
               \<or> py_startswith low ''valueerror:'' \<or> py_in ''invalid literal for int'' low
               \<or> py_in ''not a zip file'' low \<or> py_in ''not a valid zip container'' low
               \<or> py_in ''bad zipfile'' low \<or> py_in ''bad magic number'' low)"

definition is_server_side_error :: "string \<Rightarrow> bool" where
  "is_server_side_error error = (let low = lowered error in is_api_error low \<or> py_in ''rate limit'' low)"

definition is_configuration_error :: "string \<Rightarrow> bool" where
  "is_configuration_error error = py_startswith (lowered error) CONFIG_INVALID_PREFIX"

text \<open>The status of \<open>^init failed: (\d{3})\<close>.\<close>

definition init_status :: "string \<Rightarrow> int option" where
  "init_status error =
     (let low = py_strip (lowered error); p = ''init failed: ''; code = take 3 (drop (length p) low)
      in if py_startswith low p \<and> length code = 3 \<and> list_all is_digit code then Some (int (digits_value code)) else None)"

definition reupload_failure_class :: "string \<Rightarrow> string" where
  "reupload_failure_class error =
     (case init_status error of
        Some status \<Rightarrow>
          if status = 401 then ''init_401''
          else if status = 403 then ''init_403''
          else if 400 \<le> status \<and> status < 500 then ''init_4xx''
          else if 500 \<le> status \<and> status < 600 then ''init_5xx''
          else ''other''
      | None \<Rightarrow> if is_server_side_error error then ''other'' else ''extract'')"

section \<open>The counters of a cycle\<close>

definition MAX_REPORTED_KEYS :: nat where
  "MAX_REPORTED_KEYS = 20"

definition MAX_REPORTED_WARNINGS :: nat where
  "MAX_REPORTED_WARNINGS = 50"

record doc_fields_cycle =
  dc_outcomes :: "(string, int) table"
  dc_refused :: "(string, int) table"
  dc_reupload_failed :: "(string, int) table"
  dc_warnings :: "(string, int) table"
  dc_warning_pairs :: "(string \<times> string, int) table"
  dc_dropped :: "(string, int) table"
  dc_unknown_keys :: "string list"
  dc_suggest :: "(string, string list) table"
  dc_rel_collisions :: int
  dc_template_errors :: int
  dc_reuploads_done :: int
  dc_requeued :: int

definition new_cycle :: doc_fields_cycle where
  "new_cycle = \<lparr>dc_outcomes = [], dc_refused = [], dc_reupload_failed = [], dc_warnings = [], dc_warning_pairs = [], dc_dropped = [],
     dc_unknown_keys = [], dc_suggest = [], dc_rel_collisions = 0, dc_template_errors = 0, dc_reuploads_done = 0, dc_requeued = 0\<rparr>"

definition count_outcome :: "string \<Rightarrow> doc_fields_cycle \<Rightarrow> doc_fields_cycle" where
  "count_outcome name c =
     (if py_startswith name REFUSED_PREFIX then c\<lparr>dc_refused := tally_add (drop (length REFUSED_PREFIX) name) 1 (dc_refused c)\<rparr>
      else if py_startswith name REUPLOAD_FAILED_PREFIX
        then c\<lparr>dc_reupload_failed := tally_add (drop (length REUPLOAD_FAILED_PREFIX) name) 1 (dc_reupload_failed c)\<rparr>
      else c\<lparr>dc_outcomes := tally_add name 1 (dc_outcomes c)\<rparr>)"

definition note_outcome :: "string \<Rightarrow> fields_outcome_t option \<Rightarrow> doc_fields_cycle \<Rightarrow> doc_fields_cycle" where
  "note_outcome name flds c0 =
     (let c = count_outcome name c0
      in case flds of None \<Rightarrow> c
         | Some f \<Rightarrow> c\<lparr>
             dc_warnings := fold (\<lambda>(k, n). tally_add k n) (fo_warning_codes f) (dc_warnings c),
             dc_warning_pairs := fold (\<lambda>p. tally_add p 1) (fo_warnings f) (dc_warning_pairs c),
             dc_unknown_keys := fold (\<lambda>k ks. if k \<notin> set ks \<and> length ks < MAX_REPORTED_KEYS then ks @ [k] else ks) (fo_unknown_keys f) (dc_unknown_keys c),
             dc_suggest := fold (\<lambda>(k, v) t. if map_of t k = None \<and> length t < MAX_REPORTED_KEYS then t @ [(k, v)] else t) (fo_suggest f) (dc_suggest c)\<rparr>)"

definition cycle_active :: "doc_fields_cycle \<Rightarrow> bool" where
  "cycle_active c \<longleftrightarrow> sum_list (map snd (dc_outcomes c)) \<noteq> 0 \<or> dc_refused c \<noteq> [] \<or> dc_reupload_failed c \<noteq> [] \<or> dc_dropped c \<noteq> []
     \<or> dc_rel_collisions c \<noteq> 0 \<or> dc_template_errors c \<noteq> 0 \<or> dc_requeued c \<noteq> 0"

definition warning_entries :: "doc_fields_cycle \<Rightarrow> ((string \<times> string) \<times> int) list" where
  "warning_entries c = take MAX_REPORTED_WARNINGS (sort_key (\<lambda>(p, n). (- n, p)) (dc_warning_pairs c))"

definition note_fields :: "string \<Rightarrow> fields_outcome_t option \<Rightarrow> doc_fields_cycle option \<Rightarrow> doc_fields_cycle option" where
  "note_fields name flds stats = map_option (note_outcome name flds) stats"

definition reupload_done :: "doc_fields_cycle option \<Rightarrow> doc_fields_cycle option" where
  "reupload_done stats = map_option (\<lambda>c. c\<lparr>dc_reuploads_done := dc_reuploads_done c + 1\<rparr>) stats"


section \<open>Recording an upload\<close>

text \<open>The value of an environment variable is an argument.\<close>

definition connector_env_int :: "string option \<Rightarrow> int \<Rightarrow> int \<Rightarrow> int" where
  "connector_env_int value_of dflt minimum =
     (let raw = py_strip (case value_of of Some s \<Rightarrow> s | None \<Rightarrow> [])
      in if raw = [] then dflt else case py_int raw of Inr n \<Rightarrow> max minimum n | Inl _ \<Rightarrow> dflt)"

definition MAX_EXTRACT_RETRIES :: "string option \<Rightarrow> int" where
  "MAX_EXTRACT_RETRIES value_of = connector_env_int value_of 3 1"

definition REEXTRACT_MAX_ATTEMPTS :: int where
  "REEXTRACT_MAX_ATTEMPTS = 3"

definition RETRIES_EXHAUSTED_NOTE :: jdict where
  "RETRIES_EXHAUSTED_NOTE = [(''reason'', JStr ''extract_retries_exhausted'')]"

record upload_result =
  up_key :: "string option"
  up_parts :: int
  up_status :: string
  up_requests :: int
  up_error :: "string option"
  up_partial :: "jdict option"
  up_fields :: "fields_outcome_t option"
  up_dropped :: "(string, int) table"
  up_text_sha :: "string option"
  up_stamp :: "string option"

datatype upload_outcome = Up_Unchanged | Up_Kept | Up_Partial | Up_Synced | Up_Skipped | Up_Retry

text \<open>The settings and the call's keyword arguments.\<close>

record outcome_args =
  oa_now :: string
  oa_mode :: string
  oa_digest :: "string option"
  oa_fields_reupload :: bool
  oa_reextract :: bool
  oa_current_stamp :: string
  oa_max_extract_retries :: int
  oa_max_reuploads :: int

definition needs_upload :: "doc_status \<Rightarrow> string \<Rightarrow> bool" where
  "needs_upload status mode =
     (if mode \<noteq> ''incremental'' then status \<noteq> Excluded_Max_Age else status \<in> {Pending, Modified, Fields_Changed})"

definition should_skip_failed_upload :: "upload_result \<Rightarrow> string \<Rightarrow> bool" where
  "should_skip_failed_upload up mode =
     (if mode \<noteq> ''incremental'' \<or> up_status up \<noteq> ''error'' then False
      else is_unconvertible_error (Some (case up_error up of Some e \<Rightarrow> e | None \<Rightarrow> [])))"

definition fields_record_for :: "upload_result \<Rightarrow> string \<Rightarrow> fields_record py" where
  "fields_record_for up digest =
     (case record_for (case up_fields up of Some f \<Rightarrow> f | None \<Rightarrow> plain_outcome OUTCOME_NONE digest) of
        Inl e \<Rightarrow> Inl e
      | Inr r \<Rightarrow>
          if rec_count_attempt r then Inr (r\<lparr>rec_digest := Some REQUEUE_DIGEST\<rparr>)
          else if rec_digest r \<noteq> None then Inr (r\<lparr>rec_digest := Some digest\<rparr>)
          else Inr r)"

text \<open>One more failed re-upload of the fields; whether the document left the queue.\<close>

definition count_reupload_failure ::
    "int \<Rightarrow> string \<Rightarrow> string \<Rightarrow> string \<Rightarrow> int option \<Rightarrow> doc_fields_cycle option \<Rightarrow> sync_store
     \<Rightarrow> bool \<times> doc_fields_cycle option \<times> sync_store" where
  "count_reupload_failure max_attempts path digest failure_class known stats st =
     (let (n, st1) = (case known of Some n \<Rightarrow> (n, st) | None \<Rightarrow> store_increment_fields_attempts path st)
      in if n < max_attempts then (False, stats, st1)
         else let r = reupload_failed_record digest failure_class
         in (True, note_fields (rec_outcome r) None stats, snd (store_update_fields path r st1)))"

definition truthy_text :: "string option \<Rightarrow> bool" where
  "truthy_text s = (case s of None \<Rightarrow> False | Some t \<Rightarrow> t \<noteq> [])"

definition truthy_dict :: "jdict option \<Rightarrow> bool" where
  "truthy_dict d = (case d of None \<Rightarrow> False | Some e \<Rightarrow> e \<noteq> [])"

definition stamp_or_current :: "outcome_args \<Rightarrow> upload_result \<Rightarrow> string" where
  "stamp_or_current a up = (if truthy_text (up_stamp up) then the (up_stamp up) else oa_current_stamp a)"

text \<open>The branch for \<open>upload.status == "ok"\<close>: the row, then the stamp, then the counters of the fields.\<close>

definition write_ok_upload ::
    "outcome_args \<Rightarrow> string \<Rightarrow> string \<Rightarrow> int \<Rightarrow> upload_result \<Rightarrow> fields_record option \<Rightarrow> sync_store \<Rightarrow> upload_outcome \<times> sync_store" where
  "write_ok_upload a path mtime sz up r st =
     (let incremental = (oa_mode a = ''incremental'');
          key = (case up_key up of Some k \<Rightarrow> k | None \<Rightarrow> [])
      in if truthy_dict (up_partial up) then
           (Up_Partial,
            if incremental then
              record_partial (oa_now a) path mtime sz (if key = [] then ''partial'' else key) (the (up_partial up)) r st
            else case r of Some x \<Rightarrow> snd (store_update_fields path x st) | None \<Rightarrow> st)
         else
           (Up_Synced,
            if incremental \<and> key \<noteq> [] then store_record_upload (oa_now a) path mtime sz key r st
            else case r of Some x \<Rightarrow> if incremental then st else snd (store_update_fields path x st) | None \<Rightarrow> st))"

definition stamp_ok_upload :: "string \<Rightarrow> upload_result \<Rightarrow> sync_store \<Rightarrow> sync_store" where
  "stamp_ok_upload path up st =
     (if up_stamp up \<noteq> None then snd (store_set_extraction path (up_stamp up) (up_text_sha up) st) else st)"

definition count_ok_upload ::
    "outcome_args \<Rightarrow> string \<Rightarrow> upload_result \<Rightarrow> fields_record \<Rightarrow> doc_fields_cycle option \<Rightarrow> sync_store \<Rightarrow> doc_fields_cycle option \<times> sync_store" where
  "count_ok_upload a path up x stats st =
     (let stats1 = (case up_fields up of Some f \<Rightarrow> note_fields (fo_outcome f) (Some f) stats | None \<Rightarrow> stats);
          (left, stats2, st3) =
            (if rec_count_attempt x then
               count_reupload_failure (oa_max_reuploads a) path (case oa_digest a of Some d \<Rightarrow> d | None \<Rightarrow> []) ''fields_unavailable''
                 (Some (case fields_state path (store_db st) of Some s \<Rightarrow> fs_attempts s | None \<Rightarrow> 0)) stats1 st
             else (True, stats1, st))
      in (if oa_fields_reupload a \<and> left then reupload_done stats2 else stats2, st3))"

definition record_ok_upload ::
    "outcome_args \<Rightarrow> string \<Rightarrow> string \<Rightarrow> int \<Rightarrow> upload_result \<Rightarrow> fields_record option \<Rightarrow> doc_fields_cycle option \<Rightarrow> sync_store
     \<Rightarrow> upload_outcome \<times> doc_fields_cycle option \<times> sync_store" where
  "record_ok_upload a path mtime sz up r stats st =
     (let (out, st1) = write_ok_upload a path mtime sz up r st;
          st2 = stamp_ok_upload path up st1
      in (out, case r of None \<Rightarrow> (stats, st2) | Some x \<Rightarrow> count_ok_upload a path up x stats st2))"

definition none_record :: "outcome_args \<Rightarrow> fields_record option" where
  "none_record a = map_option (\<lambda>d. frec (Some d) OUTCOME_NONE) (oa_digest a)"

text \<open>The branches for a failed upload in incremental mode.\<close>

definition record_failed_upload ::
    "outcome_args \<Rightarrow> string \<Rightarrow> string \<Rightarrow> int \<Rightarrow> upload_result \<Rightarrow> doc_fields_cycle option \<Rightarrow> sync_store
     \<Rightarrow> upload_outcome \<times> doc_fields_cycle option \<times> sync_store" where
  "record_failed_upload a path mtime sz up stats st =
     (let error = (if truthy_text (up_error up) then the (up_error up) else ''upload failed'')
      in if oa_reextract a then
           (if should_skip_failed_upload up (oa_mode a)
            then (Up_Skipped, stats, snd (store_set_extraction_stamp path (oa_current_stamp a) st))
            else (Up_Retry, stats, snd (store_count_reextract_failure path REEXTRACT_MAX_ATTEMPTS st)))
         else if should_skip_failed_upload up (oa_mode a) then
           (Up_Skipped, if oa_fields_reupload a then reupload_done stats else stats,
            snd (store_set_extraction_stamp path (oa_current_stamp a)
              (record_skip (oa_now a) path mtime sz ''unconvertible'' (none_record a) st)))
         else if oa_fields_reupload a then
           (case oa_digest a of None \<Rightarrow> (Up_Retry, stats, st)
            | Some d \<Rightarrow>
                (case count_reupload_failure (oa_max_reuploads a) path d (reupload_failure_class error) None stats st of
                   (left, stats1, st1) \<Rightarrow> (Up_Retry, if left then reupload_done stats1 else stats1, st1)))
         else if is_server_side_error error \<or> is_configuration_error error then (Up_Retry, stats, st)
         else (case increment_retry_count (oa_now a) path (Some error) st of
                 (n, st1) \<Rightarrow>
                   if n > oa_max_extract_retries a
                   then (Up_Partial, stats, record_partial (oa_now a) path mtime sz ''partial:extract_retries_exhausted''
                           RETRIES_EXHAUSTED_NOTE (none_record a) st1)
                   else (Up_Retry, stats, st1)))"

definition record_upload_outcome ::
    "outcome_args \<Rightarrow> string \<Rightarrow> string \<Rightarrow> int \<Rightarrow> upload_result \<Rightarrow> doc_fields_cycle option \<Rightarrow> sync_store
     \<Rightarrow> upload_outcome py \<times> doc_fields_cycle option \<times> sync_store" where
  "record_upload_outcome a path mtime sz up stats st =
     (if up_status up = ''unchanged'' then
        (Inr Up_Unchanged, stats, record_reextract_unchanged (oa_now a) path (stamp_or_current a up) (up_partial up) st)
      else if up_status up = ''kept'' then
        (Inr Up_Kept, stats, record_reextract_kept path (stamp_or_current a up) st)
      else if up_status up = ''ok'' then
        (case (case oa_digest a of None \<Rightarrow> Inr None | Some d \<Rightarrow> map_sum id Some (fields_record_for up d)) of
           Inl e \<Rightarrow> (Inl e, stats, st)
         | Inr r \<Rightarrow> (case record_ok_upload a path mtime sz up r stats st of (out, stats1, st1) \<Rightarrow> (Inr out, stats1, st1)))
      else if oa_mode a \<noteq> ''incremental'' then (Inr Up_Retry, stats, st)
      else (case record_failed_upload a path mtime sz up stats st of (out, stats1, st1) \<Rightarrow> (Inr out, stats1, st1)))"

section \<open>Pruning\<close>

definition pointer_for_relative :: "string \<Rightarrow> string \<Rightarrow> string" where
  "pointer_for_relative identifier_prefix relative_path =
     identifier_prefix @ ''/'' @ unbackslash relative_path"

text \<open>\<open>[str(p) for p in PurePosixPath(path).parents]\<close>, the longest first; empty and dot segments do not count.\<close>

definition posix_parents :: "string \<Rightarrow> string list" where
  "posix_parents path =
     (let root = (if py_startswith path ''//'' \<and> \<not> py_startswith path ''///'' then ''//'' else if py_startswith path ''/'' then ''/'' else []);
          segs = filter (\<lambda>s. s \<noteq> [] \<and> s \<noteq> ''.'') (split_char (CHR ''/'') path)
      in map (\<lambda>k. if root = [] \<and> k = 0 then ''.'' else root @ py_join (CHR ''/'') (take k segs)) (rev [0..<length segs]))"

definition scan_could_not_see :: "string \<Rightarrow> string list \<Rightarrow> bool" where
  "scan_could_not_see path unreadable =
     (if unreadable = [] then False else path \<in> set unreadable \<or> list_ex (\<lambda>p. p \<in> set unreadable) (posix_parents path))"

text \<open>The loop over the tracked paths: kept, errors and the store.\<close>

fun prune_loop ::
    "string \<Rightarrow> (string \<Rightarrow> bool \<times> string option) \<Rightarrow> string list \<Rightarrow> string list \<Rightarrow> string list \<Rightarrow> int \<times> (string \<times> string) list \<times> sync_store
     \<Rightarrow> int \<times> (string \<times> string) list \<times> sync_store" where
  "prune_loop prefix delete scanned unreadable [] acc = acc"
| "prune_loop prefix delete scanned unreadable (p # ps) (kept, errs, st) =
     prune_loop prefix delete scanned unreadable ps
       (if p \<in> set scanned then (kept, errs, st)
        else if scan_could_not_see p unreadable then (kept + 1, errs, st)
        else case delete (pointer_for_relative prefix p) of
               (True, _) \<Rightarrow> (kept, errs, store_remove_tracked p st)
             | (False, Some e) \<Rightarrow> (kept, if e = [] then errs else errs @ [(p, e)], st)
             | (False, None) \<Rightarrow> (kept, errs, st))"

definition kept_message :: "int \<Rightarrow> string" where
  "kept_message kept = show_int kept @ '' document(s) kept: their folder or file could not be read''"

definition prune_removed_documents ::
    "string \<Rightarrow> (string \<Rightarrow> bool \<times> string option) \<Rightarrow> string list \<Rightarrow> string list \<Rightarrow> sync_store \<Rightarrow> (string \<times> string) list \<times> sync_store" where
  "prune_removed_documents prefix delete scanned unreadable st =
     (case prune_loop prefix delete scanned unreadable (list_tracked_paths (store_db st)) (0, [], st) of
        (kept, errs, st') \<Rightarrow> (if kept \<noteq> 0 then errs @ [([], kept_message kept)] else errs, st'))"

text \<open>The end of \<open>run_sync_work\<close>: whether and what to prune.\<close>

record prune_args =
  pa_delete_on_remove :: bool
  pa_scan_truncated :: bool
  pa_scan_stopped :: bool
  pa_paused_reason :: "string option"
  pa_sequential :: bool
  pa_sources_skipped :: int

definition can_prune :: "prune_args \<Rightarrow> bool" where
  "can_prune a \<longleftrightarrow> pa_delete_on_remove a \<and> \<not> pa_scan_truncated a \<and> \<not> pa_scan_stopped a \<and> \<not> truthy_text (pa_paused_reason a)
     \<and> \<not> pa_sequential a \<and> pa_sources_skipped a = 0"

definition SOURCES_EMPTY :: string where
  "SOURCES_EMPTY = ''sources empty while documents are tracked; nothing removed''"

definition prune_after_cycle ::
    "prune_args \<Rightarrow> string \<Rightarrow> (string \<Rightarrow> bool \<times> string option) \<Rightarrow> string list \<Rightarrow> string list \<Rightarrow> sync_store \<Rightarrow> (string \<times> string) list \<times> sync_store" where
  "prune_after_cycle a prefix delete scanned unreadable st =
     (if can_prune a \<and> scanned = [] \<and> count_tracked (store_db st) > 0 then ([([], SOURCES_EMPTY)], st)
      else if can_prune a then prune_removed_documents prefix delete scanned unreadable st
      else ([], st))"

section \<open>The store after an outcome\<close>

lemma count_reupload_failure_steps:
  "store_step\<^sup>*\<^sup>* st (snd (snd (count_reupload_failure m path d cls known stats st)))"
proof -
  define st1 where "st1 = snd (case known of Some n \<Rightarrow> (n, st) | None \<Rightarrow> store_increment_fields_attempts path st)"
  have a: "store_step\<^sup>*\<^sup>* st st1"
    by (cases known) (auto simp: st1_def intro: store_step.fields_attempt)
  have b: "store_step\<^sup>*\<^sup>* st (snd (store_update_fields path r st1))" for r
    using a store_step.update_fields rtranclp.rtrancl_into_rtrancl by metis
  show ?thesis
    using a b by (simp add: count_reupload_failure_def split_def Let_def flip: st1_def)
qed


lemma steps_then:
  assumes "store_step\<^sup>*\<^sup>* st st1" and "store_step st1 st2"
  shows "store_step\<^sup>*\<^sup>* st st2"
  using assms by (rule rtranclp.rtrancl_into_rtrancl)

lemma write_ok_upload_steps: "store_step\<^sup>*\<^sup>* st (snd (write_ok_upload a path mtime sz up r st))"
  by (auto simp: write_ok_upload_def Let_def intro: store_step.intros r_into_rtranclp split: option.splits)

lemma stamp_ok_upload_steps: "store_step\<^sup>*\<^sup>* st (stamp_ok_upload path up st)"
  by (auto simp: stamp_ok_upload_def intro: store_step.intros)

lemma count_ok_upload_steps: "store_step\<^sup>*\<^sup>* st (snd (count_ok_upload a path up x stats st))"
  using count_reupload_failure_steps by (auto simp: count_ok_upload_def Let_def split_def)

lemma record_ok_upload_steps: "store_step\<^sup>*\<^sup>* st (snd (snd (record_ok_upload a path mtime sz up r stats st)))"
proof -
  let ?st1 = "snd (write_ok_upload a path mtime sz up r st)"
  have "store_step\<^sup>*\<^sup>* st (stamp_ok_upload path up ?st1)"
    using write_ok_upload_steps stamp_ok_upload_steps by (rule rtranclp_trans)
  then show ?thesis
    using rtranclp_trans [OF _ count_ok_upload_steps]
    by (cases r) (simp_all add: record_ok_upload_def split_def Let_def)
qed

lemma record_failed_upload_steps: "store_step\<^sup>*\<^sup>* st (snd (snd (record_failed_upload a path mtime sz up stats st)))"
proof -
  have skip: "store_step\<^sup>*\<^sup>* st (snd (store_set_extraction_stamp path s (record_skip now path mtime sz reason r st)))" for s now reason r
    by (rule steps_then [OF r_into_rtranclp]) (rule store_step.intros)+
  have worn: "store_step\<^sup>*\<^sup>* st (record_partial now path mtime sz k n r (snd (increment_retry_count now path e st)))" for now k n r e
    by (rule steps_then [OF r_into_rtranclp]) (rule store_step.intros)+
  have one: "store_step\<^sup>*\<^sup>* st (snd (store_set_extraction_stamp path s st))"
    "store_step\<^sup>*\<^sup>* st (snd (store_count_reextract_failure path m st))" "store_step\<^sup>*\<^sup>* st (snd (increment_retry_count now path e st))" for s m now e
    by (auto intro: store_step.intros)
  show ?thesis
    by (simp add: record_failed_upload_def Let_def split_def one skip worn count_reupload_failure_steps split: option.split)
qed

lemma record_upload_outcome_steps: "store_step\<^sup>*\<^sup>* st (snd (snd (record_upload_outcome a path mtime sz up stats st)))"
proof -
  have "store_step\<^sup>*\<^sup>* st (record_reextract_unchanged now path s n st)" "store_step\<^sup>*\<^sup>* st (record_reextract_kept path s st)" for now s n
    by (auto intro: store_step.intros)
  then show ?thesis
    using record_ok_upload_steps record_failed_upload_steps
    by (simp add: record_upload_outcome_def split_def Let_def split: option.split sum.split)
qed

lemma steps_ok: "store_step\<^sup>*\<^sup>* st st' \<Longrightarrow> store_ok st \<Longrightarrow> store_ok st'"
  by (induction rule: rtranclp_induct) (auto intro: store_step_ok)

section \<open>Fingerprints after an outcome\<close>

definition stored_fp :: "sync_store \<Rightarrow> string \<Rightarrow> fingerprint option" where
  "stored_fp st = fp_of (store_db st)"

named_theorems stored_fp_simps

lemma stored_fp_via_db [stored_fp_simps]:
  "stored_fp (snd (store_update_fields p r st)) = stored_fp st"
  "stored_fp (snd (store_increment_fields_attempts p st)) = stored_fp st"
  "stored_fp (snd (store_set_extraction p s sha st)) = stored_fp st"
  "stored_fp (snd (store_set_extraction_stamp p stamp st)) = stored_fp st"
  "stored_fp (snd (store_count_reextract_failure p m st)) = stored_fp st"
  "stored_fp (snd (increment_retry_count now p e st)) = stored_fp st"
  by (simp_all add: stored_fp_def via_db_defs via_db_def split_def Let_def fun_eq_iff fp_of_kept fp_of_notes fp_of_count_reextract_failure)

lemma stored_fp_reextract [stored_fp_simps]:
  "stored_fp (record_reextract_unchanged now p s n st) = stored_fp st"
  "stored_fp (record_reextract_kept p s st) = stored_fp st"
  by (simp_all add: stored_fp_def record_reextract_unchanged_def record_reextract_kept_def Let_def fun_eq_iff fp_of_kept fp_of_notes
      split: option.split list.split)

lemma stored_fp_upload [stored_fp_simps]:
  assumes "store_ok st"
  shows "stored_fp (store_record_upload now p mtime sz k r st) = (stored_fp st)(p \<mapsto> (mtime, sz))"
    and "stored_fp (record_partial now p mtime sz k n r st) = (stored_fp st)(p \<mapsto> (mtime, sz))"
    and "stored_fp (record_skip now p mtime sz reason r st) = (stored_fp st)(p \<mapsto> (mtime, sz))"
proof -
  have "fp_of (store_db (store_upload now p mtime sz k r st)) = (fp_of (store_db st))(p \<mapsto> (mtime, sz))" for k
    by (simp add: store_upload_db(1) [OF assms] fp_of_record_upload)
  moreover have "fp_of (clear_retries q db) = fp_of db" "fp_of (clear_partial q db) = fp_of db" "fp_of (set_partial now q n db) = fp_of db" for q db
    by (auto simp: fp_of_notes)
  ultimately show "stored_fp (store_record_upload now p mtime sz k r st) = (stored_fp st)(p \<mapsto> (mtime, sz))"
    "stored_fp (record_partial now p mtime sz k n r st) = (stored_fp st)(p \<mapsto> (mtime, sz))"
    "stored_fp (record_skip now p mtime sz reason r st) = (stored_fp st)(p \<mapsto> (mtime, sz))"
    by (simp_all add: stored_fp_def store_record_upload_def record_partial_def record_skip_def Let_def)
qed

lemma stored_fp_count_reupload [stored_fp_simps]:
  "stored_fp (snd (snd (count_reupload_failure m path d cls known stats st))) = stored_fp st"
  by (cases known) (simp_all add: count_reupload_failure_def split_def Let_def stored_fp_simps)

lemma stored_fp_count_ok [stored_fp_simps]: "stored_fp (snd (count_ok_upload a path up x stats st)) = stored_fp st"
  by (simp add: count_ok_upload_def split_def Let_def stored_fp_simps)

lemma stored_fp_stamp_ok [stored_fp_simps]: "stored_fp (stamp_ok_upload path up st) = stored_fp st"
  by (simp add: stamp_ok_upload_def stored_fp_simps)

lemma stored_fp_record_ok:
  "stored_fp (snd (snd (record_ok_upload a path mtime sz up r stats st))) = stored_fp (snd (write_ok_upload a path mtime sz up r st))"
  "fst (record_ok_upload a path mtime sz up r stats st) = fst (write_ok_upload a path mtime sz up r st)"
  by (simp_all add: record_ok_upload_def split_def Let_def stored_fp_simps split: option.split)

text \<open>The outcomes after which the file counts as uploaded in its present form.\<close>

definition settles :: "outcome_args \<Rightarrow> upload_result \<Rightarrow> upload_outcome \<Rightarrow> bool" where
  "settles a up out \<longleftrightarrow> oa_mode a = ''incremental''
     \<and> (out = Up_Partial \<or> out = Up_Synced \<and> truthy_text (up_key up) \<or> out = Up_Skipped \<and> \<not> oa_reextract a)"

lemma write_ok_upload_fp:
  assumes "store_ok st"
  shows "stored_fp (snd (write_ok_upload a path mtime sz up r st)) =
    (if settles a up (fst (write_ok_upload a path mtime sz up r st)) then (stored_fp st)(path \<mapsto> (mtime, sz)) else stored_fp st)"
  using assms
  by (auto simp: write_ok_upload_def settles_def Let_def stored_fp_simps truthy_text_def split: option.splits)

lemma record_failed_upload_fp:
  assumes "store_ok st" and "oa_mode a = ''incremental''"
  shows "stored_fp (snd (snd (record_failed_upload a path mtime sz up stats st))) =
    (if settles a up (fst (record_failed_upload a path mtime sz up stats st)) then (stored_fp st)(path \<mapsto> (mtime, sz)) else stored_fp st)"
proof -
  have "store_ok (snd (increment_retry_count now path e st))" for now e
    using store_step_ok [OF store_step.retry assms(1)] .
  then show ?thesis
    using assms
    by (simp add: record_failed_upload_def settles_def Let_def split_def stored_fp_simps split: option.split)
qed

lemma record_upload_outcome_fp:
  assumes "store_ok st"
  shows "stored_fp (snd (snd (record_upload_outcome a path mtime sz up stats st))) =
    (case fst (record_upload_outcome a path mtime sz up stats st) of
       Inr out \<Rightarrow> if settles a up out then (stored_fp st)(path \<mapsto> (mtime, sz)) else stored_fp st | Inl e \<Rightarrow> stored_fp st)"
  unfolding record_upload_outcome_def using assms
  by (auto simp: stored_fp_simps stored_fp_record_ok write_ok_upload_fp record_failed_upload_fp split_def
      split: option.split sum.split) (simp_all add: settles_def)

lemma failed_branch:
  assumes "oa_mode a = ''incremental''" and "up_status up \<notin> {''unchanged'', ''kept'', ''ok''}"
  shows "record_upload_outcome a path mtime sz up stats st =
    (case record_failed_upload a path mtime sz up stats st of (out, stats1, st1) \<Rightarrow> (Inr out, stats1, st1))"
  using assms by (simp add: record_upload_outcome_def)

section \<open>Failing extractions\<close>

definition error_text :: "upload_result \<Rightarrow> string" where
  "error_text up = (if truthy_text (up_error up) then the (up_error up) else ''upload failed'')"

text \<open>A failed content upload that is neither the server's nor the configuration's fault and not unconvertible.\<close>

definition extraction_failure :: "outcome_args \<Rightarrow> upload_result \<Rightarrow> bool" where
  "extraction_failure a up \<longleftrightarrow> oa_mode a = ''incremental'' \<and> up_status up \<notin> {''unchanged'', ''kept'', ''ok''}
     \<and> \<not> oa_reextract a \<and> \<not> oa_fields_reupload a \<and> \<not> should_skip_failed_upload up ''incremental''
     \<and> \<not> is_server_side_error (error_text up) \<and> \<not> is_configuration_error (error_text up)"

lemma extraction_failure_outcome:
  assumes "extraction_failure a up"
  shows "record_upload_outcome a path mtime sz up stats st =
    (let n = get_retry_count path (store_db st) + 1; st1 = snd (increment_retry_count (oa_now a) path (Some (error_text up)) st)
     in if n > oa_max_extract_retries a
        then (Inr Up_Partial, stats, record_partial (oa_now a) path mtime sz ''partial:extract_retries_exhausted''
                RETRIES_EXHAUSTED_NOTE (none_record a) st1)
        else (Inr Up_Retry, stats, st1))"
  using assms unfolding extraction_failure_def error_text_def
  by (simp add: failed_branch record_failed_upload_def Let_def split_def increment_retry_count_def via_db_def increment_retry_def)

lemma increment_retry_count_reads:
  "get_retry_count path (store_db (snd (increment_retry_count now path e st))) = get_retry_count path (store_db st) + 1"
  by (simp add: increment_retry_count_def via_db_def increment_retry_def get_retry_count_def Let_def at.lookup_put)

text \<open>The store after the same upload failed in \<open>n\<close> cycles.\<close>

fun after_failures :: "outcome_args \<Rightarrow> string \<Rightarrow> string \<Rightarrow> int \<Rightarrow> upload_result \<Rightarrow> nat \<Rightarrow> sync_store \<Rightarrow> sync_store" where
  "after_failures a path mtime sz up 0 st = st"
| "after_failures a path mtime sz up (Suc n) st =
     snd (snd (record_upload_outcome a path mtime sz up None (after_failures a path mtime sz up n st)))"

lemma after_failures_ok: "store_ok st \<Longrightarrow> store_ok (after_failures a path mtime sz up n st)"
  by (induction n) (auto intro: steps_ok [OF record_upload_outcome_steps])

lemma retries_counted:
  assumes "extraction_failure a up" and "get_retry_count path (store_db st) + int n \<le> oa_max_extract_retries a"
  shows "get_retry_count path (store_db (after_failures a path mtime sz up n st)) = get_retry_count path (store_db st) + int n"
    and "stored_fp (after_failures a path mtime sz up n st) = stored_fp st"
  using assms(2)
  by (induction n) (simp_all add: extraction_failure_outcome [OF assms(1)] Let_def increment_retry_count_reads stored_fp_simps)

lemma record_partial_note:
  "get_partial path (store_db (record_partial now path mtime sz k n r st)) = Some (sort_key fst n)"
  "get_retry_count path (store_db (record_partial now path mtime sz k n r st)) = 0"
  by (simp_all add: record_partial_def Let_def get_partial_def set_partial_def clear_retries_def get_retry_count_def at.lookup_put at.lookup_del)

section \<open>Failing re-uploads of the fields\<close>

definition fields_failure :: "outcome_args \<Rightarrow> upload_result \<Rightarrow> string \<Rightarrow> bool" where
  "fields_failure a up d \<longleftrightarrow> oa_mode a = ''incremental'' \<and> up_status up \<notin> {''unchanged'', ''kept'', ''ok''}
     \<and> \<not> oa_reextract a \<and> oa_fields_reupload a \<and> \<not> should_skip_failed_upload up ''incremental'' \<and> oa_digest a = Some d"

lemma fields_failure_outcome:
  assumes "fields_failure a up d" and "map_of (documents (store_db st)) path = Some row"
  shows "\<exists>row'. map_of (documents (store_db (snd (snd (record_upload_outcome a path mtime sz up stats st))))) path = Some row'
     \<and> fst (record_upload_outcome a path mtime sz up stats st) = Inr Up_Retry
     \<and> (if fields_attempts row + 1 < oa_max_reuploads a then row' = row\<lparr>fields_attempts := fields_attempts row + 1\<rparr>
        else fields_digest row' = Some d \<and> fields_attempts row' = 0
          \<and> fields_outcome row' = Some (REUPLOAD_FAILED_PREFIX @ reupload_failure_class (error_text up)))"
proof -
  have cls: "reupload_failure_class e \<in> set REUPLOAD_FAILURE_CLASSES" for e
    by (auto simp: reupload_failure_class_def REUPLOAD_FAILURE_CLASSES_def split: option.splits)
  show ?thesis
    using assms cls unfolding fields_failure_def error_text_def
    by (simp add: failed_branch record_failed_upload_def Let_def split_def count_reupload_failure_def
        store_increment_fields_attempts_def store_update_fields_def via_db_def increment_fields_attempts_def update_fields_def
        update_row_lookup write_fields_lookup attempts_def reupload_failed_record_def frec_def)
qed

lemma fields_attempts_counted:
  assumes "fields_failure a up d" and "map_of (documents (store_db st)) path = Some row"
    and "fields_attempts row + int n < oa_max_reuploads a"
  shows "map_of (documents (store_db (after_failures a path mtime sz up n st))) path =
    Some (row\<lparr>fields_attempts := fields_attempts row + int n\<rparr>)"
  using assms(3)
proof (induction n)
  case 0
  then show ?case using assms(2) by simp
next
  case (Suc n)
  then have "map_of (documents (store_db (after_failures a path mtime sz up n st))) path = Some (row\<lparr>fields_attempts := fields_attempts row + int n\<rparr>)"
    by simp
  from fields_failure_outcome [OF assms(1) this, of mtime sz None] Suc.prems show ?case by (auto simp: algebra_simps)
qed

section \<open>What pruning removes\<close>

definition gone :: "string \<Rightarrow> (string \<Rightarrow> bool \<times> string option) \<Rightarrow> string list \<Rightarrow> string list \<Rightarrow> string \<Rightarrow> bool" where
  "gone prefix delete scanned unreadable p \<longleftrightarrow>
     p \<notin> set scanned \<and> \<not> scan_could_not_see p unreadable \<and> fst (delete (pointer_for_relative prefix p))"

lemma prune_loop_store:
  "snd (snd (prune_loop prefix delete scanned unreadable ps (kept, errs, st))) =
     fold store_remove_tracked (filter (gone prefix delete scanned unreadable) ps) st"
proof (induction ps arbitrary: kept errs st)
  case (Cons p ps)
  obtain b e where d: "delete (pointer_for_relative prefix p) = (b, e)" by fastforce
  show ?case
    using Cons by (cases b; cases e) (simp_all add: d gone_def)
qed simp

lemma remove_all_of:
  assumes "store_ok st"
  shows "store_ok (fold store_remove_tracked ps st)"
    and "map_of (documents (store_db (fold store_remove_tracked ps st))) p = (if p \<in> set ps then None else map_of (documents (store_db st)) p)"
    and "ocr_requests (fold store_remove_tracked ps st) = ocr_requests st @ map Purge_Document ps"
proof -
  have "ocr_requests (store_remove_tracked q s) = ocr_requests s @ [Purge_Document q]" for q s
    by (simp add: store_remove_tracked_def store_load_fingerprints_def Let_def split_def split: option.split)
  then have "store_ok (fold store_remove_tracked ps st)
    \<and> map_of (documents (store_db (fold store_remove_tracked ps st))) p = (if p \<in> set ps then None else map_of (documents (store_db st)) p)
    \<and> ocr_requests (fold store_remove_tracked ps st) = ocr_requests st @ map Purge_Document ps"
    using assms
  proof (induction ps arbitrary: st)
    case (Cons q ps)
    note rm = store_remove_ok [OF Cons.prems(2), of q]
    show ?case
      using Cons.IH [OF Cons.prems(1) rm(2)] by (auto simp: Cons.prems(1) rm(1) remove_tracked_def at.lookup_del)
  qed simp
  then show "store_ok (fold store_remove_tracked ps st)"
    "map_of (documents (store_db (fold store_remove_tracked ps st))) p = (if p \<in> set ps then None else map_of (documents (store_db st)) p)"
    "ocr_requests (fold store_remove_tracked ps st) = ocr_requests st @ map Purge_Document ps" by blast+
qed

lemma prune_removed_store:
  "snd (prune_removed_documents prefix delete scanned unreadable st) =
     fold store_remove_tracked (filter (gone prefix delete scanned unreadable) (list_tracked_paths (store_db st))) st"
  using prune_loop_store [of prefix delete scanned unreadable "list_tracked_paths (store_db st)" 0 "[]" st]
  by (simp add: prune_removed_documents_def split_def)

lemma tracked_paths: "set (list_tracked_paths db) = dom (map_of (documents db))"
  by (simp add: list_tracked_paths_def dom_map_of_conv_image_fst tkeys_def)

lemma count_tracked_pos: "count_tracked db > 0 \<longleftrightarrow> (\<exists>p. map_of (documents db) p \<noteq> None)"
proof -
  have "(documents db = []) = (\<forall>p. map_of (documents db) p = None)"
    by (metis dom_empty dom_map_of_conv_image_fst domIff empty_iff image_is_empty set_empty subsetI subset_antisym)
  then show ?thesis by (auto simp: count_tracked_def)
qed

section \<open>Properties\<close>

text \<open>
  (C36) Whatever comes of an upload, the store stays consistent, and the outcome says which fingerprint it holds: the file is
  recorded as uploaded in its present form, and the next scan of the same file answers "synced", exactly after a partial
  or skipped upload or a clean one with a transmission key, in incremental mode (a re-extraction is never skipped that
  way). After any other outcome, and in full mode, no fingerprint changes, so the file is tried again.
\<close>

theorem outcome_decides_fingerprint:
  assumes "store_ok st" and "record_upload_outcome a path mtime sz up stats st = (res, stats', st')"
  shows "store_ok st'
    \<and> stored_fp st' = (case res of Inr out \<Rightarrow> if settles a up out then (stored_fp st)(path \<mapsto> (mtime, sz)) else stored_fp st
                          | Inl e \<Rightarrow> stored_fp st)
    \<and> fst (document_status path mtime sz st') =
      (if \<exists>out. res = Inr out \<and> settles a up out then Synced else fst (document_status path mtime sz st))"
proof (intro conjI)
  have st': "st' = snd (snd (record_upload_outcome a path mtime sz up stats st))" and
    res: "res = fst (record_upload_outcome a path mtime sz up stats st)" by (simp_all add: assms(2))
  show ok: "store_ok st'" using steps_ok [OF record_upload_outcome_steps assms(1)] by (simp add: st')
  show fp: "stored_fp st' = (case res of Inr out \<Rightarrow> if settles a up out then (stored_fp st)(path \<mapsto> (mtime, sz)) else stored_fp st
                          | Inl e \<Rightarrow> stored_fp st)"
    unfolding st' res by (rule record_upload_outcome_fp [OF assms(1)])
  show "fst (document_status path mtime sz st') =
      (if \<exists>out. res = Inr out \<and> settles a up out then Synced else fst (document_status path mtime sz st))"
    using fp unfolding stored_fp_def document_status_ok(1) [OF ok] document_status_ok(1) [OF assms(1)]
    by (cases res) (auto simp: status_from_fingerprint_def)
qed

text \<open>
  (C37) An extraction that keeps failing does not loop: it is retried while the count of failures is within the maximum,
  leaving the fingerprints alone; the next failure records the file as partial with the note that the retries are used
  up, resets the count, and the unchanged file is no longer a candidate.
\<close>

theorem extraction_retries_end:
  assumes "store_ok st" and "extraction_failure a up" and "get_retry_count path (store_db st) + int n \<le> oa_max_extract_retries a"
  shows "fst (record_upload_outcome a path mtime sz up None (after_failures a path mtime sz up n st)) =
      (if get_retry_count path (store_db st) + int n < oa_max_extract_retries a then Inr Up_Retry else Inr Up_Partial)
    \<and> stored_fp (after_failures a path mtime sz up n st) = stored_fp st
    \<and> (get_retry_count path (store_db st) + int n = oa_max_extract_retries a \<longrightarrow>
      fst (document_status path mtime sz (after_failures a path mtime sz up (Suc n) st)) = Synced
      \<and> get_partial path (store_db (after_failures a path mtime sz up (Suc n) st)) = Some RETRIES_EXHAUSTED_NOTE
      \<and> get_retry_count path (store_db (after_failures a path mtime sz up (Suc n) st)) = 0)"
proof -
  let ?s = "after_failures a path mtime sz up n st"
  note cnt = retries_counted [OF assms(2,3), of mtime sz]
  note step = extraction_failure_outcome [OF assms(2), of path mtime sz None ?s, unfolded Let_def cnt(1)]
  have out: "fst (record_upload_outcome a path mtime sz up None ?s) =
      (if get_retry_count path (store_db st) + int n < oa_max_extract_retries a then Inr Up_Retry else Inr Up_Partial)"
    using assms(3) by (simp add: step)
  have "fst (document_status path mtime sz (after_failures a path mtime sz up (Suc n) st)) = Synced
      \<and> get_partial path (store_db (after_failures a path mtime sz up (Suc n) st)) = Some RETRIES_EXHAUSTED_NOTE
      \<and> get_retry_count path (store_db (after_failures a path mtime sz up (Suc n) st)) = 0"
    if last: "get_retry_count path (store_db st) + int n = oa_max_extract_retries a"
  proof -
    let ?t = "snd (increment_retry_count (oa_now a) path (Some (error_text up)) ?s)"
    have t: "store_ok ?t" by (rule store_step_ok [OF store_step.retry after_failures_ok [OF assms(1)]])
    have eq: "after_failures a path mtime sz up (Suc n) st =
        record_partial (oa_now a) path mtime sz ''partial:extract_retries_exhausted'' RETRIES_EXHAUSTED_NOTE (none_record a) ?t"
      using last by (simp add: step)
    have "store_ok (after_failures a path mtime sz up (Suc n) st)" by (rule after_failures_ok [OF assms(1)])
    then have "fst (document_status path mtime sz (after_failures a path mtime sz up (Suc n) st)) = Synced"
      using stored_fp_upload(2) [OF t]
      by (simp add: document_status_ok(1) eq stored_fp_def status_from_fingerprint_def del: after_failures.simps)
    then show ?thesis using record_partial_note by (simp add: eq RETRIES_EXHAUSTED_NOTE_def del: after_failures.simps)
  qed
  with out cnt(2) show ?thesis by blast
qed

text \<open>
  A failing re-upload of the fields ends too: every failure before the last allowed one only counts an attempt and
  leaves the rest of the row, so the document stays queued; the last one stores the digest with the class of the error,
  so that the document no longer counts as changed.
\<close>

theorem fields_reuploads_end:
  assumes "fields_failure a up d" and "map_of (documents (store_db st)) path = Some row"
  shows "(fields_attempts row + int n < oa_max_reuploads a \<longrightarrow>
      map_of (documents (store_db (after_failures a path mtime sz up n st))) path = Some (row\<lparr>fields_attempts := fields_attempts row + int n\<rparr>))
    \<and> (fields_attempts row + int n + 1 = oa_max_reuploads a \<longrightarrow>
      (\<exists>row'. map_of (documents (store_db (after_failures a path mtime sz up (Suc n) st))) path = Some row'
        \<and> fields_digest row' = Some d \<and> fields_attempts row' = 0
        \<and> fields_outcome row' = Some (REUPLOAD_FAILED_PREFIX @ reupload_failure_class (error_text up))))"
proof (intro conjI impI)
  note cnt = fields_attempts_counted [OF assms, of n mtime sz]
  show "map_of (documents (store_db (after_failures a path mtime sz up n st))) path = Some (row\<lparr>fields_attempts := fields_attempts row + int n\<rparr>)"
    if "fields_attempts row + int n < oa_max_reuploads a" using that by (rule cnt)
  assume last: "fields_attempts row + int n + 1 = oa_max_reuploads a"
  then have "map_of (documents (store_db (after_failures a path mtime sz up n st))) path = Some (row\<lparr>fields_attempts := fields_attempts row + int n\<rparr>)"
    by (intro cnt) simp
  from fields_failure_outcome [OF assms(1) this, of mtime sz None] last
  show "\<exists>row'. map_of (documents (store_db (after_failures a path mtime sz up (Suc n) st))) path = Some row'
        \<and> fields_digest row' = Some d \<and> fields_attempts row' = 0
        \<and> fields_outcome row' = Some (REUPLOAD_FAILED_PREFIX @ reupload_failure_class (error_text up))"
    by auto
qed

text \<open>
  (C38) Pruning forgets exactly the tracked documents that the scan did not find, that do not lie under a folder or file
  it could not read, and whose deletion the server confirmed, and only after a complete scan of at least one file;
  every other row stays, the store stays consistent, and an empty scan while documents are tracked removes nothing and
  is reported.
\<close>

theorem prune_exact:
  assumes "store_ok st" and "prune_after_cycle a prefix delete scanned unreadable st = (errs, st')"
  shows "store_ok st'
    \<and> map_of (documents (store_db st')) p =
      (if can_prune a \<and> scanned \<noteq> [] \<and> gone prefix delete scanned unreadable p then None else map_of (documents (store_db st)) p)
    \<and> (can_prune a \<and> scanned = [] \<and> count_tracked (store_db st) > 0 \<longrightarrow> errs = [([], SOURCES_EMPTY)] \<and> st' = st)"
proof (intro conjI)
  let ?ps = "filter (gone prefix delete scanned unreadable) (list_tracked_paths (store_db st))"
  have st': "st' = (if can_prune a \<and> \<not> (scanned = [] \<and> count_tracked (store_db st) > 0) then fold store_remove_tracked ?ps st else st)"
    using assms(2) prune_removed_store [of prefix delete scanned unreadable st]
    by (auto simp: prune_after_cycle_def split: if_splits)
  show "store_ok st'" using remove_all_of(1) [OF assms(1)] assms(1) by (simp add: st')
  show "map_of (documents (store_db st')) p =
      (if can_prune a \<and> scanned \<noteq> [] \<and> gone prefix delete scanned unreadable p then None else map_of (documents (store_db st)) p)"
    using remove_all_of(2) [OF assms(1), of ?ps p] count_tracked_pos [of "store_db st"]
    by (auto simp: st' tracked_paths)
  show "can_prune a \<and> scanned = [] \<and> count_tracked (store_db st) > 0 \<longrightarrow> errs = [([], SOURCES_EMPTY)] \<and> st' = st"
    using assms(2) by (auto simp: prune_after_cycle_def)
qed

section \<open>Witnesses\<close>

definition example_args :: outcome_args where
  "example_args = \<lparr>oa_now = ''t'', oa_mode = ''incremental'', oa_digest = Some ''d1'', oa_fields_reupload = False, oa_reextract = False,
     oa_current_stamp = ''s'', oa_max_extract_retries = 1, oa_max_reuploads = 2\<rparr>"

definition example_upload :: upload_result where
  "example_upload = \<lparr>up_key = Some ''k'', up_parts = 1, up_status = ''ok'', up_requests = 2, up_error = None, up_partial = None,
     up_fields = None, up_dropped = [], up_text_sha = Some ''h'', up_stamp = Some ''s''\<rparr>"

definition example_failure :: upload_result where
  "example_failure = example_upload\<lparr>up_key := None, up_status := ''error'', up_error := Some ''extraction timeout after 60 s''\<rparr>"

definition example_store :: sync_store where
  "example_store = opened \<lparr>documents = [(''a/x'', new_row ''m'' 1 ''t'' ''k''), (''b/y'', new_row ''m'' 2 ''t'' ''k''), (''c'', new_row ''m'' 3 ''t'' ''k'')],
     partial_documents = [], extract_retries = []\<rparr>"

lemma example_store_ok: "store_ok example_store"
  by (auto simp: store_ok_def example_store_def opened_def coherent_def db_ok_def table_ok_def reason_ok_def new_row_def split: if_splits)

theorem outcome_decides_fingerprint_witness:
  "fst (record_upload_outcome example_args ''n'' ''m'' 4 example_upload None example_store) = Inr Up_Synced
   \<and> stored_fp (snd (snd (record_upload_outcome example_args ''n'' ''m'' 4 example_upload None example_store))) ''n'' = Some (''m'', 4)"
proof -
  have "fst (record_upload_outcome example_args ''n'' ''m'' 4 example_upload None example_store) = Inr Up_Synced"
    by code_simp
  moreover have "settles example_args example_upload Up_Synced" by code_simp
  ultimately show ?thesis
    using outcome_decides_fingerprint [OF example_store_ok surjective_pairing [THEN trans, OF arg_cong [where f = "Pair _", OF surjective_pairing]],
        of example_args "''n''" "''m''" 4 example_upload None]
    by simp
qed

theorem extraction_retries_end_witness:
  "fst (record_upload_outcome example_args ''n'' ''m'' 4 example_failure None example_store) = Inr Up_Retry
   \<and> fst (document_status ''n'' ''m'' 4 (after_failures example_args ''n'' ''m'' 4 example_failure 2 example_store)) = Synced"
proof -
  have f: "extraction_failure example_args example_failure" by code_simp
  have c: "get_retry_count ''n'' (store_db example_store) = 0" by code_simp
  have m: "oa_max_extract_retries example_args = 1" by code_simp
  show ?thesis
    using extraction_retries_end [OF example_store_ok f, of "''n''" 0 "''m''" 4]
      extraction_retries_end [OF example_store_ok f, of "''n''" 1 "''m''" 4]
    by (simp add: c m numeral_2_eq_2 del: after_failures.simps(2))
qed

theorem fields_reuploads_end_witness:
  "\<exists>row'. map_of (documents (store_db (after_failures (example_args\<lparr>oa_fields_reupload := True\<rparr>) ''c'' ''m'' 3 example_failure 2 example_store))) ''c'' = Some row'
     \<and> fields_digest row' = Some ''d1'' \<and> fields_outcome row' = Some ''reupload_failed:extract''"
proof -
  let ?a = "example_args\<lparr>oa_fields_reupload := True\<rparr>"
  have f: "fields_failure ?a example_failure ''d1''" by code_simp
  have r: "map_of (documents (store_db example_store)) ''c'' = Some (new_row ''m'' 3 ''t'' ''k'')" by code_simp
  have m: "fields_attempts (new_row ''m'' 3 ''t'' ''k'') + int 1 + 1 = oa_max_reuploads ?a" by code_simp
  have n: "REUPLOAD_FAILED_PREFIX @ reupload_failure_class (error_text example_failure) = ''reupload_failed:extract''" by code_simp
  show ?thesis
    using fields_reuploads_end [OF f r, of 1 "''m''" 3, unfolded n] m by (auto simp: numeral_2_eq_2 simp del: after_failures.simps)
qed

definition example_prune :: prune_args where
  "example_prune = \<lparr>pa_delete_on_remove = True, pa_scan_truncated = False, pa_scan_stopped = False, pa_paused_reason = None,
     pa_sequential = False, pa_sources_skipped = 0\<rparr>"

theorem prune_exact_witness:
  "let st' = snd (prune_after_cycle example_prune ''P'' (\<lambda>_. (True, None)) [''c''] [''b''] example_store)
   in map_of (documents (store_db st')) ''a/x'' = None \<and> map_of (documents (store_db st')) ''b/y'' \<noteq> None \<and> map_of (documents (store_db st')) ''c'' \<noteq> None"
proof -
  have c: "can_prune example_prune" by code_simp
  have g: "gone ''P'' (\<lambda>_. (True, None)) [''c''] [''b''] ''a/x''" "\<not> gone ''P'' (\<lambda>_. (True, None)) [''c''] [''b''] ''b/y''"
    "\<not> gone ''P'' (\<lambda>_. (True, None)) [''c''] [''b''] ''c''" by code_simp+
  have d: "map_of (documents (store_db example_store)) ''b/y'' \<noteq> None" "map_of (documents (store_db example_store)) ''c'' \<noteq> None" by code_simp+
  note e = prune_exact [OF example_store_ok prod.collapse [symmetric], of example_prune "''P''" "\<lambda>_. (True, None)" "[''c'']" "[''b'']"]
  show ?thesis
    using e [of "''a/x''"] e [of "''b/y''"] e [of "''c''"] by (simp add: Let_def c g d del: not_None_eq)
qed

end
