(* ===== verification/Sync_Plan.thy ===== *)
theory Sync_Plan
  imports Sync_Walk Upload_Outcome
begin

text \<open>
  Planning a cycle (\<open>sync/sync_executor.py\<close>: \<open>_classify_status\<close>, \<open>plan_sync_cycle\<close>): every file of the scan is
  classified against the store and goes to at most one of three bounded queues. The files come from \<open>Sync_Walk\<close>. The
  age of a file (clock and ISO date parsing) and the digest's hash are arguments; the settings are a record. The
  Microsoft 365 inventory and its links are left out.

  The lemmas show that the single pass computes what a description by filters says, and the bounds of the queues.
\<close>

section \<open>Status and order\<close>

definition is_within_max_document_age :: "(string \<Rightarrow> rat) \<Rightarrow> string \<Rightarrow> int \<Rightarrow> bool" where
  "is_within_max_document_age age_of mtime max_age_seconds \<longleftrightarrow> max_age_seconds < 1 \<or> age_of mtime \<le> of_int max_age_seconds"

definition classify_status ::
    "(string \<Rightarrow> rat) \<Rightarrow> fingerprint option \<Rightarrow> string \<Rightarrow> int \<Rightarrow> int option \<Rightarrow> string option \<Rightarrow> string option \<Rightarrow> doc_status" where
  "classify_status age_of stored mtime sz max_age stored_digest digest =
     (let status = status_from_fingerprint stored mtime sz
      in if status = Synced then
           (case digest of Some d \<Rightarrow> if (case stored_digest of Some s \<Rightarrow> s | None \<Rightarrow> []) \<noteq> d then Fields_Changed else status
            | None \<Rightarrow> status)
         else (case max_age of Some m \<Rightarrow> if \<not> is_within_max_document_age age_of mtime m then Excluded_Max_Age else status
               | None \<Rightarrow> status))"

text \<open>\<open>os.path.splitext(rel)[1]\<close>.\<close>

definition splitext_ext :: "string \<Rightarrow> string" where
  "splitext_ext rel =
     (let base = last (split_char (CHR ''/'') rel); stem = dropWhile (\<lambda>c. c = CHR ''.'') base
      in if CHR ''.'' \<in> set stem then CHR ''.'' # last (split_char (CHR ''.'') stem) else [])"

definition REEXTRACT_RANK :: "(string, nat) table" where
  "REEXTRACT_RANK = [(''.pdf'', 1), (''.docx'', 2), (''.eml'', 3), (''.msg'', 3)]"

definition REEXTRACT_RANK_REST :: nat where
  "REEXTRACT_RANK_REST = 4"

definition reextract_rank :: "string \<Rightarrow> string list \<Rightarrow> nat" where
  "reextract_rank rel partial_rows =
     (if rel \<in> set partial_rows then 0
      else case map_of REEXTRACT_RANK (py_lower (splitext_ext rel)) of Some n \<Rightarrow> n | None \<Rightarrow> REEXTRACT_RANK_REST)"

definition UPLOAD_ORDERS :: "string list" where
  "UPLOAD_ORDERS = [''small_first'', ''scan'']"

definition upload_order :: "string option \<Rightarrow> string" where
  "upload_order value_of =
     (let raw = py_lower (py_strip (case value_of of Some s \<Rightarrow> s | None \<Rightarrow> []))
      in if raw \<noteq> [] \<and> raw \<in> set UPLOAD_ORDERS then raw else ''small_first'')"

record upload_item =
  ui_path :: string
  ui_rel :: string
  ui_mtime :: string
  ui_size :: int
  ui_spec :: source_spec

definition ordered_upload_queue :: "upload_item list \<Rightarrow> string \<Rightarrow> upload_item list" where
  "ordered_upload_queue queue order = (if order = ''small_first'' then sort_key ui_size queue else queue)"

section \<open>The plan\<close>

record plan_settings =
  ps_mode :: string
  ps_fields_on :: bool
  ps_fields_per_cycle :: nat
  ps_max_age :: "int option"
  ps_max_upload_files :: int
  ps_reextract_per_cycle :: nat
  ps_include_documents :: bool
  ps_hash :: "config_document \<Rightarrow> string"
  ps_age_of :: "string \<Rightarrow> rat"

text \<open>What the cycle reads from the store once: the fields columns, the queued re-extractions, the partial paths.\<close>

record plan_inputs =
  pi_fields_states :: "(string, fields_state_t) table"
  pi_reextract_rows :: "(string, string option) table"
  pi_partial_rows :: "string list"

definition plan_inputs_of :: "plan_settings \<Rightarrow> sync_store \<Rightarrow> plan_inputs" where
  "plan_inputs_of ps st =
     (let db = store_db st; rows = (if ps_mode ps = ''incremental'' then load_reextract_queue db else [])
      in \<lparr>pi_fields_states = (if ps_fields_on ps then load_fields_states db else []), pi_reextract_rows = rows,
          pi_partial_rows = (if rows \<noteq> [] then list_partial_paths db else [])\<rparr>)"

record candidate_row =
  cr_rank :: nat
  cr_item :: upload_item
  cr_digest :: "string option"
  cr_sent :: bool

record plan_acc =
  pa_summary :: sync_summary
  pa_upload :: "upload_item list"
  pa_fields :: "upload_item list"
  pa_scanned :: "string list"
  pa_digests :: "(string, string) table"
  pa_sent :: "(string, bool) table"
  pa_governing :: "(string, source_spec) table"
  pa_reextract :: "candidate_row list"
  pa_collisions :: int
  pa_store :: sync_store

definition lookup_stored :: "string \<Rightarrow> sync_store \<Rightarrow> fingerprint option \<times> sync_store" where
  "lookup_stored rel st =
     (let (fps, st1) = store_load_fingerprints st;
          (stored, fps') = lookup_fingerprint (store_db st1) fps rel
      in (stored, st1\<lparr>fingerprints := Some fps'\<rparr>))"

definition count_status :: "doc_status \<Rightarrow> sync_summary \<Rightarrow> sync_summary" where
  "count_status status s0 =
     (let s = s0\<lparr>sum_total := sum_total s0 + 1\<rparr>
      in case status of
           Synced \<Rightarrow> s\<lparr>sum_synced := sum_synced s + 1\<rparr>
         | Pending \<Rightarrow> s\<lparr>sum_pending := sum_pending s + 1\<rparr>
         | Modified \<Rightarrow> s\<lparr>sum_modified := sum_modified s + 1\<rparr>
         | Fields_Changed \<Rightarrow> s\<lparr>sum_fields_changed := sum_fields_changed s + 1\<rparr>
         | Excluded_Max_Age \<Rightarrow> s\<lparr>sum_excluded_max_age := sum_excluded_max_age s + 1\<rparr>)"

text \<open>The governing configuration of a path: the first source's, with the access groups of this one.\<close>

definition govern :: "plan_settings \<Rightarrow> string \<Rightarrow> source_spec \<Rightarrow> plan_acc \<Rightarrow> source_spec \<times> string option \<times> plan_acc" where
  "govern ps rel spec0 acc =
     (if \<not> ps_fields_on ps then (spec0, None, acc)
      else case map_of (pa_governing acc) rel of
             None \<Rightarrow> (spec0, Some (config_digest (ps_hash ps) rel (Some spec0)), acc\<lparr>pa_governing := AList.update rel spec0 (pa_governing acc)\<rparr>)
           | Some first \<Rightarrow>
               (let spec = first\<lparr>spec_access_groups := spec_access_groups spec0\<rparr>
                in (spec, Some (config_digest (ps_hash ps) rel (Some spec)), acc\<lparr>pa_collisions := pa_collisions acc + 1\<rparr>)))"

definition note_queued :: "string \<Rightarrow> string option \<Rightarrow> bool \<Rightarrow> plan_acc \<Rightarrow> plan_acc" where
  "note_queued rel digest sent acc =
     (case digest of None \<Rightarrow> acc
      | Some d \<Rightarrow> acc\<lparr>pa_digests := AList.update rel d (pa_digests acc), pa_sent := AList.update rel sent (pa_sent acc)\<rparr>)"

definition queue_item :: "plan_settings \<Rightarrow> plan_inputs \<Rightarrow> upload_item \<Rightarrow> doc_status \<Rightarrow> string option \<Rightarrow> bool \<Rightarrow> plan_acc \<Rightarrow> plan_acc" where
  "queue_item ps inp item status digest sent acc =
     (let incremental = (ps_mode ps = ''incremental''); rel = ui_rel item
      in if needs_upload status (ps_mode ps) then
           (if incremental \<and> status = Fields_Changed then
              (if length (pa_fields acc) < ps_fields_per_cycle ps
               then note_queued rel digest sent (acc\<lparr>pa_fields := pa_fields acc @ [item]\<rparr>) else acc)
            else if ps_max_upload_files ps \<le> 0 \<or> int (length (pa_upload acc)) < ps_max_upload_files ps
            then note_queued rel digest sent (acc\<lparr>pa_upload := pa_upload acc @ [item]\<rparr>) else acc)
         else if status = Synced \<and> map_of (pi_reextract_rows inp) rel \<noteq> None \<and> rel \<notin> set (map (ui_rel \<circ> cr_item) (pa_reextract acc))
         then acc\<lparr>pa_reextract := pa_reextract acc @ [\<lparr>cr_rank = reextract_rank rel (pi_partial_rows inp), cr_item = item, cr_digest = digest, cr_sent = sent\<rparr>]\<rparr>
         else acc)"

definition plan_file :: "plan_settings \<Rightarrow> plan_inputs \<Rightarrow> file_item \<times> source_spec \<Rightarrow> plan_acc \<Rightarrow> plan_acc" where
  "plan_file ps inp = (\<lambda>((path, rel, mtime, sz), spec0) acc0.
     let acc1 = acc0\<lparr>pa_scanned := List.insert rel (pa_scanned acc0)\<rparr>;
         (spec, digest, acc2) = govern ps rel spec0 acc1;
         (stored, st) = lookup_stored rel (pa_store acc2);
         fstate = map_of (pi_fields_states inp) rel;
         status = classify_status (ps_age_of ps) stored mtime sz (ps_max_age ps) (Option.bind fstate fs_digest) digest;
         summary = count_status status (pa_summary acc2);
         summary' = (if ps_include_documents ps
                     then summary\<lparr>sum_documents := sum_documents summary @ [\<lparr>rec_path = rel, rec_mtime = mtime, rec_size = sz, rec_status = status\<rparr>]\<rparr>
                     else summary)
     in queue_item ps inp \<lparr>ui_path = path, ui_rel = rel, ui_mtime = mtime, ui_size = sz, ui_spec = spec\<rparr> status digest
          (case fstate of Some s \<Rightarrow> fs_sent s | None \<Rightarrow> False) (acc2\<lparr>pa_store := st, pa_summary := summary'\<rparr>))"

record scan_plan =
  sp_summary :: sync_summary
  sp_upload_queue :: "upload_item list"
  sp_fields_queue :: "upload_item list"
  sp_reextract_queue :: "upload_item list"
  sp_scanned :: "string list"
  sp_digests :: "(string, string) table"
  sp_sent :: "(string, bool) table"
  sp_collisions :: int
  sp_text_sha :: "(string, string option) table"
  sp_reextract_reached :: int

definition new_acc :: "sync_store \<Rightarrow> plan_acc" where
  "new_acc st = \<lparr>pa_summary = empty_summary, pa_upload = [], pa_fields = [], pa_scanned = [], pa_digests = [], pa_sent = [], pa_governing = [],
     pa_reextract = [], pa_collisions = 0, pa_store = st\<rparr>"

text \<open>\<open>heapq.nsmallest\<close> on pairs of a rank and a running number: the first rows in a stable order by rank.\<close>

definition chosen_reextracts :: "plan_settings \<Rightarrow> plan_acc \<Rightarrow> candidate_row list" where
  "chosen_reextracts ps acc = take (ps_reextract_per_cycle ps) (sort_key cr_rank (pa_reextract acc))"

definition trim_queue :: "int \<Rightarrow> int \<Rightarrow> 'a list \<Rightarrow> 'a list" where
  "trim_queue max_files used xs = (if max_files > 0 then take (nat (max 0 (max_files - used))) xs else xs)"

definition plan_finish :: "plan_settings \<Rightarrow> plan_inputs \<Rightarrow> plan_acc \<Rightarrow> scan_plan" where
  "plan_finish ps inp acc0 =
     (let rows = chosen_reextracts ps acc0;
          acc = fold (\<lambda>r. note_queued (ui_rel (cr_item r)) (cr_digest r) (cr_sent r)) rows acc0;
          m = ps_max_upload_files ps;
          flds = trim_queue m (int (length (pa_upload acc))) (pa_fields acc);
          re = trim_queue m (int (length (pa_upload acc)) + int (length flds)) (map cr_item rows)
      in \<lparr>sp_summary = pa_summary acc, sp_upload_queue = pa_upload acc, sp_fields_queue = flds, sp_reextract_queue = re,
          sp_scanned = pa_scanned acc, sp_digests = pa_digests acc, sp_sent = pa_sent acc, sp_collisions = pa_collisions acc,
          sp_text_sha = map (\<lambda>r. (ui_rel (cr_item r), Option.bind (map_of (pi_reextract_rows inp) (ui_rel (cr_item r))) (\<lambda>x. x))) rows,
          sp_reextract_reached = int (length (pa_reextract acc0))\<rparr>)"

definition plan_files :: "plan_settings \<Rightarrow> (file_item \<times> source_spec) list \<Rightarrow> sync_store \<Rightarrow> scan_plan \<times> sync_store" where
  "plan_files ps files st =
     (let (fps, st1) = store_load_fingerprints st;
          inp = plan_inputs_of ps st1;
          acc = fold (plan_file ps inp) files (new_acc st1)
      in (plan_finish ps inp acc, pa_store acc))"

section \<open>A description by filters\<close>

definition spec_of :: "(file_item \<times> source_spec) list \<Rightarrow> string \<Rightarrow> source_spec option" where
  "spec_of files rel = map_of (map (\<lambda>((path, r, mtime, sz), sp). (r, sp)) files) rel"

definition plan_digest :: "plan_settings \<Rightarrow> (file_item \<times> source_spec) list \<Rightarrow> string \<Rightarrow> string option" where
  "plan_digest ps files rel = (if ps_fields_on ps then Some (config_digest (ps_hash ps) rel (spec_of files rel)) else None)"

definition plan_status :: "plan_settings \<Rightarrow> plan_inputs \<Rightarrow> sync_db \<Rightarrow> (file_item \<times> source_spec) list \<Rightarrow> file_item \<times> source_spec \<Rightarrow> doc_status" where
  "plan_status ps inp db files = (\<lambda>((path, rel, mtime, sz), sp).
     classify_status (ps_age_of ps) (fp_of db rel) mtime sz (ps_max_age ps) (Option.bind (map_of (pi_fields_states inp) rel) fs_digest)
       (plan_digest ps files rel))"

definition plan_item :: "plan_settings \<Rightarrow> (file_item \<times> source_spec) list \<Rightarrow> file_item \<times> source_spec \<Rightarrow> upload_item" where
  "plan_item ps files = (\<lambda>((path, rel, mtime, sz), sp).
     \<lparr>ui_path = path, ui_rel = rel, ui_mtime = mtime, ui_size = sz,
      ui_spec = (if ps_fields_on ps then (the (spec_of files rel))\<lparr>spec_access_groups := spec_access_groups sp\<rparr> else sp)\<rparr>)"

definition file_rel :: "file_item \<times> source_spec \<Rightarrow> string" where
  "file_rel c = fst (snd (fst c))"

definition fields_work :: "plan_settings \<Rightarrow> doc_status \<Rightarrow> bool" where
  "fields_work ps s \<longleftrightarrow> ps_mode ps = ''incremental'' \<and> s = Fields_Changed"

definition primary_work :: "plan_settings \<Rightarrow> doc_status \<Rightarrow> bool" where
  "primary_work ps s \<longleftrightarrow> needs_upload s (ps_mode ps) \<and> \<not> fields_work ps s"

definition reextract_work :: "plan_settings \<Rightarrow> plan_inputs \<Rightarrow> doc_status \<Rightarrow> string \<Rightarrow> bool" where
  "reextract_work ps inp s rel \<longleftrightarrow> \<not> needs_upload s (ps_mode ps) \<and> s = Synced \<and> map_of (pi_reextract_rows inp) rel \<noteq> None"

definition cut :: "int \<Rightarrow> 'a list \<Rightarrow> 'a list" where
  "cut m xs = (if m \<le> 0 then xs else take (nat m) xs)"

lemma spec_of_simps:
  "spec_of (files @ [c]) r = (case spec_of files r of Some s \<Rightarrow> Some s | None \<Rightarrow> if r = file_rel c then Some (snd c) else None)"
  "c \<in> set files \<Longrightarrow> spec_of files (file_rel c) \<noteq> None"
proof -
  show "spec_of (files @ [c]) r = (case spec_of files r of Some s \<Rightarrow> Some s | None \<Rightarrow> if r = file_rel c then Some (snd c) else None)"
    by (cases c) (auto simp: spec_of_def file_rel_def map_add_def split: option.split)
  show "c \<in> set files \<Longrightarrow> spec_of files (file_rel c) \<noteq> None"
    by (induction files) (auto simp: spec_of_def file_rel_def)
qed

lemma plan_stable:
  assumes "c \<in> set files"
  shows "plan_status ps inp db (files @ [x]) c = plan_status ps inp db files c" and "plan_item ps (files @ [x]) c = plan_item ps files c"
proof -
  have "spec_of (files @ [x]) (file_rel c) = spec_of files (file_rel c)"
    using spec_of_simps(2) [OF assms] by (auto simp: spec_of_simps(1))
  then show "plan_status ps inp db (files @ [x]) c = plan_status ps inp db files c" "plan_item ps (files @ [x]) c = plan_item ps files c"
    by (auto simp: plan_status_def plan_digest_def plan_item_def file_rel_def split_def)
qed

lemma digest_groups: "config_digest h rel (Some (s\<lparr>spec_access_groups := g\<rparr>)) = config_digest h rel (Some s)"
  by (simp add: config_digest_def)

lemma lookup_stored_ok:
  assumes "store_ok st"
  shows "fst (lookup_stored rel st) = fp_of (store_db st) rel" and "store_ok (snd (lookup_stored rel st))"
    and "store_db (snd (lookup_stored rel st)) = store_db st"
proof -
  obtain fps st1 where l: "store_load_fingerprints st = (fps, st1)" by fastforce
  note ok = store_load_ok [OF assms l]
  show "fst (lookup_stored rel st) = fp_of (store_db st) rel"
    using fc.answer [OF ok(4)] by (simp add: lookup_stored_def l ok(2) split_def Let_def)
  show "store_db (snd (lookup_stored rel st)) = store_db st"
    by (simp add: lookup_stored_def l ok(2) split_def Let_def)
  show "store_ok (snd (lookup_stored rel st))"
    using ok(1,4) fc.keeps by (simp add: lookup_stored_def l ok(2) split_def Let_def store_ok_def coherent_def)
qed

lemma note_queued_frame [simp]:
  "pa_upload (note_queued r d s acc) = pa_upload acc" "pa_fields (note_queued r d s acc) = pa_fields acc"
  "pa_reextract (note_queued r d s acc) = pa_reextract acc" "pa_store (note_queued r d s acc) = pa_store acc"
  "pa_summary (note_queued r d s acc) = pa_summary acc" "pa_scanned (note_queued r d s acc) = pa_scanned acc"
  "pa_governing (note_queued r d s acc) = pa_governing acc" "pa_collisions (note_queued r d s acc) = pa_collisions acc"
  by (simp_all add: note_queued_def split: option.split)

lemma queue_item_frame [simp]:
  "pa_store (queue_item ps inp i s d b acc) = pa_store acc" "pa_summary (queue_item ps inp i s d b acc) = pa_summary acc"
  "pa_scanned (queue_item ps inp i s d b acc) = pa_scanned acc" "pa_governing (queue_item ps inp i s d b acc) = pa_governing acc"
  by (simp_all add: queue_item_def Let_def)

lemma queue_item_queues:
  "pa_upload (queue_item ps inp i s d b acc) =
     (if primary_work ps s \<and> (ps_max_upload_files ps \<le> 0 \<or> int (length (pa_upload acc)) < ps_max_upload_files ps)
      then pa_upload acc @ [i] else pa_upload acc)"
  "pa_fields (queue_item ps inp i s d b acc) =
     (if fields_work ps s \<and> length (pa_fields acc) < ps_fields_per_cycle ps then pa_fields acc @ [i] else pa_fields acc)"
  "map cr_item (pa_reextract (queue_item ps inp i s d b acc)) =
     (if reextract_work ps inp s (ui_rel i) \<and> ui_rel i \<notin> set (map (ui_rel \<circ> cr_item) (pa_reextract acc))
      then map cr_item (pa_reextract acc) @ [i] else map cr_item (pa_reextract acc))"
  by (auto simp: queue_item_def Let_def primary_work_def fields_work_def reextract_work_def needs_upload_def)

lemma govern_step:
  assumes "govern ps rel sp acc = (spec, digest, acc2)" and "c = ((path, rel, mtime, sz), sp)"
    and "ps_fields_on ps \<Longrightarrow> map_of (pa_governing acc) = spec_of files"
  shows "spec = ui_spec (plan_item ps (files @ [c]) c) \<and> digest = plan_digest ps (files @ [c]) rel
    \<and> (ps_fields_on ps \<longrightarrow> map_of (pa_governing acc2) = spec_of (files @ [c])) \<and> acc2 = acc\<lparr>pa_governing := pa_governing acc2, pa_collisions := pa_collisions acc2\<rparr>"
proof (cases "ps_fields_on ps")
  case False
  then show ?thesis
    using assms(1,2) by (auto simp: govern_def plan_item_def plan_digest_def)
next
  case True
  have sp: "spec_of (files @ [((path, rel, mtime, sz), s)]) r = (if spec_of files r = None \<and> r = rel then Some s else spec_of files r)" for r s
    by (auto simp: spec_of_simps(1) file_rel_def split: option.splits)
  show ?thesis
  proof (cases "spec_of files rel")
    case None
    then show ?thesis using True assms(1) assms(3) [OF True]
      by (auto simp: govern_def plan_item_def plan_digest_def sp assms(2) at.lookup_put fun_eq_iff)
  next
    case (Some first)
    then show ?thesis using True assms(1) assms(3) [OF True]
      by (auto simp: govern_def plan_item_def plan_digest_def sp assms(2) digest_groups Let_def fun_eq_iff)
  qed
qed

text \<open>One file in terms of the description.\<close>

lemma plan_file_step:
  assumes "store_ok (pa_store acc)" and "store_db (pa_store acc) = db"
    and "ps_fields_on ps \<longrightarrow> map_of (pa_governing acc) = spec_of files"
  shows "\<exists>d b acc2. plan_file ps inp c acc = queue_item ps inp (plan_item ps (files @ [c]) c) (plan_status ps inp db (files @ [c]) c) d b acc2
    \<and> pa_upload acc2 = pa_upload acc \<and> pa_fields acc2 = pa_fields acc \<and> pa_reextract acc2 = pa_reextract acc
    \<and> store_ok (pa_store acc2) \<and> store_db (pa_store acc2) = db
    \<and> (ps_fields_on ps \<longrightarrow> map_of (pa_governing acc2) = spec_of (files @ [c]))
    \<and> set (pa_scanned acc2) = insert (file_rel c) (set (pa_scanned acc))
    \<and> pa_summary acc2 = (let s = count_status (plan_status ps inp db (files @ [c]) c) (pa_summary acc)
         in if ps_include_documents ps then s\<lparr>sum_documents := sum_documents s @
              [\<lparr>rec_path = file_rel c, rec_mtime = fst (snd (snd (fst c))), rec_size = snd (snd (snd (fst c))), rec_status = plan_status ps inp db (files @ [c]) c\<rparr>]\<rparr> else s)"
proof -
  obtain path rel mtime sz sp where c: "c = ((path, rel, mtime, sz), sp)" by (cases c) auto
  let ?acc1 = "acc\<lparr>pa_scanned := List.insert rel (pa_scanned acc)\<rparr>"
  obtain spec digest acc2 where g: "govern ps rel sp ?acc1 = (spec, digest, acc2)" by (metis prod_cases3)
  have pre: "ps_fields_on ps \<Longrightarrow> map_of (pa_governing ?acc1) = spec_of files" using assms(3) by simp
  have gov: "spec = ui_spec (plan_item ps (files @ [c]) c)" "digest = plan_digest ps (files @ [c]) rel"
    "ps_fields_on ps \<longrightarrow> map_of (pa_governing acc2) = spec_of (files @ [c])" "acc2 = ?acc1\<lparr>pa_governing := pa_governing acc2, pa_collisions := pa_collisions acc2\<rparr>"
    using govern_step [OF g c pre] by blast+
  have fr: "pa_store acc2 = pa_store acc" "pa_upload acc2 = pa_upload acc" "pa_fields acc2 = pa_fields acc" "pa_reextract acc2 = pa_reextract acc"
    "pa_summary acc2 = pa_summary acc" "pa_scanned acc2 = List.insert rel (pa_scanned acc)"
    by (subst gov(4); simp)+
  obtain stored st where l: "lookup_stored rel (pa_store acc) = (stored, st)" by fastforce
  have st: "stored = fp_of db rel" "store_ok st" "store_db st = db" using lookup_stored_ok [OF assms(1), of rel] assms(2) l by auto
  have stat: "classify_status (ps_age_of ps) stored mtime sz (ps_max_age ps) (Option.bind (map_of (pi_fields_states inp) rel) fs_digest) digest
     = plan_status ps inp db (files @ [c]) c"
    by (simp add: plan_status_def c st(1) gov(2))
  have item: "\<lparr>ui_path = path, ui_rel = rel, ui_mtime = mtime, ui_size = sz, ui_spec = spec\<rparr> = plan_item ps (files @ [c]) c"
    using gov(1) by (simp add: plan_item_def c)
  show ?thesis
    unfolding plan_file_def c prod.case Let_def g l fr(1) unfolding stat [unfolded c] item [unfolded c]
    by (intro exI conjI, rule refl) (use fr st gov(3) in \<open>auto simp: file_rel_def c Let_def\<close>)
qed

text \<open>The files of one kind of work, in scan order.\<close>

definition work :: "plan_settings \<Rightarrow> plan_inputs \<Rightarrow> sync_db \<Rightarrow> (doc_status \<Rightarrow> bool) \<Rightarrow> (file_item \<times> source_spec) list \<Rightarrow> upload_item list" where
  "work ps inp db P files = map (plan_item ps files) (filter (\<lambda>c. P (plan_status ps inp db files c)) files)"

lemma work_snoc:
  "work ps inp db P (files @ [c]) =
     (if P (plan_status ps inp db (files @ [c]) c) then work ps inp db P files @ [plan_item ps (files @ [c]) c] else work ps inp db P files)"
proof -
  have "filter (\<lambda>x. P (plan_status ps inp db (files @ [c]) x)) files = filter (\<lambda>x. P (plan_status ps inp db files x)) files"
    by (rule filter_cong) (simp_all add: plan_stable(1))
  moreover have "map (plan_item ps (files @ [c])) (filter Q files) = map (plan_item ps files) (filter Q files)" for Q
    by (rule map_cong) (simp_all add: plan_stable(2))
  ultimately show ?thesis by (simp add: work_def)
qed

lemma cut_snoc: "cut m (xs @ [x]) = (if m \<le> 0 \<or> int (length (cut m xs)) < m then cut m xs @ [x] else cut m xs)"
  by (auto simp: cut_def)

lemma take_snoc: "take n (xs @ [x]) = (if length (take n xs) < n then take n xs @ [x] else take n xs)"
  by auto

definition statuses :: "plan_settings \<Rightarrow> plan_inputs \<Rightarrow> sync_db \<Rightarrow> (file_item \<times> source_spec) list \<Rightarrow> doc_status list" where
  "statuses ps inp db files = map (plan_status ps inp db files) files"

lemma statuses_snoc: "statuses ps inp db (files @ [c]) = statuses ps inp db files @ [plan_status ps inp db (files @ [c]) c]"
  by (simp add: statuses_def plan_stable(1))

definition plan_inv :: "plan_settings \<Rightarrow> plan_inputs \<Rightarrow> sync_db \<Rightarrow> (file_item \<times> source_spec) list \<Rightarrow> plan_acc \<Rightarrow> bool" where
  "plan_inv ps inp db files acc \<longleftrightarrow>
     store_ok (pa_store acc) \<and> store_db (pa_store acc) = db \<and> (ps_fields_on ps \<longrightarrow> map_of (pa_governing acc) = spec_of files)
     \<and> pa_upload acc = cut (ps_max_upload_files ps) (work ps inp db (primary_work ps) files)
     \<and> pa_fields acc = take (ps_fields_per_cycle ps) (work ps inp db (fields_work ps) files)
     \<and> set (pa_scanned acc) = file_rel ` set files
     \<and> (pa_summary acc)\<lparr>sum_documents := []\<rparr> = fold count_status (statuses ps inp db files) empty_summary"

definition reextract_inv :: "plan_settings \<Rightarrow> plan_inputs \<Rightarrow> sync_db \<Rightarrow> (file_item \<times> source_spec) list \<Rightarrow> plan_acc \<Rightarrow> bool" where
  "reextract_inv ps inp db files acc \<longleftrightarrow>
     distinct (map (ui_rel \<circ> cr_item) (pa_reextract acc))
     \<and> cr_item ` set (pa_reextract acc) \<subseteq> plan_item ps files ` {c \<in> set files. reextract_work ps inp (plan_status ps inp db files c) (file_rel c)}
     \<and> set (map (ui_rel \<circ> cr_item) (pa_reextract acc)) =
         file_rel ` {c \<in> set files. reextract_work ps inp (plan_status ps inp db files c) (file_rel c)}"

lemma plan_item_rel [simp]: "ui_rel (plan_item ps files c) = file_rel c"
  by (simp add: plan_item_def file_rel_def split_def)

lemma count_status_documents: "(count_status s (x\<lparr>sum_documents := d\<rparr>)) = (count_status s x)\<lparr>sum_documents := d\<rparr>"
  by (cases s) (simp_all add: count_status_def)

lemma count_status_upd: "(count_status s x)\<lparr>sum_documents := []\<rparr> = count_status s (x\<lparr>sum_documents := []\<rparr>)"
  by (simp add: count_status_documents)

lemma plan_inv_step:
  assumes "plan_inv ps inp db files acc"
  shows "plan_inv ps inp db (files @ [c]) (plan_file ps inp c acc)"
proof -
  have ok: "store_ok (pa_store acc)" "store_db (pa_store acc) = db" "ps_fields_on ps \<longrightarrow> map_of (pa_governing acc) = spec_of files"
    using assms by (auto simp: plan_inv_def)
  obtain d b acc2 where e: "plan_file ps inp c acc = queue_item ps inp (plan_item ps (files @ [c]) c) (plan_status ps inp db (files @ [c]) c) d b acc2"
    and q: "pa_upload acc2 = pa_upload acc" "pa_fields acc2 = pa_fields acc" and s: "store_ok (pa_store acc2)" "store_db (pa_store acc2) = db"
    and g: "ps_fields_on ps \<longrightarrow> map_of (pa_governing acc2) = spec_of (files @ [c])"
    and sc: "set (pa_scanned acc2) = insert (file_rel c) (set (pa_scanned acc))"
    and sm: "pa_summary acc2 = (let s = count_status (plan_status ps inp db (files @ [c]) c) (pa_summary acc)
         in if ps_include_documents ps then s\<lparr>sum_documents := sum_documents s @
              [\<lparr>rec_path = file_rel c, rec_mtime = fst (snd (snd (fst c))), rec_size = snd (snd (snd (fst c))), rec_status = plan_status ps inp db (files @ [c]) c\<rparr>]\<rparr> else s)"
    using plan_file_step [where ps = ps and inp = inp and c = c, OF ok] by (elim exE conjE) (rule that)
  have "(pa_summary acc2)\<lparr>sum_documents := []\<rparr> = count_status (plan_status ps inp db (files @ [c]) c) ((pa_summary acc)\<lparr>sum_documents := []\<rparr>)"
    by (simp add: sm Let_def count_status_documents)
  with assms q s g sc show ?thesis
    by (auto simp: plan_inv_def e queue_item_queues work_snoc cut_snoc take_snoc statuses_snoc)
qed

lemma reextract_inv_step:
  assumes "plan_inv ps inp db files acc" and "reextract_inv ps inp db files acc"
  shows "reextract_inv ps inp db (files @ [c]) (plan_file ps inp c acc)"
proof -
  have ok: "store_ok (pa_store acc)" "store_db (pa_store acc) = db" "ps_fields_on ps \<longrightarrow> map_of (pa_governing acc) = spec_of files"
    using assms(1) by (auto simp: plan_inv_def)
  let ?s = "plan_status ps inp db (files @ [c]) c"
  obtain d b acc2 where e: "plan_file ps inp c acc = queue_item ps inp (plan_item ps (files @ [c]) c) ?s d b acc2"
    and q: "pa_reextract acc2 = pa_reextract acc"
    using plan_file_step [where ps = ps and inp = inp and c = c, OF ok] by (elim exE conjE) (rule that)
  have same: "{x \<in> set files. reextract_work ps inp (plan_status ps inp db (files @ [c]) x) (file_rel x)}
      = {x \<in> set files. reextract_work ps inp (plan_status ps inp db files x) (file_rel x)}"
    by (auto simp: plan_stable(1))
  have "{x \<in> set (files @ [c]). reextract_work ps inp (plan_status ps inp db (files @ [c]) x) (file_rel x)}
      = {x \<in> set files. reextract_work ps inp (plan_status ps inp db files x) (file_rel x)} \<union> (if reextract_work ps inp ?s (file_rel c) then {c} else {})"
    by (subst same [symmetric]) auto
  moreover have "map (ui_rel \<circ> cr_item) (pa_reextract (plan_file ps inp c acc)) =
      (if reextract_work ps inp ?s (file_rel c) \<and> file_rel c \<notin> set (map (ui_rel \<circ> cr_item) (pa_reextract acc))
       then map (ui_rel \<circ> cr_item) (pa_reextract acc) @ [file_rel c] else map (ui_rel \<circ> cr_item) (pa_reextract acc))"
    using arg_cong [OF queue_item_queues(3) [of ps inp "plan_item ps (files @ [c]) c" ?s d b acc2], of "map ui_rel"]
    by (simp add: e q split: if_splits)
  moreover have "cr_item ` set (pa_reextract (plan_file ps inp c acc)) \<subseteq>
      plan_item ps (files @ [c]) ` {x \<in> set (files @ [c]). reextract_work ps inp (plan_status ps inp db (files @ [c]) x) (file_rel x)}"
  proof -
    have "set (map cr_item (pa_reextract (plan_file ps inp c acc))) \<subseteq> cr_item ` set (pa_reextract acc)
        \<union> (if reextract_work ps inp ?s (file_rel c) then {plan_item ps (files @ [c]) c} else {})"
      unfolding e queue_item_queues(3) by (auto simp: q)
    moreover have "plan_item ps files ` {x \<in> set files. reextract_work ps inp (plan_status ps inp db files x) (file_rel x)}
        = plan_item ps (files @ [c]) ` {x \<in> set files. reextract_work ps inp (plan_status ps inp db (files @ [c]) x) (file_rel x)}"
      unfolding same by (rule image_cong) (auto simp: plan_stable(2))
    moreover have "cr_item ` set (pa_reextract acc) \<subseteq> plan_item ps files ` {x \<in> set files. reextract_work ps inp (plan_status ps inp db files x) (file_rel x)}"
      using assms(2) unfolding reextract_inv_def by blast
    ultimately have "set (map cr_item (pa_reextract (plan_file ps inp c acc))) \<subseteq>
        plan_item ps (files @ [c]) ` ({x \<in> set files. reextract_work ps inp (plan_status ps inp db (files @ [c]) x) (file_rel x)}
          \<union> (if reextract_work ps inp ?s (file_rel c) then {c} else {}))"
      by (cases "reextract_work ps inp ?s (file_rel c)") (simp_all add: image_Un, blast+)
    also have "\<dots> \<subseteq> plan_item ps (files @ [c]) ` {x \<in> set (files @ [c]). reextract_work ps inp (plan_status ps inp db (files @ [c]) x) (file_rel x)}"
      by (rule image_mono) auto
    finally show ?thesis by simp
  qed
  ultimately show ?thesis using assms(2) unfolding reextract_inv_def by (auto split: if_splits)
qed

lemma plan_inv_fold:
  assumes "store_ok st"
  shows "plan_inv ps inp (store_db st) files (fold (plan_file ps inp) files (new_acc st))
    \<and> reextract_inv ps inp (store_db st) files (fold (plan_file ps inp) files (new_acc st))"
proof (induction files rule: rev_induct)
  case Nil
  then show ?case using assms
    by (auto simp: plan_inv_def reextract_inv_def new_acc_def spec_of_def work_def cut_def statuses_def empty_summary_def fun_eq_iff)
next
  case (snoc c files)
  then show ?case using plan_inv_step reextract_inv_step by simp
qed

section \<open>What a plan holds\<close>

lemma note_queued_fold [simp]:
  "pa_upload (fold (\<lambda>r. note_queued (f r) (g r) (h r)) rows acc) = pa_upload acc"
  "pa_fields (fold (\<lambda>r. note_queued (f r) (g r) (h r)) rows acc) = pa_fields acc"
  "pa_summary (fold (\<lambda>r. note_queued (f r) (g r) (h r)) rows acc) = pa_summary acc"
  "pa_scanned (fold (\<lambda>r. note_queued (f r) (g r) (h r)) rows acc) = pa_scanned acc"
  by (induction rows arbitrary: acc) simp_all

lemma plan_finish_queues:
  "sp_upload_queue (plan_finish ps inp acc) = pa_upload acc"
  "sp_fields_queue (plan_finish ps inp acc) = trim_queue (ps_max_upload_files ps) (int (length (pa_upload acc))) (pa_fields acc)"
  "sp_reextract_queue (plan_finish ps inp acc) = trim_queue (ps_max_upload_files ps)
     (int (length (pa_upload acc)) + int (length (sp_fields_queue (plan_finish ps inp acc)))) (map cr_item (chosen_reextracts ps acc))"
  "sp_summary (plan_finish ps inp acc) = pa_summary acc" "sp_scanned (plan_finish ps inp acc) = pa_scanned acc"
  by (simp_all add: plan_finish_def Let_def)

lemma plan_files_parts:
  assumes "store_ok st" and "plan_files ps files st = (plan, st')"
  obtains acc where "plan_inv ps (plan_inputs_of ps st) (store_db st) files acc" "reextract_inv ps (plan_inputs_of ps st) (store_db st) files acc"
    "plan = plan_finish ps (plan_inputs_of ps st) acc" "st' = pa_store acc"
proof -
  obtain fps st1 where l: "store_load_fingerprints st = (fps, st1)" by fastforce
  note ok = store_load_ok [OF assms(1) l]
  have inp: "plan_inputs_of ps st1 = plan_inputs_of ps st" by (simp add: plan_inputs_of_def ok(2))
  show ?thesis
    using that plan_inv_fold [OF ok(1), of ps "plan_inputs_of ps st" files] assms(2) by (auto simp: plan_files_def l inp ok(2) Let_def)
qed

lemma count_statuses:
  "sum_total (fold count_status xs s) = sum_total s + int (length xs)"
  "sum_synced (fold count_status xs s) = sum_synced s + int (count_list xs Synced)"
  "sum_pending (fold count_status xs s) = sum_pending s + int (count_list xs Pending)"
  "sum_modified (fold count_status xs s) = sum_modified s + int (count_list xs Modified)"
  "sum_fields_changed (fold count_status xs s) = sum_fields_changed s + int (count_list xs Fields_Changed)"
  "sum_excluded_max_age (fold count_status xs s) = sum_excluded_max_age s + int (count_list xs Excluded_Max_Age)"
  by (induction xs arbitrary: s) (auto simp: count_status_def Let_def split: doc_status.splits)

lemma plan_counts:
  assumes "plan_inv ps inp db files acc"
  defines "ss \<equiv> statuses ps inp db files"
  shows "sum_total (pa_summary acc) = int (length files)" and "sum_pending (pa_summary acc) = int (count_list ss Pending)"
    and "sum_modified (pa_summary acc) = int (count_list ss Modified)" and "sum_synced (pa_summary acc) = int (count_list ss Synced)"
    and "sum_fields_changed (pa_summary acc) = int (count_list ss Fields_Changed)"
    and "sum_excluded_max_age (pa_summary acc) = int (count_list ss Excluded_Max_Age)"
proof -
  have "(pa_summary acc)\<lparr>sum_documents := []\<rparr> = fold count_status ss empty_summary" using assms by (simp add: plan_inv_def)
  then have "f ((pa_summary acc)\<lparr>sum_documents := []\<rparr>) = f (fold count_status ss empty_summary)" for f :: "sync_summary \<Rightarrow> int" by simp
  note c = this [of sum_total] this [of sum_pending] this [of sum_modified] this [of sum_synced] this [of sum_fields_changed] this [of sum_excluded_max_age]
  have "length ss = length files" by (simp add: ss_def statuses_def)
  then show "sum_total (pa_summary acc) = int (length files)" "sum_pending (pa_summary acc) = int (count_list ss Pending)"
    "sum_modified (pa_summary acc) = int (count_list ss Modified)" "sum_synced (pa_summary acc) = int (count_list ss Synced)"
    "sum_fields_changed (pa_summary acc) = int (count_list ss Fields_Changed)" "sum_excluded_max_age (pa_summary acc) = int (count_list ss Excluded_Max_Age)"
    using c by (simp_all add: count_statuses empty_summary_def)
qed

text \<open>
  (C4) One pass over the scanned files with its growing tables computes what the description by filters says: the
  upload queue is the first \<open>max_upload_files\<close> of the files whose status asks for an upload, the fields queue the first
  of those whose configuration digest alone changed, as many as the file cap leaves. A status depends only on the stored
  rows, not on how far the pass has come, and the counts are those of the statuses. Planning writes nothing.
\<close>

theorem plan_by_filters:
  assumes "store_ok st" and "plan_files ps files st = (plan, st')"
  shows "let inp = plan_inputs_of ps st; db = store_db st; ss = statuses ps inp db files
    in sp_upload_queue plan = cut (ps_max_upload_files ps) (work ps inp db (primary_work ps) files)
    \<and> sp_fields_queue plan = trim_queue (ps_max_upload_files ps) (int (length (sp_upload_queue plan)))
          (take (ps_fields_per_cycle ps) (work ps inp db (fields_work ps) files))
    \<and> set (sp_scanned plan) = file_rel ` set files
    \<and> sum_total (sp_summary plan) = int (length files)
    \<and> sum_pending (sp_summary plan) = int (count_list ss Pending) \<and> sum_modified (sp_summary plan) = int (count_list ss Modified)
    \<and> sum_synced (sp_summary plan) = int (count_list ss Synced) \<and> sum_fields_changed (sp_summary plan) = int (count_list ss Fields_Changed)
    \<and> sum_excluded_max_age (sp_summary plan) = int (count_list ss Excluded_Max_Age)
    \<and> store_ok st' \<and> store_db st' = db"
proof -
  obtain acc where i: "plan_inv ps (plan_inputs_of ps st) (store_db st) files acc"
    and p: "plan = plan_finish ps (plan_inputs_of ps st) acc" "st' = pa_store acc" by (rule plan_files_parts [OF assms(1,2)])
  then show ?thesis using plan_counts [OF i] unfolding Let_def by (simp add: plan_inv_def p plan_finish_queues)
qed

lemma trim_length: "m > 0 \<Longrightarrow> u \<le> m \<Longrightarrow> u + int (length (trim_queue m u xs)) \<le> m" "length (trim_queue m u xs) \<le> length xs" "set (trim_queue m u xs) \<subseteq> set xs"
  "distinct (map f xs) \<Longrightarrow> distinct (map f (trim_queue m u xs))"
  by (auto simp: trim_queue_def take_map [symmetric] dest: in_set_takeD)

lemma distinct_take_sort: "distinct (map f xs) \<Longrightarrow> distinct (map f (take k (sort_key g xs)))"
proof -
  assume "distinct (map f xs)"
  moreover have "mset (map f (sort_key g xs)) = mset (map f xs)" by simp
  ultimately have "distinct (map f (sort_key g xs))" using mset_eq_imp_distinct_iff by blast
  then show ?thesis by (simp add: take_map [symmetric])
qed

lemma chosen_least:
  assumes "r \<in> set (chosen_reextracts ps acc)" and "s \<in> set (pa_reextract acc)" and "s \<notin> set (chosen_reextracts ps acc)"
  shows "cr_rank r \<le> cr_rank s"
proof -
  let ?k = "ps_reextract_per_cycle ps" and ?xs = "sort_key cr_rank (pa_reextract acc)"
  have "sorted (map cr_rank (take ?k ?xs) @ map cr_rank (drop ?k ?xs))"
    using sorted_sort_key [of cr_rank "pa_reextract acc"] by (metis append_take_drop_id map_append)
  moreover have "s \<in> set (drop ?k ?xs)"
    using assms(2,3) unfolding chosen_reextracts_def by (metis Un_iff append_take_drop_id set_append set_sort)
  ultimately show ?thesis using assms(1) by (auto simp: sorted_append chosen_reextracts_def)
qed

text \<open>
  (C5) The bounds of a cycle's work: with a positive file cap the three queues together hold at most that many files,
  re-uploads of changed fields and re-extractions keep to their own caps as well, no path is re-extracted twice, and
  every re-extraction is of a scanned file that is synced and that an administrator queued.
\<close>

theorem plan_within_caps:
  assumes "store_ok st" and "plan_files ps files st = (plan, st')"
  shows "(ps_max_upload_files ps > 0 \<longrightarrow>
      int (length (sp_upload_queue plan) + length (sp_fields_queue plan) + length (sp_reextract_queue plan)) \<le> ps_max_upload_files ps)
    \<and> length (sp_fields_queue plan) \<le> ps_fields_per_cycle ps
    \<and> length (sp_reextract_queue plan) \<le> ps_reextract_per_cycle ps
    \<and> distinct (map ui_rel (sp_reextract_queue plan))
    \<and> (\<forall>i \<in> set (sp_reextract_queue plan). \<exists>c \<in> set files. file_rel c = ui_rel i
         \<and> plan_status ps (plan_inputs_of ps st) (store_db st) files c = Synced \<and> map_of (pi_reextract_rows (plan_inputs_of ps st)) (ui_rel i) \<noteq> None)"
proof -
  let ?inp = "plan_inputs_of ps st" and ?db = "store_db st" and ?m = "ps_max_upload_files ps"
  obtain acc where i: "plan_inv ps ?inp ?db files acc" "reextract_inv ps ?inp ?db files acc" and p: "plan = plan_finish ps ?inp acc"
    by (rule plan_files_parts [OF assms])
  let ?u = "int (length (pa_upload acc))" and ?f = "int (length (sp_fields_queue plan))" and ?rows = "map cr_item (chosen_reextracts ps acc)"
  have u: "?u \<le> ?m" if "?m > 0" using i(1) that by (simp add: plan_inv_def cut_def)
  have f: "?u + ?f \<le> ?m" if "?m > 0" using trim_length(1) [OF that u [OF that]] by (simp add: p plan_finish_queues)
  have r: "?u + ?f + int (length (sp_reextract_queue plan)) \<le> ?m" if "?m > 0"
    using trim_length(1) [OF that f [OF that]] by (simp add: p plan_finish_queues)
  have d: "distinct (map ui_rel ?rows)"
    using i(2) distinct_take_sort [of "ui_rel \<circ> cr_item"] by (auto simp: reextract_inv_def chosen_reextracts_def)
  have sub: "set (map ui_rel ?rows) \<subseteq> set (map (ui_rel \<circ> cr_item) (pa_reextract acc))"
    by (auto simp: chosen_reextracts_def dest: in_set_takeD)
  have "\<exists>c \<in> set files. file_rel c = ui_rel x \<and> plan_status ps ?inp ?db files c = Synced \<and> map_of (pi_reextract_rows ?inp) (ui_rel x) \<noteq> None"
    if "x \<in> set (sp_reextract_queue plan)" for x
  proof -
    have "x \<in> set ?rows" using that unfolding p plan_finish_queues(3) by (rule subsetD [OF trim_length(3)])
    then have "ui_rel x \<in> set (map ui_rel ?rows)" by auto
    then have "ui_rel x \<in> file_rel ` {c \<in> set files. reextract_work ps ?inp (plan_status ps ?inp ?db files c) (file_rel c)}"
      using sub i(2) unfolding reextract_inv_def by blast
    then show ?thesis by (auto simp: reextract_work_def)
  qed
  then have synced: "\<forall>x \<in> set (sp_reextract_queue plan). \<exists>c \<in> set files. file_rel c = ui_rel x
      \<and> plan_status ps ?inp ?db files c = Synced \<and> map_of (pi_reextract_rows ?inp) (ui_rel x) \<noteq> None" by blast
  have "length (pa_fields acc) \<le> ps_fields_per_cycle ps" using i(1) by (simp add: plan_inv_def)
  then have fl: "length (sp_fields_queue plan) \<le> ps_fields_per_cycle ps"
    unfolding p plan_finish_queues by (rule order_trans [OF trim_length(2)])
  have "length ?rows \<le> ps_reextract_per_cycle ps" by (simp add: chosen_reextracts_def)
  then have rl: "length (sp_reextract_queue plan) \<le> ps_reextract_per_cycle ps"
    unfolding p plan_finish_queues by (rule order_trans [OF trim_length(2)])
  have "distinct (map ui_rel (sp_reextract_queue plan))"
    unfolding p plan_finish_queues(3) by (rule trim_length(4) [OF d])
  moreover have "?m > 0 \<longrightarrow> int (length (sp_upload_queue plan) + length (sp_fields_queue plan) + length (sp_reextract_queue plan)) \<le> ?m"
    using r by (simp add: p plan_finish_queues(1))
  ultimately show ?thesis using fl rl synced by blast
qed

section \<open>Examples\<close>

definition example_settings :: plan_settings where
  "example_settings = \<lparr>ps_mode = ''incremental'', ps_fields_on = True, ps_fields_per_cycle = 1, ps_max_age = None, ps_max_upload_files = 2,
     ps_reextract_per_cycle = 1, ps_include_documents = False, ps_hash = (\<lambda>_. ''h''), ps_age_of = (\<lambda>_. 0)\<rparr>"

definition example_files :: "(file_item \<times> source_spec) list" where
  "example_files = (let plain = EMPTY_SOURCE_SPEC; meta = EMPTY_SOURCE_SPEC\<lparr>spec_metadata := [''title'']\<rparr>
     in [((''/r/n'', ''n'', ''m'', 7), plain), ((''/r/c'', ''c'', ''m'', 3), meta), ((''/r/b/y'', ''b/y'', ''m'', 9), plain)])"

theorem plan_by_filters_witness:
  "map ui_rel (sp_upload_queue (fst (plan_files example_settings example_files example_store))) = [''n'', ''b/y'']
   \<and> sum_total (sp_summary (fst (plan_files example_settings example_files example_store))) = 3
   \<and> store_db (snd (plan_files example_settings example_files example_store)) = store_db example_store"
proof -
  have w: "map ui_rel (cut (ps_max_upload_files example_settings) (work example_settings (plan_inputs_of example_settings example_store)
      (store_db example_store) (primary_work example_settings) example_files)) = [''n'', ''b/y'']" by code_simp
  have l: "length example_files = 3" by code_simp
  show ?thesis using plan_by_filters [OF example_store_ok prod.collapse [symmetric], of example_settings example_files] w l
    by (simp add: Let_def)
qed

theorem plan_within_caps_witness:
  "length (sp_upload_queue (fst (plan_files example_settings example_files example_store)))
   + length (sp_fields_queue (fst (plan_files example_settings example_files example_store)))
   + length (sp_reextract_queue (fst (plan_files example_settings example_files example_store))) \<le> 2"
proof -
  have "ps_max_upload_files example_settings = 2" by code_simp
  then show ?thesis using plan_within_caps [OF example_store_ok prod.collapse [symmetric], of example_settings example_files] by simp
qed

end
