(* ===== verification/Sync_Cycle.thy ===== *)
theory Sync_Cycle
  imports Sync_Plan Subfolder_Queue
begin

text \<open>
  One synchronisation cycle (\<open>sync/sync_executor.py\<close>: \<open>run_sync_work\<close> with \<open>build_walk_targets\<close>, the per-cycle caps, the
  fields probe and the requeue of documents the server had ignored fields for). The scan is the one of \<open>Sync_Walk\<close>, the
  plan the one of \<open>Sync_Plan\<close>, and every upload ends in \<open>record_upload_outcome\<close>. The uploader, the stop and window
  checks and the file system are arguments; the uploader's answers depend on the number of the call.

  The lemmas show that a cycle leaves a consistent store, that its counters add up, and that cycles over unchanged files
  with a working server upload the backlog at the rate of the cap and then have nothing to do.
\<close>

section \<open>Caps and targets\<close>

text \<open>\<open>int(raw)\<close>; \<open>None\<close> for the \<open>TypeError\<close> or \<open>ValueError\<close> the callers catch.\<close>

fun json_int :: "jval \<Rightarrow> int option" where
  "json_int (JInt n) = Some n"
| "json_int (JBool b) = Some (if b then 1 else 0)"
| "json_int (JReal r) = Some (if r \<ge> 0 then \<lfloor>r\<rfloor> else - \<lfloor>- r\<rfloor>)"
| "json_int (JStr s) = (case py_int s of Inr n \<Rightarrow> Some n | Inl _ \<Rightarrow> None)"
| "json_int _ = None"

text \<open>An absent or empty scheduler configuration is \<open>None\<close>; \<open>not sync_config\<close> tells them from the rest.\<close>

definition no_config :: "jval option \<Rightarrow> bool" where
  "no_config c \<longleftrightarrow> (case c of None \<Rightarrow> True | Some v \<Rightarrow> \<not> jtruthy v)"

definition max_files_per_cycle :: "jval option \<Rightarrow> int" where
  "max_files_per_cycle c =
     (if no_config c then 0
      else let raw = jget (the c) ''max_files_per_cycle''
           in if raw = JNull then 0 else case json_int raw of Some n \<Rightarrow> max 0 n | None \<Rightarrow> 0)"

definition max_scan_entries_per_cycle :: "jval option \<Rightarrow> int" where
  "max_scan_entries_per_cycle c =
     (if no_config c then 10000
      else let raw = jget (the c) ''max_scan_entries_per_cycle''
           in if raw = JNull then (if jtruthy (jget (the c) ''sequential_subfolders'') then 10000 else 0)
              else case json_int raw of Some n \<Rightarrow> max 0 n | None \<Rightarrow> 0)"

definition default_max_sync_duration_minutes :: "jval option \<Rightarrow> int option" where
  "default_max_sync_duration_minutes c =
     (if no_config c then None
      else let raw = jget (the c) ''max_sync_duration_minutes'';
               rest = (if jtruthy (jget (the c) ''sequential_subfolders'') then Some 120 else None)
           in if raw = JNull then rest else case json_int raw of Some n \<Rightarrow> Some (max 1 n) | None \<Rightarrow> rest)"

definition sequential_subfolders_enabled :: "jval option \<Rightarrow> bool" where
  "sequential_subfolders_enabled c \<longleftrightarrow> \<not> no_config c \<and> jtruthy (jget (the c) ''sequential_subfolders'')"

definition delete_on_remove_enabled :: "jval \<Rightarrow> bool" where
  "delete_on_remove_enabled body = (jget (jget body ''ingestion'') ''delete_on_remove'' \<noteq> JBool False)"

definition access_only_spec :: "jval \<Rightarrow> spec_error + source_spec" where
  "access_only_spec source = map_sum id (\<lambda>g. EMPTY_SOURCE_SPEC\<lparr>spec_access_groups := g\<rparr>) (py_tuple (jget source ''access_groups''))"

text \<open>The spec of a source, or the source is left out; \<open>n\<close> counts the ones left out for a template.\<close>

definition source_spec_or_none :: "bool \<Rightarrow> jval \<Rightarrow> int \<Rightarrow> unit + (source_spec option \<times> int)" where
  "source_spec_or_none fields_on source n =
     (case (if fields_on then spec_from_source source else access_only_spec source) of
        Inr spec \<Rightarrow> Inr (Some spec, n)
      | Inl (Spec_Template e) \<Rightarrow> Inr (None, n + 1)
      | Inl Spec_Type_Error \<Rightarrow> Inl ())"

fun source_recursive :: "jval \<Rightarrow> bool" where
  "source_recursive (JObj kvs) = (case map_of kvs ''recursive'' of None \<Rightarrow> True | Some v \<Rightarrow> jtruthy v)"
| "source_recursive _ = True"

text \<open>\<open>resolve_root\<close> and the folder at a path come from the file system.\<close>

record file_system =
  fsys_resolve :: "jval \<Rightarrow> string option"
  fsys_tree :: "string \<Rightarrow> tree"
  fsys_listing :: "string \<Rightarrow> listing"
  fsys_now :: string

fun plain_targets :: "file_system \<Rightarrow> bool \<Rightarrow> jval list \<Rightarrow> int \<Rightarrow> unit + (walk_target list \<times> int)" where
  "plain_targets fsys fields_on [] n = Inr ([], n)"
| "plain_targets fsys fields_on (source # sources) n =
     (case fsys_resolve fsys (jget source ''path'') of
        None \<Rightarrow> plain_targets fsys fields_on sources n
      | Some folder \<Rightarrow>
          (case source_spec_or_none fields_on source n of Inl e \<Rightarrow> Inl e
           | Inr (None, n1) \<Rightarrow> plain_targets fsys fields_on sources n1
           | Inr (Some spec, n1) \<Rightarrow>
               (case plain_targets fsys fields_on sources n1 of Inl e \<Rightarrow> Inl e
                | Inr (ts, n2) \<Rightarrow>
                    Inr (\<lparr>wt_stack = [fsys_tree fsys folder], wt_rel_root = folder,
                          wt_recursive = source_recursive source,
                          wt_spec = spec\<rparr> # ts, n2))))"

text \<open>With sequential subfolders: the folder the cursor is at, or no target.\<close>

definition sequential_target ::
    "file_system \<Rightarrow> bool \<Rightarrow> jval list \<Rightarrow> folder_queue \<Rightarrow> folder_queue + ((string \<times> walk_target) option \<times> int \<times> folder_queue)" where
  "sequential_target fsys fields_on sources q =
     (case sources of [] \<Rightarrow> Inr (None, 0, q)
      | source # _ \<Rightarrow>
          (case fsys_resolve fsys (jget source ''path'') of None \<Rightarrow> Inr (None, 0, q)
           | Some folder \<Rightarrow>
               (let (prog, q1) = progress (fsys_listing fsys folder) (fsys_now fsys) folder q
                in if completed prog then Inr (None, 0, q1)
                   else let (sub, q2) = current_path (fsys_listing fsys folder) (fsys_now fsys) folder q1
                        in case sub of None \<Rightarrow> Inr (None, 0, q2)
                        | Some sub_path \<Rightarrow>
                            (case source_spec_or_none fields_on source 0 of Inl e \<Rightarrow> Inl q2
                             | Inr (None, n) \<Rightarrow> Inr (None, n, q2)
                             | Inr (Some spec, n) \<Rightarrow>
                                 Inr (Some (sub_path, \<lparr>wt_stack = [fsys_tree fsys sub_path], wt_rel_root = folder, wt_recursive = True, wt_spec = spec\<rparr>), n, q2)))))"

section \<open>Scan and plan\<close>

text \<open>
  Whether a file counts toward the file cap of the scan. The status asked for there does not depend on the digest, so
  the walk can be run ahead of the plan.
\<close>

definition counts_as_work :: "plan_settings \<Rightarrow> sync_db \<Rightarrow> file_item \<Rightarrow> bool" where
  "counts_as_work ps db = (\<lambda>(path, rel, mtime, sz).
     primary_work ps (classify_status (ps_age_of ps) (fp_of db rel) mtime sz (ps_max_age ps) None None))"

record scan_cycle =
  sc_plan :: scan_plan
  sc_unreadable :: "string list"
  sc_truncated :: bool
  sc_stopped :: bool
  sc_skipped :: int

definition start_budget :: "int \<Rightarrow> walk_budget" where
  "start_budget max_scan_entries = (if max_scan_entries > 0 then new_budget max_scan_entries max_scan_entries else new_budget 0 0)"

definition scan_targets ::
    "plan_settings \<Rightarrow> walk_cfg \<Rightarrow> int \<Rightarrow> walk_target list \<Rightarrow> int \<Rightarrow> sync_store \<Rightarrow> scan_cycle \<times> string list \<times> sync_store" where
  "scan_targets ps cfg max_scan targets skipped st =
     (let (files, b) = iter_candidate_files (cfg\<lparr>wc_counts := counts_as_work ps (store_db st)\<rparr>) max_scan targets (start_budget max_scan);
          (plan, st1) = plan_files ps files st
      in (\<lparr>sc_plan = plan, sc_unreadable = wb_unreadable b, sc_truncated = wb_truncated b, sc_stopped = wb_stopped b, sc_skipped = skipped\<rparr>,
          wb_resume b, st1))"

text \<open>Without and with the subfolder queue, whose saved stack is taken up and written back.\<close>

definition plan_plain_cycle ::
    "file_system \<Rightarrow> plan_settings \<Rightarrow> walk_cfg \<Rightarrow> int \<Rightarrow> jval list \<Rightarrow> sync_store \<Rightarrow> unit + (scan_cycle \<times> sync_store)" where
  "plan_plain_cycle fsys ps cfg max_scan sources st =
     (case plain_targets fsys (ps_fields_on ps) sources 0 of Inl e \<Rightarrow> Inl e
      | Inr (targets, skipped) \<Rightarrow> (case scan_targets ps cfg max_scan targets skipped st of (scan, _, st1) \<Rightarrow> Inr (scan, st1)))"

definition plan_sequential_cycle ::
    "file_system \<Rightarrow> plan_settings \<Rightarrow> walk_cfg \<Rightarrow> int \<Rightarrow> jval list \<Rightarrow> sync_store \<Rightarrow> folder_queue \<Rightarrow> folder_queue + (scan_cycle \<times> sync_store \<times> folder_queue)" where
  "plan_sequential_cycle fsys ps cfg max_scan sources st q =
     (case sequential_target fsys (ps_fields_on ps) sources q of Inl e \<Rightarrow> Inl e
      | Inr (None, skipped, q1) \<Rightarrow> (case scan_targets ps cfg max_scan [] skipped st of (scan, _, st1) \<Rightarrow> Inr (scan, st1, q1))
      | Inr (Some (walk_root, t), skipped, q1) \<Rightarrow>
          (let key = wt_rel_root t; saved = load_scan_stack key q1;
               t1 = (if saved = [] then t else t\<lparr>wt_stack := map (fsys_tree fsys) saved\<rparr>);
               (scan, left, st1) = scan_targets ps cfg max_scan [t1] skipped st;
               q2 = (if sc_truncated scan \<or> sc_stopped scan
                     then save_scan_stack (fsys_now fsys) key (if left = [] then [walk_root] else left) q1
                     else clear_scan_stack (fsys_now fsys) key q1)
           in Inr (scan, st1, q2)))"

section \<open>One upload\<close>

datatype work_kind = New_Work | Fields_Work | Reextract_Work

record upload_kwargs =
  uk_access_groups :: "jval list"
  uk_source :: "(source_spec \<times> bool) option"
  uk_unchanged_sha :: "string option"
  uk_ocr_missing :: "int option option"

definition fields_upload_kwargs :: "source_spec \<Rightarrow> bool \<Rightarrow> bool \<Rightarrow> upload_kwargs" where
  "fields_upload_kwargs spec fields_on previous_fields_sent =
     \<lparr>uk_access_groups = spec_access_groups spec,
      uk_source = (if fields_on \<and> (has_fields spec \<or> previous_fields_sent) then Some (spec, previous_fields_sent) else None),
      uk_unchanged_sha = None, uk_ocr_missing = None\<rparr>"

fun int_or_none :: "jval \<Rightarrow> int option" where
  "int_or_none (JInt n) = Some n"
| "int_or_none (JReal r) = Some (if r \<ge> 0 then \<lfloor>r\<rfloor> else - \<lfloor>- r\<rfloor>)"
| "int_or_none (JStr s) = (case py_int (py_strip s) of Inr n \<Rightarrow> Some n | Inl _ \<Rightarrow> None)"
| "int_or_none _ = None"

definition ocr_pages_missing :: "jdict option \<Rightarrow> int option" where
  "ocr_pages_missing note0 =
     (case note0 of None \<Rightarrow> Some 0
      | Some n \<Rightarrow>
          (let known = concat (map (\<lambda>k. case int_or_none (jget (JObj n) k) of None \<Rightarrow> [] | Some i \<Rightarrow> [i]) [''ocr_pages_skipped'', ''ocr_pages_failed''])
           in if known = [] then None else Some (sum_list known)))"

text \<open>What \<open>uploader.upload_file\<close> comes to: a result, a \<open>RequestException\<close> or another exception, with its message.\<close>

datatype upload_answer = Answered upload_result | Request_Error string | Other_Error string

datatype cycle_error = Source_Error | Request_Raised string | State_Error py_error

record tx_entry =
  te_path :: string
  te_key :: "string option"
  te_parts :: int
  te_status :: string
  te_fields :: "(string \<times> int \<times> string list) option"
  te_partial :: "jdict option"

record run_result =
  rr_scanned :: int
  rr_uploaded :: int
  rr_skipped :: int
  rr_partial :: int
  rr_retry :: int
  rr_requests :: int
  rr_transmissions :: "tx_entry list"
  rr_tx_truncated :: bool
  rr_errors :: "(string \<times> string) list"
  rr_paused :: "string option"
  rr_summary :: sync_summary
  rr_scan_truncated :: bool
  rr_re_uploaded :: int
  rr_re_unchanged :: int
  rr_re_kept :: int
  rr_re_failed :: int
  rr_re_reached :: int
  rr_doc_fields :: "doc_fields_cycle option"
  rr_reachable :: "string list option"
  rr_progress :: "subfolder_progress option"

record cycle_env =
  ce_stop :: "nat \<Rightarrow> bool"
  ce_window :: "nat \<Rightarrow> bool"
  ce_upload :: "nat \<Rightarrow> upload_item \<Rightarrow> upload_kwargs \<Rightarrow> upload_answer"
  ce_probe :: "bool option option"
  ce_args :: outcome_args
  ce_fields_on :: bool
  ce_hash :: "config_document \<Rightarrow> string"
  ce_max_tx :: int

record loop_state =
  ls_result :: run_result
  ls_store :: sync_store
  ls_checked :: bool
  ls_calls :: nat

definition raised_result :: "string \<Rightarrow> upload_result" where
  "raised_result msg = \<lparr>up_key = None, up_parts = 0, up_status = ''error'', up_requests = 0, up_error = Some msg, up_partial = None,
     up_fields = None, up_dropped = [], up_text_sha = None, up_stamp = None\<rparr>"

definition item_digest :: "cycle_env \<Rightarrow> scan_plan \<Rightarrow> upload_item \<Rightarrow> string option" where
  "item_digest env plan item =
     (if ce_fields_on env
      then Some (case map_of (sp_digests plan) (ui_rel item) of Some d \<Rightarrow> d | None \<Rightarrow> config_digest (ce_hash env) (ui_rel item) (Some (ui_spec item)))
      else None)"

definition item_args :: "cycle_env \<Rightarrow> scan_plan \<Rightarrow> upload_item \<Rightarrow> work_kind \<Rightarrow> outcome_args" where
  "item_args env plan item kind =
     (ce_args env)\<lparr>oa_digest := item_digest env plan item, oa_fields_reupload := kind = Fields_Work, oa_reextract := kind = Reextract_Work\<rparr>"

definition item_kwargs :: "cycle_env \<Rightarrow> scan_plan \<Rightarrow> upload_item \<Rightarrow> work_kind \<Rightarrow> sync_store \<Rightarrow> upload_kwargs" where
  "item_kwargs env plan item kind st =
     (let rel = ui_rel item;
          kw = fields_upload_kwargs (ui_spec item) (ce_fields_on env) (case map_of (sp_sent plan) rel of Some b \<Rightarrow> b | None \<Rightarrow> False);
          sha = (if kind = Reextract_Work then Option.bind (map_of (sp_text_sha plan) rel) (\<lambda>x. x) else None)
      in kw\<lparr>uk_unchanged_sha := (if truthy_text sha then sha else None),
            uk_ocr_missing := (if kind = Reextract_Work then Some (ocr_pages_missing (get_partial rel (store_db st))) else None)\<rparr>)"

definition requeue_not_accepted :: "string list \<Rightarrow> doc_fields_cycle \<Rightarrow> sync_store \<Rightarrow> (int \<times> doc_fields_cycle) py \<times> sync_store" where
  "requeue_not_accepted scanned stats st =
     (case store_requeue_fields OUTCOME_NOT_ACCEPTED (Some scanned) st of (res, st1) \<Rightarrow>
        (map_sum id (\<lambda>n. (n, stats\<lparr>dc_requeued := dc_requeued stats + n\<rparr>)) res, st1))"

definition count_reextract :: "work_kind \<Rightarrow> upload_outcome \<Rightarrow> upload_result \<Rightarrow> run_result \<Rightarrow> run_result" where
  "count_reextract kind out up r =
     (if kind \<noteq> Reextract_Work then r
      else if out = Up_Unchanged then r\<lparr>rr_re_unchanged := rr_re_unchanged r + 1\<rparr>
      else if out = Up_Kept then r\<lparr>rr_re_kept := rr_re_kept r + 1\<rparr>
      else if up_status up = ''ok'' then r\<lparr>rr_re_uploaded := rr_re_uploaded r + 1\<rparr>
      else r\<lparr>rr_re_failed := rr_re_failed r + 1\<rparr>)"

definition tx_fields :: "upload_result \<Rightarrow> (string \<times> int \<times> string list) option" where
  "tx_fields up = (case up_fields up of None \<Rightarrow> None
     | Some f \<Rightarrow> if fo_outcome f \<noteq> OUTCOME_NONE then Some (fo_outcome f, fo_staged f, sort (map fst (fo_warning_codes f))) else None)"

text \<open>The counters and the transmission entry of an upload that was not left out as unchanged or kept.\<close>

definition count_upload :: "cycle_env \<Rightarrow> string \<Rightarrow> upload_result \<Rightarrow> upload_outcome \<Rightarrow> run_result \<Rightarrow> run_result" where
  "count_upload env rel up out r =
     (let (entry, r1) =
            (if up_status up = ''ok'' then
               (\<lparr>te_path = rel, te_key = up_key up, te_parts = up_parts up, te_status = ''ok'', te_fields = tx_fields up,
                 te_partial = (if out = Up_Partial then up_partial up else None)\<rparr>,
                r\<lparr>rr_uploaded := rr_uploaded r + 1, rr_partial := rr_partial r + (if out = Up_Partial then 1 else 0)\<rparr>)
             else
               (\<lparr>te_path = rel, te_key = None, te_parts = up_parts up, te_status = ''error'', te_fields = None, te_partial = None\<rparr>,
                (if out = Up_Skipped then r else if out = Up_Partial then r\<lparr>rr_partial := rr_partial r + 1\<rparr> else r\<lparr>rr_retry := rr_retry r + 1\<rparr>)
                  \<lparr>rr_errors := rr_errors r @ [(rel, error_text up)]\<rparr>))
      in if ce_max_tx env > 0 \<and> int (length (rr_transmissions r1)) \<ge> ce_max_tx env then r1\<lparr>rr_tx_truncated := True\<rparr>
         else r1\<lparr>rr_transmissions := rr_transmissions r1 @ [entry]\<rparr>)"

definition fields_taken :: "upload_result \<Rightarrow> bool" where
  "fields_taken up \<longleftrightarrow> (case up_fields up of None \<Rightarrow> False | Some f \<Rightarrow> fo_outcome f \<in> {OUTCOME_STAGED, OUTCOME_CLEARED})"

definition note_dropped :: "upload_result \<Rightarrow> doc_fields_cycle option \<Rightarrow> doc_fields_cycle option" where
  "note_dropped up stats = map_option (\<lambda>c. c\<lparr>dc_dropped := fold (\<lambda>(k, n). tally_add k n) (up_dropped up) (dc_dropped c)\<rparr>) stats"

definition maybe_requeue :: "scan_plan \<Rightarrow> upload_result \<Rightarrow> loop_state \<Rightarrow> (cycle_error \<times> sync_store) + loop_state" where
  "maybe_requeue plan up ls =
     (case rr_doc_fields (ls_result ls) of
        Some stats \<Rightarrow>
          if \<not> ls_checked ls \<and> fields_taken up then
            (case requeue_not_accepted (sp_scanned plan) stats (ls_store ls) of
               (Inl e, st) \<Rightarrow> Inl (State_Error e, st)
             | (Inr (n, stats1), st) \<Rightarrow> Inr (ls\<lparr>ls_checked := True, ls_store := st, ls_result := (ls_result ls)\<lparr>rr_doc_fields := Some stats1\<rparr>\<rparr>))
          else Inr ls
      | None \<Rightarrow> Inr ls)"

definition after_answer :: "cycle_env \<Rightarrow> scan_plan \<Rightarrow> upload_item \<Rightarrow> work_kind \<Rightarrow> upload_result \<Rightarrow> loop_state \<Rightarrow> (cycle_error \<times> sync_store) + loop_state" where
  "after_answer env plan item kind up ls =
     (let r = ls_result ls; stats = note_dropped up (rr_doc_fields r)
      in case record_upload_outcome (item_args env plan item kind) (ui_rel item) (ui_mtime item) (ui_size item) up stats (ls_store ls) of
           (Inl e, _, st1) \<Rightarrow> Inl (State_Error e, st1)
         | (Inr out, stats1, st1) \<Rightarrow>
             (let r1 = count_reextract kind out up (r\<lparr>rr_requests := rr_requests r + up_requests up, rr_doc_fields := stats1\<rparr>);
                  ls1 = ls\<lparr>ls_result := r1, ls_store := st1, ls_calls := Suc (ls_calls ls)\<rparr>
              in if out = Up_Unchanged \<or> out = Up_Kept then Inr ls1
                 else case maybe_requeue plan up ls1 of Inl e \<Rightarrow> Inl e
                 | Inr ls2 \<Rightarrow> Inr (ls2\<lparr>ls_result := count_upload env (ui_rel item) up out (ls_result ls2)\<rparr>)))"

section \<open>The upload loop\<close>

definition pause :: "string \<Rightarrow> loop_state \<Rightarrow> loop_state" where
  "pause reason ls = ls\<lparr>ls_result := (ls_result ls)\<lparr>rr_paused := Some reason\<rparr>\<rparr>"

fun upload_loop :: "cycle_env \<Rightarrow> scan_plan \<Rightarrow> (upload_item \<times> work_kind) list \<Rightarrow> loop_state \<Rightarrow> (cycle_error \<times> sync_store) + loop_state" where
  "upload_loop env plan [] ls = Inr ls"
| "upload_loop env plan ((item, kind) # ws) ls =
     (if ce_stop env (ls_calls ls) then Inr (pause ''stop_requested'' ls)
      else if \<not> ce_window env (ls_calls ls) then Inr (pause ''outside_window'' ls)
      else case ce_upload env (ls_calls ls) item (item_kwargs env plan item kind (ls_store ls)) of
             Request_Error msg \<Rightarrow>
               if py_in ''rate limit'' (py_lower msg) then Inr (pause ''rate_limited'' ls) else Inl (Request_Raised msg, ls_store ls)
           | Other_Error msg \<Rightarrow>
               (case after_answer env plan item kind (raised_result msg) ls of Inl e \<Rightarrow> Inl e | Inr ls1 \<Rightarrow> upload_loop env plan ws ls1)
           | Answered up \<Rightarrow>
               (case after_answer env plan item kind up ls of Inl e \<Rightarrow> Inl e | Inr ls1 \<Rightarrow> upload_loop env plan ws ls1))"

definition cycle_work :: "string \<Rightarrow> scan_plan \<Rightarrow> (upload_item \<times> work_kind) list" where
  "cycle_work order plan =
     map (\<lambda>i. (i, New_Work)) (ordered_upload_queue (sp_upload_queue plan) order)
     @ map (\<lambda>i. (i, Fields_Work)) (ordered_upload_queue (sp_fields_queue plan) order)
     @ map (\<lambda>i. (i, Reextract_Work)) (sp_reextract_queue plan)"

section \<open>The probe\<close>

definition DOC_FIELDS_PROBE_INTERVAL_SECONDS :: rat where
  "DOC_FIELDS_PROBE_INTERVAL_SECONDS = 3600"

text \<open>The time of the last probe, module memory in the code, is passed along.\<close>

definition claim_doc_fields_probe :: "rat \<Rightarrow> rat option \<Rightarrow> bool \<times> rat option" where
  "claim_doc_fields_probe now last_probe =
     (case last_probe of
        Some t \<Rightarrow> if now - t < DOC_FIELDS_PROBE_INTERVAL_SECONDS then (False, last_probe) else (True, Some now)
      | None \<Rightarrow> (True, Some now))"

definition probe_doc_fields ::
    "bool option option \<Rightarrow> rat \<Rightarrow> string list \<Rightarrow> doc_fields_cycle \<Rightarrow> rat option \<Rightarrow> sync_store
     \<Rightarrow> (bool \<times> doc_fields_cycle) py \<times> rat option \<times> sync_store" where
  "probe_doc_fields probe now scanned stats last_probe st =
     (case probe of None \<Rightarrow> (Inr (False, stats), last_probe, st)
      | Some answer \<Rightarrow>
          (case count_fields_requeue_candidates OUTCOME_NOT_ACCEPTED (Some scanned) (store_db st) of
             Inl e \<Rightarrow> (Inl e, last_probe, st)
           | Inr n \<Rightarrow>
               if n = 0 then (Inr (False, stats), last_probe, st)
               else let (claimed, last1) = claim_doc_fields_probe now last_probe
                    in if \<not> claimed then (Inr (False, stats), last1, st)
                       else if answer = Some True then
                         (case requeue_not_accepted scanned stats st of (res, st1) \<Rightarrow> (map_sum id (\<lambda>(k, s). (True, s)) res, last1, st1))
                       else (Inr (False, stats), last1, st)))"

section \<open>The cycle\<close>

record cycle_inputs =
  ci_body :: jval
  ci_config :: "jval option"
  ci_fsys :: file_system
  ci_walk :: walk_cfg
  ci_settings :: plan_settings
  ci_order :: string
  ci_env :: cycle_env
  ci_delete :: "string \<Rightarrow> bool \<times> string option"
  ci_mono :: rat

definition cycle_sources :: "cycle_inputs \<Rightarrow> jval list" where
  "cycle_sources ci = as_list (jget (ci_body ci) ''sources'')"

definition cycle_settings :: "cycle_inputs \<Rightarrow> plan_settings" where
  "cycle_settings ci = (ci_settings ci)\<lparr>ps_max_upload_files := max_files_per_cycle (ci_config ci), ps_include_documents := False\<rparr>"

definition plan_sync_cycle :: "cycle_inputs \<Rightarrow> sync_store \<Rightarrow> folder_queue \<Rightarrow> folder_queue + (scan_cycle \<times> sync_store \<times> folder_queue)" where
  "plan_sync_cycle ci st q =
     (let ps = cycle_settings ci; m = max_scan_entries_per_cycle (ci_config ci)
      in if sequential_subfolders_enabled (ci_config ci)
         then plan_sequential_cycle (ci_fsys ci) ps (ci_walk ci) m (cycle_sources ci) st q
         else case plan_plain_cycle (ci_fsys ci) ps (ci_walk ci) m (cycle_sources ci) st of
                Inl e \<Rightarrow> Inl q | Inr (scan, st1) \<Rightarrow> Inr (scan, st1, q))"

definition source_folder :: "cycle_inputs \<Rightarrow> string option" where
  "source_folder ci =
     (if sequential_subfolders_enabled (ci_config ci)
      then (case cycle_sources ci of [] \<Rightarrow> None | source # _ \<Rightarrow> fsys_resolve (ci_fsys ci) (jget source ''path''))
      else None)"

definition read_progress :: "cycle_inputs \<Rightarrow> folder_queue \<Rightarrow> subfolder_progress option \<times> folder_queue" where
  "read_progress ci q =
     (case source_folder ci of None \<Rightarrow> (None, q)
      | Some folder \<Rightarrow> (case progress (fsys_listing (ci_fsys ci) folder) (fsys_now (ci_fsys ci)) folder q of (p, q1) \<Rightarrow> (Some p, q1)))"

definition skipped_message :: "int \<Rightarrow> string" where
  "skipped_message n = ''field_template_invalid: '' @ show_int n @ '' source(s) skipped this cycle''"

definition initial_result :: "bool \<Rightarrow> scan_cycle \<Rightarrow> subfolder_progress option \<Rightarrow> run_result" where
  "initial_result fields_on scan prog =
     (let plan = sc_plan scan; s = sp_summary plan
      in \<lparr>rr_scanned = sum_total s, rr_uploaded = 0, rr_skipped = sum_synced s, rr_partial = 0, rr_retry = 0, rr_requests = 0,
          rr_transmissions = [], rr_tx_truncated = False,
          rr_errors = (if sc_skipped scan \<noteq> 0 then [([], skipped_message (sc_skipped scan))] else []),
          rr_paused = (if sc_truncated scan then Some ''scan_limit_reached'' else if sc_stopped scan then Some ''cycle_time_limit'' else None),
          rr_summary = s, rr_scan_truncated = sc_truncated scan, rr_re_uploaded = 0, rr_re_unchanged = 0, rr_re_kept = 0, rr_re_failed = 0,
          rr_re_reached = 0,
          rr_doc_fields = (if fields_on then Some (new_cycle\<lparr>dc_rel_collisions := sp_collisions plan, dc_template_errors := sc_skipped scan\<rparr>) else None),
          rr_reachable = None, rr_progress = prog\<rparr>)"

definition prune_args_of :: "cycle_inputs \<Rightarrow> scan_cycle \<Rightarrow> run_result \<Rightarrow> prune_args" where
  "prune_args_of ci scan r =
     \<lparr>pa_delete_on_remove = delete_on_remove_enabled (ci_body ci), pa_scan_truncated = sc_truncated scan, pa_scan_stopped = sc_stopped scan,
      pa_paused_reason = rr_paused r, pa_sequential = sequential_subfolders_enabled (ci_config ci), pa_sources_skipped = sc_skipped scan\<rparr>"

definition identifier_prefix :: "jval \<Rightarrow> string" where
  "identifier_prefix body = (case jget (jget body ''ingestion'') ''identifier_prefix'' of JStr s \<Rightarrow> s | _ \<Rightarrow> ''rc-sync'')"

definition advance_queue :: "cycle_inputs \<Rightarrow> scan_cycle \<Rightarrow> run_result \<Rightarrow> folder_queue \<Rightarrow> run_result \<times> folder_queue" where
  "advance_queue ci scan r q =
     (case source_folder ci of
        Some folder \<Rightarrow>
          if sc_skipped scan = 0 then
            (let requeued = (case rr_doc_fields r of Some s \<Rightarrow> dc_requeued s | None \<Rightarrow> 0);
                 (moved, q1) = maybe_advance (fsys_now (ci_fsys ci)) folder (sum_pending (rr_summary r))
                   (sum_modified (rr_summary r) + sum_fields_changed (rr_summary r) + rr_re_reached r + requeued) (rr_scan_truncated r) (rr_paused r) q;
                 (p, q2) = read_progress ci q1
             in (r\<lparr>rr_progress := p\<rparr>, q2))
          else (r, q)
      | None \<Rightarrow> (r, q))"

text \<open>After the loop: the candidates a requeue request may name, pruning, the cursor.\<close>

definition finish_cycle :: "cycle_inputs \<Rightarrow> scan_cycle \<Rightarrow> loop_state \<Rightarrow> folder_queue \<Rightarrow> (cycle_error + run_result) \<times> sync_store \<times> folder_queue" where
  "finish_cycle ci scan ls q =
     (let plan = sc_plan scan; r0 = (ls_result ls)\<lparr>rr_re_reached := sp_reextract_reached plan\<rparr>; st = ls_store ls
      in case (if rr_doc_fields r0 = None then Inr None
               else map_sum id (\<lambda>ps. Some (filter (\<lambda>p. p \<in> set (sp_scanned plan)) ps)) (fields_requeue_candidate_paths ''all'' (store_db st))) of
           Inl e \<Rightarrow> (Inl (State_Error e), st, q)
         | Inr reachable \<Rightarrow>
             (let r1 = r0\<lparr>rr_reachable := reachable\<rparr>;
                  (errs, st1) = prune_after_cycle (prune_args_of ci scan r1) (identifier_prefix (ci_body ci)) (ci_delete ci)
                     (sp_scanned plan) (sc_unreadable scan) st;
                  (r2, q1) = advance_queue ci scan (r1\<lparr>rr_errors := rr_errors r1 @ errs\<rparr>) q
              in (Inr r2, st1, q1)))"

text \<open>What follows the plan: the probe, the uploads, the end of the cycle.\<close>

definition probe_first ::
    "cycle_inputs \<Rightarrow> scan_cycle \<Rightarrow> run_result \<Rightarrow> rat option \<Rightarrow> sync_store \<Rightarrow> (bool \<times> doc_fields_cycle option) py \<times> rat option \<times> sync_store" where
  "probe_first ci scan r last_probe st =
     (case rr_doc_fields r of None \<Rightarrow> (Inr (False, None), last_probe, st)
      | Some stats \<Rightarrow>
          (case probe_doc_fields (ce_probe (ci_env ci)) (ci_mono ci) (sp_scanned (sc_plan scan)) stats last_probe st of
             (a, l, s) \<Rightarrow> (map_sum id (\<lambda>(b, x). (b, Some x)) a, l, s)))"

definition run_plan ::
    "cycle_inputs \<Rightarrow> scan_cycle \<Rightarrow> rat option \<Rightarrow> sync_store \<Rightarrow> folder_queue \<Rightarrow> (cycle_error + run_result) \<times> rat option \<times> sync_store \<times> folder_queue" where
  "run_plan ci scan last_probe st q =
     (let (prog, q1) = read_progress ci q;
          r = initial_result (ce_fields_on (ci_env ci)) scan prog
      in case probe_first ci scan r last_probe st of
           (Inl e, last1, st1) \<Rightarrow> (Inl (State_Error e), last1, st1, q1)
         | (Inr (checked, stats), last1, st1) \<Rightarrow>
             (case upload_loop (ci_env ci) (sc_plan scan) (cycle_work (ci_order ci) (sc_plan scan))
                     \<lparr>ls_result = r\<lparr>rr_doc_fields := stats\<rparr>, ls_store = st1, ls_checked = checked, ls_calls = 0\<rparr> of
                Inl (e, st2) \<Rightarrow> (Inl e, last1, st2, q1)
              | Inr ls \<Rightarrow> (case finish_cycle ci scan ls q1 of (out, st2, q2) \<Rightarrow> (out, last1, st2, q2))))"

definition run_sync_work ::
    "cycle_inputs \<Rightarrow> rat option \<Rightarrow> sync_store \<Rightarrow> folder_queue \<Rightarrow> (cycle_error + run_result) \<times> rat option \<times> sync_store \<times> folder_queue" where
  "run_sync_work ci last_probe st q =
     (case plan_sync_cycle ci st q of Inl q1 \<Rightarrow> (Inl Source_Error, last_probe, st, q1)
      | Inr (scan, st1, q1) \<Rightarrow> run_plan ci scan last_probe st1 q1)"

section \<open>The store through a cycle\<close>

lemma requeue_steps: "store_step\<^sup>*\<^sup>* st (snd (requeue_not_accepted scanned stats st))"
  by (auto simp: requeue_not_accepted_def split_def intro: store_step.requeue_fields)

lemma requeue_fp: "stored_fp (snd (requeue_not_accepted scanned stats st)) = stored_fp st"
  by (simp add: requeue_not_accepted_def split_def stored_fp_def store_requeue_fields_def via_db_def Let_def fp_of_requeue_fields fun_eq_iff)

definition after_store :: "(cycle_error \<times> sync_store) + loop_state \<Rightarrow> sync_store" where
  "after_store x = (case x of Inl (e, st) \<Rightarrow> st | Inr ls \<Rightarrow> ls_store ls)"

lemma maybe_requeue_steps: "store_step\<^sup>*\<^sup>* (ls_store ls) (after_store (maybe_requeue plan up ls))"
  using requeue_steps by (auto simp: maybe_requeue_def after_store_def split: option.split sum.split prod.split) (metis snd_conv)+

lemma maybe_requeue_fp: "stored_fp (after_store (maybe_requeue plan up ls)) = stored_fp (ls_store ls)"
  using requeue_fp by (auto simp: maybe_requeue_def after_store_def split: option.split sum.split prod.split) (metis snd_conv)+

lemma after_answer_steps: "store_step\<^sup>*\<^sup>* (ls_store ls) (after_store (after_answer env plan item kind up ls))"
proof -
  let ?st = "ls_store ls" and ?stats = "note_dropped up (rr_doc_fields (ls_result ls))"
  obtain res stats1 st1 where r: "record_upload_outcome (item_args env plan item kind) (ui_rel item) (ui_mtime item) (ui_size item) up ?stats ?st
      = (res, stats1, st1)" by (metis prod_cases3)
  have a: "store_step\<^sup>*\<^sup>* ?st st1" using record_upload_outcome_steps r by (metis snd_conv)
  show ?thesis
  proof (cases res)
    case (Inr out)
    let ?ls1 = "ls\<lparr>ls_result := count_reextract kind out up ((ls_result ls)\<lparr>rr_requests := rr_requests (ls_result ls) + up_requests up, rr_doc_fields := stats1\<rparr>),
       ls_store := st1, ls_calls := Suc (ls_calls ls)\<rparr>"
    have "store_step\<^sup>*\<^sup>* st1 (after_store (maybe_requeue plan up ?ls1))" using maybe_requeue_steps [of ?ls1] by simp
    then show ?thesis using a Inr
      by (auto simp: after_answer_def r Let_def after_store_def intro: rtranclp_trans split: sum.splits)
  qed (use a in \<open>simp add: after_answer_def r after_store_def Let_def\<close>)
qed

lemma upload_loop_steps: "store_step\<^sup>*\<^sup>* (ls_store ls) (after_store (upload_loop env plan ws ls))"
proof (induction ws arbitrary: ls)
  case (Cons w ws)
  obtain item kind where w: "w = (item, kind)" by fastforce
  have one: "store_step\<^sup>*\<^sup>* (ls_store ls) (after_store (case after_answer env plan item kind up ls of Inl e \<Rightarrow> Inl e | Inr ls1 \<Rightarrow> upload_loop env plan ws ls1))" for up
    using after_answer_steps [of ls env plan item kind up] Cons
    by (cases "after_answer env plan item kind up ls") (auto simp: after_store_def intro: rtranclp_trans)
  show ?case
    using one by (auto simp: w after_store_def [of "Inr _"] after_store_def [of "Inl (Request_Raised _, _)"] pause_def split: upload_answer.split)
qed (simp add: after_store_def)

lemma probe_first_store:
  "store_step\<^sup>*\<^sup>* st (snd (snd (probe_first ci scan r l st)))" "stored_fp (snd (snd (probe_first ci scan r l st))) = stored_fp st"
proof -
  have "snd (snd (probe_doc_fields p n sc stats l st)) \<in> {st, snd (requeue_not_accepted sc stats st)}" for p n sc stats
    by (auto simp: probe_doc_fields_def split_def Let_def split: option.split sum.split)
  then have "snd (snd (probe_first ci scan r l st)) = st \<or> (\<exists>stats. snd (snd (probe_first ci scan r l st)) = snd (requeue_not_accepted (sp_scanned (sc_plan scan)) stats st))"
    by (simp add: probe_first_def split_def split: option.split) blast
  then show "store_step\<^sup>*\<^sup>* st (snd (snd (probe_first ci scan r l st)))" "stored_fp (snd (snd (probe_first ci scan r l st))) = stored_fp st"
    using requeue_steps requeue_fp by (metis rtranclp.rtrancl_refl)+
qed

lemma prune_after_cycle_store:
  assumes "store_ok st"
  shows "store_ok (snd (prune_after_cycle a prefix delete scanned unreadable st))"
    and "p \<in> set scanned \<Longrightarrow> map_of (documents (store_db (snd (prune_after_cycle a prefix delete scanned unreadable st)))) p = map_of (documents (store_db st)) p"
  using assms remove_all_of(1,2) [OF assms] by (auto simp: prune_after_cycle_def prune_removed_store gone_def)

lemma finish_cycle_store:
  assumes "store_ok (ls_store ls)" and "finish_cycle ci scan ls q = (out, st', q')"
  shows "store_ok st'" and "p \<in> set (sp_scanned (sc_plan scan)) \<Longrightarrow> stored_fp st' p = stored_fp (ls_store ls) p"
  using assms prune_after_cycle_store [OF assms(1)]
  by (auto simp: finish_cycle_def Let_def split_def stored_fp_def fp_of_def split: sum.splits)

lemma run_plan_store:
  assumes "store_ok st" and "run_plan ci scan l st q = (out, l', st', q')"
  shows "store_ok st'"
proof -
  obtain prog q1 where p: "read_progress ci q = (prog, q1)" by fastforce
  let ?r = "initial_result (ce_fields_on (ci_env ci)) scan prog"
  obtain res last1 st1 where pr: "probe_first ci scan ?r l st = (res, last1, st1)" by (metis prod_cases3)
  have st1: "store_ok st1" using steps_ok [OF probe_first_store(1) assms(1)] pr by (metis snd_conv)
  show ?thesis
  proof (cases res)
    case (Inl e)
    then show ?thesis using assms(2) st1 by (simp add: run_plan_def p pr)
  next
    case (Inr x)
    obtain checked stats where x: "x = (checked, stats)" by fastforce
    let ?ls = "\<lparr>ls_result = ?r\<lparr>rr_doc_fields := stats\<rparr>, ls_store = st1, ls_checked = checked, ls_calls = 0\<rparr>"
    let ?res = "upload_loop (ci_env ci) (sc_plan scan) (cycle_work (ci_order ci) (sc_plan scan)) ?ls"
    have ok: "store_ok (after_store ?res)" using steps_ok [OF upload_loop_steps, of ?ls] st1 by simp
    show ?thesis
      using assms(2) ok finish_cycle_store(1)
      by (cases ?res) (auto simp: run_plan_def p pr Inr x after_store_def split: prod.splits)
  qed
qed

lemma plan_files_store: "store_ok st \<Longrightarrow> plan_files ps files st = (plan, st') \<Longrightarrow> store_ok st' \<and> store_db st' = store_db st"
  using plan_files_parts [of st ps files plan st'] by (metis plan_inv_def)

lemma scan_targets_store:
  "store_ok st \<Longrightarrow> scan_targets ps cfg m ts k st = (scan, left, st') \<Longrightarrow> store_ok st' \<and> store_db st' = store_db st"
  using plan_files_store by (auto simp: scan_targets_def Let_def split: prod.splits)

lemma plan_sync_cycle_store:
  assumes "store_ok st" and "plan_sync_cycle ci st q = Inr (scan, st', q')"
  shows "store_ok st' \<and> store_db st' = store_db st"
  using assms scan_targets_store [OF assms(1)]
  by (auto simp: plan_sync_cycle_def plan_plain_cycle_def plan_sequential_cycle_def Let_def split: if_splits sum.splits prod.splits option.splits)

text \<open>
  (C6) However a cycle ends (done, paused, or by an exception of the uploader, of a source or of the store), the store it
  leaves is consistent: its rows are well formed and the cached fingerprints agree with the database.
\<close>

theorem cycle_keeps_store_ok:
  assumes "store_ok st" and "run_sync_work ci l st q = (out, l', st', q')"
  shows "store_ok st'"
proof (cases "plan_sync_cycle ci st q")
  case (Inl q1)
  then show ?thesis using assms by (simp add: run_sync_work_def)
next
  case (Inr x)
  obtain scan st1 q1 where x: "x = (scan, st1, q1)" by (metis prod_cases3)
  have "store_ok st1" using plan_sync_cycle_store [OF assms(1) Inr [unfolded x]] by simp
  moreover have "run_plan ci scan l st1 q1 = (out, l', st', q')" using assms(2) by (simp add: run_sync_work_def Inr x)
  ultimately show ?thesis by (rule run_plan_store)
qed

section \<open>A working server\<close>

text \<open>An upload that went through: a transmission key, and a fields outcome the store can record.\<close>

definition good_answer :: "upload_result \<Rightarrow> bool" where
  "good_answer up \<longleftrightarrow> up_status up = ''ok'' \<and> truthy_text (up_key up)
     \<and> (case up_fields up of None \<Rightarrow> True | Some f \<Rightarrow> (case record_for f of Inl e \<Rightarrow> False | Inr r \<Rightarrow> True))"

definition working :: "cycle_env \<Rightarrow> bool" where
  "working env \<longleftrightarrow> (\<forall>n item kw. \<not> ce_stop env n \<and> ce_window env n \<and> (\<exists>up. ce_upload env n item kw = Answered up \<and> good_answer up))
     \<and> oa_mode (ce_args env) = ''incremental''"

lemma fields_record_ok:
  assumes "good_answer up"
  shows "\<exists>r. fields_record_for up d = Inr r"
proof -
  have "record_for (plain_outcome OUTCOME_NONE d) = Inr (frec (Some d) OUTCOME_NONE)"
    by (simp add: record_for_def plain_outcome_def Let_def OUTCOME_NONE_def OUTCOME_STAGED_def OUTCOME_CLEARED_def)
  then show ?thesis
    using assms by (auto simp: good_answer_def fields_record_for_def split: option.splits sum.splits)
qed

lemma good_outcome:
  assumes "good_answer up" and "oa_mode a = ''incremental''"
  obtains out stats' st' where "record_upload_outcome a p m z up stats st = (Inr out, stats', st')" "settles a up out" "out \<noteq> Up_Unchanged" "out \<noteq> Up_Kept"
proof -
  have s: "up_status up = ''ok''" "truthy_text (up_key up)" using assms(1) by (auto simp: good_answer_def)
  have "\<exists>r. map_sum id Some (fields_record_for up d) = Inr r" for d
    using fields_record_ok [OF assms(1), of d] by (elim exE) simp
  then obtain r where r: "(case oa_digest a of None \<Rightarrow> Inr None | Some d \<Rightarrow> map_sum id Some (fields_record_for up d)) = Inr r"
    by (cases "oa_digest a") auto
  obtain out stats' st' where o: "record_ok_upload a p m z up r stats st = (out, stats', st')" by (metis prod_cases3)
  have "fst (write_ok_upload a p m z up r st) \<in> {Up_Partial, Up_Synced}" by (simp add: write_ok_upload_def Let_def)
  then have "out = Up_Partial \<or> out = Up_Synced" using stored_fp_record_ok(2) [of a p m z up r stats st] o by simp
  then have "settles a up out" "out \<noteq> Up_Unchanged" "out \<noteq> Up_Kept" using s assms(2) by (auto simp: settles_def)
  moreover have "record_upload_outcome a p m z up stats st = (Inr out, stats', st')" unfolding record_upload_outcome_def r using s by (simp add: o)
  ultimately show ?thesis using that by blast
qed

lemma requeue_ok: "\<exists>x. fst (requeue_not_accepted scanned stats st) = Inr x"
  by (auto simp: requeue_not_accepted_def store_requeue_fields_def via_db_def requeue_fields_def requeue_candidates_def requeue_where_def
      OUTCOME_NOT_ACCEPTED_def Let_def split_def)

lemma maybe_requeue_ok: "\<exists>ls'. maybe_requeue plan up ls = Inr ls' \<and> ls_calls ls' = ls_calls ls \<and> rr_paused (ls_result ls') = rr_paused (ls_result ls)"
proof (cases "rr_doc_fields (ls_result ls)")
  case (Some stats)
  obtain n s where "fst (requeue_not_accepted (sp_scanned plan) stats (ls_store ls)) = Inr (n, s)" using requeue_ok by (metis surj_pair)
  then show ?thesis by (auto simp: maybe_requeue_def Some split_def split: prod.split)
qed (simp add: maybe_requeue_def)

lemma count_upload_paused [simp]: "rr_paused (count_upload env rel up out r) = rr_paused r"
  by (simp add: count_upload_def Let_def)

lemma count_reextract_paused [simp]: "rr_paused (count_reextract kind out up r) = rr_paused r"
  by (simp add: count_reextract_def)

lemma good_after_answer:
  assumes "good_answer up" and "oa_mode (ce_args env) = ''incremental''" and "store_ok (ls_store ls)"
  obtains ls' where "after_answer env plan item kind up ls = Inr ls'" "rr_paused (ls_result ls') = rr_paused (ls_result ls)"
    "stored_fp (ls_store ls') = (stored_fp (ls_store ls))(ui_rel item \<mapsto> (ui_mtime item, ui_size item))" "store_ok (ls_store ls')"
proof -
  let ?a = "item_args env plan item kind" and ?stats = "note_dropped up (rr_doc_fields (ls_result ls))"
  have m: "oa_mode ?a = ''incremental''" using assms(2) by (simp add: item_args_def)
  obtain out stats' st' where o: "record_upload_outcome ?a (ui_rel item) (ui_mtime item) (ui_size item) up ?stats (ls_store ls) = (Inr out, stats', st')"
    "settles ?a up out" "out \<noteq> Up_Unchanged" "out \<noteq> Up_Kept" by (rule good_outcome [OF assms(1) m])
  let ?ls1 = "ls\<lparr>ls_result := count_reextract kind out up ((ls_result ls)\<lparr>rr_requests := rr_requests (ls_result ls) + up_requests up, rr_doc_fields := stats'\<rparr>),
       ls_store := st', ls_calls := Suc (ls_calls ls)\<rparr>"
  obtain ls2 where ls2: "maybe_requeue plan up ?ls1 = Inr ls2" "rr_paused (ls_result ls2) = rr_paused (ls_result ?ls1)" using maybe_requeue_ok by blast
  have fp: "stored_fp (ls_store ls2) = stored_fp st'" using maybe_requeue_fp [of plan up ?ls1] by (simp add: ls2 after_store_def)
  have "stored_fp st' = (stored_fp (ls_store ls))(ui_rel item \<mapsto> (ui_mtime item, ui_size item))"
    using record_upload_outcome_fp [OF assms(3), of ?a "ui_rel item" "ui_mtime item" "ui_size item" up ?stats] o by simp
  moreover have "store_ok (ls_store ls2)"
    using steps_ok [OF after_answer_steps assms(3), of env plan item kind up] o ls2 by (simp add: after_answer_def after_store_def Let_def)
  ultimately show ?thesis
    using that [of "ls2\<lparr>ls_result := count_upload env (ui_rel item) up out (ls_result ls2)\<rparr>"] o ls2 fp by (simp add: after_answer_def Let_def)
qed

fun apply_uploads :: "(upload_item \<times> work_kind) list \<Rightarrow> (string \<Rightarrow> fingerprint option) \<Rightarrow> string \<Rightarrow> fingerprint option" where
  "apply_uploads [] m = m"
| "apply_uploads ((i, k) # ws) m = apply_uploads ws (m(ui_rel i \<mapsto> (ui_mtime i, ui_size i)))"

lemma working_loop:
  assumes "working env" and "store_ok (ls_store ls)"
  shows "\<exists>ls'. upload_loop env plan ws ls = Inr ls' \<and> rr_paused (ls_result ls') = rr_paused (ls_result ls)
    \<and> stored_fp (ls_store ls') = apply_uploads ws (stored_fp (ls_store ls)) \<and> store_ok (ls_store ls')"
  using assms(2)
proof (induction ws arbitrary: ls)
  case (Cons w ws)
  obtain item kind where w: "w = (item, kind)" by fastforce
  obtain up where u: "ce_upload env (ls_calls ls) item (item_kwargs env plan item kind (ls_store ls)) = Answered up" "good_answer up"
    "\<not> ce_stop env (ls_calls ls)" "ce_window env (ls_calls ls)" "oa_mode (ce_args env) = ''incremental''"
    using assms(1) unfolding working_def by blast
  obtain ls1 where l: "after_answer env plan item kind up ls = Inr ls1" "rr_paused (ls_result ls1) = rr_paused (ls_result ls)"
    "stored_fp (ls_store ls1) = (stored_fp (ls_store ls))(ui_rel item \<mapsto> (ui_mtime item, ui_size item))" "store_ok (ls_store ls1)"
    by (rule good_after_answer [OF u(2,5) Cons.prems])
  show ?case using Cons.IH [OF l(4)] l u unfolding w by (auto simp del: fun_upd_apply)
qed simp

section \<open>The backlog\<close>

lemma counts_independent: "primary_work ps (plan_status ps inp db files c) = counts_as_work ps db (fst c)"
  by (cases c) (auto simp: plan_status_def counts_as_work_def primary_work_def fields_work_def needs_upload_def classify_status_def Let_def
      split: option.splits if_splits)

definition backlog :: "plan_settings \<Rightarrow> sync_db \<Rightarrow> (file_item \<times> source_spec) list \<Rightarrow> (file_item \<times> source_spec) list" where
  "backlog ps db files = filter (\<lambda>c. counts_as_work ps db (fst c)) files"

definition file_fp :: "file_item \<times> source_spec \<Rightarrow> fingerprint" where
  "file_fp c = (fst (snd (snd (fst c))), snd (snd (snd (fst c))))"

lemma plan_item_fp [simp]: "(ui_mtime (plan_item ps files c), ui_size (plan_item ps files c)) = file_fp c"
  by (simp add: plan_item_def file_fp_def split_def)

lemma counts_incremental:
  assumes "ps_mode ps = ''incremental''"
  shows "counts_as_work ps db (fst c) \<longleftrightarrow> fp_of db (file_rel c) \<noteq> Some (file_fp c)
    \<and> (case ps_max_age ps of Some m \<Rightarrow> is_within_max_document_age (ps_age_of ps) (fst (file_fp c)) m | None \<Rightarrow> True)"
proof -
  obtain path rel mtime sz sp where c: "c = ((path, rel, mtime, sz), sp)" by (cases c) auto
  let ?s = "status_from_fingerprint (fp_of db rel) mtime sz"
  have s: "?s = Synced \<longleftrightarrow> fp_of db rel = Some (mtime, sz)" "?s \<noteq> Excluded_Max_Age" "?s \<noteq> Fields_Changed"
    by (auto simp: status_from_fingerprint_def split: option.splits)
  then have "?s = Pending \<or> ?s = Modified \<or> ?s = Synced" by (cases ?s) auto
  then show ?thesis
    using s assms by (cases "ps_max_age ps") (auto simp: c counts_as_work_def primary_work_def fields_work_def needs_upload_def classify_status_def file_rel_def file_fp_def split: if_splits)
qed

lemma counts_fp:
  assumes "ps_mode ps = ''incremental''"
  shows "fp_of db (file_rel c) = Some (file_fp c) \<Longrightarrow> \<not> counts_as_work ps db (fst c)"
    and "fp_of db (file_rel c) = fp_of db' (file_rel c) \<Longrightarrow> counts_as_work ps db (fst c) = counts_as_work ps db' (fst c)"
  by (simp_all add: counts_incremental [OF assms])

lemma synced_fp:
  assumes "plan_status ps inp db files c \<in> {Synced, Fields_Changed}"
  shows "fp_of db (file_rel c) = Some (file_fp c)"
  using assms by (cases c) (auto simp: plan_status_def file_rel_def file_fp_def classify_status_def status_from_fingerprint_def Let_def
      split: option.splits if_splits)

lemma apply_uploads_at:
  assumes "\<forall>(i, k) \<in> set ws. ui_rel i = rel \<longrightarrow> (ui_mtime i, ui_size i) = v"
  shows "apply_uploads ws m rel = (if \<exists>(i, k) \<in> set ws. ui_rel i = rel then Some v else m rel)"
  using assms by (induction ws m rule: apply_uploads.induct) (auto split: if_splits)

text \<open>The work of a cycle consists of files of the scan: the new ones from the backlog, the others already recorded.\<close>

lemma plan_upload_queue:
  assumes "store_ok st" and "plan_files ps files st = (plan, st')"
  shows "sp_upload_queue plan = map (plan_item ps files) (cut (ps_max_upload_files ps) (backlog ps (store_db st) files))"
proof -
  obtain acc where "plan_inv ps (plan_inputs_of ps st) (store_db st) files acc" "plan = plan_finish ps (plan_inputs_of ps st) acc"
    by (rule plan_files_parts [OF assms])
  then show ?thesis by (simp add: plan_inv_def plan_finish_queues work_def backlog_def counts_independent cut_def take_map)
qed

lemma cycle_work_files:
  assumes "store_ok st" and "plan_files ps files st = (plan, st')"
  shows "fst ` set (cycle_work order plan) \<subseteq> plan_item ps files ` set files"
    and "set (sp_upload_queue plan) = plan_item ps files ` set (cut (ps_max_upload_files ps) (backlog ps (store_db st) files))"
    and "i \<in> set (sp_fields_queue plan) \<union> set (sp_reextract_queue plan) \<Longrightarrow> \<exists>c \<in> set files. i = plan_item ps files c \<and> fp_of (store_db st) (file_rel c) = Some (file_fp c)"
proof -
  let ?inp = "plan_inputs_of ps st" and ?db = "store_db st"
  obtain acc where i: "plan_inv ps ?inp ?db files acc" "reextract_inv ps ?inp ?db files acc" and p: "plan = plan_finish ps ?inp acc"
    by (rule plan_files_parts [OF assms])
  show a: "set (sp_upload_queue plan) = plan_item ps files ` set (cut (ps_max_upload_files ps) (backlog ps ?db files))"
    by (simp add: plan_upload_queue [OF assms])
  have f: "set (sp_fields_queue plan) \<subseteq> plan_item ps files ` {c \<in> set files. fp_of ?db (file_rel c) = Some (file_fp c)}"
  proof -
    have "set (sp_fields_queue plan) \<subseteq> set (work ps ?inp ?db (fields_work ps) files)"
      using i(1) trim_length(3) [of _ _ "pa_fields acc"] by (auto simp: plan_inv_def p plan_finish_queues dest: in_set_takeD)
    also have "\<dots> \<subseteq> plan_item ps files ` {c \<in> set files. fp_of ?db (file_rel c) = Some (file_fp c)}"
      using synced_fp [of ps ?inp ?db files] by (auto simp: work_def fields_work_def)
    finally show ?thesis .
  qed
  have r: "set (sp_reextract_queue plan) \<subseteq> plan_item ps files ` {c \<in> set files. fp_of ?db (file_rel c) = Some (file_fp c)}"
  proof -
    have "set (sp_reextract_queue plan) \<subseteq> set (map cr_item (chosen_reextracts ps acc))" unfolding p plan_finish_queues(3) by (rule trim_length(3))
    also have "\<dots> \<subseteq> cr_item ` set (pa_reextract acc)" by (auto simp: chosen_reextracts_def dest: in_set_takeD)
    also have "\<dots> \<subseteq> plan_item ps files ` {c \<in> set files. reextract_work ps ?inp (plan_status ps ?inp ?db files c) (file_rel c)}"
      using i(2) unfolding reextract_inv_def by blast
    also have "\<dots> \<subseteq> plan_item ps files ` {c \<in> set files. fp_of ?db (file_rel c) = Some (file_fp c)}"
      using synced_fp [of ps ?inp ?db files] by (auto simp: reextract_work_def)
    finally show ?thesis .
  qed
  show "i \<in> set (sp_fields_queue plan) \<union> set (sp_reextract_queue plan) \<Longrightarrow> \<exists>c \<in> set files. i = plan_item ps files c \<and> fp_of ?db (file_rel c) = Some (file_fp c)"
    using f r by blast
  have "set (cut m (backlog ps ?db files)) \<subseteq> set files" for m by (auto simp: cut_def backlog_def dest: in_set_takeD)
  then show "fst ` set (cycle_work order plan) \<subseteq> plan_item ps files ` set files"
    using a f r by (auto simp: cycle_work_def ordered_upload_queue_def image_Un image_image)
qed

lemma uploads_at_file:
  assumes "store_ok st" and "plan_files ps files st = (plan, st')" and "distinct (map file_rel files)" and "c \<in> set files"
    and "m (file_rel c) = fp_of (store_db st) (file_rel c)"
  shows "apply_uploads (cycle_work order plan) m (file_rel c) =
    (if c \<in> set (cut (ps_max_upload_files ps) (backlog ps (store_db st) files)) then Some (file_fp c) else fp_of (store_db st) (file_rel c))"
proof -
  note w = cycle_work_files [OF assms(1,2)]
  let ?B = "cut (ps_max_upload_files ps) (backlog ps (store_db st) files)" and ?W = "cycle_work order plan"
  have uniq: "c' = c" if "c' \<in> set files" "file_rel c' = file_rel c" for c'
    using assms(3,4) that by (metis distinct_map inj_onD)
  have same: "(ui_mtime i, ui_size i) = file_fp c" if "(i, k) \<in> set ?W" "ui_rel i = file_rel c" for i k
    using w(1) [of order] that uniq by (force dest: subsetD)
  have B: "set ?B \<subseteq> set files" by (auto simp: cut_def backlog_def dest: in_set_takeD)
  have items: "fst ` set ?W = set (sp_upload_queue plan) \<union> (set (sp_fields_queue plan) \<union> set (sp_reextract_queue plan))"
    by (auto simp: cycle_work_def ordered_upload_queue_def image_Un image_image)
  have at: "apply_uploads ?W m (file_rel c) = (if \<exists>(i, k) \<in> set ?W. ui_rel i = file_rel c then Some (file_fp c) else m (file_rel c))"
    using same by (intro apply_uploads_at) auto
  have ex: "(\<exists>(i, k) \<in> set ?W. ui_rel i = file_rel c) \<longleftrightarrow> (\<exists>i \<in> fst ` set ?W. ui_rel i = file_rel c)" by force
  show ?thesis
  proof (cases "c \<in> set ?B")
    case True
    then have "plan_item ps files c \<in> fst ` set ?W" using w(2) items by blast
    then have "\<exists>(i, k) \<in> set ?W. ui_rel i = file_rel c" using ex plan_item_rel by blast
    then show ?thesis using True at by simp
  next
    case False
    have "fp_of (store_db st) (file_rel c) = Some (file_fp c)" if i: "i \<in> fst ` set ?W" "ui_rel i = file_rel c" for i
    proof -
      have "c' = c" if c': "c' \<in> set ?B" "i = plan_item ps files c'" for c' using uniq [of c'] subsetD [OF B c'(1)] i(2) c'(2) by simp
      then have "i \<notin> set (sp_upload_queue plan)" unfolding w(2) using False by blast
      then obtain c' where "c' \<in> set files" "i = plan_item ps files c'" "fp_of (store_db st) (file_rel c') = Some (file_fp c')"
        using i(1) items w(3) [of i] by blast
      moreover from this i(2) have "c' = c" using uniq by simp
      ultimately show ?thesis by simp
    qed
    then have "\<exists>i \<in> fst ` set ?W. ui_rel i = file_rel c \<Longrightarrow> fp_of (store_db st) (file_rel c) = Some (file_fp c)" by blast
    then show ?thesis
      using False at assms(5) unfolding ex by (cases "\<exists>i \<in> fst ` set ?W. ui_rel i = file_rel c") (simp_all only: if_P if_not_P if_False if_True simp_thms)
  qed
qed

definition complete_scan :: "scan_plan \<Rightarrow> scan_cycle" where
  "complete_scan plan = \<lparr>sc_plan = plan, sc_unreadable = [], sc_truncated = False, sc_stopped = False, sc_skipped = 0\<rparr>"

lemma complete_scan_plan [simp]: "sc_plan (complete_scan plan) = plan"
  by (simp add: complete_scan_def)

lemma probe_first_ok: "\<exists>x. fst (probe_first ci scan r l st) = Inr x"
proof -
  have cnt: "\<exists>n. count_fields_requeue_candidates OUTCOME_NOT_ACCEPTED ps db = Inr n" for ps db
    by (simp add: count_fields_requeue_candidates_def requeue_candidates_def requeue_where_def OUTCOME_NOT_ACCEPTED_def Let_def)
  have req: "\<exists>n s. fst (requeue_not_accepted sc stats st) = Inr (n, s)" for sc stats using requeue_ok by (metis surj_pair)
  have "\<exists>b s. fst (probe_doc_fields p n sc stats l st) = Inr (b, s)" for p n sc stats
  proof (cases p)
    case (Some answer)
    obtain k where k: "count_fields_requeue_candidates OUTCOME_NOT_ACCEPTED (Some sc) (store_db st) = Inr k" using cnt by blast
    obtain j t st' where r: "requeue_not_accepted sc stats st = (Inr (j, t), st')" using req by (metis prod.collapse)
    show ?thesis by (simp add: probe_doc_fields_def Some k r split_def Let_def) blast
  qed (auto simp: probe_doc_fields_def)
  then obtain b s where "fst (probe_doc_fields (ce_probe (ci_env ci)) (ci_mono ci) (sp_scanned (sc_plan scan)) (the (rr_doc_fields r)) l st) = Inr (b, s)" by blast
  then show ?thesis by (cases "rr_doc_fields r") (auto simp: probe_first_def split_def)
qed

lemma finish_cycle_ok: "\<exists>r. fst (finish_cycle ci scan ls q) = Inr r"
  by (simp add: finish_cycle_def fields_requeue_candidate_paths_def requeue_candidates_def requeue_where_def Let_def split_def)

text \<open>One cycle over a complete scan with a working server.\<close>

lemma working_cycle:
  assumes "store_ok st" and "plan_files ps files st = (plan, st1)" and "distinct (map file_rel files)" and "working (ci_env ci)"
    and "run_plan ci (complete_scan plan) l st1 q = (out, l', st', q')" and "c \<in> set files"
  shows "(\<exists>r. out = Inr r) \<and> fp_of (store_db st') (file_rel c) =
    (if c \<in> set (cut (ps_max_upload_files ps) (backlog ps (store_db st) files)) then Some (file_fp c) else fp_of (store_db st) (file_rel c))"
proof -
  have st1: "store_ok st1" "store_db st1 = store_db st" using plan_files_store [OF assms(1,2)] by auto
  obtain prog q1 where p: "read_progress ci q = (prog, q1)" by fastforce
  let ?scan = "complete_scan plan" and ?r = "initial_result (ce_fields_on (ci_env ci)) (complete_scan plan) prog"
  obtain checked stats last1 st2 where pr: "probe_first ci ?scan ?r l st1 = (Inr (checked, stats), last1, st2)"
    using probe_first_ok by (metis prod.collapse)
  have st2: "store_ok st2" "stored_fp st2 = fp_of (store_db st)"
    using steps_ok [OF probe_first_store(1) st1(1)] probe_first_store(2) [of ci ?scan ?r l st1] pr st1(2) by (auto simp: stored_fp_def) (metis snd_conv)
  let ?ls = "\<lparr>ls_result = ?r\<lparr>rr_doc_fields := stats\<rparr>, ls_store = st2, ls_checked = checked, ls_calls = 0\<rparr>"
  obtain ls where ls: "upload_loop (ci_env ci) plan (cycle_work (ci_order ci) plan) ?ls = Inr ls"
    "stored_fp (ls_store ls) = apply_uploads (cycle_work (ci_order ci) plan) (stored_fp st2)" "store_ok (ls_store ls)"
    using working_loop [OF assms(4), of ?ls plan "cycle_work (ci_order ci) plan"] st2(1) by auto
  have fin: "finish_cycle ci ?scan ls q1 = (out, st', q')"
    using assms(5) by (simp add: run_plan_def p pr ls(1) split: prod.splits)
  obtain acc where acc: "plan_inv ps (plan_inputs_of ps st) (store_db st) files acc" "plan = plan_finish ps (plan_inputs_of ps st) acc"
    by (rule plan_files_parts [OF assms(1,2)])
  have "file_rel c \<in> set (sp_scanned (sc_plan ?scan))"
    using acc assms(6) by (simp add: plan_inv_def plan_finish_queues)
  then have "stored_fp st' (file_rel c) = stored_fp (ls_store ls) (file_rel c)" using finish_cycle_store(2) [OF ls(3) fin] by blast
  then show ?thesis
    using uploads_at_file [OF assms(1,2,3,6), of "stored_fp st2" "ci_order ci"] finish_cycle_ok [of ci ?scan ls q1] fin ls(2) st2(2)
    by (simp add: stored_fp_def)
qed

lemma filter_drop:
  assumes "distinct xs"
  shows "filter (\<lambda>x. P x \<and> x \<notin> set (cut m (filter P xs))) xs = (if m \<le> 0 then [] else drop (nat m) (filter P xs))"
proof -
  let ?f = "filter P xs"
  have "filter (\<lambda>x. P x \<and> x \<notin> set (cut m ?f)) xs = filter (\<lambda>x. x \<notin> set (cut m ?f)) ?f"
    by (simp add: conj_commute)
  also have "\<dots> = filter (\<lambda>x. x \<notin> set (cut m ?f)) (take (nat m) ?f @ drop (nat m) ?f)" by simp
  also have "\<dots> = (if m \<le> 0 then [] else drop (nat m) ?f)"
    using set_take_disj_set_drop_if_distinct [of ?f "nat m" "nat m"] assms unfolding filter_append
    by (auto simp: cut_def filter_empty_conv filter_id_conv disjoint_iff)
  finally show ?thesis .
qed

lemma backlog_step:
  assumes "store_ok st" and "plan_files ps files st = (plan, st1)" and "distinct (map file_rel files)" and "working (ci_env ci)"
    and "run_plan ci (complete_scan plan) l st1 q = (out, l', st', q')" and "ps_mode ps = ''incremental''"
  shows "backlog ps (store_db st') files =
    (if ps_max_upload_files ps \<le> 0 then [] else drop (nat (ps_max_upload_files ps)) (backlog ps (store_db st) files))"
proof -
  let ?m = "ps_max_upload_files ps" and ?P = "\<lambda>c. counts_as_work ps (store_db st) (fst c)"
  let ?B = "cut ?m (filter ?P files)"
  have "counts_as_work ps (store_db st') (fst c) \<longleftrightarrow> ?P c \<and> c \<notin> set ?B" if "c \<in> set files" for c
  proof -
    have fp: "fp_of (store_db st') (file_rel c) = (if c \<in> set ?B then Some (file_fp c) else fp_of (store_db st) (file_rel c))"
      using working_cycle [OF assms(1-5) that] by (simp add: backlog_def)
    show ?thesis
    proof (cases "c \<in> set ?B")
      case True
      then show ?thesis using counts_fp(1) [OF assms(6), of "store_db st'" c] fp by simp
    next
      case False
      then show ?thesis using counts_fp(2) [OF assms(6), of "store_db st'" c "store_db st"] fp by simp
    qed
  qed
  then have "backlog ps (store_db st') files = filter (\<lambda>c. ?P c \<and> c \<notin> set ?B) files" unfolding backlog_def by (rule filter_cong [OF refl])
  also have "\<dots> = (if ?m \<le> 0 then [] else drop (nat ?m) (filter ?P files))" by (rule filter_drop) (use assms(3) in \<open>simp add: distinct_map\<close>)
  finally show ?thesis by (simp add: backlog_def)
qed

text \<open>Cycles one after the other, each over a complete scan of the same files. The store is opened anew by each cycle.\<close>

fun repeat_cycles :: "(nat \<Rightarrow> cycle_inputs) \<Rightarrow> (file_item \<times> source_spec) list \<Rightarrow> nat \<Rightarrow> rat option \<times> sync_store \<times> folder_queue
    \<Rightarrow> rat option \<times> sync_store \<times> folder_queue" where
  "repeat_cycles runs files 0 s = s"
| "repeat_cycles runs files (Suc n) s =
     (let (l, st, q) = repeat_cycles runs files n s;
          (plan, st1) = plan_files (cycle_settings (runs n)) files st;
          (out, l', st', q') = run_plan (runs n) (complete_scan plan) l st1 q
      in (l', st', q'))"

text \<open>
  (C1) The backlog drains. While the files stay as they are, no cycle is interrupted and the server takes every upload,
  the \<open>n\<close>-th cycle leaves exactly the files beyond the first \<open>n * max_files_per_cycle\<close> of the backlog to be uploaded,
  whatever the fields configuration, the re-extractions and the requeues do beside it; with no cap the first cycle
  uploads everything. After that a cycle's upload queue is empty: nothing is uploaded twice.
\<close>

theorem backlog_drains:
  assumes "store_ok st" and "distinct (map file_rel files)" and "\<forall>n. working (ci_env (runs n)) \<and> cycle_settings (runs n) = ps"
    and "ps_mode ps = ''incremental''" and "repeat_cycles runs files n (l, st, q) = (l', st', q')"
  shows "backlog ps (store_db st') files =
      (if n = 0 then backlog ps (store_db st) files
       else if ps_max_upload_files ps \<le> 0 then [] else drop (n * nat (ps_max_upload_files ps)) (backlog ps (store_db st) files))
    \<and> sp_upload_queue (fst (plan_files ps files st')) = map (plan_item ps files) (cut (ps_max_upload_files ps) (backlog ps (store_db st') files))"
proof -
  let ?m = "ps_max_upload_files ps"
  have "store_ok st' \<and> backlog ps (store_db st') files =
      (if n = 0 then backlog ps (store_db st) files else if ?m \<le> 0 then [] else drop (n * nat ?m) (backlog ps (store_db st) files))"
    using assms(5)
  proof (induction n arbitrary: l' st' q')
    case 0
    then show ?case using assms(1) by simp
  next
    case (Suc n)
    obtain l1 st1 q1 where s: "repeat_cycles runs files n (l, st, q) = (l1, st1, q1)" by (metis prod_cases3)
    obtain plan st2 where p: "plan_files ps files st1 = (plan, st2)" by fastforce
    obtain out where r: "run_plan (runs n) (complete_scan plan) l1 st2 q1 = (out, l', st', q')"
      using Suc.prems assms(3) by (auto simp: s p Let_def split: prod.splits)
    note ih = Suc.IH [OF s]
    have "working (ci_env (runs n))" using assms(3) by blast
    note b = backlog_step [OF conjunct1 [OF ih] p assms(2) this r assms(4)]
    have "store_ok st'" by (rule run_plan_store [OF _ r]) (use plan_files_store [OF conjunct1 [OF ih] p] in blast)
    then show ?case using b ih by (auto simp: add.commute)
  qed
  moreover obtain plan st1 where p: "plan_files ps files st' = (plan, st1)" by fastforce
  ultimately show ?thesis using plan_upload_queue [OF _ p] by (simp add: p)
qed

section \<open>Leaving a subfolder behind\<close>

definition requeued_of :: "doc_fields_cycle option \<Rightarrow> int" where
  "requeued_of stats = (case stats of Some s \<Rightarrow> dc_requeued s | None \<Rightarrow> 0)"

named_theorems requeued_simps

lemma requeued_notes [requeued_simps]:
  "requeued_of (note_fields n f stats) = requeued_of stats" "requeued_of (reupload_done stats) = requeued_of stats"
  "requeued_of (note_dropped up stats) = requeued_of stats"
  by (cases stats; simp add: requeued_of_def note_fields_def note_outcome_def count_outcome_def reupload_done_def note_dropped_def Let_def split: option.split)+

lemma requeued_counts [requeued_simps]:
  "requeued_of (fst (snd (count_reupload_failure m p d c k stats st))) = requeued_of stats"
  "requeued_of (fst (count_ok_upload a p up x stats st)) = requeued_of stats"
proof -
  show one: "requeued_of (fst (snd (count_reupload_failure m p d c k stats st))) = requeued_of stats" for m d c k stats st
    by (simp add: count_reupload_failure_def split_def Let_def requeued_simps)
  show "requeued_of (fst (count_ok_upload a p up x stats st)) = requeued_of stats"
    by (simp add: count_ok_upload_def split_def Let_def requeued_simps one split: option.split)
qed

lemma requeued_record: "requeued_of (fst (snd (record_upload_outcome a p m z up stats st))) = requeued_of stats"
proof -
  have "requeued_of (fst (snd (record_failed_upload a p m z up stats st))) = requeued_of stats"
    by (simp add: record_failed_upload_def split_def Let_def requeued_simps split: option.split)
  then show ?thesis
    by (simp add: record_upload_outcome_def record_ok_upload_def split_def Let_def requeued_simps split: option.split sum.split)
qed

lemma requeue_each_nonneg: "fst (requeue_each wh ps t) \<ge> 0"
  by (induction wh ps t rule: requeue_each.induct) (simp add: split_def Let_def)+

lemma requeue_not_accepted_grows:
  "requeue_not_accepted sc stats st = (Inr (n, stats'), st') \<Longrightarrow> dc_requeued stats \<le> dc_requeued stats'"
  using requeue_each_nonneg
  by (auto simp: requeue_not_accepted_def store_requeue_fields_def via_db_def requeue_fields_def split_def Let_def split: sum.splits if_splits option.splits)

definition result_keeps :: "run_result \<Rightarrow> run_result \<Rightarrow> bool" where
  "result_keeps r r' \<longleftrightarrow> rr_summary r' = rr_summary r \<and> rr_scan_truncated r' = rr_scan_truncated r
     \<and> requeued_of (rr_doc_fields r) \<le> requeued_of (rr_doc_fields r')
     \<and> (rr_paused r' = rr_paused r \<or> rr_paused r' \<in> Some ` set pausing_reasons)"

lemma keeps_trans: "result_keeps r r1 \<Longrightarrow> result_keeps r1 r2 \<Longrightarrow> result_keeps r r2"
  by (auto simp: result_keeps_def)

lemma keeps_counts: "result_keeps r (count_upload env rel up out r)" "result_keeps r (count_reextract kind out up r)"
  by (auto simp: result_keeps_def count_upload_def count_reextract_def Let_def)

lemma maybe_requeue_keeps: "maybe_requeue plan up ls = Inr ls' \<Longrightarrow> result_keeps (ls_result ls) (ls_result ls')"
  using requeue_not_accepted_grows
  by (auto simp: maybe_requeue_def result_keeps_def requeued_of_def split: option.splits if_splits prod.splits sum.splits)

lemma after_answer_keeps:
  assumes "after_answer env plan item kind up ls = Inr ls'"
  shows "result_keeps (ls_result ls) (ls_result ls')"
proof -
  let ?stats = "note_dropped up (rr_doc_fields (ls_result ls))"
  obtain out stats1 st1 where r: "record_upload_outcome (item_args env plan item kind) (ui_rel item) (ui_mtime item) (ui_size item) up ?stats (ls_store ls)
      = (Inr out, stats1, st1)"
    using assms by (auto simp: after_answer_def Let_def split: prod.splits sum.splits)
  have "requeued_of stats1 = requeued_of (rr_doc_fields (ls_result ls))"
    using requeued_record [of "item_args env plan item kind" "ui_rel item" "ui_mtime item" "ui_size item" up ?stats "ls_store ls"] by (simp add: r requeued_simps)
  then have "result_keeps (ls_result ls) ((ls_result ls)\<lparr>rr_requests := rr_requests (ls_result ls) + up_requests up, rr_doc_fields := stats1\<rparr>)"
    by (simp add: result_keeps_def)
  note k = keeps_trans [OF this keeps_counts(2)]
  show ?thesis
  proof (cases "out = Up_Unchanged \<or> out = Up_Kept")
    case True
    then show ?thesis using assms k by (auto simp: after_answer_def r Let_def)
  next
    case False
    then obtain ls2 where "maybe_requeue plan up (ls\<lparr>ls_result := count_reextract kind out up ((ls_result ls)\<lparr>rr_requests := rr_requests (ls_result ls)
         + up_requests up, rr_doc_fields := stats1\<rparr>), ls_store := st1, ls_calls := Suc (ls_calls ls)\<rparr>) = Inr ls2"
      and "ls' = ls2\<lparr>ls_result := count_upload env (ui_rel item) up out (ls_result ls2)\<rparr>"
      using assms by (auto simp: after_answer_def r Let_def split: sum.splits)
    then show ?thesis using maybe_requeue_keeps keeps_counts(1) k by (fastforce intro: keeps_trans)
  qed
qed

lemma upload_loop_keeps: "upload_loop env plan ws ls = Inr ls' \<Longrightarrow> result_keeps (ls_result ls) (ls_result ls')"
proof (induction ws arbitrary: ls)
  case (Cons w ws)
  have "result_keeps (ls_result ls) (ls_result (pause reason ls))" if "reason \<in> {''stop_requested'', ''outside_window'', ''rate_limited''}" for reason
    using that by (auto simp: result_keeps_def pause_def pausing_reasons_def)
  moreover have "result_keeps (ls_result ls) (ls_result ls')" if "after_answer env plan i k up ls = Inr x" "upload_loop env plan ws x = Inr ls'" for i k up x
    using keeps_trans [OF after_answer_keeps [OF that(1)] Cons.IH [OF that(2)]] .
  ultimately show ?case
    using Cons.prems by (cases w) (auto split: if_splits upload_answer.splits sum.splits)
qed (simp add: result_keeps_def)

lemma progress_keeps: "load_row key q \<noteq> None \<Longrightarrow> snd (progress listing now key q) = q"
  by (auto simp: progress_def Let_def split: option.splits)

lemma read_progress_keeps: "source_folder ci = Some folder \<Longrightarrow> load_row folder q \<noteq> None \<Longrightarrow> snd (read_progress ci q) = q"
  using progress_keeps by (simp add: read_progress_def split_def)

definition cursor :: "string \<Rightarrow> folder_queue \<Rightarrow> (string list \<times> nat) option" where
  "cursor key q = map_option (\<lambda>(names, i, s). (names, i)) (load_row key q)"

lemma cursor_stack:
  "cursor key (save_scan_stack now k stack q) = cursor key q" "cursor key (clear_scan_stack now k q) = cursor key q"
  by (auto simp: cursor_def save_scan_stack_def clear_scan_stack_def load_save split: option.splits)

lemma cursor_load: "cursor key q \<noteq> None \<longleftrightarrow> load_row key q \<noteq> None"
  by (simp add: cursor_def)

lemma sequential_target_keeps:
  assumes "source_folder ci = Some folder" and "load_row folder q \<noteq> None"
    and "sequential_target (ci_fsys ci) f (cycle_sources ci) q = Inr (t, n, q')"
  shows "q' = q \<and> (\<forall>w x. t = Some (w, x) \<longrightarrow> wt_rel_root x = folder)"
proof -
  obtain source sources where s: "cycle_sources ci = source # sources" "fsys_resolve (ci_fsys ci) (jget source ''path'') = Some folder"
    using assms(1) by (auto simp: source_folder_def split: if_splits list.splits)
  have "snd (progress l now folder q) = q" "snd (current_path l now folder q) = q" for l now
    using progress_keeps [OF assms(2)] by (auto simp: current_path_def split_def Let_def)
  then show ?thesis
    using assms(3) by (auto simp: sequential_target_def s split_def Let_def split: if_splits option.splits sum.splits)
qed

lemma plan_sequential_cursor:
  assumes "source_folder ci = Some folder" and "load_row folder q \<noteq> None" and "plan_sync_cycle ci st q = Inr (scan, st1, q1)"
  shows "cursor folder q1 = cursor folder q"
    and "\<exists>files. plan_files (cycle_settings ci) files st = (sc_plan scan, st1)"
proof -
  have sq: "sequential_subfolders_enabled (ci_config ci)" using assms(1) by (auto simp: source_folder_def split: if_splits)
  have seq: "plan_sequential_cycle (ci_fsys ci) (cycle_settings ci) (ci_walk ci) (max_scan_entries_per_cycle (ci_config ci)) (cycle_sources ci) st q
      = Inr (scan, st1, q1)" using assms(3) by (simp add: plan_sync_cycle_def sq)
  then obtain t n q2 where t: "sequential_target (ci_fsys ci) (ps_fields_on (cycle_settings ci)) (cycle_sources ci) q = Inr (t, n, q2)"
    unfolding plan_sequential_cycle_def by (auto split: sum.splits)
  have q2: "q2 = q" using sequential_target_keeps [OF assms(1,2) t] by blast
  show "cursor folder q1 = cursor folder q"
    using seq by (cases t) (auto simp: plan_sequential_cycle_def t q2 Let_def split_def cursor_stack split: if_splits)
  have "\<exists>files. plan_files ps files st = (sc_plan (fst (scan_targets ps cfg m ts k st)), snd (snd (scan_targets ps cfg m ts k st)))" for ps cfg m ts k
    by (auto simp: scan_targets_def Let_def split_def)
  then show "\<exists>files. plan_files (cycle_settings ci) files st = (sc_plan scan, st1)"
    using seq by (cases t) (auto simp: plan_sequential_cycle_def t q2 Let_def split_def)
qed

lemma maybe_advance_moves:
  assumes "cursor key (snd (maybe_advance now key pending modified truncated paused q)) \<noteq> cursor key q"
  shows "\<not> truncated \<and> pending \<le> 0 \<and> modified \<le> 0 \<and> (\<forall>r. paused = Some r \<longrightarrow> r \<notin> set pausing_reasons)"
  using assms by (auto simp: maybe_advance_def cursor_def split: if_splits option.splits)

lemma count_list_zero: "int (count_list xs a) \<le> 0 \<longleftrightarrow> a \<notin> set xs"
  by (simp add: count_list_0_iff)

lemma advance_queue_cursor:
  assumes "source_folder ci = Some folder" and "load_row folder q \<noteq> None" and "advance_queue ci scan r q = (r', q')"
  shows "rr_paused r' = rr_paused r"
    and "cursor folder q' \<noteq> cursor folder q \<Longrightarrow> cursor folder (snd (maybe_advance (fsys_now (ci_fsys ci)) folder (sum_pending (rr_summary r))
      (sum_modified (rr_summary r) + sum_fields_changed (rr_summary r) + rr_re_reached r + requeued_of (rr_doc_fields r)) (rr_scan_truncated r) (rr_paused r) q))
      \<noteq> cursor folder q"
proof -
  have "load_row folder (snd (maybe_advance now folder a b t p q)) \<noteq> None" for now a b t p
    using assms(2) by (auto simp: maybe_advance_def load_save split: option.splits)
  then have "snd (read_progress ci (snd (maybe_advance now folder a b t p q))) = snd (maybe_advance now folder a b t p q)" for now a b t p
    using read_progress_keeps [OF assms(1)] by blast
  then show "rr_paused r' = rr_paused r"
    "cursor folder q' \<noteq> cursor folder q \<Longrightarrow> cursor folder (snd (maybe_advance (fsys_now (ci_fsys ci)) folder (sum_pending (rr_summary r))
      (sum_modified (rr_summary r) + sum_fields_changed (rr_summary r) + rr_re_reached r + requeued_of (rr_doc_fields r)) (rr_scan_truncated r) (rr_paused r) q))
      \<noteq> cursor folder q"
    using assms(1,3) by (auto simp: advance_queue_def requeued_of_def split_def Let_def split: if_splits)
qed

lemma plan_all_settled:
  assumes "store_ok st" and "plan_files ps files st = (plan, st1)" and "sum_pending (sp_summary plan) \<le> 0"
    and "sum_modified (sp_summary plan) + sum_fields_changed (sp_summary plan) + sp_reextract_reached plan + n \<le> 0" and "n \<ge> 0"
  shows "(\<forall>c \<in> set files. plan_status ps (plan_inputs_of ps st) (store_db st) files c \<in> {Synced, Excluded_Max_Age})
    \<and> (\<forall>c \<in> set files. \<not> reextract_work ps (plan_inputs_of ps st) (plan_status ps (plan_inputs_of ps st) (store_db st) files c) (file_rel c))"
proof -
  let ?inp = "plan_inputs_of ps st" and ?db = "store_db st"
  obtain acc where i: "plan_inv ps ?inp ?db files acc" "reextract_inv ps ?inp ?db files acc" and p: "plan = plan_finish ps ?inp acc"
    by (rule plan_files_parts [OF assms(1,2)])
  have r: "sp_reextract_reached plan = int (length (pa_reextract acc))" by (simp add: p plan_finish_def Let_def)
  have z: "sum_pending (sp_summary plan) \<le> 0" "sum_modified (sp_summary plan) \<le> 0" "sum_fields_changed (sp_summary plan) \<le> 0"
    and "int (length (pa_reextract acc)) \<le> 0"
    using assms(3,4,5) r plan_counts(3,5) [OF i(1)] unfolding p plan_finish_queues by linarith+
  then have e: "pa_reextract acc = []" by simp
  have "s \<notin> set (statuses ps ?inp ?db files)" if "s \<in> {Pending, Modified, Fields_Changed}" for s
    using that z plan_counts(2,3,5) [OF i(1)] by (auto simp: p plan_finish_queues count_list_0_iff)
  then have "plan_status ps ?inp ?db files c \<in> {Synced, Excluded_Max_Age}" if "c \<in> set files" for c
    using that by (cases "plan_status ps ?inp ?db files c") (auto simp: statuses_def image_iff)
  moreover have "\<not> reextract_work ps ?inp (plan_status ps ?inp ?db files c) (file_rel c)" if "c \<in> set files" for c
    using i(2) that unfolding reextract_inv_def e list.map set_simps by blast
  ultimately show ?thesis by blast
qed

lemma probe_requeued:
  assumes "probe_first ci scan (initial_result f scan prog) l st = (Inr (checked, stats), l', st')"
  shows "requeued_of stats \<ge> 0"
proof -
  have "dc_requeued stats \<le> dc_requeued s" if pr: "probe_doc_fields p n sc stats l st = (Inr (b, s), l', st')" for p n sc stats b s
  proof (cases "s = stats")
    case False
    then have "\<exists>k st2. requeue_not_accepted sc stats st = (Inr (k, s), st2)"
      using pr by (auto simp: probe_doc_fields_def Let_def map_sum_def split: option.splits sum.splits if_splits prod.splits)
    then show ?thesis using requeue_not_accepted_grows by blast
  qed simp
  note grows = this
  have z: "dc_requeued s = 0" if "rr_doc_fields (initial_result f scan prog) = Some s" for s
    using that by (auto simp: initial_result_def new_cycle_def Let_def split: if_splits)
  show ?thesis
  proof (cases "rr_doc_fields (initial_result f scan prog)")
    case (Some s)
    then obtain s' where "stats = Some s'" "probe_doc_fields (ce_probe (ci_env ci)) (ci_mono ci) (sp_scanned (sc_plan scan)) s l st = (Inr (checked, s'), l', st')"
      using assms by (auto simp: probe_first_def map_sum_def split: prod.splits sum.splits)
    then show ?thesis using grows z [OF Some] by (fastforce simp: requeued_of_def)
  qed (use assms in \<open>simp add: probe_first_def requeued_of_def\<close>)
qed


section \<open>Examples\<close>

definition example_env :: cycle_env where
  "example_env = \<lparr>ce_stop = (\<lambda>_. False), ce_window = (\<lambda>_. True), ce_upload = (\<lambda>_ _ _. Answered example_upload), ce_probe = None,
     ce_args = example_args, ce_fields_on = True, ce_hash = (\<lambda>_. ''h''), ce_max_tx = 100\<rparr>"

definition example_fsys :: file_system where
  "example_fsys = \<lparr>fsys_resolve = (\<lambda>_. Some ''/r''), fsys_tree = (\<lambda>p. Dir_Node p (Some [])),
     fsys_listing = (\<lambda>_. Some [(''a'', Some True), (''b'', Some True)]), fsys_now = ''t''\<rparr>"

definition example_cycle_walk :: walk_cfg where
  "example_cycle_walk = \<lparr>wc_rel_root = ''/r'', wc_recursive = True, wc_include = [''*''], wc_exclude = [], wc_max_bytes = 100,
     wc_glob = (\<lambda>_ _. True), wc_counts = (\<lambda>_. False), wc_stop = (\<lambda>_. False)\<rparr>"

definition example_inputs :: "jval \<Rightarrow> cycle_inputs" where
  "example_inputs config = \<lparr>ci_body = JObj [(''sources'', JArr [JObj [(''path'', JStr ''/r'')]])], ci_config = Some config, ci_fsys = example_fsys,
     ci_walk = example_cycle_walk, ci_settings = example_settings, ci_order = ''small_first'', ci_env = example_env, ci_delete = (\<lambda>_. (True, None)), ci_mono = 0\<rparr>"

definition one_per_cycle :: cycle_inputs where
  "one_per_cycle = example_inputs (JObj [(''max_files_per_cycle'', JInt 1)])"

definition in_sequence :: cycle_inputs where
  "in_sequence = example_inputs (JObj [(''sequential_subfolders'', JBool True)])"

theorem cycle_keeps_store_ok_witness:
  "store_ok example_store \<and> store_ok (fst (snd (snd (run_sync_work one_per_cycle None example_store []))))"
  using cycle_keeps_store_ok [OF example_store_ok, of one_per_cycle None "[]"] example_store_ok by (metis prod.collapse)

theorem backlog_drains_witness:
  "length (backlog (cycle_settings one_per_cycle) (store_db example_store) example_files) = 2
   \<and> backlog (cycle_settings one_per_cycle) (store_db (fst (snd (repeat_cycles (\<lambda>_. one_per_cycle) example_files 2 (None, example_store, []))))) example_files = []"
proof -
  let ?ps = "cycle_settings one_per_cycle"
  have w: "working (ci_env one_per_cycle)"
    by (simp add: working_def one_per_cycle_def example_inputs_def example_env_def good_answer_def example_upload_def example_args_def truthy_text_def)
  have m: "ps_mode ?ps = ''incremental''" "ps_max_upload_files ?ps = 1" by code_simp+
  have d: "distinct (map file_rel example_files)" by code_simp
  have l: "length (backlog ?ps (store_db example_store) example_files) = 2" by code_simp
  obtain l' st' q' where s: "repeat_cycles (\<lambda>_. one_per_cycle) example_files 2 (None, example_store, []) = (l', st', q')" by (metis prod_cases3)
  have "backlog ?ps (store_db st') example_files = drop 2 (backlog ?ps (store_db example_store) example_files)"
    using backlog_drains [OF example_store_ok d _ m(1) s] w m(2) by simp
  then show ?thesis using l by (simp add: s)
qed


end
