(* ===== verification/Sync_Scheduler.thy ===== *)
theory Sync_Scheduler
  imports Sync_Cycle
begin

text \<open>
  The scheduler (\<open>sync/sync_scheduler.py\<close>): what one run of a cycle does to the module's variables, the status it reports,
  the waiting between cycles with its backoff, and the threads that run cycles. The module's variables are a record;
  clocks, the time zone and the files of configuration and request body are arguments. The threads are a step relation
  over the two locks, the stop event and the status, one step per access.

  The lemmas show that the status comes from a closed vocabulary, how the backoff grows and is bounded, that at most one
  thread runs cycles at a time, and that a stop that did not run into its timeout leaves none running.
\<close>

section \<open>The module's variables\<close>

record sched_mem =
  sm_status :: string
  sm_last_run :: "string option"
  sm_files :: int
  sm_summary :: "sync_summary option"
  sm_progress :: "subfolder_progress option"
  sm_error :: "string option"
  sm_multiplier :: int
  sm_doc_fields :: "doc_fields_cycle option"
  sm_fields_changed :: "int option"
  sm_requeued :: int
  sm_answer :: "string option"
  sm_reachable :: "string list option"

definition initial_mem :: sched_mem where
  "initial_mem = \<lparr>sm_status = ''awaiting_initial_sync_body'', sm_last_run = None, sm_files = 0, sm_summary = None, sm_progress = None,
     sm_error = None, sm_multiplier = 1, sm_doc_fields = None, sm_fields_changed = None, sm_requeued = 0, sm_answer = None, sm_reachable = None\<rparr>"

definition set_status :: "string \<Rightarrow> sched_mem \<Rightarrow> sched_mem" where
  "set_status status m = m\<lparr>sm_status := status\<rparr>"

section \<open>Document fields\<close>

definition cycle_answer :: "doc_fields_cycle option \<Rightarrow> string option" where
  "cycle_answer cycle =
     (case cycle of None \<Rightarrow> None
      | Some c \<Rightarrow>
          (let seen_on = tally (dc_outcomes c) ''staged'' + tally (dc_outcomes c) ''cleared'' + sum_list (map snd (dc_refused c))
           in if seen_on \<noteq> 0 then Some ''accepted''
              else if tally (dc_outcomes c) ''not_accepted'' \<noteq> 0 then Some ''not_accepted'' else None))"

definition first_answer :: "'a option \<Rightarrow> 'a option \<Rightarrow> 'a option" where
  "first_answer a b = (case a of Some x \<Rightarrow> Some x | None \<Rightarrow> b)"

definition server_accepts_fields :: "doc_fields_cycle option \<Rightarrow> fields_counts_t \<Rightarrow> string option \<Rightarrow> string" where
  "server_accepts_fields cycle counts latest_answer =
     (case first_answer (cycle_answer cycle) latest_answer of Some a \<Rightarrow> a
      | None \<Rightarrow>
          (let acc = accepted counts + refused counts;
               nacc = not_accepted counts - (if acc \<noteq> 0 then not_accepted_requeued counts else 0)
           in if acc \<noteq> 0 \<and> nacc = 0 then ''accepted'' else if nacc \<noteq> 0 \<and> acc = 0 then ''not_accepted'' else ''unknown''))"

text \<open>\<open>doc_fields_status\<close>: the estimate of what waits for a re-upload.\<close>

definition pending_reupload :: "sched_mem \<Rightarrow> fields_counts_t \<Rightarrow> int" where
  "pending_reupload m counts =
     (case (sm_doc_fields m, sm_fields_changed m) of
        (Some c, Some changed) \<Rightarrow> max 0 (changed - dc_reuploads_done c) + sm_requeued m
      | _ \<Rightarrow> max (sm_requeued m) (requeued counts))"

record doc_fields_block =
  db_enabled :: bool
  db_server :: string
  db_per_cycle :: nat
  db_with_fields :: int
  db_pending :: int
  db_refused :: int
  db_not_accepted :: int
  db_reupload_failed :: int
  db_cycle :: doc_fields_cycle
  db_warnings :: "((string \<times> string) \<times> int) list"

definition doc_fields_status :: "bool \<Rightarrow> nat \<Rightarrow> sched_mem \<Rightarrow> sync_db \<Rightarrow> doc_fields_block" where
  "doc_fields_status enabled per_cycle m db =
     (let counts = fields_counts db; cycle = (case sm_doc_fields m of Some c \<Rightarrow> c | None \<Rightarrow> new_cycle)
      in \<lparr>db_enabled = enabled, db_server = server_accepts_fields (sm_doc_fields m) counts (sm_answer m), db_per_cycle = per_cycle,
          db_with_fields = with_fields counts, db_pending = pending_reupload m counts, db_refused = refused counts,
          db_not_accepted = not_accepted counts, db_reupload_failed = reupload_failed counts, db_cycle = cycle, db_warnings = warning_entries cycle\<rparr>)"

text \<open>\<open>requeue_doc_fields\<close>: only what the last scan reached.\<close>

definition requeue_doc_fields :: "string \<Rightarrow> sched_mem \<Rightarrow> sync_store \<Rightarrow> int py \<times> sched_mem \<times> sync_store" where
  "requeue_doc_fields outcome m st =
     (case store_requeue_fields outcome (sm_reachable m) st of
        (Inl e, st1) \<Rightarrow> (Inl e, m, st1)
      | (Inr n, st1) \<Rightarrow> (Inr n, m\<lparr>sm_requeued := sm_requeued m + n\<rparr>, st1))"

definition remember_doc_fields :: "run_result \<Rightarrow> sched_mem \<Rightarrow> sched_mem" where
  "remember_doc_fields r m =
     (case rr_doc_fields r of None \<Rightarrow> m
      | Some c \<Rightarrow>
          m\<lparr>sm_doc_fields := Some c, sm_fields_changed := Some (sum_fields_changed (rr_summary r)), sm_requeued := dc_requeued c,
            sm_answer := first_answer (cycle_answer (Some c)) (sm_answer m),
            sm_reachable := (case rr_reachable r of Some ps \<Rightarrow> Some ps | None \<Rightarrow> sm_reachable m)\<rparr>)"

section \<open>One run of a cycle\<close>

definition pending_work :: "run_result \<Rightarrow> int" where
  "pending_work r = sum_pending (rr_summary r) + sum_modified (rr_summary r) + sum_fields_changed (rr_summary r) + rr_re_reached r"

text \<open>\<open>SyncRunResult()\<close>; a result without an inventory has the empty one, which adds nothing to \<open>_pending_work\<close>.\<close>

definition empty_result :: run_result where
  "empty_result = \<lparr>rr_scanned = 0, rr_uploaded = 0, rr_skipped = 0, rr_partial = 0, rr_retry = 0, rr_requests = 0, rr_transmissions = [],
     rr_tx_truncated = False, rr_errors = [], rr_paused = None, rr_summary = empty_summary, rr_scan_truncated = False, rr_re_uploaded = 0,
     rr_re_unchanged = 0, rr_re_kept = 0, rr_re_failed = 0, rr_re_reached = 0, rr_doc_fields = None, rr_reachable = None, rr_progress = None\<rparr>"

fun jget_or :: "jval \<Rightarrow> string \<Rightarrow> jval \<Rightarrow> jval" where
  "jget_or (JObj obj) k d = (case map_of obj k of Some v \<Rightarrow> v | None \<Rightarrow> d)"
| "jget_or _ k d = d"

fun json_text :: "jval \<Rightarrow> string \<Rightarrow> string" where
  "json_text (JStr s) d = s"
| "json_text _ d = d"

definition cycle_window :: "jval \<Rightarrow> nat \<Rightarrow> bool py" where
  "cycle_window cfg minute =
     (let w = jget cfg ''window''
      in is_in_window minute (json_text (jget w ''start_local'') ''08:00'') (json_text (jget w ''end_local'') ''20:00''))"

text \<open>The status after a cycle that returned.\<close>

definition status_after :: "jval \<Rightarrow> run_result \<Rightarrow> string" where
  "status_after cfg r =
     (if truthy_text (rr_paused r) then (if rr_paused r \<noteq> Some ''outside_window'' then the (rr_paused r) else ''paused_outside_window'')
      else if jget cfg ''mode'' = JStr ''continuous'' then
        (if (case rr_progress r of Some p \<Rightarrow> completed p | None \<Rightarrow> False) then ''subfolders_complete''
         else if pending_work r > 0 then ''backlog_pending'' else ''idle_between_cycles'')
      else ''completed'')"

definition note_result :: "jval \<Rightarrow> string \<Rightarrow> run_result \<Rightarrow> sched_mem \<Rightarrow> sched_mem" where
  "note_result cfg now r m0 =
     (let m1 = m0\<lparr>sm_last_run := Some now, sm_error := None, sm_files := sm_files m0 + rr_uploaded r, sm_summary := Some (rr_summary r)\<rparr>;
          m2 = remember_doc_fields r m1;
          m3 = (case rr_progress r of Some p \<Rightarrow> m2\<lparr>sm_progress := Some p\<rparr> | None \<Rightarrow> m2\<lparr>sm_progress := None\<rparr>)
      in set_status (status_after cfg r) m3)"

text \<open>
  \<open>_run_once\<close>. The last argument of the cycle tells whether the deadline made \<open>should_stop\<close> answer true; \<open>msg\<close> is the text
  of the exception that ends a cycle. A window that does not parse is an exception of \<open>_run_once\<close> itself.
\<close>

definition run_sync_once ::
    "(cycle_error \<Rightarrow> string) \<Rightarrow> cycle_inputs \<Rightarrow> jval \<Rightarrow> nat \<Rightarrow> string \<Rightarrow> bool \<Rightarrow> rat option \<times> sync_store \<times> folder_queue \<Rightarrow> sched_mem
     \<Rightarrow> run_result py \<times> (rat option \<times> sync_store \<times> folder_queue) \<times> sched_mem" where
  "run_sync_once msg ci cfg minute now timed_out disk m =
     (if \<not> jtruthy (jget_or cfg ''enabled'' (JBool True)) then (Inr empty_result, disk, set_status ''disabled'' m)
      else case cycle_window cfg minute of Inl e \<Rightarrow> (Inl e, disk, m)
      | Inr False \<Rightarrow> (Inr (empty_result\<lparr>rr_paused := Some ''outside_window''\<rparr>), disk, set_status ''paused_outside_window'' m)
      | Inr True \<Rightarrow>
          (case disk of (l, st, q) \<Rightarrow>
             (case run_sync_work ci l st q of
                (Inl e, disk') \<Rightarrow>
                  (Inr (empty_result\<lparr>rr_errors := [([], msg e)]\<rparr>), disk', set_status ''error'' (m\<lparr>sm_error := Some (msg e), sm_last_run := Some now\<rparr>))
              | (Inr r, disk') \<Rightarrow>
                  (let r1 = (if timed_out \<and> \<not> truthy_text (rr_paused r) then r\<lparr>rr_paused := Some ''cycle_time_limit''\<rparr> else r)
                   in (Inr r1, disk', note_result cfg now r1 m)))))"

definition requeue_reextract_now :: "string \<Rightarrow> sync_store \<Rightarrow> int \<times> sync_store" where
  "requeue_reextract_now stamp st = store_requeue_reextract stamp st"

definition reextract_status :: "string \<Rightarrow> nat \<Rightarrow> sync_db \<Rightarrow> int \<times> int \<times> int \<times> nat" where
  "reextract_status stamp per_cycle db = (count_extraction_outdated stamp db, count_reextract_queued db, count_reextract_kept db, per_cycle)"

section \<open>Between cycles\<close>

text \<open>\<open>None\<close> is the exception of \<open>int()\<close> on a configured value that is no number. The multiplier is the module's.\<close>

definition effective_scan_interval_seconds :: "jval \<Rightarrow> run_result \<Rightarrow> int \<Rightarrow> (int \<times> int) option" where
  "effective_scan_interval_seconds cfg r factor =
     (case (json_int (jget_or cfg ''scan_interval_seconds'' (JInt 60)), json_int (jget_or cfg ''scan_interval_idle_max_seconds'' (JInt 3600))) of
        (Some b, Some i) \<Rightarrow>
          (let base = max 5 b; idle_max = max base i;
               factor1 = (if rr_uploaded r = 0 \<and> pending_work r = 0 \<and> rr_scanned r > 0 then min (factor * 2) (max 1 (idle_max div base)) else 1)
           in Some (min (base * factor1) idle_max, factor1))
      | _ \<Rightarrow> None)"

text \<open>
  \<open>_wait_between_cycles\<close>: \<open>stop k\<close> is the stop event at the check before second \<open>k\<close>, \<open>wake k\<close> whether the wake event was set
  by the end of it, counted from the \<open>clear\<close> at the start. The result is the seconds waited and the multiplier.
\<close>

fun wait_ticks :: "nat \<Rightarrow> (nat \<Rightarrow> bool) \<Rightarrow> (nat \<Rightarrow> bool) \<Rightarrow> nat \<Rightarrow> int \<Rightarrow> nat \<times> int" where
  "wait_ticks 0 stop wake k factor = (k, factor)"
| "wait_ticks (Suc n) stop wake k factor =
     (if stop k then (k, factor) else if wake k then (k, 1) else wait_ticks n stop wake (Suc k) factor)"

definition wait_between_cycles :: "int \<Rightarrow> (nat \<Rightarrow> bool) \<Rightarrow> (nat \<Rightarrow> bool) \<Rightarrow> int \<Rightarrow> nat \<times> int" where
  "wait_between_cycles interval stop wake factor = wait_ticks (nat (max 0 interval)) stop wake 0 factor"

text \<open>The context re-read from disk: \<open>None\<close> for a file that could not be read.\<close>

definition reloaded_context :: "jval option \<Rightarrow> jval option \<Rightarrow> jval \<times> jval \<Rightarrow> jval \<times> jval" where
  "reloaded_context cfg_file body_file ctx =
     (case (cfg_file, body_file) of (Some cfg, Some body) \<Rightarrow> if jtruthy cfg \<and> jtruthy body then (body, cfg) else ctx | _ \<Rightarrow> ctx)"

text \<open>\<open>load_last_sync_body\<close>: the parsed file, if it is an object.\<close>

definition load_last_sync_body :: "jval option \<Rightarrow> jval option" where
  "load_last_sync_body file = (case file of Some (JObj kvs) \<Rightarrow> Some (JObj kvs) | _ \<Rightarrow> None)"

datatype auto_start = No_Start | Await_Body | Start_With jval jval

definition maybe_auto_start :: "bool \<Rightarrow> bool \<Rightarrow> jval \<Rightarrow> jval option \<Rightarrow> jval option \<Rightarrow> auto_start" where
  "maybe_auto_start auto requires_saved cfg saved dflt =
     (if \<not> auto then No_Start
      else if \<not> jtruthy (jget cfg ''enabled'') \<or> jget cfg ''mode'' \<noteq> JStr ''continuous'' then No_Start
      else let given = (case saved of Some b \<Rightarrow> jtruthy b | None \<Rightarrow> False);
               body = (if \<not> given \<and> \<not> requires_saved then dflt else saved)
           in if requires_saved \<and> \<not> given then Await_Body
              else case body of Some b \<Rightarrow> if jtruthy b then Start_With b cfg else No_Start | None \<Rightarrow> No_Start)"

section \<open>The closed vocabulary of the status\<close>

definition STATUSES :: "string list" where
  "STATUSES = [''awaiting_initial_sync_body'', ''disabled'', ''paused_outside_window'', ''error'', ''stop_requested'', ''rate_limited'',
     ''scan_limit_reached'', ''cycle_time_limit'', ''subfolders_complete'', ''backlog_pending'', ''idle_between_cycles'', ''completed'']"

definition RUN_REASONS :: "string list" where
  "RUN_REASONS = [''stop_requested'', ''outside_window'', ''rate_limited'', ''scan_limit_reached'', ''cycle_time_limit'']"

lemma finish_paused: "finish_cycle ci scan ls q = (Inr r, st', q') \<Longrightarrow> rr_paused r = rr_paused (ls_result ls)"
  by (auto simp: finish_cycle_def advance_queue_def Let_def split_def split: sum.splits option.splits if_splits)

lemma run_paused:
  assumes "run_sync_work ci l st q = (Inr r, rest)"
  shows "rr_paused r = None \<or> rr_paused r \<in> Some ` set RUN_REASONS"
proof -
  obtain scan st1 q1 where pl: "plan_sync_cycle ci st q = Inr (scan, st1, q1)" using assms by (auto simp: run_sync_work_def split: sum.splits)
  obtain prog q2 where pg: "read_progress ci q1 = (prog, q2)" by fastforce
  let ?r = "initial_result (ce_fields_on (ci_env ci)) scan prog"
  obtain checked stats last1 st2 where pr: "probe_first ci scan ?r l st1 = (Inr (checked, stats), last1, st2)" using probe_first_ok by (metis prod.collapse)
  obtain ls st' q' where ls: "upload_loop (ci_env ci) (sc_plan scan) (cycle_work (ci_order ci) (sc_plan scan))
      \<lparr>ls_result = ?r\<lparr>rr_doc_fields := stats\<rparr>, ls_store = st2, ls_checked = checked, ls_calls = 0\<rparr> = Inr ls" "finish_cycle ci scan ls q2 = (Inr r, st', q')"
    using assms by (auto simp: run_sync_work_def pl run_plan_def pg pr split: sum.splits prod.splits)
  have "rr_paused ?r \<in> {None, Some ''scan_limit_reached'', Some ''cycle_time_limit''}" by (simp add: initial_result_def Let_def)
  then show ?thesis
    using upload_loop_keeps [OF ls(1)] finish_paused [OF ls(2)] by (auto simp: result_keeps_def RUN_REASONS_def pausing_reasons_def)
qed


section \<open>The backoff\<close>

definition idle_result :: "run_result \<Rightarrow> bool" where
  "idle_result r \<longleftrightarrow> rr_uploaded r = 0 \<and> pending_work r = 0 \<and> rr_scanned r > 0"

text \<open>The intervals between the cycles of one worker, as long as nothing wakes it.\<close>

fun scan_intervals :: "jval \<Rightarrow> run_result list \<Rightarrow> int \<Rightarrow> int list" where
  "scan_intervals cfg [] factor = []"
| "scan_intervals cfg (r # rs) factor =
     (case effective_scan_interval_seconds cfg r factor of None \<Rightarrow> [] | Some (i, factor1) \<Rightarrow> i # scan_intervals cfg rs factor1)"

text \<open>The idle results at the end of a list of them.\<close>

definition idle_run :: "run_result list \<Rightarrow> nat" where
  "idle_run rs = length (takeWhile idle_result (rev rs))"

lemma idle_run_snoc: "idle_run (rs @ [r]) = (if idle_result r then Suc (idle_run rs) else 0)"
  by (simp add: idle_run_def)

lemma double_min: "(cap :: int) \<ge> 1 \<Longrightarrow> min (min (2 ^ j) cap * 2) cap = min (2 ^ Suc j) cap"
  by (auto simp: min_def)

text \<open>Factor and interval after \<open>n\<close> idle cycles.\<close>

definition factor_after :: "int \<Rightarrow> int \<Rightarrow> nat \<Rightarrow> int" where
  "factor_after b i n = min (2 ^ n) (max 1 (max (max 5 b) i div max 5 b))"

definition pause_after :: "int \<Rightarrow> int \<Rightarrow> nat \<Rightarrow> int" where
  "pause_after b i n = min (max 5 b * factor_after b i n) (max (max 5 b) i)"

lemma factor_after_simps:
  "factor_after b i 0 = 1" "min (factor_after b i n * 2) (max 1 (max (max 5 b) i div max 5 b)) = factor_after b i (Suc n)"
  by (simp add: factor_after_def) (unfold factor_after_def, rule double_min, simp)

lemma interval_step:
  assumes "json_int (jget_or cfg ''scan_interval_seconds'' (JInt 60)) = Some b" and "json_int (jget_or cfg ''scan_interval_idle_max_seconds'' (JInt 3600)) = Some i"
  shows "effective_scan_interval_seconds cfg r (factor_after b i (idle_run past)) =
    Some (pause_after b i (idle_run (past @ [r])), factor_after b i (idle_run (past @ [r])))"
  unfolding effective_scan_interval_seconds_def assms option.case prod.case Let_def pause_after_def idle_run_snoc idle_result_def [symmetric]
    factor_after_simps(2) by (cases "idle_result r") (simp_all only: if_True if_False factor_after_simps(1))

lemma scan_intervals_from:
  assumes "json_int (jget_or cfg ''scan_interval_seconds'' (JInt 60)) = Some b" and "json_int (jget_or cfg ''scan_interval_idle_max_seconds'' (JInt 3600)) = Some i"
  shows "scan_intervals cfg rs (factor_after b i (idle_run past)) = map (\<lambda>k. pause_after b i (idle_run (past @ take (Suc k) rs))) [0..<length rs]"
proof (induction rs arbitrary: past)
  case (Cons r rs)
  have "[0..<Suc (length rs)] = 0 # map Suc [0..<length rs]" using upt_conv_Cons [of 0 "Suc (length rs)"] by (simp add: map_Suc_upt del: upt_Suc)
  then show ?case
    using Cons [of "past @ [r]"] by (simp add: interval_step [OF assms] del: upt_Suc)
qed simp

lemma pause_after_bounds: "max 5 b \<le> pause_after b i n" "pause_after b i n \<le> max (max 5 b) i" "pause_after b i 0 = max 5 b"
proof -
  have "max 5 b * 1 \<le> max 5 b * factor_after b i n" by (rule mult_left_mono) (auto simp: factor_after_def)
  then show "max 5 b \<le> pause_after b i n" unfolding pause_after_def by (intro min.boundedI max.cobounded1) simp
  show "pause_after b i n \<le> max (max 5 b) i" unfolding pause_after_def by (rule min.cobounded2)
  show "pause_after b i 0 = max 5 b" by (simp add: pause_after_def factor_after_simps(1))
qed

text \<open>
  The pause between cycles: after \<open>n\<close> idle cycles in a row it is the configured interval (at least five seconds) times
  \<open>2 ^ n\<close>, up to the configured maximum, and the first cycle that uploaded something or found work brings it back to the
  interval. It is never shorter than the interval and never longer than the maximum.
\<close>

theorem idle_backoff:
  assumes "json_int (jget_or cfg ''scan_interval_seconds'' (JInt 60)) = Some b" and "json_int (jget_or cfg ''scan_interval_idle_max_seconds'' (JInt 3600)) = Some i"
    and "k < length rs"
  shows "let base = max 5 b; idle_max = max base i; w = scan_intervals cfg rs 1 ! k
    in length (scan_intervals cfg rs 1) = length rs \<and> base \<le> w \<and> w \<le> idle_max
      \<and> w = min (base * min (2 ^ idle_run (take (Suc k) rs)) (max 1 (idle_max div base))) idle_max
      \<and> (\<not> idle_result (rs ! k) \<longrightarrow> w = base)"
proof -
  have one: "factor_after b i (idle_run []) = 1" by (simp add: idle_run_def factor_after_simps(1))
  note e = scan_intervals_from [OF assms(1,2), where rs = rs and past = "[]", unfolded one]
  have v: "scan_intervals cfg rs 1 ! k = pause_after b i (idle_run (take (Suc k) rs))" unfolding e using assms(3) by simp
  have l: "length (scan_intervals cfg rs 1) = length rs" unfolding e by simp
  have z: "pause_after b i (idle_run (take (Suc k) rs)) = max 5 b" if "\<not> idle_result (rs ! k)"
    using assms(3) that by (simp add: take_Suc_conv_app_nth idle_run_snoc pause_after_bounds(3))
  show ?thesis
    unfolding Let_def v l by (intro conjI refl pause_after_bounds impI z) (simp add: pause_after_def factor_after_def)
qed

lemma wait_ticks_from:
  "wait_ticks n stop wake k factor =
     (case filter (\<lambda>j. stop j \<or> wake j) [k..<k + n] of [] \<Rightarrow> (k + n, factor) | j # js \<Rightarrow> (j, if stop j then factor else 1))"
proof (induction n arbitrary: k)
  case (Suc n)
  have e: "[k..<k + Suc n] = k # [Suc k..<Suc k + n]" using upt_conv_Cons [of k "k + Suc n"] by (simp del: upt_Suc)
  show ?case unfolding e using Suc [of "Suc k"] by (simp del: upt_Suc split: list.split)
qed simp

text \<open>The wait ends at the first second in which a stop or a new folder list is seen, and otherwise after the interval.\<close>

lemma wait_ends:
  "wait_between_cycles interval stop wake factor =
     (case filter (\<lambda>j. stop j \<or> wake j) [0..<nat (max 0 interval)] of [] \<Rightarrow> (nat (max 0 interval), factor) | j # js \<Rightarrow> (j, if stop j then factor else 1))"
  by (simp add: wait_between_cycles_def wait_ticks_from split: list.split)

section \<open>Threads\<close>

text \<open>
  The control points of \<open>start_continuous\<close>, \<open>run_one_time\<close>, \<open>stop_continuous\<close> and the worker thread. A lock of the
  \<open>threading\<close> module has no owner; the model notes which thread has to release it. The lock of the scheduler passes from
  the starting request to the worker it spawns. \<open>join\<close> comes back when the worker has ended or its timeout is over, so its
  step has no guard. \<open>Stopped b\<close> is a stop that has returned, \<open>b\<close> saying that it got hold of
  the scheduler's lock before its timeout.
\<close>

datatype pc =
    Absent
  | Start_Locked | Start_Got | Start_Cleared | Start_Spawned | Start_Told
  | Once_Locked | Once_Got | Once_Cleared | Once_Run | Once_End
  | Stop_Locked | Stop_Flagged | Stop_Joined | Stop_Held | Stop_Quiet | Stop_Late | Stop_Told bool | Stopped bool
  | Work_Top | Work_Cycle | Work_Wait nat | Work_Leave | Work_Left | Work_Released
  | Finished

record sched =
  pcs :: "nat \<Rightarrow> pc"
  control :: "nat option"
  scheduler :: "nat option"
  stop_event :: bool
  wake_event :: bool
  status_text :: string
  worker :: "nat option"
  stored_body :: nat
  loaded_body :: nat

abbreviation goto :: "nat \<Rightarrow> pc \<Rightarrow> sched \<Rightarrow> sched" where
  "goto t p \<equiv> pcs_update (\<lambda>f. f(t := p))"

definition idle_sched :: sched where
  "idle_sched = \<lparr>pcs = (\<lambda>_. Absent), control = None, scheduler = None, stop_event = False, wake_event = False,
     status_text = ''awaiting_initial_sync_body'', worker = None, stored_body = 0, loaded_body = 0\<rparr>"

inductive sched_step :: "sched \<Rightarrow> sched \<Rightarrow> bool" where
  start_enter: "pcs s t = Absent \<Longrightarrow> control s = None \<Longrightarrow> sched_step s ((goto t Start_Locked s)\<lparr>control := Some t\<rparr>)"
| start_busy: "pcs s t = Start_Locked \<Longrightarrow> scheduler s \<noteq> None \<Longrightarrow> sched_step s ((goto t Finished s)\<lparr>control := None\<rparr>)"
| start_take: "pcs s t = Start_Locked \<Longrightarrow> scheduler s = None \<Longrightarrow> sched_step s ((goto t Start_Got s)\<lparr>scheduler := Some t\<rparr>)"
| start_clear: "pcs s t = Start_Got \<Longrightarrow> sched_step s ((goto t Start_Cleared s)\<lparr>stop_event := False\<rparr>)"
| start_spawn: "pcs s t = Start_Cleared \<Longrightarrow> pcs s w = Absent \<Longrightarrow> w \<noteq> t \<Longrightarrow>
    sched_step s ((goto w Work_Top (goto t Start_Spawned s))\<lparr>worker := Some w, scheduler := Some w\<rparr>)"
| start_tell: "pcs s t = Start_Spawned \<Longrightarrow> sched_step s ((goto t Start_Told s)\<lparr>status_text := ''running''\<rparr>)"
| start_return: "pcs s t = Start_Told \<Longrightarrow> sched_step s ((goto t Finished s)\<lparr>control := None\<rparr>)"
| once_enter: "pcs s t = Absent \<Longrightarrow> control s = None \<Longrightarrow> sched_step s ((goto t Once_Locked s)\<lparr>control := Some t\<rparr>)"
| once_busy: "pcs s t = Once_Locked \<Longrightarrow> scheduler s \<noteq> None \<Longrightarrow> sched_step s ((goto t Finished s)\<lparr>control := None\<rparr>)"
| once_take: "pcs s t = Once_Locked \<Longrightarrow> scheduler s = None \<Longrightarrow> sched_step s ((goto t Once_Got s)\<lparr>scheduler := Some t\<rparr>)"
| once_clear: "pcs s t = Once_Got \<Longrightarrow> sched_step s ((goto t Once_Cleared s)\<lparr>stop_event := False\<rparr>)"
| once_run: "pcs s t = Once_Cleared \<Longrightarrow> sched_step s ((goto t Once_Run s)\<lparr>control := None\<rparr>)"
| once_status: "pcs s t = Once_Run \<Longrightarrow> sched_step s (s\<lparr>status_text := x\<rparr>)"
| once_end: "pcs s t = Once_Run \<Longrightarrow> sched_step s (goto t Once_End s)"
| once_release: "pcs s t = Once_End \<Longrightarrow> sched_step s ((goto t Finished s)\<lparr>scheduler := None\<rparr>)"
| stop_enter: "pcs s t = Absent \<Longrightarrow> control s = None \<Longrightarrow> sched_step s ((goto t Stop_Locked s)\<lparr>control := Some t\<rparr>)"
| stop_set: "pcs s t = Stop_Locked \<Longrightarrow> sched_step s ((goto t Stop_Flagged s)\<lparr>stop_event := True\<rparr>)"
| stop_join: "pcs s t = Stop_Flagged \<Longrightarrow> sched_step s (goto t Stop_Joined s)"
| stop_acquire: "pcs s t = Stop_Joined \<Longrightarrow> scheduler s = None \<Longrightarrow> sched_step s ((goto t Stop_Held s)\<lparr>scheduler := Some t\<rparr>)"
| stop_timeout: "pcs s t = Stop_Joined \<Longrightarrow> scheduler s \<noteq> None \<Longrightarrow> sched_step s (goto t Stop_Late s)"
| stop_release: "pcs s t = Stop_Held \<Longrightarrow> sched_step s ((goto t Stop_Quiet s)\<lparr>scheduler := None\<rparr>)"
| stop_tell: "pcs s t = Stop_Quiet \<Longrightarrow> sched_step s ((goto t (Stop_Told True) s)\<lparr>status_text := ''not_running''\<rparr>)"
| stop_tell_late: "pcs s t = Stop_Late \<Longrightarrow> sched_step s ((goto t (Stop_Told False) s)\<lparr>status_text := ''not_running''\<rparr>)"
| stop_return: "pcs s t = Stop_Told b \<Longrightarrow> sched_step s ((goto t (Stopped b) s)\<lparr>control := None\<rparr>)"
| work_stop: "pcs s t = Work_Top \<Longrightarrow> stop_event s \<Longrightarrow> sched_step s (goto t Work_Leave s)"
| work_begin: "pcs s t = Work_Top \<Longrightarrow> \<not> stop_event s \<Longrightarrow> sched_step s ((goto t Work_Cycle s)\<lparr>loaded_body := stored_body s\<rparr>)"
| work_status: "pcs s t = Work_Cycle \<Longrightarrow> sched_step s (s\<lparr>status_text := x\<rparr>)"
| work_break: "pcs s t = Work_Cycle \<Longrightarrow> sched_step s (goto t Work_Leave s)"
| work_crash: "pcs s t = Work_Cycle \<Longrightarrow> sched_step s ((goto t Work_Left s)\<lparr>status_text := ''worker_crashed''\<rparr>)"
| work_wait: "pcs s t = Work_Cycle \<Longrightarrow> sched_step s ((goto t (Work_Wait n) s)\<lparr>wake_event := False\<rparr>)"
| wait_tick: "pcs s t = Work_Wait (Suc n) \<Longrightarrow> \<not> stop_event s \<Longrightarrow> \<not> wake_event s \<Longrightarrow> sched_step s (goto t (Work_Wait n) s)"
| wait_wake: "pcs s t = Work_Wait n \<Longrightarrow> wake_event s \<Longrightarrow> sched_step s (goto t Work_Top s)"
| wait_stop: "pcs s t = Work_Wait n \<Longrightarrow> stop_event s \<Longrightarrow> sched_step s (goto t Work_Top s)"
| wait_over: "pcs s t = Work_Wait 0 \<Longrightarrow> sched_step s (goto t Work_Top s)"
| work_leave: "pcs s t = Work_Leave \<Longrightarrow> sched_step s ((goto t Work_Left s)\<lparr>status_text := ''not_running''\<rparr>)"
| work_release: "pcs s t = Work_Left \<Longrightarrow> sched_step s ((goto t Work_Released s)\<lparr>scheduler := None\<rparr>)"
| work_end: "pcs s t = Work_Released \<Longrightarrow>
    sched_step s ((goto t Finished s)\<lparr>status_text := (if status_text s = ''running'' then ''not_running'' else status_text s)\<rparr>)"
| store_body: "sched_step s (s\<lparr>stored_body := Suc (stored_body s), wake_event := True\<rparr>)"

definition reachable_sched :: "sched \<Rightarrow> bool" where
  "reachable_sched s \<longleftrightarrow> sched_step\<^sup>*\<^sup>* idle_sched s"

definition holds_control :: "pc \<Rightarrow> bool" where
  "holds_control p \<longleftrightarrow> p \<in> {Start_Locked, Start_Got, Start_Cleared, Start_Spawned, Start_Told, Once_Locked, Once_Got, Once_Cleared,
     Stop_Locked, Stop_Flagged, Stop_Joined, Stop_Held, Stop_Quiet, Stop_Late, Stop_Told True, Stop_Told False}"

definition in_cycle :: "pc \<Rightarrow> bool" where
  "in_cycle p \<longleftrightarrow> p = Once_Run \<or> p = Work_Cycle"

definition holds_scheduler :: "pc \<Rightarrow> bool" where
  "holds_scheduler p \<longleftrightarrow> p \<in> {Start_Got, Start_Cleared, Once_Got, Once_Cleared, Once_Run, Once_End, Stop_Held,
     Work_Top, Work_Cycle, Work_Leave, Work_Left} \<or> (\<exists>n. p = Work_Wait n)"

definition owned :: "(pc \<Rightarrow> bool) \<Rightarrow> (nat \<Rightarrow> pc) \<Rightarrow> nat option \<Rightarrow> bool" where
  "owned holds f h \<longleftrightarrow> (\<forall>t. (h = Some t) = holds (f t))"

lemma owned_keep: "owned holds f h \<Longrightarrow> holds p = holds (f t) \<Longrightarrow> owned holds (f(t := p)) h"
  by (simp add: owned_def)

lemma owned_take: "owned holds f None \<Longrightarrow> holds p \<Longrightarrow> owned holds (f(t := p)) (Some t)"
  by (auto simp: owned_def)

lemma owned_give: "owned holds f h \<Longrightarrow> holds (f t) \<Longrightarrow> \<not> holds p \<Longrightarrow> owned holds (f(t := p)) None"
  by (auto simp: owned_def) (metis option.inject)

lemma owned_pass: "owned holds f h \<Longrightarrow> holds (f t) \<Longrightarrow> \<not> holds p \<Longrightarrow> holds p' \<Longrightarrow> w \<noteq> t \<Longrightarrow> owned holds (f(t := p, w := p')) (Some w)"
  by (rule owned_take) (auto intro: owned_give)

lemma owned_unique: "owned holds f h \<Longrightarrow> holds (f t) \<Longrightarrow> holds (f u) \<Longrightarrow> t = u"
  by (metis option.inject owned_def)

lemma owned_holder: "owned holds f h \<Longrightarrow> holds (f t) \<Longrightarrow> h = Some t"
  by (simp add: owned_def)

lemmas owned_steps = owned_keep owned_take owned_give owned_pass

lemma control_owned: "sched_step s s' \<Longrightarrow> owned holds_control (pcs s) (control s) \<Longrightarrow> owned holds_control (pcs s') (control s')"
  by (erule sched_step.cases) (simp_all add: owned_steps holds_control_def)

lemma scheduler_owned: "sched_step s s' \<Longrightarrow> owned holds_scheduler (pcs s) (scheduler s) \<Longrightarrow> owned holds_scheduler (pcs s') (scheduler s')"
  by (erule sched_step.cases) (simp_all add: owned_steps holds_scheduler_def)

text \<open>A lock that is held exactly at some control points. The two locks of the module are instances.\<close>

locale lock_discipline =
  fixes step :: "'s \<Rightarrow> 's \<Rightarrow> bool"
    and start :: 's
    and points :: "'s \<Rightarrow> nat \<Rightarrow> pc"
    and holder :: "'s \<Rightarrow> nat option"
    and holds :: "pc \<Rightarrow> bool"
  assumes free_at_start: "owned holds (points start) (holder start)"
    and kept_by_steps: "step s s' \<Longrightarrow> owned holds (points s) (holder s) \<Longrightarrow> owned holds (points s') (holder s')"
begin

lemma owned_everywhere: "step\<^sup>*\<^sup>* start s \<Longrightarrow> owned holds (points s) (holder s)"
  by (induction rule: rtranclp_induct) (auto intro: free_at_start kept_by_steps)

lemma exclusive: "step\<^sup>*\<^sup>* start s \<Longrightarrow> holds (points s t) \<Longrightarrow> holds (points s u) \<Longrightarrow> t = u"
  using owned_unique owned_everywhere by blast

lemma locked_while_held: "step\<^sup>*\<^sup>* start s \<Longrightarrow> holds (points s t) \<Longrightarrow> holder s = Some t"
  using owned_holder owned_everywhere by blast

end

interpretation ctl: lock_discipline sched_step idle_sched pcs control holds_control
  by unfold_locales (simp add: owned_def idle_sched_def holds_control_def, rule control_owned)

interpretation sch: lock_discipline sched_step idle_sched pcs scheduler holds_scheduler
  by unfold_locales (simp add: owned_def idle_sched_def holds_scheduler_def, rule scheduler_owned)

text \<open>From the moment a stop has had the scheduler's lock until it returns, nobody else can take it.\<close>

definition quiet :: "sched \<Rightarrow> bool" where
  "quiet s \<longleftrightarrow> (\<forall>t. pcs s t = Stop_Quiet \<longrightarrow> scheduler s = None)
     \<and> (\<forall>t. pcs s t = Stop_Told True \<longrightarrow> scheduler s = None \<and> status_text s = ''not_running'')"

lemma quiet_step:
  assumes "sched_step\<^sup>*\<^sup>* idle_sched s" and "sched_step s s'" and "quiet s"
  shows "quiet s'"
proof (cases "\<exists>t. pcs s t = Stop_Quiet \<or> pcs s t = Stop_Told True")
  case True
  then obtain t where t: "pcs s t = Stop_Quiet \<or> pcs s t = Stop_Told True" by blast
  then have n: "scheduler s = None" using assms(3) by (auto simp: quiet_def)
  have "\<not> holds_scheduler (pcs s u)" for u using sch.locked_while_held [OF assms(1)] n by force
  then have h: "pcs s u \<noteq> Once_Run" "pcs s u \<noteq> Work_Cycle" "pcs s u \<noteq> Work_Leave" "pcs s u \<noteq> Start_Cleared" for u
    by (auto simp: holds_scheduler_def dest: meta_spec [of _ u])
  have "holds_control (pcs s t)" using t by (auto simp: holds_control_def)
  then have "\<not> holds_control (pcs s u)" if "u \<noteq> t" for u using ctl.exclusive [OF assms(1)] that by blast
  then have "pcs s u \<noteq> Start_Locked" "pcs s u \<noteq> Start_Spawned" "pcs s u \<noteq> Once_Locked" "pcs s u \<noteq> Stop_Joined" "pcs s u \<noteq> Stop_Late" for u
    using t by (cases "u = t"; force simp: holds_control_def)+
  with assms(2,3) h show ?thesis by cases (auto simp: quiet_def)
next
  case False
  with assms(2) show ?thesis
    by cases (auto simp: quiet_def)
qed

lemma quiet_everywhere: "sched_step\<^sup>*\<^sup>* idle_sched s \<Longrightarrow> quiet s"
proof (induction rule: rtranclp_induct)
  case base
  then show ?case by (simp add: quiet_def idle_sched_def)
qed (rule quiet_step)

definition worker_alive :: "sched \<Rightarrow> bool" where
  "worker_alive s \<longleftrightarrow> (case worker s of Some w \<Rightarrow> pcs s w \<notin> {Absent, Finished} | None \<Rightarrow> False) \<or> scheduler s \<noteq> None"

text \<open>\<open>get_scheduler_status\<close>: the state it reports.\<close>

definition reported_state :: "sched \<Rightarrow> string" where
  "reported_state s = (if status_text s = ''running'' \<and> \<not> worker_alive s then ''worker_stopped'' else status_text s)"

text \<open>
  (C7) The threads of the scheduler exclude each other. In every reachable state at most one thread is inside a cycle,
  and while one is, the status endpoint reports a worker alive and no stop can return that did not run into its timeout:
  such a stop returns only to a scheduler with no cycle running.
\<close>

theorem one_cycle_at_a_time:
  assumes "sched_step\<^sup>*\<^sup>* idle_sched s" and "in_cycle (pcs s t)"
  shows "(\<forall>u. in_cycle (pcs s u) \<longrightarrow> u = t) \<and> worker_alive s
    \<and> (\<forall>u. pcs s u \<noteq> Stop_Told True)
    \<and> (\<forall>s' u. sched_step s s' \<longrightarrow> pcs s' u = Stopped True \<longrightarrow> pcs s u = Stopped True)"
proof -
  have c: "holds_scheduler p" if "in_cycle p" for p using that by (auto simp: in_cycle_def holds_scheduler_def)
  have l: "scheduler s = Some t" by (rule sch.locked_while_held [OF assms(1) c [OF assms(2)]])
  have q: "pcs s u \<noteq> Stop_Told True" for u using quiet_everywhere [OF assms(1)] l by (auto simp: quiet_def)
  have "pcs s u = Stopped True" if "sched_step s s'" "pcs s' u = Stopped True" for s' u
    using that q by cases (auto split: if_splits)
  then show ?thesis using sch.exclusive [OF assms(1)] c assms(2) q l by (auto simp: worker_alive_def)
qed

text \<open>What a stop leaves behind when it returns in time.\<close>

lemma stop_leaves_quiet:
  assumes "sched_step\<^sup>*\<^sup>* idle_sched s" and "pcs s t = Stop_Told True"
  shows "scheduler s = None \<and> \<not> in_cycle (pcs s u) \<and> pcs s u \<noteq> Work_Top \<and> reported_state s = ''not_running''"
proof -
  have q: "scheduler s = None" "status_text s = ''not_running''" using quiet_everywhere [OF assms(1)] assms(2) by (auto simp: quiet_def)
  have "\<not> holds_scheduler (pcs s u)" using sch.locked_while_held [OF assms(1)] q(1) by force
  then show ?thesis using q by (auto simp: in_cycle_def holds_scheduler_def reported_state_def)
qed

section \<open>Two interleavings\<close>

text \<open>Runs are built step by step.\<close>

lemma sched_then: "sched_step\<^sup>*\<^sup>* a b \<Longrightarrow> sched_step b c \<Longrightarrow> sched_step\<^sup>*\<^sup>* a c"
  by (rule rtranclp.rtrancl_into_rtrancl)

text \<open>Thread 0 starts worker 1, whose first cycle begins.\<close>

definition first_cycle :: sched where
  "first_cycle = idle_sched\<lparr>pcs := (\<lambda>_. Absent)(0 := Finished, 1 := Work_Cycle), scheduler := Some 1, status_text := ''running'', worker := Some 1\<rparr>"

lemma first_cycle_reachable: "sched_step\<^sup>*\<^sup>* idle_sched first_cycle"
proof -
  let ?a = "(goto 0 Start_Locked idle_sched)\<lparr>control := Some 0\<rparr>"
  let ?b = "(goto 0 Start_Got ?a)\<lparr>scheduler := Some 0\<rparr>"
  let ?c = "(goto 0 Start_Cleared ?b)\<lparr>stop_event := False\<rparr>"
  let ?d = "(goto 1 Work_Top (goto 0 Start_Spawned ?c))\<lparr>worker := Some 1, scheduler := Some 1\<rparr>"
  let ?e = "(goto 0 Start_Told ?d)\<lparr>status_text := ''running''\<rparr>"
  let ?f = "(goto 0 Finished ?e)\<lparr>control := None\<rparr>"
  let ?g = "(goto 1 Work_Cycle ?f)\<lparr>loaded_body := stored_body ?f\<rparr>"
  have s1: "sched_step idle_sched ?a" by (rule sched_step.start_enter) (simp_all add: idle_sched_def)
  have s2: "sched_step ?a ?b" by (rule sched_step.start_take) (simp_all add: idle_sched_def)
  have s3: "sched_step ?b ?c" by (rule sched_step.start_clear) simp
  have s4: "sched_step ?c ?d" by (rule sched_step.start_spawn) (simp_all add: idle_sched_def)
  have s5: "sched_step ?d ?e" by (rule sched_step.start_tell) simp
  have s6: "sched_step ?e ?f" by (rule sched_step.start_return) simp
  have s7: "sched_step ?f ?g" by (rule sched_step.work_begin) (simp_all add: idle_sched_def)
  have e: "?g = first_cycle" by (simp add: first_cycle_def idle_sched_def fun_eq_iff)
  show ?thesis using sched_then [OF sched_then [OF sched_then [OF sched_then [OF sched_then [OF sched_then [OF sched_then [OF rtranclp.rtrancl_refl s1] s2] s3] s4] s5] s6] s7] unfolding e .
qed

text \<open>
  A folder list stored while the worker is inside a cycle: the event that should wake the worker is cleared when the wait
  begins, and the worker waits the whole interval, of any length, on the old list.
\<close>

lemma wake_up_lost: "\<exists>s. sched_step\<^sup>*\<^sup>* idle_sched s \<and> pcs s 1 = Work_Wait n \<and> loaded_body s \<noteq> stored_body s \<and> \<not> wake_event s"
proof -
  let ?a = "first_cycle\<lparr>stored_body := Suc (stored_body first_cycle), wake_event := True\<rparr>"
  let ?b = "(goto 1 (Work_Wait n) ?a)\<lparr>wake_event := False\<rparr>"
  have s1: "sched_step first_cycle ?a" by (rule sched_step.store_body)
  have s2: "sched_step ?a ?b" by (rule sched_step.work_wait) (simp add: first_cycle_def)
  have "sched_step\<^sup>*\<^sup>* idle_sched ?b" by (rule sched_then [OF sched_then [OF first_cycle_reachable s1] s2])
  then show ?thesis by (intro exI [of _ ?b]) (simp add: first_cycle_def idle_sched_def)
qed

text \<open>
  A worker that ends by itself checks the status after it released the lock. A start that slips in between has its
  "running" overwritten: a cycle runs while the status says that nothing does, and no stop was ever asked for.
\<close>

lemma running_overwritten:
  "\<exists>s. sched_step\<^sup>*\<^sup>* idle_sched s \<and> in_cycle (pcs s 3) \<and> reported_state s = ''not_running'' \<and> \<not> stop_event s"
proof -
  let ?a = "goto 1 Work_Leave first_cycle"
  let ?b = "(goto 1 Work_Left ?a)\<lparr>status_text := ''not_running''\<rparr>"
  let ?c = "(goto 1 Work_Released ?b)\<lparr>scheduler := None\<rparr>"
  let ?d = "(goto 2 Start_Locked ?c)\<lparr>control := Some 2\<rparr>"
  let ?e = "(goto 2 Start_Got ?d)\<lparr>scheduler := Some 2\<rparr>"
  let ?f = "(goto 2 Start_Cleared ?e)\<lparr>stop_event := False\<rparr>"
  let ?g = "(goto 3 Work_Top (goto 2 Start_Spawned ?f))\<lparr>worker := Some 3, scheduler := Some 3\<rparr>"
  let ?h = "(goto 2 Start_Told ?g)\<lparr>status_text := ''running''\<rparr>"
  let ?i = "(goto 1 Finished ?h)\<lparr>status_text := (if status_text ?h = ''running'' then ''not_running'' else status_text ?h)\<rparr>"
  let ?j = "(goto 3 Work_Cycle ?i)\<lparr>loaded_body := stored_body ?i\<rparr>"
  have s1: "sched_step first_cycle ?a" by (rule sched_step.work_break) (simp add: first_cycle_def)
  have s2: "sched_step ?a ?b" by (rule sched_step.work_leave) simp
  have s3: "sched_step ?b ?c" by (rule sched_step.work_release) simp
  have s4: "sched_step ?c ?d" by (rule sched_step.start_enter) (simp_all add: first_cycle_def idle_sched_def)
  have s5: "sched_step ?d ?e" by (rule sched_step.start_take) simp_all
  have s6: "sched_step ?e ?f" by (rule sched_step.start_clear) simp
  have s7: "sched_step ?f ?g" by (rule sched_step.start_spawn) (simp_all add: first_cycle_def idle_sched_def)
  have s8: "sched_step ?g ?h" by (rule sched_step.start_tell) simp
  have s9: "sched_step ?h ?i" by (rule sched_step.work_end) simp
  have s10: "sched_step ?i ?j" by (rule sched_step.work_begin) (simp_all add: first_cycle_def idle_sched_def)
  have "sched_step\<^sup>*\<^sup>* idle_sched ?j"
    by (rule sched_then [OF sched_then [OF sched_then [OF sched_then [OF sched_then [OF sched_then [OF sched_then [OF sched_then [OF sched_then [OF sched_then [OF first_cycle_reachable s1] s2] s3] s4] s5] s6] s7] s8] s9] s10])
  then show ?thesis by (intro exI [of _ ?j]) (simp add: in_cycle_def reported_state_def)
qed

section \<open>Examples\<close>

theorem one_cycle_at_a_time_witness: "worker_alive first_cycle \<and> (\<forall>u. pcs first_cycle u \<noteq> Stop_Told True)"
proof -
  have "in_cycle (pcs first_cycle 1)" by (simp add: in_cycle_def first_cycle_def)
  then show ?thesis using one_cycle_at_a_time [OF first_cycle_reachable] by blast
qed

definition example_config :: jval where
  "example_config = JObj [(''scan_interval_seconds'', JInt 10), (''scan_interval_idle_max_seconds'', JInt 60), (''mode'', JStr ''continuous''),
     (''window'', JObj [(''start_local'', JStr ''00:00''), (''end_local'', JStr ''23:59'')])]"

theorem idle_backoff_witness:
  "scan_intervals example_config (replicate 4 (empty_result\<lparr>rr_scanned := 1\<rparr>)) 1 ! 3 = 60"
proof -
  let ?rs = "replicate 4 (empty_result\<lparr>rr_scanned := 1\<rparr>)"
  have c: "json_int (jget_or example_config ''scan_interval_seconds'' (JInt 60)) = Some 10"
    "json_int (jget_or example_config ''scan_interval_idle_max_seconds'' (JInt 3600)) = Some 60" by code_simp+
  have r: "idle_run (take (Suc 3) ?rs) = 4" by code_simp
  show ?thesis using idle_backoff [OF c, of 3 ?rs] unfolding Let_def r by simp
qed


end
