(* ===== verification/Sync_Config.thy ===== *)
theory Sync_Config
  imports Doc_Fields_Payload
begin

text \<open>
  The two documents that configure the Connector and their checks: the JSON schemas of \<open>contracts/\<close> as predicates on
  decoded JSON, \<open>util/schema.py\<close> (the messages of a refused document) and \<open>sync/sync_config.py\<close> (the scheduler's
  configuration file: checks, loading, saving, the file name before the rename). The library \<open>jsonschema\<close> is an
  argument; what is asked of it is \<open>schema_lib_ok\<close>: it reports an error exactly for the documents the schema refuses.

  The lemmas show which configurations are accepted, that a saved configuration is the one loaded later, and that the
  messages of a refused request hide the values under the document-field keys.
\<close>

section \<open>The JSON schemas\<close>

text \<open>An object with the listed properties only, those required among them present.\<close>

definition schema_object :: "(string \<times> (jval \<Rightarrow> bool)) list \<Rightarrow> string list \<Rightarrow> jval \<Rightarrow> bool" where
  "schema_object props required v =
     (case v of
        JObj kvs \<Rightarrow> list_all (\<lambda>(k, x). case map_of props k of Some p \<Rightarrow> p x | None \<Rightarrow> False) kvs
          \<and> list_all (\<lambda>k. k \<in> set (map fst kvs)) required
      | _ \<Rightarrow> False)"

definition schema_array :: "(jval \<Rightarrow> bool) \<Rightarrow> jval \<Rightarrow> bool" where
  "schema_array p v = (case v of JArr xs \<Rightarrow> list_all p xs | _ \<Rightarrow> False)"

definition schema_string :: "(string \<Rightarrow> bool) \<Rightarrow> jval \<Rightarrow> bool" where
  "schema_string p v = (case v of JStr s \<Rightarrow> p s | _ \<Rightarrow> False)"

fun schema_bool :: "jval \<Rightarrow> bool" where
  "schema_bool (JBool _) = True"
| "schema_bool _ = False"

text \<open>An integer in JSON Schema is also a number with a zero fraction.\<close>

definition schema_integer :: "(int \<Rightarrow> bool) \<Rightarrow> jval \<Rightarrow> bool" where
  "schema_integer p v = (case v of JInt n \<Rightarrow> p n | JReal r \<Rightarrow> of_int \<lfloor>r\<rfloor> = r \<and> p \<lfloor>r\<rfloor> | _ \<Rightarrow> False)"

text \<open>The pattern \<open>^([01]?[0-9]|2[0-3]):[0-5][0-9]$\<close>; the end anchor admits one final line feed.\<close>

definition hour_text :: "string \<Rightarrow> bool" where
  "hour_text h = (case h of [d] \<Rightarrow> is_digit d
     | [t, d] \<Rightarrow> (t \<in> {CHR ''0'', CHR ''1''} \<and> is_digit d) \<or> (t = CHR ''2'' \<and> is_digit d \<and> digit_value d \<le> 3)
     | _ \<Rightarrow> False)"

definition minute_text :: "string \<Rightarrow> bool" where
  "minute_text m = (case m of [t, d] \<Rightarrow> is_digit t \<and> digit_value t \<le> 5 \<and> is_digit d | _ \<Rightarrow> False)"

definition hhmm_pattern :: "string \<Rightarrow> bool" where
  "hhmm_pattern s = (case split_char (CHR '':'') (drop_newline s) of [h, m] \<Rightarrow> hour_text h \<and> minute_text m | _ \<Rightarrow> False)"

definition window_schema :: "jval \<Rightarrow> bool" where
  "window_schema = schema_object
     [(''start_local'', schema_string hhmm_pattern), (''end_local'', schema_string hhmm_pattern)] [''start_local'', ''end_local'']"

definition rate_limit_schema :: "jval \<Rightarrow> bool" where
  "rate_limit_schema = schema_object
     [(''max_ingestion_chars_per_minute'', schema_integer (\<lambda>n. 1 \<le> n)), (''burst_chars'', schema_integer (\<lambda>n. 1 \<le> n)),
      (''max_ingestion_requests_per_minute'', schema_integer (\<lambda>n. 1 \<le> n)), (''burst'', schema_integer (\<lambda>n. 1 \<le> n))]
     [''max_ingestion_requests_per_minute'', ''burst'']"

definition sync_config_schema :: "jval \<Rightarrow> bool" where
  "sync_config_schema = schema_object
     [(''schema_version'', schema_integer (\<lambda>n. n = 1)), (''enabled'', schema_bool),
      (''mode'', schema_string (\<lambda>s. s \<in> {''one_time'', ''continuous''})),
      (''window'', window_schema), (''rate_limit'', rate_limit_schema),
      (''scan_interval_seconds'', schema_integer (\<lambda>n. 5 \<le> n)), (''max_sync_duration_minutes'', schema_integer (\<lambda>n. 1 \<le> n)),
      (''max_files_per_cycle'', schema_integer (\<lambda>n. 0 \<le> n)), (''max_scan_entries_per_cycle'', schema_integer (\<lambda>n. 0 \<le> n)),
      (''sequential_subfolders'', schema_bool), (''scan_interval_idle_max_seconds'', schema_integer (\<lambda>n. 5 \<le> n)),
      (''max_document_age_seconds'', schema_integer (\<lambda>n. 1 \<le> n)),
      (''pause_policy'', schema_string (\<lambda>s. s = ''finish_current_unit_then_pause''))]
     [''schema_version'', ''enabled'', ''mode'', ''window'', ''rate_limit'', ''pause_policy'']"

fun field_scalar_schema :: "jval \<Rightarrow> bool" where
  "field_scalar_schema (JStr s) \<longleftrightarrow> 1 \<le> length s \<and> length s \<le> 256"
| "field_scalar_schema (JInt n) \<longleftrightarrow> True"
| "field_scalar_schema (JReal r) \<longleftrightarrow> True"
| "field_scalar_schema (JBool b) \<longleftrightarrow> True"
| "field_scalar_schema _ \<longleftrightarrow> False"

definition field_value_schema :: "jval \<Rightarrow> bool" where
  "field_value_schema v = (case v of JArr xs \<Rightarrow> 1 \<le> length xs \<and> length xs \<le> 32 \<and> list_all field_scalar_schema xs | _ \<Rightarrow> field_scalar_schema v)"

definition fields_schema :: "jval \<Rightarrow> bool" where
  "fields_schema v =
     (case v of JObj kvs \<Rightarrow> length kvs \<le> 64 \<and> list_all (\<lambda>(k, x). KEY_RE k \<and> k \<notin> set SYSTEM_KEYS \<and> field_value_schema x) kvs
      | _ \<Rightarrow> False)"

definition at_most :: "nat \<Rightarrow> jval \<Rightarrow> bool" where
  "at_most n v = (case v of JArr xs \<Rightarrow> length xs \<le> n | _ \<Rightarrow> True)"

definition unique_items :: "jval \<Rightarrow> bool" where
  "unique_items v = (case v of JArr xs \<Rightarrow> distinct xs | _ \<Rightarrow> True)"

definition source_schema :: "jval \<Rightarrow> bool" where
  "source_schema = schema_object
     [(''path'', schema_string (\<lambda>s. s \<noteq> [])), (''recursive'', schema_bool),
      (''access_groups'', \<lambda>v. schema_array (schema_string (\<lambda>s. s \<noteq> [])) v \<and> unique_items v),
      (''fields'', fields_schema),
      (''field_templates'', \<lambda>v. schema_array (schema_string (\<lambda>s. s \<noteq> [] \<and> length s \<le> 512)) v \<and> at_most 8 v),
      (''metadata_fields'', \<lambda>v. schema_array (schema_string (\<lambda>s. s \<in> set METADATA_ITEMS)) v \<and> unique_items v)]
     [''path'']"

definition filters_schema :: "jval \<Rightarrow> bool" where
  "filters_schema = schema_object
     [(''include_globs'', schema_array (schema_string (\<lambda>s. True))), (''exclude_globs'', schema_array (schema_string (\<lambda>s. True))),
      (''max_file_bytes'', schema_integer (\<lambda>n. 1 \<le> n)), (''max_document_age_seconds'', schema_integer (\<lambda>n. 1 \<le> n))] []"

definition ingestion_schema :: "jval \<Rightarrow> bool" where
  "ingestion_schema = schema_object
     [(''identifier_prefix'', schema_string (\<lambda>s. s \<noteq> [])), (''part_max_chars'', schema_integer (\<lambda>n. 1 \<le> n \<and> n \<le> 500000)),
      (''description'', schema_string (\<lambda>s. length s \<le> 2000)), (''delete_on_remove'', schema_bool)] [''identifier_prefix'']"

definition sync_request_schema :: "jval \<Rightarrow> bool" where
  "sync_request_schema = schema_object
     [(''mode'', schema_string (\<lambda>s. s \<in> {''incremental'', ''full''})),
      (''sources'', \<lambda>v. schema_array source_schema v \<and> v \<noteq> JArr []),
      (''filters'', filters_schema), (''ingestion'', ingestion_schema)]
     [''mode'', ''sources'', ''filters'', ''ingestion'']"

section \<open>The messages of a refused document\<close>

datatype path_item = Idx nat | Key string

text \<open>Two paths to different errors of one document first differ inside one container, so indices never meet keys.\<close>

instantiation path_item :: linorder
begin

fun less_eq_path_item :: "path_item \<Rightarrow> path_item \<Rightarrow> bool" where
  "less_eq_path_item (Idx i) (Idx j) \<longleftrightarrow> i \<le> j"
| "less_eq_path_item (Key k) (Key l) \<longleftrightarrow> k \<le> l"
| "less_eq_path_item (Idx i) (Key k) \<longleftrightarrow> True"
| "less_eq_path_item (Key k) (Idx i) \<longleftrightarrow> False"

definition less_path_item :: "path_item \<Rightarrow> path_item \<Rightarrow> bool" where
  "less_path_item a b \<longleftrightarrow> a \<le> b \<and> \<not> b \<le> a"

instance
proof
  fix a b c :: path_item
  show "a < b \<longleftrightarrow> a \<le> b \<and> \<not> b \<le> a" by (rule less_path_item_def)
  show "a \<le> a" by (cases a) auto
  show "a \<le> b \<or> b \<le> a" by (cases a; cases b) auto
  show "a \<le> b \<Longrightarrow> b \<le> a \<Longrightarrow> a = b" by (cases a; cases b) auto
  show "a \<le> b \<Longrightarrow> b \<le> c \<Longrightarrow> a \<le> c" by (cases a; cases b; cases c) auto
qed

end

record schema_error =
  se_path :: "path_item list"
  se_validator :: string
  se_message :: string

text \<open>\<open>Draft202012Validator(schema).iter_errors(document)\<close> and the error \<open>validate\<close> raises, per schema file.\<close>

record schema_lib =
  iter_errors :: "string \<Rightarrow> jval \<Rightarrow> schema_error list"
  best_error :: "string \<Rightarrow> jval \<Rightarrow> schema_error option"

definition SYNC_CONFIG_FILE :: string where "SYNC_CONFIG_FILE = ''knovas_connector_sync_config.schema.json''"
definition SYNC_REQUEST_FILE :: string where "SYNC_REQUEST_FILE = ''sync_request.schema.json''"

definition follows_schema :: "schema_lib \<Rightarrow> string \<Rightarrow> (jval \<Rightarrow> bool) \<Rightarrow> bool" where
  "follows_schema lib file schema \<longleftrightarrow>
     (\<forall>doc. (iter_errors lib file doc = [] \<longleftrightarrow> schema doc) \<and> (best_error lib file doc = None \<longleftrightarrow> schema doc))"

definition schema_lib_ok :: "schema_lib \<Rightarrow> bool" where
  "schema_lib_ok lib \<longleftrightarrow> follows_schema lib SYNC_CONFIG_FILE sync_config_schema \<and> follows_schema lib SYNC_REQUEST_FILE sync_request_schema"

definition REDACTED_SOURCE_KEYS :: "string list" where
  "REDACTED_SOURCE_KEYS = [''fields'', ''field_templates'', ''metadata_fields'']"

definition redacted_path :: "path_item list \<Rightarrow> string option" where
  "redacted_path path =
     (case path of
        Key s # Idx i # Key container # rest \<Rightarrow>
          if s = ''sources'' \<and> container \<in> set REDACTED_SOURCE_KEYS
          then Some (''$.sources['' @ show_nat i @ ''].'' @ container @
            (case rest of Idx j # _ \<Rightarrow> if container \<noteq> ''fields'' then ''['' @ show_nat j @ '']'' else [] | _ \<Rightarrow> []))
          else None
      | _ \<Rightarrow> None)"

definition schema_error_text :: "schema_error \<Rightarrow> string" where
  "schema_error_text e = (case redacted_path (se_path e) of None \<Rightarrow> se_message e | Some out \<Rightarrow> out @ '': '' @ se_validator e)"

definition schema_messages :: "schema_lib \<Rightarrow> jval \<Rightarrow> string \<Rightarrow> string list" where
  "schema_messages lib doc file = map schema_error_text (sort_key se_path (iter_errors lib file doc))"

definition validate_sync_request :: "schema_lib \<Rightarrow> jval \<Rightarrow> string list" where
  "validate_sync_request lib body =
     (let errors = schema_messages lib body SYNC_REQUEST_FILE in if errors \<noteq> [] then errors else sync_body_template_errors body)"

lemma messages_none: "follows_schema lib file schema \<Longrightarrow> schema_messages lib doc file = [] \<longleftrightarrow> schema doc"
  by (simp add: schema_messages_def follows_schema_def) (metis length_0_conv length_sort)

section \<open>The scheduler's configuration\<close>

definition FORBIDDEN_KEYS :: "string list" where
  "FORBIDDEN_KEYS = [''rc_instance_token'', ''semantix_client_cert_path'', ''semantix_client_key_path'', ''semantix_ca_cert_path'']"

text \<open>The settings of the environment the first configuration is made of (\<open>config.py\<close>).\<close>

record sync_defaults =
  sd_mode :: string
  sd_start :: string
  sd_end :: string
  sd_requests_per_minute :: int
  sd_burst :: int
  sd_scan_interval :: int

definition seed_from_env :: "sync_defaults \<Rightarrow> jval" where
  "seed_from_env cfg = JObj
     ([(''schema_version'', JInt 1), (''enabled'', JBool True), (''mode'', JStr (sd_mode cfg)),
       (''window'', JObj [(''start_local'', JStr (sd_start cfg)), (''end_local'', JStr (sd_end cfg))]),
       (''rate_limit'', JObj [(''max_ingestion_requests_per_minute'', JInt (sd_requests_per_minute cfg)), (''burst'', JInt (sd_burst cfg))]),
       (''pause_policy'', JStr ''finish_current_unit_then_pause'')]
      @ (if sd_mode cfg = ''continuous''
         then [(''scan_interval_seconds'', JInt (sd_scan_interval cfg)), (''max_files_per_cycle'', JInt 500), (''max_scan_entries_per_cycle'', JInt 10000)]
         else []))"

text \<open>\<open>int(v)\<close> and \<open>v.get(key, default)\<close> of a decoded value.\<close>

fun int_of_jval :: "jval \<Rightarrow> int py" where
  "int_of_jval (JInt n) = Inr n"
| "int_of_jval (JBool b) = Inr (if b then 1 else 0)"
| "int_of_jval (JReal r) = Inr (if r < 0 then - \<lfloor>- r\<rfloor> else \<lfloor>r\<rfloor>)"
| "int_of_jval (JStr s) = py_int s"
| "int_of_jval _ = Inl TypeError"

fun get_or :: "jval \<Rightarrow> string \<Rightarrow> jval \<Rightarrow> jval py" where
  "get_or (JObj kvs) k d = Inr (case map_of kvs k of Some v \<Rightarrow> v | None \<Rightarrow> d)"
| "get_or _ k d = Inl AttributeError"

definition below :: "int \<Rightarrow> jval \<Rightarrow> string \<Rightarrow> string list py" where
  "below n v message = (case int_of_jval v of Inl e \<Rightarrow> Inl e | Inr i \<Rightarrow> Inr (if i < n then [message] else []))"

definition interval_errors :: "jval \<Rightarrow> string list py" where
  "interval_errors doc =
     (case get_or doc ''mode'' JNull of Inl e \<Rightarrow> Inl e
      | Inr mode \<Rightarrow>
          if mode \<noteq> JStr ''continuous'' then Inr []
          else (case jget doc ''scan_interval_seconds'' of
                  JNull \<Rightarrow> Inr [''scan_interval_seconds must be >= 5 for continuous mode'']
                | v \<Rightarrow> below 5 v ''scan_interval_seconds must be >= 5 for continuous mode''))"

definition rate_errors :: "jval \<Rightarrow> string \<Rightarrow> string list py" where
  "rate_errors doc k =
     (let raw = jget doc ''rate_limit''; rl = (if jtruthy raw then raw else JObj [])
      in case get_or rl k (JInt 0) of Inl e \<Rightarrow> Inl e | Inr v \<Rightarrow> below 1 v (k @ '' must be >= 1''))"

fun collect_errors :: "string list py list \<Rightarrow> string list py" where
  "collect_errors [] = Inr []"
| "collect_errors (Inl e # rs) = Inl e"
| "collect_errors (Inr xs # rs) = (case collect_errors rs of Inl e \<Rightarrow> Inl e | Inr ys \<Rightarrow> Inr (xs @ ys))"

definition extra_validate :: "jval \<Rightarrow> string list py" where
  "extra_validate doc =
     collect_errors [interval_errors doc, rate_errors doc ''max_ingestion_requests_per_minute'', rate_errors doc ''burst'']"

text \<open>\<open>for key in doc: key.lower()\<close>; the answer is the first forbidden key.\<close>

fun iterate :: "jval \<Rightarrow> jval list py" where
  "iterate (JObj kvs) = Inr (map (JStr \<circ> fst) kvs)"
| "iterate (JArr xs) = Inr xs"
| "iterate (JStr s) = Inr (map (\<lambda>c. JStr [c]) s)"
| "iterate _ = Inl TypeError"

fun first_forbidden :: "jval list \<Rightarrow> string option py" where
  "first_forbidden [] = Inr None"
| "first_forbidden (JStr k # ks) = (if py_lower k \<in> set FORBIDDEN_KEYS then Inr (Some k) else first_forbidden ks)"
| "first_forbidden (_ # ks) = Inl AttributeError"

definition validate_sync_config :: "schema_lib \<Rightarrow> jval \<Rightarrow> string list py" where
  "validate_sync_config lib doc =
     (case iterate doc of Inl e \<Rightarrow> Inl e
      | Inr ks \<Rightarrow>
          (case first_forbidden ks of Inl e \<Rightarrow> Inl e
           | Inr (Some k) \<Rightarrow> Inr [''Forbidden config key: '' @ k]
           | Inr None \<Rightarrow> collect_errors [Inr (schema_messages lib doc SYNC_CONFIG_FILE), extra_validate doc]))"

section \<open>The configuration file\<close>

text \<open>
  What a path holds, for the configured file and its name before the rename. \<open>own_name\<close> tells whether the configured
  file has the default name; \<open>writable\<close> whether the temporary file can be written and moved into place.
\<close>

datatype file_state = Absent | Undecodable | Holds jval

record config_disk =
  cd_file :: file_state
  cd_legacy :: file_state

datatype config_result = Config_Loaded jval | Config_Saved | Config_Invalid "string list" | Config_Raised py_error | Config_Not_Json | Config_Os_Error

definition adopt_legacy_config :: "bool \<Rightarrow> config_disk \<Rightarrow> config_disk" where
  "adopt_legacy_config own_name d =
     (if \<not> own_name \<or> cd_file d \<noteq> Absent \<or> cd_legacy d = Absent then d else d\<lparr>cd_file := cd_legacy d, cd_legacy := Absent\<rparr>)"

definition save_sync_config :: "schema_lib \<Rightarrow> bool \<Rightarrow> bool \<Rightarrow> jval \<Rightarrow> config_disk \<Rightarrow> config_result \<times> config_disk" where
  "save_sync_config lib own_name writable doc d =
     (case validate_sync_config lib doc of Inl e \<Rightarrow> (Config_Raised e, d)
      | Inr errors \<Rightarrow>
          if errors \<noteq> [] then (Config_Invalid errors, d)
          else (let d1 = adopt_legacy_config own_name d
                in if writable then (Config_Saved, d1\<lparr>cd_file := Holds doc\<rparr>) else (Config_Os_Error, d1)))"

definition load_sync_config :: "schema_lib \<Rightarrow> sync_defaults \<Rightarrow> bool \<Rightarrow> bool \<Rightarrow> config_disk \<Rightarrow> config_result \<times> config_disk" where
  "load_sync_config lib cfg own_name writable d0 =
     (let d = adopt_legacy_config own_name d0
      in case cd_file d of
        Absent \<Rightarrow>
          (case save_sync_config lib own_name writable (seed_from_env cfg) d of
             (Config_Saved, d') \<Rightarrow> (Config_Loaded (seed_from_env cfg), d')
           | failed \<Rightarrow> failed)
      | Undecodable \<Rightarrow> (Config_Not_Json, d)
      | Holds doc \<Rightarrow>
          (case validate_sync_config lib doc of Inl e \<Rightarrow> (Config_Raised e, d)
           | Inr errors \<Rightarrow> (if errors = [] then Config_Loaded doc else Config_Invalid errors, d)))"

definition config_snapshot_hash :: "(jval \<Rightarrow> string) \<Rightarrow> jval \<Rightarrow> string" where
  "config_snapshot_hash sha256 doc = take 16 (sha256 doc)"

text \<open>\<open>dict(sync_body.get("filters") or {})\<close> with the scheduler's age limit where the body has none.\<close>

fun jset :: "string \<Rightarrow> jval \<Rightarrow> jval \<Rightarrow> jval" where
  "jset k v (JObj kvs) = JObj (AList.update k v kvs)"
| "jset k v w = w"

definition effective_filters :: "jval \<Rightarrow> jval option \<Rightarrow> jval" where
  "effective_filters sync_body sync_config =
     (let filters = (if jtruthy (jget sync_body ''filters'') then jget sync_body ''filters'' else JObj [])
      in case sync_config of None \<Rightarrow> filters
      | Some cfg \<Rightarrow>
          if jtruthy cfg \<and> jget cfg ''max_document_age_seconds'' \<noteq> JNull \<and> jget filters ''max_document_age_seconds'' = JNull
          then jset ''max_document_age_seconds'' (jget cfg ''max_document_age_seconds'') filters else filters)"

section \<open>What is loaded, and what the messages show\<close>

lemma collect_errors_none: "collect_errors rs = Inr [] \<longleftrightarrow> (\<forall>r \<in> set rs. r = Inr [])"
  by (induction rs rule: collect_errors.induct) (auto split: sum.splits)

lemma validated_config:
  assumes "schema_lib_ok lib"
  shows "validate_sync_config lib doc = Inr []
    \<longleftrightarrow> (\<exists>ks. iterate doc = Inr ks \<and> first_forbidden ks = Inr None) \<and> sync_config_schema doc \<and> extra_validate doc = Inr []"
proof -
  have "schema_messages lib doc SYNC_CONFIG_FILE = [] \<longleftrightarrow> sync_config_schema doc"
    using assms messages_none by (simp add: schema_lib_ok_def)
  then show ?thesis by (auto simp: validate_sync_config_def collect_errors_none split: sum.splits option.splits)
qed

text \<open>
  A configuration that was saved is the one loaded until the next save, whatever the environment and the file under the
  old name say; loading it again changes nothing.
\<close>

theorem saved_config_is_loaded:
  assumes "save_sync_config lib own_name writable doc d = (Config_Saved, d')"
  shows "load_sync_config lib cfg own_name w d' = (Config_Loaded doc, d')"
  using assms
  by (auto simp: save_sync_config_def load_sync_config_def adopt_legacy_config_def Let_def split: sum.splits if_splits)

lemma load_gives_valid:
  assumes "load_sync_config lib cfg own_name writable d = (Config_Loaded doc, d')"
  shows "validate_sync_config lib doc = Inr [] \<and> cd_file d' = Holds doc"
  using assms
  by (auto simp: save_sync_config_def load_sync_config_def Let_def split: file_state.splits sum.splits if_splits)

text \<open>A refused document with a wrong type is not answered with its errors but raises, from the checks after the schema.\<close>

lemma wrong_type_raises:
  "validate_sync_config lib (JObj [(''rate_limit'', JStr ''x'')]) = Inl AttributeError"
  by (simp add: validate_sync_config_def extra_validate_def interval_errors_def rate_errors_def Let_def FORBIDDEN_KEYS_def py_lower_def
      lower_char_def)

text \<open>
  No message repeats a value under the document-field keys: lists of errors that differ only in the texts the library
  made of such values give the same messages.
\<close>

definition same_but_hidden :: "schema_error \<Rightarrow> schema_error \<Rightarrow> bool" where
  "same_but_hidden a b \<longleftrightarrow> se_path a = se_path b \<and> se_validator a = se_validator b
     \<and> (redacted_path (se_path a) = None \<longrightarrow> se_message a = se_message b)"

lemma schema_error_text_hides: "same_but_hidden a b \<Longrightarrow> schema_error_text a = schema_error_text b"
  by (auto simp: same_but_hidden_def schema_error_text_def split: option.splits)

lemma insort_hides:
  "same_but_hidden a b \<Longrightarrow> list_all2 same_but_hidden xs ys
   \<Longrightarrow> list_all2 same_but_hidden (insort_key se_path a xs) (insort_key se_path b ys)"
  by (induction xs arbitrary: ys) (auto simp: list_all2_Cons1 same_but_hidden_def)

lemma messages_hide_values:
  assumes "list_all2 same_but_hidden (iter_errors lib file doc) (iter_errors lib' file doc')"
  shows "schema_messages lib doc file = schema_messages lib' doc' file"
proof -
  have "list_all2 same_but_hidden (sort_key se_path xs) (sort_key se_path ys)" if "list_all2 same_but_hidden xs ys" for xs ys
    using that by (induction xs arbitrary: ys) (auto simp: list_all2_Cons1 intro!: insort_hides)
  then have "list_all2 same_but_hidden (sort_key se_path (iter_errors lib file doc)) (sort_key se_path (iter_errors lib' file doc'))"
    using assms by blast
  moreover have "map schema_error_text xs = map schema_error_text ys" if "list_all2 same_but_hidden xs ys" for xs ys
    using that by (induction xs arbitrary: ys) (auto simp: list_all2_Cons1 schema_error_text_hides)
  ultimately show ?thesis by (simp add: schema_messages_def)
qed

end
