(* ===== verification/Glob_Match.thy ===== *)
theory Glob_Match
  imports Sync_Walk
begin

text \<open>
  The glob matching the scan relies on (\<open>_matches_globs\<close> of \<open>sync/sync_executor.py\<close>): \<open>Path.match\<close> of Python 3.12, the
  version the Connector's image installs, or \<open>fnmatch.fnmatch\<close>. The members of a bracket expression are an argument.
  \<open>Sync_Walk\<close> takes the match of one pattern as an argument; here it is \<open>glob_one\<close>.

  The lemmas show that a pattern with a slash never matches a path without one.
\<close>

section \<open>fnmatch\<close>

text \<open>The text between a bracket and the bracket that closes it: a leading exclamation mark, and then a closing bracket, belong to it.\<close>

definition bracket :: "string \<Rightarrow> (string \<times> string) option" where
  "bracket p =
     (let k = (if p \<noteq> [] \<and> hd p = CHR ''!'' then 1 else 0);
          k' = (if drop k p \<noteq> [] \<and> hd (drop k p) = CHR '']'' then Suc k else k)
      in map_option (\<lambda>j. (take (k' + j) p, drop (Suc (k' + j)) p)) (index_of (CHR '']'') (drop k' p)))"

lemma bracket_shorter: "bracket p = Some (body, rest) \<Longrightarrow> length rest \<le> length p"
  by (auto simp: bracket_def Let_def)

text \<open>\<open>fnmatch.fnmatchcase(s, p)\<close>; \<open>cls body c\<close> tells whether the character is in the bracket expression.\<close>

function fnmatch :: "(string \<Rightarrow> char \<Rightarrow> bool) \<Rightarrow> string \<Rightarrow> string \<Rightarrow> bool" where
  "fnmatch cls [] s = (s = [])"
| "fnmatch cls (p # ps) s =
     (if p = CHR ''*'' then fnmatch cls ps s \<or> (case s of [] \<Rightarrow> False | c # cs \<Rightarrow> fnmatch cls (p # ps) cs)
      else case s of [] \<Rightarrow> False
      | c # cs \<Rightarrow>
          if p = CHR ''?'' then fnmatch cls ps cs
          else if p = CHR ''['' then
            (case bracket ps of None \<Rightarrow> c = p \<and> fnmatch cls ps cs
             | Some (body, rest) \<Rightarrow> cls body c \<and> fnmatch cls rest cs)
          else c = p \<and> fnmatch cls ps cs)"
  by pat_completeness auto
termination
  by (relation "measure (\<lambda>(_, p, s). length p + length s)") (auto dest: bracket_shorter)

declare fnmatch.simps [simp del]

section \<open>Path.match and the two together\<close>

definition path_parts :: "string \<Rightarrow> string list" where
  "path_parts s = filter (\<lambda>p. p \<noteq> [] \<and> p \<noteq> ''.'') (split_char (CHR ''/'') s)"

text \<open>\<open>Path(rel).match(g)\<close>: from the right, part by part; an absolute pattern matches whole absolute paths only.\<close>

definition path_match :: "(string \<Rightarrow> char \<Rightarrow> bool) \<Rightarrow> string \<Rightarrow> string \<Rightarrow> bool py" where
  "path_match cls rel g =
     (let ps = path_parts rel; gs = path_parts g
      in if py_startswith g ''/'' then Inr (py_startswith rel ''/'' \<and> list_all2 (fnmatch cls) gs ps)
         else if gs = [] then Inl ValueError
         else Inr (length gs \<le> length ps \<and> list_all2 (fnmatch cls) gs (drop (length ps - length gs) ps)))"

text \<open>\<open>_matches_globs\<close> with the error of an empty pattern, and the match of one pattern.\<close>

fun matches_any :: "(string \<Rightarrow> char \<Rightarrow> bool) \<Rightarrow> string \<Rightarrow> string list \<Rightarrow> bool py" where
  "matches_any cls rel [] = Inr False"
| "matches_any cls rel (g # gs) =
     (case path_match cls rel g of Inl e \<Rightarrow> Inl e
      | Inr hit \<Rightarrow> if hit \<or> fnmatch cls g rel then Inr True else matches_any cls rel gs)"

definition glob_one :: "(string \<Rightarrow> char \<Rightarrow> bool) \<Rightarrow> string \<Rightarrow> string \<Rightarrow> bool" where
  "glob_one cls rel g \<longleftrightarrow> path_match cls rel g = Inr True \<or> fnmatch cls g rel"

text \<open>Where no pattern raises, this is the match \<open>Sync_Walk\<close> is told to use.\<close>

lemma matches_any_globs: "matches_any cls rel gs = Inr hit \<Longrightarrow> hit \<longleftrightarrow> matches_globs (glob_one cls) rel gs"
  by (induction gs) (auto simp: matches_globs_def glob_one_def split: sum.splits if_splits)

lemma matches_any_raises: "matches_any cls rel gs = Inl e \<Longrightarrow> \<exists>g \<in> set gs. path_parts g = [] \<and> \<not> py_startswith g ''/''"
  by (induction gs) (auto simp: path_match_def Let_def split: sum.splits if_splits)

section \<open>A slash in the pattern needs a slash in the path\<close>

lemma fnmatch_star:
  "fnmatch cls (CHR ''*'' # ps) s \<longleftrightarrow> fnmatch cls ps s \<or> (s \<noteq> [] \<and> fnmatch cls (CHR ''*'' # ps) (tl s))"
  by (subst fnmatch.simps(2)) (auto split: list.splits)

lemma fnmatch_char:
  assumes "p \<noteq> CHR ''*''" and "p \<noteq> CHR ''[''" and "fnmatch cls (p # ps) s"
  shows "s \<noteq> [] \<and> (p = CHR ''?'' \<or> hd s = p) \<and> fnmatch cls ps (tl s)"
  using assms by (subst (asm) fnmatch.simps(2)) (auto split: list.splits if_splits)

lemma fnmatch_slash:
  assumes "CHR ''['' \<notin> set p" and "CHR ''/'' \<in> set p" and "fnmatch cls p s"
  shows "CHR ''/'' \<in> set s"
  using assms
proof (induction "length p + length s" arbitrary: p s rule: less_induct)
  case less
  obtain c ps where p: "p = c # ps" using less.prems by (cases p) auto
  have step: "fnmatch cls q t \<Longrightarrow> length q + length t < length p + length s \<Longrightarrow> CHR ''['' \<notin> set q
    \<Longrightarrow> CHR ''/'' \<in> set q \<Longrightarrow> CHR ''/'' \<in> set t" for q t
    using less.hyps by blast
  have tail: "CHR ''/'' \<in> set (tl s) \<Longrightarrow> CHR ''/'' \<in> set s" by (cases s) auto
  show ?case
  proof (cases "c = CHR ''*''")
    case True
    then consider "fnmatch cls ps s" | "s \<noteq> []" "fnmatch cls p (tl s)"
      using less.prems(3) fnmatch_star p by metis
    then show ?thesis
    proof cases
      case 1
      then show ?thesis using step [of ps s] less.prems p True by simp
    next
      case 2
      then show ?thesis using step [of p "tl s"] less.prems tail by (simp add: diff_less)
    qed
  next
    case False
    then have "s \<noteq> []" "c = CHR ''?'' \<or> hd s = c" "fnmatch cls ps (tl s)"
      using fnmatch_char [of c cls ps s] less.prems p by auto
    then show ?thesis using step [of ps "tl s"] less.prems p tail by (cases s) auto
  qed
qed

end
