(* ===== verification/Ingestion_Profile.thy ===== *)
theory Ingestion_Profile
  imports Sync_Config Glob_Match Subfolder_Queue
begin

text \<open>
  The profile an administrator edits and the two documents it becomes (\<open>identity/ingestion_presets.py\<close>,
  \<open>identity/ingestion_compiler.py\<close>): the request that says what to sync and the configuration that says when. Field
  values are decoded JSON with a tuple as an array; the texts of the errors are constructors that carry what the text
  is made of. The schema library is the one of \<open>Sync_Config\<close>.

  The lemmas show exactly which profiles compile and that what they compile to is accepted by the Connector's own
  checks, that the warning before a re-send names every source whose documents will be re-sent, and what the check of
  the document fields guarantees.
\<close>

section \<open>Presets\<close>

record schedule_preset =
  sp_mode :: string
  sp_start :: string
  sp_end :: string
  sp_scan_interval :: "int option"

definition SCHEDULE_PRESETS :: "(string \<times> schedule_preset) list" where
  "SCHEDULE_PRESETS =
     [(''continuous'', \<lparr>sp_mode = ''continuous'', sp_start = ''00:00'', sp_end = ''23:59'', sp_scan_interval = Some 120\<rparr>),
      (''nightly'', \<lparr>sp_mode = ''continuous'', sp_start = ''19:00'', sp_end = ''06:00'', sp_scan_interval = Some 300\<rparr>),
      (''manual'', \<lparr>sp_mode = ''one_time'', sp_start = ''00:00'', sp_end = ''23:59'', sp_scan_interval = None\<rparr>)]"

record throughput_preset =
  tp_requests_per_minute :: int
  tp_burst :: int
  tp_max_files :: int
  tp_max_scan_entries :: int

definition THROUGHPUT_PRESETS :: "(string \<times> throughput_preset) list" where
  "THROUGHPUT_PRESETS =
     [(''gentle'', \<lparr>tp_requests_per_minute = 5, tp_burst = 2, tp_max_files = 100, tp_max_scan_entries = 5000\<rparr>),
      (''normal'', \<lparr>tp_requests_per_minute = 30, tp_burst = 5, tp_max_files = 500, tp_max_scan_entries = 10000\<rparr>),
      (''fast'', \<lparr>tp_requests_per_minute = 120, tp_burst = 20, tp_max_files = 2000, tp_max_scan_entries = 50000\<rparr>)]"

definition FILE_TYPE_PRESETS :: "(string \<times> string list) list" where
  "FILE_TYPE_PRESETS =
     [(''documents'', [''**/*.docx'', ''**/*.pdf'', ''**/*.txt'', ''**/*.md'']), (''email'', [''**/*.eml'', ''**/*.msg''])]"

definition DEFAULT_EXCLUDE_GLOBS :: "string list" where
  "DEFAULT_EXCLUDE_GLOBS = [''**/~$*'', ''**/.DS_Store'', ''**/Thumbs.db'', ''**/*.tmp'', ''**/.git/**'']"

section \<open>Profiles\<close>

definition MAX_SOURCE_FIELDS :: nat where "MAX_SOURCE_FIELDS = 64"
definition MAX_FIELD_TEMPLATES :: nat where "MAX_FIELD_TEMPLATES = 8"
definition MAX_FIELD_VALUES :: nat where "MAX_FIELD_VALUES = 32"
definition MAX_FIELD_VALUE_CHARS :: nat where "MAX_FIELD_VALUE_CHARS = 256"

definition SECONDS_PER_DAY :: int where "SECONDS_PER_DAY = 86400"
definition BYTES_PER_MEGABYTE :: int where "BYTES_PER_MEGABYTE = 1024 * 1024"

text \<open>The keys of a Python dict built from a list: each once, in the order of its first occurrence.\<close>

definition dict_keys :: "'a list \<Rightarrow> 'a list" where
  "dict_keys xs = first_spellings (\<lambda>x. x) xs"

text \<open>\<open>_field_pairs\<close>: a dict of the pairs, the last value of a key counts, sorted by key.\<close>

definition field_pairs :: "(string \<times> jval) list \<Rightarrow> (string \<times> jval) list" where
  "field_pairs raw = sort_key fst (fold (\<lambda>(k, v). AList.update k v) raw [])"

record profile_folder =
  sf_path :: string
  sf_recursive :: bool
  sf_access_groups :: "string list"
  sf_fields :: "(string \<times> jval) list"
  sf_templates :: "string list"
  sf_metadata :: "string list"

text \<open>\<open>SourceFolder(...)\<close> with its \<open>__post_init__\<close>.\<close>

definition source_folder_init :: "profile_folder \<Rightarrow> profile_folder" where
  "source_folder_init s = s\<lparr>sf_fields := field_pairs (sf_fields s), sf_metadata := dict_keys (sf_metadata s)\<rparr>"

definition sf_has_fields :: "profile_folder \<Rightarrow> bool" where
  "sf_has_fields s \<longleftrightarrow> sf_fields s \<noteq> [] \<or> sf_templates s \<noteq> [] \<or> sf_metadata s \<noteq> []"

text \<open>\<open>field_config\<close>; the metadata items are a frozenset, here a set.\<close>

definition field_config :: "profile_folder \<Rightarrow> (string \<times> jval) list \<times> string list \<times> string set" where
  "field_config s = (sf_fields s, sf_templates s, set (sf_metadata s))"

record ingestion_profile =
  ip_prefix :: string
  ip_sources :: "profile_folder list"
  ip_file_types :: "string list"
  ip_schedule :: string
  ip_throughput :: string
  ip_paused :: bool
  ip_full_rescan :: bool
  ip_max_age_days :: "int option"
  ip_max_megabytes :: "int option"
  ip_exclude_globs :: "string list"
  ip_delete_on_remove :: bool
  ip_description :: string

record compiled_ingestion =
  ci_sync_config :: jval
  ci_sync_request :: jval

section \<open>Compiling\<close>

datatype key_problem = System_Field | Not_Registered | Retired

datatype field_problem =
    Too_Many_Fields nat
  | Too_Many_Templates nat
  | Bad_Key nat string key_problem
  | No_Value nat string
  | Too_Many_Values nat string
  | One_Value_Only nat string
  | Blank_Value nat string
  | Long_Value nat string
  | Not_In_Choice nat string
  | Bad_Template nat nat template_error
  | Bad_Template_Key nat nat string key_problem
  | Unknown_Item nat
  | Bad_Item_Target nat string key_problem

datatype profile_error =
    Unknown_Choice string string
  | No_File_Type
  | No_Folder
  | No_Prefix
  | No_Path
  | Template_Refused nat nat template_error
  | Holds_Secret string "string list"
  | Not_Valid string string string
  | Fields_Refused "field_problem list" nat

definition choose_preset :: "(string \<times> 'a) list \<Rightarrow> string \<Rightarrow> string \<Rightarrow> profile_error + 'a" where
  "choose_preset table key what = (case map_of table key of Some v \<Rightarrow> Inr v | None \<Rightarrow> Inl (Unknown_Choice what key))"

definition compile_sync_config :: "ingestion_profile \<Rightarrow> profile_error + jval" where
  "compile_sync_config p =
     (case choose_preset SCHEDULE_PRESETS (ip_schedule p) ''schedule'' of Inl e \<Rightarrow> Inl e
      | Inr schedule \<Rightarrow>
          (case choose_preset THROUGHPUT_PRESETS (ip_throughput p) ''speed'' of Inl e \<Rightarrow> Inl e
           | Inr throughput \<Rightarrow>
               Inr (JObj
                 ([(''schema_version'', JInt 1), (''enabled'', JBool (\<not> ip_paused p)), (''mode'', JStr (sp_mode schedule)),
                   (''window'', JObj [(''start_local'', JStr (sp_start schedule)), (''end_local'', JStr (sp_end schedule))]),
                   (''rate_limit'', JObj [(''max_ingestion_requests_per_minute'', JInt (tp_requests_per_minute throughput)),
                                          (''burst'', JInt (tp_burst throughput))]),
                   (''max_files_per_cycle'', JInt (tp_max_files throughput)),
                   (''max_scan_entries_per_cycle'', JInt (tp_max_scan_entries throughput)),
                   (''pause_policy'', JStr ''finish_current_unit_then_pause'')]
                  @ (case sp_scan_interval schedule of None \<Rightarrow> [] | Some n \<Rightarrow> [(''scan_interval_seconds'', JInt n)])))))"

text \<open>\<open>globs.update(...)\<close> for every chosen kind; \<open>sorted\<close> of a set of strings.\<close>

definition sorted_strings :: "string list \<Rightarrow> string list" where
  "sorted_strings xs = sort (remdups xs)"

fun chosen_globs :: "string list \<Rightarrow> string list \<Rightarrow> profile_error + string list" where
  "chosen_globs [] globs = Inr globs"
| "chosen_globs (name # names) globs =
     (case choose_preset FILE_TYPE_PRESETS name ''file type'' of Inl e \<Rightarrow> Inl e | Inr gs \<Rightarrow> chosen_globs names (globs @ gs))"

definition include_globs :: "string list \<Rightarrow> profile_error + string list" where
  "include_globs file_types =
     (if file_types = [] then Inl No_File_Type
      else case chosen_globs file_types [] of Inl e \<Rightarrow> Inl e | Inr globs \<Rightarrow> Inr (sorted_strings globs))"

definition clean_groups :: "string list \<Rightarrow> string list" where
  "clean_groups groups = dict_keys (filter (\<lambda>g. g \<noteq> []) (map py_strip groups))"

fun first_bad_template :: "nat \<Rightarrow> string list \<Rightarrow> (nat \<times> template_error) option" where
  "first_bad_template number [] = None"
| "first_bad_template number (t # ts) =
     (case compile_template (JStr t) of Inl e \<Rightarrow> Some (number, e) | Inr _ \<Rightarrow> first_bad_template (Suc number) ts)"

definition strings_json :: "string list \<Rightarrow> jval" where
  "strings_json xs = JArr (map JStr xs)"

definition source_entry :: "profile_folder \<Rightarrow> jval" where
  "source_entry s = JObj
     ([(''path'', JStr (sf_path s)), (''recursive'', JBool (sf_recursive s))]
      @ (if clean_groups (sf_access_groups s) = [] then [] else [(''access_groups'', strings_json (clean_groups (sf_access_groups s)))])
      @ (if sf_fields s = [] then [] else [(''fields'', JObj (sf_fields s))])
      @ (if sf_templates s = [] then [] else [(''field_templates'', strings_json (sf_templates s))])
      @ (if sf_metadata s = [] then [] else [(''metadata_fields'', strings_json (sf_metadata s))]))"

fun compile_sources :: "nat \<Rightarrow> profile_folder list \<Rightarrow> profile_error + jval list" where
  "compile_sources number [] = Inr []"
| "compile_sources number (s # ss) =
     (if py_strip (sf_path s) = [] then Inl No_Path
      else case first_bad_template 1 (sf_templates s) of
        Some (index, e) \<Rightarrow> Inl (Template_Refused number index e)
      | None \<Rightarrow> (case compile_sources (Suc number) ss of Inl e \<Rightarrow> Inl e | Inr es \<Rightarrow> Inr (source_entry s # es)))"

definition compile_filters :: "ingestion_profile \<Rightarrow> string list \<Rightarrow> jval" where
  "compile_filters p include = JObj
     ([(''include_globs'', strings_json include),
       (''exclude_globs'', strings_json (sorted_strings (DEFAULT_EXCLUDE_GLOBS @ ip_exclude_globs p)))]
      @ (case ip_max_age_days p of None \<Rightarrow> [] | Some d \<Rightarrow> [(''max_document_age_seconds'', JInt (d * SECONDS_PER_DAY))])
      @ (case ip_max_megabytes p of None \<Rightarrow> [] | Some m \<Rightarrow> [(''max_file_bytes'', JInt (m * BYTES_PER_MEGABYTE))]))"

definition compile_ingestion :: "ingestion_profile \<Rightarrow> jval" where
  "compile_ingestion p = JObj
     ([(''identifier_prefix'', JStr (py_strip (ip_prefix p))), (''delete_on_remove'', JBool (ip_delete_on_remove p))]
      @ (if py_strip (ip_description p) = [] then [] else [(''description'', JStr (take 2000 (py_strip (ip_description p))))]))"

definition compile_sync_request :: "ingestion_profile \<Rightarrow> profile_error + jval" where
  "compile_sync_request p =
     (if ip_sources p = [] then Inl No_Folder
      else if py_strip (ip_prefix p) = [] then Inl No_Prefix
      else case compile_sources 1 (ip_sources p) of Inl e \<Rightarrow> Inl e
      | Inr sources \<Rightarrow>
          (case include_globs (ip_file_types p) of Inl e \<Rightarrow> Inl e
           | Inr globs \<Rightarrow>
               Inr (JObj [(''mode'', JStr (if ip_full_rescan p then ''full'' else ''incremental'')), (''sources'', JArr sources),
                          (''filters'', compile_filters p globs), (''ingestion'', compile_ingestion p)])))"

fun object_keys :: "jval \<Rightarrow> string list" where
  "object_keys (JObj kvs) = map fst kvs"
| "object_keys _ = []"

definition reject_secrets :: "jval \<Rightarrow> string \<Rightarrow> profile_error option" where
  "reject_secrets doc which =
     (let leaked = filter (\<lambda>k. k \<in> set (object_keys doc)) (sort FORBIDDEN_KEYS)
      in if leaked = [] then None else Some (Holds_Secret which leaked))"

text \<open>Where a refused document is not valid. Under the document-field keys the library's message, which repeats a value, is left out.\<close>

fun path_item_text :: "path_item \<Rightarrow> string" where
  "path_item_text (Idx i) = show_nat i"
| "path_item_text (Key k) = k"

definition error_location :: "path_item list \<Rightarrow> string \<Rightarrow> string" where
  "error_location path which =
     (let joined = py_join (CHR ''/'') (map path_item_text path) in if joined = [] then which else joined)"

definition in_source_fields :: "path_item list \<Rightarrow> bool" where
  "in_source_fields path \<longleftrightarrow> length path \<ge> 3 \<and> path ! 0 = Key ''sources'' \<and> path ! 2 \<in> Key ` set REDACTED_SOURCE_KEYS"

definition schema_refusal :: "schema_error \<Rightarrow> string \<Rightarrow> profile_error" where
  "schema_refusal e which =
     (let path = se_path e
      in if in_source_fields path
         then Not_Valid which
           (if path ! 2 = Key ''fields'' \<and> length path > 3 \<and> \<not> KEY_RE (path_item_text (path ! 3))
            then py_join (CHR ''/'') (map path_item_text (take 3 path)) else error_location path which)
           (se_validator e)
         else Not_Valid which (error_location path which) (se_message e))"

definition validate_compiled :: "schema_lib \<Rightarrow> jval \<Rightarrow> string \<Rightarrow> string \<Rightarrow> profile_error option" where
  "validate_compiled lib doc file which = (case best_error lib file doc of None \<Rightarrow> None | Some e \<Rightarrow> Some (schema_refusal e which))"

fun first_error :: "'e option list \<Rightarrow> 'e option" where
  "first_error [] = None"
| "first_error (Some e # es) = Some e"
| "first_error (None # es) = first_error es"

definition compile_profile :: "schema_lib \<Rightarrow> ingestion_profile \<Rightarrow> profile_error + compiled_ingestion" where
  "compile_profile lib p =
     (case compile_sync_config p of Inl e \<Rightarrow> Inl e
      | Inr config \<Rightarrow>
          (case compile_sync_request p of Inl e \<Rightarrow> Inl e
           | Inr request \<Rightarrow>
               (case first_error [reject_secrets config ''schedule'', reject_secrets request ''folder list'',
                                   validate_compiled lib config SYNC_CONFIG_FILE ''schedule'',
                                   validate_compiled lib request SYNC_REQUEST_FILE ''folder list''] of
                  Some e \<Rightarrow> Inl e
                | None \<Rightarrow> Inr \<lparr>ci_sync_config = config, ci_sync_request = request\<rparr>)))"

section \<open>Support text, counts and changes\<close>

definition count_if :: "('a \<Rightarrow> bool) \<Rightarrow> 'a list \<Rightarrow> int" where
  "count_if p xs = int (length (filter p xs))"

definition field_config_counts :: "profile_folder list \<Rightarrow> (string \<times> jval) list" where
  "field_config_counts sources =
     [(''folders_with_fields'', JInt (count_if sf_has_fields sources)),
      (''folders_with_static_fields'', JInt (count_if (\<lambda>s. sf_fields s \<noteq> []) sources)),
      (''field_templates'', JInt (sum_list (map (int \<circ> length \<circ> sf_templates) sources))),
      (''folders_with_metadata_fields'', JInt (count_if (\<lambda>s. sf_metadata s \<noteq> []) sources))]"

definition optional_int :: "int option \<Rightarrow> jval" where
  "optional_int v = (case v of None \<Rightarrow> JNull | Some n \<Rightarrow> JInt n)"

definition redact_for_support :: "ingestion_profile \<Rightarrow> jval" where
  "redact_for_support p = JObj (sort_key fst
     ([(''schedule'', JStr (ip_schedule p)), (''throughput'', JStr (ip_throughput p)), (''paused'', JBool (ip_paused p)),
       (''full_rescan'', JBool (ip_full_rescan p)), (''file_types'', strings_json (sorted_strings (ip_file_types p))),
       (''folder_count'', JInt (int (length (ip_sources p)))),
       (''folders_with_access_groups'', JInt (count_if (\<lambda>s. sf_access_groups s \<noteq> []) (ip_sources p))),
       (''recursive_folders'', JInt (count_if sf_recursive (ip_sources p))),
       (''max_document_age_days'', optional_int (ip_max_age_days p)), (''max_file_megabytes'', optional_int (ip_max_megabytes p)),
       (''custom_exclude_count'', JInt (int (length (ip_exclude_globs p)))), (''delete_on_remove'', JBool (ip_delete_on_remove p))]
      @ field_config_counts (ip_sources p)))"

definition profile_uses_fields :: "ingestion_profile option \<Rightarrow> bool" where
  "profile_uses_fields p = (case p of None \<Rightarrow> False | Some q \<Rightarrow> list_ex sf_has_fields (ip_sources q))"

text \<open>A path that occurs twice in the old profile counts with its last occurrence.\<close>

definition field_config_changes :: "ingestion_profile option \<Rightarrow> ingestion_profile \<Rightarrow> string list" where
  "field_config_changes old new =
     (case old of None \<Rightarrow> []
      | Some o' \<Rightarrow>
          (let before = map_of (rev (map (\<lambda>s. (sf_path s, field_config s)) (ip_sources o')))
           in map sf_path (filter (\<lambda>s. case before (sf_path s) of None \<Rightarrow> False | Some c \<Rightarrow> c \<noteq> field_config s) (ip_sources new))))"

section \<open>Checking the document fields\<close>

text \<open>A field of the registry, in the shape \<open>doc_fields_capability.registry_for\<close> hands out.\<close>

record registry_field =
  rf_key :: string
  rf_status :: string
  rf_cardinality :: string
  rf_enum :: "(string \<times> string) list"

text \<open>\<open>str(v)\<close>; the text of a value that is not a string is an argument.\<close>

definition text_of_value :: "(jval \<Rightarrow> string) \<Rightarrow> jval \<Rightarrow> string" where
  "text_of_value str v = (case v of JStr s \<Rightarrow> s | _ \<Rightarrow> str v)"

definition enum_code :: "(jval \<Rightarrow> string) \<Rightarrow> (string \<times> string) list \<Rightarrow> jval \<Rightarrow> string option" where
  "enum_code str items v =
     (let wanted = casefold (py_strip (text_of_value str v))
      in map_option fst (find (\<lambda>(code, label). wanted \<in> {casefold code, casefold (py_strip label)}) items))"

definition by_key :: "registry_field list \<Rightarrow> string \<Rightarrow> registry_field option" where
  "by_key registry = map_of (rev (map (\<lambda>f. (rf_key f, f)) registry))"

definition key_problem_of :: "registry_field list \<Rightarrow> string \<Rightarrow> key_problem option" where
  "key_problem_of registry key =
     (if key \<in> set SYSTEM_KEYS then Some System_Field
      else case by_key registry key of None \<Rightarrow> Some Not_Registered
      | Some spec \<Rightarrow> if rf_status spec = ''deprecated'' then Some Retired else None)"

definition tuple_items :: "jval \<Rightarrow> jval list" where
  "tuple_items v = (case v of JArr xs \<Rightarrow> xs | _ \<Rightarrow> [v])"

definition count_problems :: "nat \<Rightarrow> string \<Rightarrow> registry_field \<Rightarrow> jval list \<Rightarrow> field_problem list" where
  "count_problems number key spec values =
     (if values = [] then [No_Value number key]
      else if length values > MAX_FIELD_VALUES then [Too_Many_Values number key]
      else if length values > 1 \<and> rf_cardinality spec \<noteq> ''many'' then [One_Value_Only number key] else [])"

definition text_problems :: "nat \<Rightarrow> string \<Rightarrow> jval \<Rightarrow> field_problem list" where
  "text_problems number key item =
     (case item of
        JStr s \<Rightarrow> if py_strip s = [] then [Blank_Value number key]
          else if length s > MAX_FIELD_VALUE_CHARS then [Long_Value number key] else []
      | _ \<Rightarrow> [])"

text \<open>One value: its problems and what replaces it.\<close>

definition check_item :: "(jval \<Rightarrow> string) \<Rightarrow> nat \<Rightarrow> string \<Rightarrow> registry_field \<Rightarrow> jval \<Rightarrow> field_problem list \<times> jval" where
  "check_item str number key spec item =
     (let (choice, clean) =
        (if rf_enum spec = [] then ([], item)
         else case enum_code str (rf_enum spec) item of None \<Rightarrow> ([Not_In_Choice number key], item) | Some code \<Rightarrow> ([], JStr code))
      in (text_problems number key item @ choice, clean))"

definition check_field :: "(jval \<Rightarrow> string) \<Rightarrow> registry_field list \<Rightarrow> nat \<Rightarrow> string \<times> jval \<Rightarrow> field_problem list \<times> string \<times> jval" where
  "check_field str registry number = (\<lambda>(key, v).
     (case key_problem_of registry key of
        Some problem \<Rightarrow> ([Bad_Key number key problem], key, v)
      | None \<Rightarrow>
          (let spec = the (by_key registry key); values = tuple_items v;
               checked = map (check_item str number key spec) values; cleaned = map snd checked
           in (count_problems number key spec values @ concat (map fst checked), key,
               (case v of JArr _ \<Rightarrow> JArr cleaned | _ \<Rightarrow> if cleaned = [] then v else hd cleaned)))))"

definition check_template :: "registry_field list \<Rightarrow> nat \<Rightarrow> nat \<Rightarrow> string \<Rightarrow> field_problem list" where
  "check_template registry number index t =
     (case compile_template (JStr t) of Inl e \<Rightarrow> [Bad_Template number index e]
      | Inr compiled \<Rightarrow>
          concat (map (\<lambda>key. case key_problem_of registry key of None \<Rightarrow> [] | Some problem \<Rightarrow> [Bad_Template_Key number index key problem])
            (template_keys compiled)))"

definition METADATA_TARGETS :: "(string \<times> string) list" where
  "METADATA_TARGETS = [(''language'', ''language''), (''email_date'', ''document_date''), (''email_doc_type'', ''doc_type''),
     (''email_author'', ''author''), (''document_author'', ''author''), (''keywords'', ''keywords''), (''document_status'', ''status'')]"

definition check_metadata :: "registry_field list \<Rightarrow> nat \<Rightarrow> string \<Rightarrow> field_problem list" where
  "check_metadata registry number item =
     (case map_of METADATA_TARGETS item of None \<Rightarrow> [Unknown_Item number]
      | Some target \<Rightarrow> (case key_problem_of registry target of None \<Rightarrow> [] | Some problem \<Rightarrow> [Bad_Item_Target number target problem]))"

definition check_source :: "(jval \<Rightarrow> string) \<Rightarrow> registry_field list \<Rightarrow> nat \<times> profile_folder \<Rightarrow> field_problem list \<times> profile_folder" where
  "check_source str registry = (\<lambda>(number, s).
     (let checked = map (check_field str registry number) (sf_fields s)
      in ((if length (sf_fields s) > MAX_SOURCE_FIELDS then [Too_Many_Fields number] else [])
          @ (if length (sf_templates s) > MAX_FIELD_TEMPLATES then [Too_Many_Templates number] else [])
          @ concat (map fst checked)
          @ concat (map (\<lambda>(index, t). check_template registry number index t) (List.enumerate 1 (sf_templates s)))
          @ concat (map (check_metadata registry number) (sf_metadata s)),
          source_folder_init (s\<lparr>sf_fields := map snd checked\<rparr>))))"

definition validate_profile_fields ::
    "(jval \<Rightarrow> string) \<Rightarrow> ingestion_profile \<Rightarrow> registry_field list \<Rightarrow> profile_error + ingestion_profile" where
  "validate_profile_fields str p registry =
     (let checked = map (check_source str registry) (List.enumerate 1 (ip_sources p)); errors = concat (map fst checked)
      in if errors = [] then Inr (p\<lparr>ip_sources := map snd checked\<rparr>)
         else Inl (Fields_Refused (take 8 (dict_keys errors)) (length (dict_keys errors) - 8)))"

section \<open>Conflicts with folder rules\<close>

definition upload_field_keys :: "ingestion_profile \<Rightarrow> string list" where
  "upload_field_keys p =
     concat (map (\<lambda>s. map fst (sf_fields s)
       @ concat (map (\<lambda>t. case compile_template (JStr t) of Inl e \<Rightarrow> [] | Inr c \<Rightarrow> template_keys c) (sf_templates s))) (ip_sources p))"

definition profile_pointer_prefix :: "ingestion_profile \<Rightarrow> string" where
  "profile_pointer_prefix p = py_strip (ip_prefix p) @ ''/''"

record folder_rule =
  fr_pointer_prefix :: string
  fr_set :: "(string \<times> jval) list"

definition rule_reaches :: "string \<Rightarrow> folder_rule \<Rightarrow> bool" where
  "rule_reaches pre r \<longleftrightarrow> fr_pointer_prefix r \<noteq> [] \<and> (py_startswith (fr_pointer_prefix r) pre \<or> py_startswith pre (fr_pointer_prefix r))"

definition folder_rule_conflicts :: "ingestion_profile \<Rightarrow> folder_rule list \<Rightarrow> (string \<times> int) list" where
  "folder_rule_conflicts p rules =
     (let keys = upload_field_keys p
      in if keys = [] then []
         else sort_key fst (fold (\<lambda>r out. if \<not> rule_reaches (profile_pointer_prefix p) r then out
           else fold (\<lambda>(key, _) out. if key \<in> set keys then tally_add key 1 out else out) (fr_set r) out) rules []))"

section \<open>Which profiles compile\<close>

lemma set_first_spellings: "set (map f (first_spellings f xs)) = set (map f xs)"
proof (induction xs)
  case (Cons x xs)
  have "f ` {y \<in> set (first_spellings f xs). f y \<noteq> f x} = f ` set (first_spellings f xs) - {f x}" by auto
  then show ?case using Cons.IH by auto
qed simp

lemma dict_keys_facts [simp]: "distinct (dict_keys xs)" "set (dict_keys xs) = set xs"
  using first_spellings_distinct [of "\<lambda>x. x" xs] set_first_spellings [of "\<lambda>x. x" xs] by (simp_all add: dict_keys_def)

lemma strings_json_array [simp]:
  "schema_array (schema_string P) (strings_json xs) \<longleftrightarrow> list_all P xs"
  "unique_items (strings_json xs) \<longleftrightarrow> distinct xs" "at_most n (strings_json xs) \<longleftrightarrow> length xs \<le> n"
  by (auto simp: schema_array_def strings_json_def schema_string_def list_all_iff unique_items_def at_most_def distinct_map inj_on_def)

declare compile_template.simps [simp del]

lemma template_length:
  assumes "compile_template (JStr t) = Inr c" shows "t \<noteq> [] \<and> length t \<le> 512"
proof -
  have "t = [] \<Longrightarrow> compile_template (JStr t) = Inl Te_Syntax"
    by (simp add: compile_template.simps py_endswith_def DEEP_SUFFIX_def MAX_TEMPLATE_CHARS_def)
  then show ?thesis using assms by (auto simp: compile_template.simps MAX_TEMPLATE_CHARS_def split: if_splits)
qed

lemma no_bad_template: "first_bad_template n ts = None \<longleftrightarrow> (\<forall>t \<in> set ts. \<exists>c. compile_template (JStr t) = Inr c)"
  by (induction n ts rule: first_bad_template.induct) (auto split: sum.splits)

text \<open>What a source and a profile need.\<close>

definition source_compiles :: "profile_folder \<Rightarrow> bool" where
  "source_compiles s \<longleftrightarrow> py_strip (sf_path s) \<noteq> [] \<and> (\<forall>t \<in> set (sf_templates s). \<exists>c. compile_template (JStr t) = Inr c)"

definition source_in_schema :: "profile_folder \<Rightarrow> bool" where
  "source_in_schema s \<longleftrightarrow> (sf_fields s = [] \<or> fields_schema (JObj (sf_fields s))) \<and> length (sf_templates s) \<le> 8
     \<and> distinct (sf_metadata s) \<and> set (sf_metadata s) \<subseteq> set METADATA_ITEMS"

definition profile_compiles :: "ingestion_profile \<Rightarrow> bool" where
  "profile_compiles p \<longleftrightarrow> ip_schedule p \<in> set (map fst SCHEDULE_PRESETS) \<and> ip_throughput p \<in> set (map fst THROUGHPUT_PRESETS)
     \<and> ip_sources p \<noteq> [] \<and> py_strip (ip_prefix p) \<noteq> [] \<and> list_all (\<lambda>s. source_compiles s \<and> source_in_schema s) (ip_sources p)
     \<and> ip_file_types p \<noteq> [] \<and> set (ip_file_types p) \<subseteq> set (map fst FILE_TYPE_PRESETS)
     \<and> (\<forall>d \<in> set_option (ip_max_age_days p). 1 \<le> d) \<and> (\<forall>m \<in> set_option (ip_max_megabytes p). 1 \<le> m)"

lemma strip_nonempty: "py_strip s \<noteq> [] \<Longrightarrow> s \<noteq> []"
  by (auto simp: py_strip_def py_lstrip_def py_rstrip_def)

lemma optional_list: "list_all P (if c then [] else xs) \<longleftrightarrow> c \<or> list_all P xs"
  by simp

lemma source_entry_schema:
  assumes "source_compiles s" shows "source_schema (source_entry s) \<longleftrightarrow> source_in_schema s"
proof -
  have ts: "list_all (\<lambda>t. t \<noteq> [] \<and> length t \<le> 512) (sf_templates s)"
    unfolding list_all_iff using assms template_length by (metis source_compiles_def)
  have gs: "list_all (\<lambda>g. g \<noteq> []) (clean_groups (sf_access_groups s)) \<and> distinct (clean_groups (sf_access_groups s))"
    by (auto simp: clean_groups_def list_all_iff)
  have "sf_path s \<noteq> []" using assms strip_nonempty by (auto simp: source_compiles_def)
  then show ?thesis using ts gs
    by (simp add: source_schema_def schema_object_def source_entry_def source_in_schema_def schema_string_def optional_list
        subset_code(1) list_all_iff [of _ "sf_metadata s"]) force
qed

lemma compile_sources_entries:
  "if list_all source_compiles ss then compile_sources n ss = Inr (map source_entry ss) else \<exists>e. compile_sources n ss = Inl e"
proof (induction n ss rule: compile_sources.induct)
  case (2 number s ss)
  show ?case
  proof (cases "source_compiles s")
    case True
    then have "py_strip (sf_path s) \<noteq> []" "first_bad_template 1 (sf_templates s) = None"
      by (auto simp: source_compiles_def no_bad_template)
    then show ?thesis using 2 True by (auto split: if_splits)
  next
    case False
    then have "py_strip (sf_path s) = [] \<or> (\<exists>i e. first_bad_template 1 (sf_templates s) = Some (i, e))"
      using no_bad_template [of 1 "sf_templates s"] by (cases "first_bad_template 1 (sf_templates s)") (auto simp: source_compiles_def)
    then show ?thesis using False by auto
  qed
qed simp

lemma chosen_globs_ok: "(\<exists>gs. chosen_globs ns acc = Inr gs) \<longleftrightarrow> set ns \<subseteq> set (map fst FILE_TYPE_PRESETS)"
proof (induction ns arbitrary: acc)
  case (Cons n ns)
  show ?case
  proof (cases "map_of FILE_TYPE_PRESETS n")
    case None
    then have "n \<notin> set (map fst FILE_TYPE_PRESETS)" by (simp add: map_of_eq_None_iff)
    then show ?thesis using None by (simp add: choose_preset_def)
  next
    case (Some gs)
    then have "n \<in> set (map fst FILE_TYPE_PRESETS)" by (metis map_of_eq_None_iff option.distinct(1) list.set_map)
    then show ?thesis using Some Cons.IH by (simp add: choose_preset_def)
  qed
qed simp

lemma include_globs_ok:
  "(\<exists>gs. include_globs ns = Inr gs) \<longleftrightarrow> ns \<noteq> [] \<and> set ns \<subseteq> set (map fst FILE_TYPE_PRESETS)"
  using chosen_globs_ok [of ns "[]"] by (auto simp: include_globs_def split: sum.splits)

lemma filters_in_schema:
  "filters_schema (compile_filters p gs) \<longleftrightarrow> (\<forall>d \<in> set_option (ip_max_age_days p). 1 \<le> d) \<and> (\<forall>m \<in> set_option (ip_max_megabytes p). 1 \<le> m)"
proof -
  have "1 \<le> d * SECONDS_PER_DAY \<longleftrightarrow> 1 \<le> d" "1 \<le> m * BYTES_PER_MEGABYTE \<longleftrightarrow> 1 \<le> m" for d m
    by (auto simp: SECONDS_PER_DAY_def BYTES_PER_MEGABYTE_def)
  then show ?thesis
    by (auto simp: filters_schema_def schema_object_def compile_filters_def list_all_iff schema_integer_def split: option.splits)
qed

lemma ingestion_in_schema: "py_strip (ip_prefix p) \<noteq> [] \<Longrightarrow> ingestion_schema (compile_ingestion p)"
  by (auto simp: ingestion_schema_def schema_object_def compile_ingestion_def schema_string_def)

text \<open>Every preset gives a configuration the Connector accepts.\<close>

lemma preset_hours: "list_all (\<lambda>(_, sp). hhmm_pattern (sp_start sp) \<and> hhmm_pattern (sp_end sp)) SCHEDULE_PRESETS"
  by code_simp

lemma preset_modes:
  "list_all (\<lambda>(_, sp). sp_mode sp \<in> {''one_time'', ''continuous''} \<and> (sp_mode sp = ''continuous'' \<longrightarrow> sp_scan_interval sp \<noteq> None)
     \<and> (\<forall>n \<in> set_option (sp_scan_interval sp). 5 \<le> n)) SCHEDULE_PRESETS"
  by (simp add: SCHEDULE_PRESETS_def)

lemma preset_rates:
  "list_all (\<lambda>(_, tp). 1 \<le> tp_requests_per_minute tp \<and> 1 \<le> tp_burst tp \<and> 0 \<le> tp_max_files tp \<and> 0 \<le> tp_max_scan_entries tp) THROUGHPUT_PRESETS"
  by (simp add: THROUGHPUT_PRESETS_def)

lemma choose_preset_Inr: "choose_preset table key what = Inr v \<Longrightarrow> (key, v) \<in> set table"
  by (auto simp: choose_preset_def map_of_SomeD split: option.splits)

lemma choose_preset_ok: "(\<exists>v. choose_preset table key what = Inr v) \<longleftrightarrow> key \<in> set (map fst table)"
proof (cases "map_of table key")
  case None
  then have "key \<notin> set (map fst table)" by (simp add: map_of_eq_None_iff)
  then show ?thesis using None by (simp add: choose_preset_def)
next
  case (Some v)
  then show ?thesis by (auto simp: choose_preset_def dest: map_of_SomeD intro: rev_image_eqI)
qed

lemma schedule_accepted:
  assumes "compile_sync_config p = Inr doc"
  shows "sync_config_schema doc" "extra_validate doc = Inr []" "iterate doc = Inr (map JStr (object_keys doc))"
    "first_forbidden (map JStr (object_keys doc)) = Inr None" "reject_secrets doc which = None"
proof -
  from assms obtain sp tp where
    sp: "choose_preset SCHEDULE_PRESETS (ip_schedule p) ''schedule'' = Inr sp"
    and tp: "choose_preset THROUGHPUT_PRESETS (ip_throughput p) ''speed'' = Inr tp"
    by (auto simp: compile_sync_config_def split: sum.splits)
  have hours: "hhmm_pattern (sp_start sp)" "hhmm_pattern (sp_end sp)"
    using choose_preset_Inr [OF sp] preset_hours by (auto simp: list_all_iff)
  have modes: "sp_mode sp \<in> {''one_time'', ''continuous''}" "sp_mode sp = ''continuous'' \<Longrightarrow> sp_scan_interval sp \<noteq> None"
    "\<And>n. sp_scan_interval sp = Some n \<Longrightarrow> 5 \<le> n"
    using choose_preset_Inr [OF sp] preset_modes by (fastforce simp: list_all_iff)+
  have rates: "1 \<le> tp_requests_per_minute tp" "1 \<le> tp_burst tp" "0 \<le> tp_max_files tp" "0 \<le> tp_max_scan_entries tp"
    using choose_preset_Inr [OF tp] preset_rates by (auto simp: list_all_iff)
  note doc = assms [unfolded compile_sync_config_def sp tp sum.case, simplified, symmetric]
  show "sync_config_schema doc" using hours modes rates
    by (cases "sp_scan_interval sp")
       (auto simp: doc sync_config_schema_def window_schema_def rate_limit_schema_def schema_object_def schema_integer_def schema_string_def)
  show "extra_validate doc = Inr []" using modes rates
    by (cases "sp_scan_interval sp")
       (auto simp: doc extra_validate_def collect_errors_none interval_errors_def rate_errors_def below_def Let_def)
  show "iterate doc = Inr (map JStr (object_keys doc))" by (simp add: doc)
  show "first_forbidden (map JStr (object_keys doc)) = Inr None"
    by (cases "sp_scan_interval sp") (simp_all add: doc FORBIDDEN_KEYS_def py_lower_def lower_char_def)
  show "reject_secrets doc which = None"
    by (cases "sp_scan_interval sp") (simp_all add: doc reject_secrets_def FORBIDDEN_KEYS_def filter_empty_conv)
qed

lemma schedule_compiles:
  "(\<exists>doc. compile_sync_config p = Inr doc) \<longleftrightarrow> ip_schedule p \<in> set (map fst SCHEDULE_PRESETS) \<and> ip_throughput p \<in> set (map fst THROUGHPUT_PRESETS)"
  using choose_preset_ok [of SCHEDULE_PRESETS "ip_schedule p" "''schedule''"] choose_preset_ok [of THROUGHPUT_PRESETS "ip_throughput p" "''speed''"]
  by (auto simp: compile_sync_config_def split: sum.splits)

text \<open>The request of a profile, and when it is in the schema.\<close>

definition request_of :: "ingestion_profile \<Rightarrow> string list \<Rightarrow> jval" where
  "request_of p globs = JObj
     [(''mode'', JStr (if ip_full_rescan p then ''full'' else ''incremental'')), (''sources'', JArr (map source_entry (ip_sources p))),
      (''filters'', compile_filters p globs), (''ingestion'', compile_ingestion p)]"

definition request_ready :: "ingestion_profile \<Rightarrow> bool" where
  "request_ready p \<longleftrightarrow> ip_sources p \<noteq> [] \<and> py_strip (ip_prefix p) \<noteq> [] \<and> list_all source_compiles (ip_sources p)
     \<and> ip_file_types p \<noteq> [] \<and> set (ip_file_types p) \<subseteq> set (map fst FILE_TYPE_PRESETS)"

lemma request_compiles:
  "if request_ready p then \<exists>globs. include_globs (ip_file_types p) = Inr globs \<and> compile_sync_request p = Inr (request_of p globs)
   else \<exists>e. compile_sync_request p = Inl e"
proof -
  have globs: "(\<exists>gs. include_globs (ip_file_types p) = Inr gs) \<longleftrightarrow> ip_file_types p \<noteq> [] \<and> set (ip_file_types p) \<subseteq> set (map fst FILE_TYPE_PRESETS)"
    by (rule include_globs_ok)
  note sources = compile_sources_entries [of "ip_sources p" 1]
  show ?thesis
  proof (cases "list_all source_compiles (ip_sources p)")
    case True
    then have "compile_sources 1 (ip_sources p) = Inr (map source_entry (ip_sources p))" using sources by simp
    then show ?thesis using True globs
      by (cases "include_globs (ip_file_types p)") (auto simp: compile_sync_request_def request_ready_def request_of_def)
  next
    case False
    then have "\<exists>e. compile_sources 1 (ip_sources p) = Inl e" using sources by simp
    then show ?thesis using False by (auto simp: compile_sync_request_def request_ready_def)
  qed
qed

lemma request_in_schema:
  assumes "request_ready p"
  shows "sync_request_schema (request_of p globs) \<longleftrightarrow> list_all source_in_schema (ip_sources p)
    \<and> (\<forall>d \<in> set_option (ip_max_age_days p). 1 \<le> d) \<and> (\<forall>m \<in> set_option (ip_max_megabytes p). 1 \<le> m)"
proof -
  have "schema_array source_schema (JArr (map source_entry (ip_sources p))) \<longleftrightarrow> list_all source_in_schema (ip_sources p)"
    using assms source_entry_schema by (auto simp: schema_array_def list_all_iff request_ready_def)
  moreover have "ingestion_schema (compile_ingestion p)" using assms by (simp add: ingestion_in_schema request_ready_def)
  ultimately show ?thesis using assms
    by (simp add: sync_request_schema_def schema_object_def request_of_def schema_string_def filters_in_schema request_ready_def)
qed

lemma profile_compiles_parts:
  "profile_compiles p \<longleftrightarrow> (\<exists>doc. compile_sync_config p = Inr doc) \<and> request_ready p
     \<and> list_all source_in_schema (ip_sources p) \<and> (\<forall>d \<in> set_option (ip_max_age_days p). 1 \<le> d) \<and> (\<forall>m \<in> set_option (ip_max_megabytes p). 1 \<le> m)"
  by (auto simp: profile_compiles_def schedule_compiles request_ready_def list_all_iff)

lemma request_secrets: "reject_secrets (request_of p globs) which = None"
  by (simp add: reject_secrets_def request_of_def FORBIDDEN_KEYS_def filter_empty_conv)

lemma request_templates:
  assumes "list_all source_compiles ss"
  shows "sync_body_template_errors (JObj [(''mode'', m), (''sources'', JArr (map source_entry ss)), (''filters'', f), (''ingestion'', i)]) = []"
proof -
  have "source_template_errors n (source_entry s) = []" if "source_compiles s" for n s
  proof -
    have ts: "as_list (jget (source_entry s) ''field_templates'') = map JStr (sf_templates s)"
      by (simp add: source_entry_def strings_json_def)
    show ?thesis using that unfolding source_template_errors_def ts
      by (auto simp: source_compiles_def in_set_enumerate_eq split: sum.splits) (metis Inr_Inl_False nth_mem)
  qed
  then show ?thesis using assms
    by (auto simp: sync_body_template_errors_def in_set_enumerate_eq list_all_iff)
qed

lemma compile_profile_cases:
  assumes "schema_lib_ok lib"
  shows "if profile_compiles p
    then \<exists>globs doc. include_globs (ip_file_types p) = Inr globs \<and> compile_sync_config p = Inr doc
      \<and> compile_profile lib p = Inr \<lparr>ci_sync_config = doc, ci_sync_request = request_of p globs\<rparr>
    else \<exists>e. compile_profile lib p = Inl e"
proof (cases "compile_sync_config p")
  case (Inl e)
  then show ?thesis by (simp add: compile_profile_def profile_compiles_parts)
next
  case (Inr doc)
  note accepted = schedule_accepted [OF Inr]
  have config: "best_error lib SYNC_CONFIG_FILE doc = None"
    using assms accepted(1) by (simp add: schema_lib_ok_def follows_schema_def)
  show ?thesis
  proof (cases "request_ready p")
    case False
    then show ?thesis using request_compiles [of p] Inr by (auto simp: compile_profile_def profile_compiles_parts)
  next
    case True
    then obtain globs where globs: "include_globs (ip_file_types p) = Inr globs" "compile_sync_request p = Inr (request_of p globs)"
      using request_compiles [of p] by auto
    have "best_error lib SYNC_REQUEST_FILE (request_of p globs) = None \<longleftrightarrow> sync_request_schema (request_of p globs)"
      using assms by (simp add: schema_lib_ok_def follows_schema_def)
    then show ?thesis
      using Inr True globs request_in_schema [OF True, of globs]
      by (cases "best_error lib SYNC_REQUEST_FILE (request_of p globs)")
         (auto simp: compile_profile_def accepted request_secrets validate_compiled_def config profile_compiles_parts)
  qed
qed

text \<open>
  (C9) A profile compiles exactly when its presets are known, it has folders with a path, a prefix and a kind of file,
  its templates compile, its document fields keep to the schema and its limits are positive. Both documents it compiles
  to pass the Connector's own checks, the schema and what the schema does not say, so the Connector never refuses what
  the console pushed.
\<close>

theorem compiled_profile_accepted:
  assumes "schema_lib_ok lib"
  shows "case compile_profile lib p of
    Inl e \<Rightarrow> \<not> profile_compiles p
  | Inr c \<Rightarrow> profile_compiles p \<and> validate_sync_config lib (ci_sync_config c) = Inr [] \<and> validate_sync_request lib (ci_sync_request c) = []"
proof (cases "profile_compiles p")
  case False
  then show ?thesis using compile_profile_cases [OF assms, of p] by auto
next
  case True
  then obtain globs doc where c: "compile_sync_config p = Inr doc" "compile_profile lib p = Inr \<lparr>ci_sync_config = doc, ci_sync_request = request_of p globs\<rparr>"
    using compile_profile_cases [OF assms, of p] by auto
  have "validate_sync_config lib doc = Inr []"
    using schedule_accepted [OF c(1)] by (simp add: validated_config [OF assms])
  moreover have "validate_sync_request lib (request_of p globs) = []"
  proof -
    have ready: "request_ready p" using True by (simp add: profile_compiles_parts)
    then have "sync_request_schema (request_of p globs)" using request_in_schema True by (simp add: profile_compiles_parts)
    moreover have "sync_body_template_errors (request_of p globs) = []"
      unfolding request_of_def using ready by (auto intro!: request_templates simp: request_ready_def)
    moreover have "follows_schema lib SYNC_REQUEST_FILE sync_request_schema" using assms by (simp add: schema_lib_ok_def)
    ultimately show ?thesis by (simp add: validate_sync_request_def messages_none)
  qed
  ultimately show ?thesis using True c by simp
qed

definition a_folder :: "string \<Rightarrow> profile_folder" where
  "a_folder path = source_folder_init \<lparr>sf_path = path, sf_recursive = True, sf_access_groups = [''mandat '', ''mandat''],
     sf_fields = [(''mandant'', JStr ''Muster AG'')], sf_templates = [''{period}/**''], sf_metadata = [''language'', ''language'']\<rparr>"

definition a_profile :: ingestion_profile where
  "a_profile = \<lparr>ip_prefix = '' kanzlei '', ip_sources = [a_folder ''/mnt/a''], ip_file_types = [''documents''], ip_schedule = ''nightly'',
     ip_throughput = ''normal'', ip_paused = False, ip_full_rescan = False, ip_max_age_days = Some 30, ip_max_megabytes = None,
     ip_exclude_globs = [], ip_delete_on_remove = True, ip_description = []\<rparr>"

text \<open>A library that reports one error for a document its schema refuses.\<close>

definition plain_schema_lib :: schema_lib where
  "plain_schema_lib =
     (let errors = (\<lambda>file doc. if (if file = SYNC_CONFIG_FILE then sync_config_schema doc else sync_request_schema doc) then []
                    else [\<lparr>se_path = [], se_validator = ''required'', se_message = ''not valid''\<rparr>])
      in \<lparr>iter_errors = errors, best_error = (\<lambda>file doc. find (\<lambda>_. True) (errors file doc))\<rparr>)"

lemma plain_schema_lib_ok: "schema_lib_ok plain_schema_lib"
  by (simp add: schema_lib_ok_def follows_schema_def plain_schema_lib_def SYNC_CONFIG_FILE_def SYNC_REQUEST_FILE_def)

lemma a_profile_compiles: "profile_compiles a_profile"
proof -
  have "compile_template (JStr ''{period}/**'') = Inr \<lparr>ct_source = ''{period}/**'', ct_segments = [Seg_Key ''period''], ct_deep = True\<rparr>"
    by code_simp
  moreover have "list_all (\<lambda>s. sf_templates s = [''{period}/**''] \<and> py_strip (sf_path s) \<noteq> [] \<and> source_in_schema s) (ip_sources a_profile)"
    by code_simp
  moreover have "ip_sources a_profile \<noteq> [] \<and> py_strip (ip_prefix a_profile) \<noteq> []" by code_simp
  ultimately show ?thesis
    by (simp add: profile_compiles_def a_profile_def source_compiles_def SCHEDULE_PRESETS_def THROUGHPUT_PRESETS_def FILE_TYPE_PRESETS_def)
qed

theorem compiled_profile_accepted_witness:
  "schema_lib_ok plain_schema_lib \<and> profile_compiles a_profile
   \<and> (\<exists>c. compile_profile plain_schema_lib a_profile = Inr c \<and> validate_sync_request plain_schema_lib (ci_sync_request c) = [])"
  using plain_schema_lib_ok a_profile_compiles compiled_profile_accepted [OF plain_schema_lib_ok, of a_profile]
  by (auto split: sum.splits)

section \<open>The warning before documents are sent again\<close>

lemma jget_source_entry:
  "jget (source_entry s) ''path'' = JStr (sf_path s)"
  "jget (source_entry s) ''access_groups'' = (if clean_groups (sf_access_groups s) = [] then JNull else strings_json (clean_groups (sf_access_groups s)))"
  "jget (source_entry s) ''fields'' = (if sf_fields s = [] then JNull else JObj (sf_fields s))"
  "jget (source_entry s) ''field_templates'' = (if sf_templates s = [] then JNull else strings_json (sf_templates s))"
  "jget (source_entry s) ''metadata_fields'' = (if sf_metadata s = [] then JNull else strings_json (sf_metadata s))"
  by (simp_all add: source_entry_def)

lemma as_strings_json: "as_strings (map JStr xs) = xs"
  by (induction xs) auto

text \<open>What the Connector makes of a source that was pushed.\<close>

lemma connector_reads_source:
  assumes "spec_from_source (source_entry s) = Inr spec"
  shows "spec_fields spec = map (\<lambda>(k, v). (k, fval_of v)) (sort_key fst (sf_fields s))"
    "compile_templates (map JStr (sf_templates s)) = Inr (spec_templates spec)"
    "spec_metadata spec = remdups (filter (\<lambda>i. i \<in> set METADATA_ITEMS) (sf_metadata s))"
    "spec_access_groups spec = map JStr (clean_groups (sf_access_groups s))"
  using assms
  by (auto simp: spec_from_source_def jget_source_entry strings_json_def as_strings_json split: sum.splits if_splits)

lemma same_config_same_digest:
  assumes "spec_from_source (source_entry s) = Inr a" and "spec_from_source (source_entry t) = Inr b" and "field_config s = field_config t"
  shows "config_digest hash rel (Some a) = config_digest hash rel (Some b)"
proof -
  note a = connector_reads_source [OF assms(1)] and b = connector_reads_source [OF assms(2)]
  have config: "sf_fields s = sf_fields t" "sf_templates s = sf_templates t" "set (sf_metadata s) = set (sf_metadata t)"
    using assms(3) by (simp_all add: field_config_def)
  have "spec_fields a = spec_fields b" using a b config by simp
  moreover have "spec_templates a = spec_templates b" using a(2) b(2) config by simp
  moreover have "sort (spec_metadata a) = sort (spec_metadata b)"
    using config by (intro sorted_distinct_set_unique) (auto simp: a b)
  ultimately show ?thesis by (simp add: config_digest_def)
qed

lemma compiled_sources:
  assumes "compile_profile lib p = Inr c"
  shows "as_list (jget (ci_sync_request c) ''sources'') = map source_entry (ip_sources p)"
proof -
  obtain r where r: "compile_sync_request p = Inr r" "ci_sync_request c = r"
    using assms by (auto simp: compile_profile_def split: sum.splits option.splits)
  have "request_ready p" using request_compiles [of p] r by (auto split: if_splits)
  then have "\<exists>globs. r = request_of p globs" using request_compiles [of p] r by auto
  then show ?thesis using r by (auto simp: request_of_def)
qed

lemma changed_source_listed:
  assumes "s \<in> set (ip_sources old)" and "t \<in> set (ip_sources new)" and "sf_path s = sf_path t"
    and "distinct (map sf_path (ip_sources old))" and "field_config s \<noteq> field_config t"
  shows "sf_path t \<in> set (field_config_changes (Some old) new)"
proof -
  have "map_of (rev (map (\<lambda>s. (sf_path s, field_config s)) (ip_sources old))) (sf_path s) = Some (field_config s)"
    using assms(1,4) by (intro map_of_is_SomeI) (auto simp: rev_map [symmetric] o_def)
  then show ?thesis using assms by (auto simp: field_config_changes_def)
qed


definition another_profile :: ingestion_profile where
  "another_profile = a_profile\<lparr>ip_sources := [(a_folder ''/mnt/a'')\<lparr>sf_fields := []\<rparr>]\<rparr>"

lemma another_profile_compiles: "profile_compiles another_profile"
proof -
  have "compile_template (JStr ''{period}/**'') = Inr \<lparr>ct_source = ''{period}/**'', ct_segments = [Seg_Key ''period''], ct_deep = True\<rparr>"
    by code_simp
  moreover have "list_all (\<lambda>s. sf_templates s = [''{period}/**''] \<and> py_strip (sf_path s) \<noteq> [] \<and> source_in_schema s) (ip_sources another_profile)"
    by code_simp
  moreover have "ip_sources another_profile \<noteq> [] \<and> py_strip (ip_prefix another_profile) \<noteq> []" by code_simp
  ultimately show ?thesis
    by (simp add: profile_compiles_def another_profile_def a_profile_def source_compiles_def SCHEDULE_PRESETS_def THROUGHPUT_PRESETS_def
        FILE_TYPE_PRESETS_def)
qed


section \<open>What the check of the document fields guarantees\<close>

lemma in_update: "kv \<in> set (AList.update k v xs) \<Longrightarrow> kv = (k, v) \<or> kv \<in> set xs"
  by (induction xs) (auto split: if_splits)

lemma in_fold_update: "kv \<in> set (fold (\<lambda>(k, v). AList.update k v) raw acc) \<Longrightarrow> kv \<in> set raw \<or> kv \<in> set acc"
  by (induction raw arbitrary: acc) (auto dest: in_update)

lemma field_pairs_in: "kv \<in> set (field_pairs raw) \<Longrightarrow> kv \<in> set raw"
  using in_fold_update [of kv raw "[]"] by (simp add: field_pairs_def)

lemma field_pairs_length: "length (field_pairs raw) \<le> length raw"
proof -
  have "distinct (map fst (fold (\<lambda>(k, v). AList.update k v) raw acc))" if "distinct (map fst acc)" for acc :: "(string \<times> jval) list"
    using that by (induction raw arbitrary: acc) (auto intro: distinct_update)
  then have "distinct (map fst (fold (\<lambda>(k, v). AList.update k v) raw ([] :: (string \<times> jval) list)))" by simp
  then have "distinct (fold (\<lambda>(k, v). AList.update k v) raw [])" by (simp add: distinct_map)
  moreover have "set (fold (\<lambda>(k, v). AList.update k v) raw []) \<subseteq> set raw" using in_fold_update [of _ raw "[]"] by auto
  ultimately have "length (fold (\<lambda>(k, v). AList.update k v) raw []) \<le> card (set raw)"
    using card_mono [of "set raw"] by (simp add: distinct_card [symmetric])
  then show ?thesis using card_length [of raw] by (simp add: field_pairs_def)
qed

definition scalar :: "jval \<Rightarrow> bool" where
  "scalar v = (case v of JStr _ \<Rightarrow> True | JInt _ \<Rightarrow> True | JReal _ \<Rightarrow> True | JBool _ \<Rightarrow> True | _ \<Rightarrow> False)"

text \<open>The registry: keys and codes in the shape the server gives them. Values: scalars or lists of scalars.\<close>

definition registry_ok :: "registry_field list \<Rightarrow> bool" where
  "registry_ok registry \<longleftrightarrow> list_all (\<lambda>f. KEY_RE (rf_key f) \<and> list_all (\<lambda>(code, _). 1 \<le> length code \<and> length code \<le> 256) (rf_enum f)) registry"

definition scalar_fields :: "profile_folder \<Rightarrow> bool" where
  "scalar_fields s \<longleftrightarrow> list_all (\<lambda>(_, v). list_all scalar (tuple_items v)) (sf_fields s)"

lemma by_key_in: "by_key registry key = Some f \<Longrightarrow> f \<in> set registry \<and> rf_key f = key"
  by (auto simp: by_key_def dest!: map_of_SomeD)

lemma known_key: "key_problem_of registry key = None \<Longrightarrow> key \<notin> set SYSTEM_KEYS \<and> (\<exists>f. by_key registry key = Some f \<and> rf_status f \<noteq> ''deprecated'')"
  by (auto simp: key_problem_of_def split: if_splits option.splits)

lemma enum_code_in: "enum_code str items v = Some code \<Longrightarrow> code \<in> set (map fst items)"
  unfolding enum_code_def Let_def find_Some_iff by (auto simp: find_Some_iff) (metis fst_conv image_eqI nth_mem)+

text \<open>A value without problems is a code of the choice, or it is as it was and not too long.\<close>

lemma checked_item:
  assumes "check_item str n key f item = ([], clean)" and "scalar item"
  shows "if rf_enum f = [] then clean = item \<and> field_scalar_schema clean else clean \<in> JStr ` set (map fst (rf_enum f))"
proof -
  have "field_scalar_schema item" if "text_problems n key item = []"
  proof (cases item)
    case (JStr s)
    then have "py_strip s \<noteq> [] \<and> length s \<le> 256" using that by (auto simp: text_problems_def MAX_FIELD_VALUE_CHARS_def split: if_splits)
    then show ?thesis using JStr strip_nonempty [of s] by (auto simp: Suc_le_eq)
  qed (use assms(2) in \<open>auto simp: scalar_def\<close>)
  then show ?thesis using assms(1) enum_code_in
    by (fastforce simp: check_item_def Let_def split: if_splits option.splits)
qed

lemma checked_values:
  assumes "key_problem_of registry key = None" and "check_field str registry n (key, v) = ([], k, w)"
    and "registry_ok registry" and "list_all scalar (tuple_items v)"
  shows "k = key \<and> field_value_schema w
    \<and> (\<forall>x \<in> set (tuple_items w). rf_enum (the (by_key registry key)) = [] \<or> x \<in> JStr ` set (map fst (rf_enum (the (by_key registry key)))))"
proof -
  obtain f where f: "by_key registry key = Some f" using known_key [OF assms(1)] by auto
  let ?c = "map (check_item str n key f) (tuple_items v)"
  have parts: "count_problems n key f (tuple_items v) = []" "concat (map fst ?c) = []" "k = key"
    "w = (case v of JArr _ \<Rightarrow> JArr (map snd ?c) | _ \<Rightarrow> if map snd ?c = [] then v else hd (map snd ?c))"
    using assms(1,2) f by (auto simp: check_field_def Let_def)
  have codes: "list_all (\<lambda>(code, _). 1 \<le> length code \<and> length code \<le> 256) (rf_enum f)"
    using by_key_in [OF f] assms(3) by (auto simp: registry_ok_def list_all_iff)
  have ok: "field_scalar_schema (snd (check_item str n key f x))
      \<and> (rf_enum f = [] \<or> snd (check_item str n key f x) \<in> JStr ` set (map fst (rf_enum f)))" if x: "x \<in> set (tuple_items v)" for x
  proof -
    have "check_item str n key f x = ([], snd (check_item str n key f x))" using parts(2) x by (auto intro: prod_eqI)
    moreover have "scalar x" using assms(4) x by (auto simp: list_all_iff)
    ultimately have "if rf_enum f = [] then field_scalar_schema (snd (check_item str n key f x))
      else snd (check_item str n key f x) \<in> JStr ` set (map fst (rf_enum f))"
      using checked_item by (metis (full_types))
    then show ?thesis using codes by (auto simp: list_all_iff split: if_splits)
  qed
  have count: "tuple_items v \<noteq> []" "length (tuple_items v) \<le> 32"
    using parts(1) by (auto simp: count_problems_def MAX_FIELD_VALUES_def split: if_splits)
  show ?thesis
  proof (cases "\<exists>xs. v = JArr xs")
    case True
    then obtain xs where v: "v = JArr xs" by auto
    then have "w = JArr (map (snd \<circ> check_item str n key f) xs)" "tuple_items v = xs" using parts(4) by (auto simp: tuple_items_def)
    then show ?thesis using ok count parts(3) f
      by (auto simp: field_value_schema_def list_all_iff tuple_items_def Suc_le_eq)
  next
    case False
    then have "tuple_items v = [v]" by (cases v) (auto simp: tuple_items_def)
    moreover from this have "w = snd (check_item str n key f v)" using parts(4) False by (cases v) auto
    moreover have "tuple_items w = [w] \<and> (field_value_schema w \<longleftrightarrow> field_scalar_schema w)" if "field_scalar_schema w"
      using that by (cases w) (auto simp: tuple_items_def field_value_schema_def)
    ultimately show ?thesis using ok parts(3) f by auto
  qed
qed

lemma checked_template:
  assumes "check_template registry n i t = []"
  shows "\<exists>c. compile_template (JStr t) = Inr c \<and> (\<forall>key \<in> set (template_keys c). key_problem_of registry key = None)"
  using assms by (auto simp: check_template_def split: sum.splits option.splits)

definition values_chosen :: "registry_field list \<Rightarrow> string \<times> jval \<Rightarrow> bool" where
  "values_chosen registry = (\<lambda>(k, v). let f = the (by_key registry k)
     in \<forall>x \<in> set (tuple_items v). rf_enum f = [] \<or> x \<in> JStr ` set (map fst (rf_enum f)))"

definition good_source :: "registry_field list \<Rightarrow> profile_folder \<Rightarrow> bool" where
  "good_source registry t \<longleftrightarrow> source_in_schema t
     \<and> (\<forall>tpl \<in> set (sf_templates t). \<exists>c. compile_template (JStr tpl) = Inr c \<and> (\<forall>key \<in> set (template_keys c). key_problem_of registry key = None))
     \<and> (\<forall>kv \<in> set (sf_fields t). key_problem_of registry (fst kv) = None \<and> values_chosen registry kv)"

lemma good_source_compiles: "good_source registry s \<Longrightarrow> source_compiles s \<and> source_in_schema s \<longleftrightarrow> py_strip (sf_path s) \<noteq> []"
  unfolding good_source_def source_compiles_def by blast

lemma good_source_keys:
  assumes "good_source registry s"
  shows "kv \<in> set (sf_fields s) \<Longrightarrow> key_problem_of registry (fst kv) = None \<and> values_chosen registry kv"
    "tpl \<in> set (sf_templates s) \<Longrightarrow> compile_template (JStr tpl) = Inr c \<Longrightarrow> key \<in> set (template_keys c)
     \<Longrightarrow> key_problem_of registry key = None"
  using assms by (fastforce simp: good_source_def)+

lemma upload_key_origin:
  "key \<in> set (upload_field_keys p) \<longleftrightarrow> (\<exists>s \<in> set (ip_sources p). key \<in> fst ` set (sf_fields s)
     \<or> (\<exists>tpl \<in> set (sf_templates s). \<exists>c. compile_template (JStr tpl) = Inr c \<and> key \<in> set (template_keys c)))"
  by (auto simp: upload_field_keys_def split: sum.splits) force+

definition folder_part :: "profile_folder \<Rightarrow> string \<times> bool \<times> string list \<times> string list" where
  "folder_part s = (sf_path s, sf_recursive s, sf_access_groups s, sf_templates s)"

lemma checked_source:
  assumes "check_source str registry (n, s) = ([], t)" and "registry_ok registry" and "scalar_fields s"
  shows "good_source registry t \<and> folder_part t = folder_part s"
proof -
  let ?fs = "map (check_field str registry n) (sf_fields s)"
  have parts: "length (sf_fields s) \<le> 64" "length (sf_templates s) \<le> 8" "concat (map fst ?fs) = []"
    "concat (map (\<lambda>(i, t). check_template registry n i t) (List.enumerate 1 (sf_templates s))) = []"
    "concat (map (check_metadata registry n) (sf_metadata s)) = []"
    and t: "t = source_folder_init (s\<lparr>sf_fields := map snd ?fs\<rparr>)"
    using assms(1) by (auto simp: check_source_def Let_def MAX_SOURCE_FIELDS_def MAX_FIELD_TEMPLATES_def split: if_splits)
  have field: "key_problem_of registry (fst kv) = None \<and> field_value_schema (snd kv) \<and> values_chosen registry kv" if kv: "kv \<in> set (sf_fields t)" for kv
  proof -
    obtain key v where v: "(key, v) \<in> set (sf_fields s)" "kv = snd (check_field str registry n (key, v))"
      using field_pairs_in [of kv "map snd ?fs"] kv t by (auto simp: source_folder_init_def)
    have none: "fst (check_field str registry n (key, v)) = []" using parts(3) v(1) by force
    then have known: "key_problem_of registry key = None" by (auto simp: check_field_def split: option.splits)
    obtain k w where kw: "check_field str registry n (key, v) = ([], k, w)" using none by (metis prod.collapse)
    have "list_all scalar (tuple_items v)" using assms(3) v(1) by (auto simp: scalar_fields_def list_all_iff)
    from checked_values [OF known kw assms(2) this] show ?thesis
      using v(2) kw known by (simp add: values_chosen_def Let_def)
  qed
  have template: "\<exists>c. compile_template (JStr tpl) = Inr c \<and> (\<forall>key \<in> set (template_keys c). key_problem_of registry key = None)"
    if "tpl \<in> set (sf_templates s)" for tpl
    using enumerate_empty_messages [OF parts(4) that] checked_template by blast
  have keys: "KEY_RE k \<and> k \<notin> set SYSTEM_KEYS" if "key_problem_of registry k = None" for k
    using known_key [OF that] by_key_in assms(2) by (auto simp: registry_ok_def list_all_iff)
  have "length (sf_fields t) \<le> 64"
    using field_pairs_length [of "map snd ?fs"] parts(1) t by (simp add: source_folder_init_def)
  then have "fields_schema (JObj (sf_fields t))" using field keys by (auto simp: fields_schema_def list_all_iff)
  moreover have "set (sf_metadata t) \<subseteq> set METADATA_ITEMS"
  proof
    fix item assume "item \<in> set (sf_metadata t)"
    then have "check_metadata registry n item = []" using parts(5) t by (auto simp: source_folder_init_def)
    then have "item \<in> set (map fst METADATA_TARGETS)"
      using map_of_eq_None_iff [of METADATA_TARGETS item] by (auto simp: check_metadata_def split: option.splits)
    then show "item \<in> set METADATA_ITEMS" by (auto simp: METADATA_TARGETS_def METADATA_ITEMS_def)
  qed
  ultimately have "source_in_schema t" using parts(2) t by (auto simp: source_in_schema_def source_folder_init_def)
  then show ?thesis using field template t by (auto simp: source_folder_init_def good_source_def folder_part_def)
qed

lemma checked_sources:
  assumes "concat (map fst (map (check_source str registry) (List.enumerate n ss))) = []"
  shows "list_all2 (\<lambda>s t. \<exists>i. check_source str registry (i, s) = ([], t)) ss (map snd (map (check_source str registry) (List.enumerate n ss)))"
  using assms by (induction ss arbitrary: n) (auto, metis prod.collapse)

text \<open>A profile without its document fields.\<close>

definition without_fields :: "ingestion_profile \<Rightarrow> ingestion_profile" where
  "without_fields p = p\<lparr>ip_sources := map (\<lambda>s. s\<lparr>sf_fields := [], sf_templates := [], sf_metadata := []\<rparr>) (ip_sources p)\<rparr>"

text \<open>
  (C11) A profile whose document fields passed the check compiles whenever it would compile without them, so the fields
  are never the reason the Connector would refuse it. Every key it sets or captures is an active field of the registry,
  and the value of a field with a choice is one of its codes. The folders, their groups and templates are as before.
\<close>

theorem checked_fields_compile:
  assumes "validate_profile_fields str p registry = Inr q" and "registry_ok registry" and "list_all scalar_fields (ip_sources p)"
  shows "(profile_compiles q \<longleftrightarrow> profile_compiles (without_fields p))
    \<and> (\<forall>key \<in> set (upload_field_keys q). key_problem_of registry key = None)
    \<and> (\<forall>s \<in> set (ip_sources q). \<forall>kv \<in> set (sf_fields s). values_chosen registry kv)
    \<and> map folder_part (ip_sources q) = map folder_part (ip_sources p)"
proof -
  have q: "concat (map fst (map (check_source str registry) (List.enumerate 1 (ip_sources p)))) = []"
    "q = p\<lparr>ip_sources := map snd (map (check_source str registry) (List.enumerate 1 (ip_sources p)))\<rparr>"
    using assms(1) by (auto simp: validate_profile_fields_def Let_def split: if_splits)
  have found: "list_all2 (\<lambda>s t. \<exists>i. check_source str registry (i, s) = ([], t)) (ip_sources p) (ip_sources q)"
    using checked_sources [OF q(1)] q(2) by simp
  have rel: "list_all2 (\<lambda>s t. good_source registry t \<and> folder_part t = folder_part s) (ip_sources p) (ip_sources q)"
  proof (rule list_all2_all_nthI)
    show "length (ip_sources p) = length (ip_sources q)" using found by (rule list_all2_lengthD)
    fix i assume i: "i < length (ip_sources p)"
    from list_all2_nthD [OF found i]
    obtain n where "check_source str registry (n, ip_sources p ! i) = ([], ip_sources q ! i)" by blast
    moreover have "scalar_fields (ip_sources p ! i)" using assms(3) i by (simp add: list_all_length)
    ultimately show "good_source registry (ip_sources q ! i) \<and> folder_part (ip_sources q ! i) = folder_part (ip_sources p ! i)"
      using checked_source [OF _ assms(2)] by blast
  qed
  have each: "good_source registry t" if mem: "t \<in> set (ip_sources q)" for t
  proof -
    obtain i where i: "i < length (ip_sources q)" "t = ip_sources q ! i" using mem by (metis in_set_conv_nth)
    then show ?thesis using list_all2_nthD2 [OF rel i(1)] by simp
  qed
  have parts: "map folder_part (ip_sources q) = map folder_part (ip_sources p)"
    using rel by (auto simp: list_all2_conv_all_nth intro!: nth_equalityI)
  then have "map (fst \<circ> folder_part) (ip_sources q) = map (fst \<circ> folder_part) (ip_sources p)" by (metis map_map)
  then have paths: "map sf_path (ip_sources q) = map sf_path (ip_sources p)" by (simp add: folder_part_def o_def)
  have "profile_compiles q \<longleftrightarrow> profile_compiles (without_fields p)"
  proof -
    have "list_all (\<lambda>s. source_compiles s \<and> source_in_schema s) (ip_sources q) \<longleftrightarrow> list_all (\<lambda>s. py_strip (sf_path s) \<noteq> []) (ip_sources q)"
      by (rule list.pred_cong [OF refl]) (rule good_source_compiles [OF each])
    then have "list_all (\<lambda>s. source_compiles s \<and> source_in_schema s) (ip_sources q) \<longleftrightarrow> list_all (\<lambda>x. py_strip x \<noteq> []) (map sf_path (ip_sources q))"
      by (simp add: list.pred_map o_def)
    moreover have "list_all (\<lambda>s. source_compiles s \<and> source_in_schema s) (ip_sources (without_fields p))
      \<longleftrightarrow> list_all (\<lambda>x. py_strip x \<noteq> []) (map sf_path (ip_sources p))"
      by (auto simp: list_all_iff without_fields_def source_compiles_def source_in_schema_def)
    moreover have "ip_sources q = [] \<longleftrightarrow> ip_sources p = []" using paths by (metis map_is_Nil_conv)
    moreover have "ip_schedule q = ip_schedule p" "ip_throughput q = ip_throughput p" "ip_prefix q = ip_prefix p"
      "ip_file_types q = ip_file_types p" "ip_max_age_days q = ip_max_age_days p" "ip_max_megabytes q = ip_max_megabytes p"
      unfolding q(2) by simp_all
    moreover have "ip_schedule (without_fields p) = ip_schedule p" "ip_throughput (without_fields p) = ip_throughput p"
      "ip_prefix (without_fields p) = ip_prefix p" "ip_file_types (without_fields p) = ip_file_types p"
      "ip_max_age_days (without_fields p) = ip_max_age_days p" "ip_max_megabytes (without_fields p) = ip_max_megabytes p"
      "ip_sources (without_fields p) = [] \<longleftrightarrow> ip_sources p = []"
      by (simp_all add: without_fields_def)
    ultimately show ?thesis by (simp only: profile_compiles_def paths)
  qed
  moreover have "\<forall>key \<in> set (upload_field_keys q). key_problem_of registry key = None"
  proof
    fix key assume "key \<in> set (upload_field_keys q)"
    then obtain s where s: "s \<in> set (ip_sources q)" "key \<in> fst ` set (sf_fields s)
      \<or> (\<exists>tpl \<in> set (sf_templates s). \<exists>c. compile_template (JStr tpl) = Inr c \<and> key \<in> set (template_keys c))"
      unfolding upload_key_origin by blast
    then show "key_problem_of registry key = None" using good_source_keys [OF each [OF s(1)]] by (elim disjE imageE bexE exE conjE) simp_all
  qed
  moreover have "\<forall>s \<in> set (ip_sources q). \<forall>kv \<in> set (sf_fields s). values_chosen registry kv"
    using each good_source_keys(1) by blast
  ultimately show ?thesis using parts by blast
qed

definition a_registry :: "registry_field list" where
  "a_registry =
     [\<lparr>rf_key = ''mandant'', rf_status = ''active'', rf_cardinality = ''one'', rf_enum = [(''muster'', ''Muster AG'')]\<rparr>,
      \<lparr>rf_key = ''period'', rf_status = ''active'', rf_cardinality = ''one'', rf_enum = []\<rparr>,
      \<lparr>rf_key = ''language'', rf_status = ''active'', rf_cardinality = ''one'', rf_enum = []\<rparr>]"

theorem checked_fields_compile_witness:
  "registry_ok a_registry \<and> list_all scalar_fields (ip_sources a_profile)
   \<and> (\<exists>q. validate_profile_fields (\<lambda>v. []) a_profile a_registry = Inr q
        \<and> map sf_fields (ip_sources q) = [[(''mandant'', JStr ''muster'')]] \<and> profile_compiles q)"
proof -
  have reg: "registry_ok a_registry" by code_simp
  have vals: "list_all scalar_fields (ip_sources a_profile)" by code_simp
  obtain q where q: "validate_profile_fields (\<lambda>v. []) a_profile a_registry = Inr q"
    "map sf_fields (ip_sources q) = [[(''mandant'', JStr ''muster'')]]"
  proof -
    have "case validate_profile_fields (\<lambda>v. []) a_profile a_registry of
        Inr q \<Rightarrow> map sf_fields (ip_sources q) = [[(''mandant'', JStr ''muster'')]] | Inl e \<Rightarrow> False"
      by code_simp
    then show ?thesis using that by (auto split: sum.splits)
  qed
  have "py_strip (ip_prefix a_profile) \<noteq> []" "list_all (\<lambda>s. py_strip (sf_path s) \<noteq> []) (ip_sources a_profile)" by code_simp+
  then have "profile_compiles (without_fields a_profile)"
    by (auto simp: profile_compiles_def without_fields_def a_profile_def source_compiles_def source_in_schema_def SCHEDULE_PRESETS_def
        THROUGHPUT_PRESETS_def FILE_TYPE_PRESETS_def)
  with checked_fields_compile [OF q(1) reg vals, THEN conjunct1] have "profile_compiles q" by (rule iffD2)
  then show ?thesis using reg vals q by (intro conjI exI [of _ q])
qed

text \<open>A code that reads like the label of an earlier entry of the choice is stored as that entry's code.\<close>

lemma label_shadows_code: "enum_code str [(''a'', ''b''), (''b'', ''c'')] (JStr ''b'') = Some ''a''"
proof -
  have "casefold (py_strip ''b'') = casefold ''b''" by code_simp
  then show ?thesis by (simp add: enum_code_def text_of_value_def)
qed

section \<open>What a compiled profile leaves out\<close>

lemma preset_globs: "list_all (\<lambda>(_, gs). list_all (\<lambda>g. CHR ''/'' \<in> set g \<and> CHR ''['' \<notin> set g \<and> length (path_parts g) = 2
    \<and> \<not> py_startswith g ''/'') gs) FILE_TYPE_PRESETS"
  by code_simp

lemma chosen_globs_in:
  "chosen_globs ns acc = Inr gs \<Longrightarrow> g \<in> set gs \<Longrightarrow> g \<in> set acc \<or> (\<exists>n ps. (n, ps) \<in> set FILE_TYPE_PRESETS \<and> g \<in> set ps)"
proof (induction ns arbitrary: acc)
  case (Cons n ns)
  then obtain ps where ps: "choose_preset FILE_TYPE_PRESETS n ''file type'' = Inr ps" "chosen_globs ns (acc @ ps) = Inr gs"
    by (auto split: sum.splits)
  then show ?case using Cons.IH [OF ps(2) Cons.prems(2)] choose_preset_Inr [OF ps(1)] by auto
qed simp

text \<open>
  A file that lies directly in a folder of the profile matches none of the compiled patterns, so the scan leaves it out.
  A folder without subfolders, or one that is not scanned recursively, is not indexed at all.
\<close>

lemma top_level_files_left_out:
  assumes "include_globs ns = Inr globs" and "wc_include cfg = globs" and "wc_glob cfg = glob_one cls"
    and "relative_posix path (wc_rel_root cfg) = Some rel" and "CHR ''/'' \<notin> set rel"
  shows "file_verdict cfg path stat = Left_Out"
proof -
  have "\<not> glob_one cls rel g" if mem: "g \<in> set globs" for g
  proof -
    obtain n ps where "(n, ps) \<in> set FILE_TYPE_PRESETS" "g \<in> set ps"
      using assms(1) mem chosen_globs_in [of ns "[]" _ g] by (fastforce simp: include_globs_def sorted_strings_def split: sum.splits if_splits)
    then have g: "CHR ''/'' \<in> set g" "CHR ''['' \<notin> set g" "length (path_parts g) = 2" "\<not> py_startswith g ''/''"
      using preset_globs by (fastforce simp: list_all_iff)+
    have "length (path_parts rel) \<le> 1"
      using length_filter_le [of "\<lambda>p. p \<noteq> [] \<and> p \<noteq> ''.''" "[rel]"] assms(5) by (simp add: path_parts_def split_char_plain)
    moreover have "\<not> fnmatch cls g rel" using fnmatch_slash g assms(5) by blast
    ultimately show ?thesis using g by (auto simp: glob_one_def path_match_def Let_def)
  qed
  then have "\<not> matches_globs (wc_glob cfg) rel (wc_include cfg)" using assms(2,3) by (auto simp: matches_globs_def list_ex_iff)
  then show ?thesis using assms(4) by (simp add: file_verdict_def)
qed

text \<open>The schedule called "all day" is closed for the last minute of every day.\<close>

lemma all_day_closes:
  "\<exists>sp. map_of SCHEDULE_PRESETS ''continuous'' = Some sp \<and> is_in_window 1439 (sp_start sp) (sp_end sp) = Inr False"
proof -
  have "is_in_window 1439 ''00:00'' ''23:59'' = Inr False" by code_simp
  then show ?thesis by (simp add: SCHEDULE_PRESETS_def)
qed

section \<open>The support text\<close>

text \<open>The parts of a profile that name the firm: folders, groups, values, templates, metadata items, patterns, the prefix and the description.\<close>

definition same_shape_source :: "profile_folder \<Rightarrow> profile_folder \<Rightarrow> bool" where
  "same_shape_source s t \<longleftrightarrow> sf_recursive s = sf_recursive t \<and> (sf_access_groups s = [] \<longleftrightarrow> sf_access_groups t = [])
     \<and> (sf_fields s = [] \<longleftrightarrow> sf_fields t = []) \<and> length (sf_templates s) = length (sf_templates t) \<and> (sf_metadata s = [] \<longleftrightarrow> sf_metadata t = [])"

definition same_shape :: "ingestion_profile \<Rightarrow> ingestion_profile \<Rightarrow> bool" where
  "same_shape p q \<longleftrightarrow> list_all2 same_shape_source (ip_sources p) (ip_sources q) \<and> length (ip_exclude_globs p) = length (ip_exclude_globs q)
     \<and> (ip_file_types p, ip_schedule p, ip_throughput p, ip_paused p, ip_full_rescan p, ip_max_age_days p, ip_max_megabytes p, ip_delete_on_remove p)
       = (ip_file_types q, ip_schedule q, ip_throughput q, ip_paused q, ip_full_rescan q, ip_max_age_days q, ip_max_megabytes q, ip_delete_on_remove q)"

lemma same_shape_counts:
  assumes "list_all2 same_shape_source ss ts"
  shows "count_if sf_has_fields ss = count_if sf_has_fields ts \<and> count_if (\<lambda>s. sf_fields s \<noteq> []) ss = count_if (\<lambda>s. sf_fields s \<noteq> []) ts
    \<and> sum_list (map (int \<circ> length \<circ> sf_templates) ss) = sum_list (map (int \<circ> length \<circ> sf_templates) ts)
    \<and> count_if (\<lambda>s. sf_metadata s \<noteq> []) ss = count_if (\<lambda>s. sf_metadata s \<noteq> []) ts
    \<and> count_if (\<lambda>s. sf_access_groups s \<noteq> []) ss = count_if (\<lambda>s. sf_access_groups s \<noteq> []) ts
    \<and> count_if sf_recursive ss = count_if sf_recursive ts \<and> length ss = length ts"
  using assms
proof (induction ss arbitrary: ts)
  case (Cons s ss)
  then obtain t ts' where ts: "ts = t # ts'" "same_shape_source s t" "list_all2 same_shape_source ss ts'" by (auto simp: list_all2_Cons1)
  have "sf_templates s = [] \<longleftrightarrow> sf_templates t = []" using ts(2) by (metis same_shape_source_def length_0_conv)
  then have "sf_has_fields s = sf_has_fields t" using ts(2) by (auto simp: sf_has_fields_def same_shape_source_def)
  then show ?case using Cons.IH [OF ts(3)] ts by (simp add: count_if_def same_shape_source_def)
qed simp

text \<open>
  The text for a support ticket tells nothing that names the firm: profiles of the same shape, whatever their folders,
  groups, field values, templates, patterns, prefix and description, give the same text.
\<close>

theorem support_text_redacted: "same_shape p q \<Longrightarrow> redact_for_support p = redact_for_support q"
  using same_shape_counts [of "ip_sources p" "ip_sources q"]
  by (simp add: same_shape_def redact_for_support_def field_config_counts_def)

end
