(* ===== verification/Profile_Versions.thy ===== *)
theory Profile_Versions
  imports Ingestion_Profile
begin

text \<open>
  The stored versions of an ingestion profile (\<open>identity/ingestion_profiles.py\<close>). The table is an association list in
  the order of insertion; a transaction is one step, and the unique indices of the migration are checked by the insert.
  The columns hold decoded JSON, ids and times are arguments. A row whose JSON was not written by this program may hold
  a value of another type, which Python keeps unchecked; that is the result \<open>Ill_Typed\<close>.

  The lemmas show that a stored profile is read back unchanged, that the versions of a name are numbered without gaps
  with exactly the last one current, and that no operation changes what an earlier version says.
\<close>

section \<open>Profiles as JSON\<close>

definition source_to_json :: "profile_folder \<Rightarrow> jval" where
  "source_to_json s = JObj
     ([(''path'', JStr (sf_path s)), (''recursive'', JBool (sf_recursive s)), (''access_groups'', strings_json (sf_access_groups s))]
      @ (if sf_fields s = [] then [] else [(''fields'', JObj (sf_fields s))])
      @ (if sf_templates s = [] then [] else [(''field_templates'', strings_json (sf_templates s))])
      @ (if sf_metadata s = [] then [] else [(''metadata_fields'', strings_json (sf_metadata s))]))"

definition profile_to_json :: "ingestion_profile \<Rightarrow> jval" where
  "profile_to_json p = JObj
     [(''identifier_prefix'', JStr (ip_prefix p)), (''sources'', JArr (map source_to_json (ip_sources p))),
      (''file_types'', strings_json (ip_file_types p)), (''schedule'', JStr (ip_schedule p)), (''throughput'', JStr (ip_throughput p)),
      (''paused'', JBool (ip_paused p)), (''full_rescan'', JBool (ip_full_rescan p)),
      (''max_document_age_days'', optional_int (ip_max_age_days p)), (''max_file_megabytes'', optional_int (ip_max_megabytes p)),
      (''exclude_globs'', strings_json (ip_exclude_globs p)), (''delete_on_remove'', JBool (ip_delete_on_remove p)),
      (''description'', JStr (ip_description p))]"

definition string_items :: "(jval \<Rightarrow> string) \<Rightarrow> jval \<Rightarrow> string list" where
  "string_items str v = (case v of JArr xs \<Rightarrow> map (text_of_value str) xs | _ \<Rightarrow> [])"

definition source_from_json :: "(jval \<Rightarrow> string) \<Rightarrow> jval \<Rightarrow> profile_folder py" where
  "source_from_json str s =
     (case s of
        JObj kvs \<Rightarrow>
          (case map_of kvs ''path'' of None \<Rightarrow> Inl KeyError
           | Some path \<Rightarrow>
               (case py_tuple (jget s ''access_groups'') of Inl _ \<Rightarrow> Inl TypeError
                | Inr groups \<Rightarrow>
                    Inr (source_folder_init
                      \<lparr>sf_path = text_of_value str path,
                       sf_recursive = (case map_of kvs ''recursive'' of None \<Rightarrow> True | Some v \<Rightarrow> jtruthy v),
                       sf_access_groups = map (text_of_value str) groups,
                       sf_fields = (case jget s ''fields'' of JObj fs \<Rightarrow> fs | _ \<Rightarrow> []),
                       sf_templates = string_items str (jget s ''field_templates''),
                       sf_metadata = string_items str (jget s ''metadata_fields'')\<rparr>)))
      | _ \<Rightarrow> Inl AttributeError)"

fun sources_from_json :: "(jval \<Rightarrow> string) \<Rightarrow> jval list \<Rightarrow> profile_folder list py" where
  "sources_from_json str [] = Inr []"
| "sources_from_json str (v # vs) =
     (case source_from_json str v of Inl e \<Rightarrow> Inl e
      | Inr s \<Rightarrow> (case sources_from_json str vs of Inl e \<Rightarrow> Inl e | Inr ss \<Rightarrow> Inr (s # ss)))"

definition PROFILE_KEYS :: "string list" where
  "PROFILE_KEYS = [''identifier_prefix'', ''sources'', ''file_types'', ''schedule'', ''throughput'', ''paused'', ''full_rescan'',
     ''max_document_age_days'', ''max_file_megabytes'', ''exclude_globs'', ''delete_on_remove'', ''description'']"

datatype profile_load = Loaded ingestion_profile | Load_Raised py_error | Ill_Typed

text \<open>A keyword argument of the constructor: its default where it is missing, \<open>None\<close> for a value of another type.\<close>

definition keyword_arg :: "(string \<times> jval) list \<Rightarrow> string \<Rightarrow> 'a \<Rightarrow> (jval \<Rightarrow> 'a option) \<Rightarrow> 'a option" where
  "keyword_arg kvs k d read = (case map_of kvs k of None \<Rightarrow> Some d | Some v \<Rightarrow> read v)"

fun read_string :: "jval \<Rightarrow> string option" where
  "read_string (JStr s) = Some s"
| "read_string _ = None"

fun read_bool :: "jval \<Rightarrow> bool option" where
  "read_bool (JBool b) = Some b"
| "read_bool _ = None"

fun read_optional_int :: "jval \<Rightarrow> int option option" where
  "read_optional_int JNull = Some None"
| "read_optional_int (JInt n) = Some (Some n)"
| "read_optional_int _ = None"

fun read_all_strings :: "jval list \<Rightarrow> string list option" where
  "read_all_strings [] = Some []"
| "read_all_strings (JStr s # vs) = map_option (\<lambda>ss. s # ss) (read_all_strings vs)"
| "read_all_strings (_ # vs) = None"

fun read_strings :: "jval \<Rightarrow> string list option" where
  "read_strings (JArr vs) = read_all_strings vs"
| "read_strings _ = None"

definition profile_of_args :: "(string \<times> jval) list \<Rightarrow> profile_folder list \<Rightarrow> ingestion_profile option" where
  "profile_of_args kvs sources =
     Option.bind (keyword_arg kvs ''identifier_prefix'' [] read_string) (\<lambda>pre.
     Option.bind (keyword_arg kvs ''file_types'' [''documents''] read_strings) (\<lambda>types.
     Option.bind (keyword_arg kvs ''schedule'' ''nightly'' read_string) (\<lambda>schedule.
     Option.bind (keyword_arg kvs ''throughput'' ''normal'' read_string) (\<lambda>throughput.
     Option.bind (keyword_arg kvs ''paused'' False read_bool) (\<lambda>paused.
     Option.bind (keyword_arg kvs ''full_rescan'' False read_bool) (\<lambda>full.
     Option.bind (keyword_arg kvs ''max_document_age_days'' None read_optional_int) (\<lambda>days.
     Option.bind (keyword_arg kvs ''max_file_megabytes'' None read_optional_int) (\<lambda>megabytes.
     Option.bind (keyword_arg kvs ''exclude_globs'' [] read_strings) (\<lambda>exclude.
     Option.bind (keyword_arg kvs ''delete_on_remove'' True read_bool) (\<lambda>delete.
     Option.bind (keyword_arg kvs ''description'' [] read_string) (\<lambda>description.
       Some \<lparr>ip_prefix = pre, ip_sources = sources, ip_file_types = types, ip_schedule = schedule, ip_throughput = throughput,
             ip_paused = paused, ip_full_rescan = full, ip_max_age_days = days, ip_max_megabytes = megabytes,
             ip_exclude_globs = exclude, ip_delete_on_remove = delete, ip_description = description\<rparr>)))))))))))"

definition profile_from_json :: "(jval \<Rightarrow> string) \<Rightarrow> jval \<Rightarrow> profile_load" where
  "profile_from_json str data =
     (case data of
        JObj kvs \<Rightarrow>
          (let raw = jget data ''sources''
           in case (if jtruthy raw then (case raw of JArr vs \<Rightarrow> sources_from_json str vs | JObj _ \<Rightarrow> Inl AttributeError | JStr _ \<Rightarrow> Inl AttributeError | _ \<Rightarrow> Inl TypeError) else Inr []) of
                Inl e \<Rightarrow> Load_Raised e
              | Inr sources \<Rightarrow>
                  if \<not> list_all (\<lambda>k. k \<in> set PROFILE_KEYS) (map fst kvs) \<or> map_of kvs ''identifier_prefix'' = None then Load_Raised TypeError
                  else case profile_of_args kvs sources of None \<Rightarrow> Ill_Typed | Some p \<Rightarrow> Loaded p)
      | _ \<Rightarrow> Load_Raised TypeError)"

section \<open>The table of versions\<close>

record profile_row =
  pr_name :: string
  pr_version :: int
  pr_profile :: jval
  pr_is_current :: bool
  pr_created_at :: int
  pr_created_by :: string
  pr_approved_by :: "string option"
  pr_pushed_at :: "int option"

type_synonym profile_table = "(string, profile_row) table"

definition rows_of :: "string \<Rightarrow> profile_table \<Rightarrow> profile_row list" where
  "rows_of name t = filter (\<lambda>r. pr_name r = name) (map snd t)"

text \<open>The row \<open>current\<close> and \<open>versions\<close> read; \<open>_row\<close> then decodes the profile.\<close>

definition current_row :: "string \<Rightarrow> profile_table \<Rightarrow> profile_row option" where
  "current_row name t = find pr_is_current (rows_of name t)"

definition current_profile :: "(jval \<Rightarrow> string) \<Rightarrow> string \<Rightarrow> profile_table \<Rightarrow> profile_load option" where
  "current_profile str name t = map_option (\<lambda>r. profile_from_json str (pr_profile r)) (current_row name t)"

definition versions :: "string \<Rightarrow> profile_table \<Rightarrow> profile_row list" where
  "versions name t = rev (sort_key pr_version (rows_of name t))"

text \<open>\<open>INSERT\<close> under the primary key, the unique name and version, and the one current row of a name.\<close>

definition insert_version :: "string \<Rightarrow> profile_row \<Rightarrow> profile_table \<Rightarrow> profile_table option" where
  "insert_version uid row t =
     (if uid \<in> set (tkeys t) \<or> list_ex (\<lambda>r. pr_version r = pr_version row \<or> (pr_is_current r \<and> pr_is_current row)) (rows_of (pr_name row) t)
      then None else Some (t @ [(uid, row)]))"

definition next_version :: "string \<Rightarrow> profile_table \<Rightarrow> int" where
  "next_version name t = (case map pr_version (rows_of name t) of [] \<Rightarrow> 1 | v # vs \<Rightarrow> Max (set (v # vs)) + 1)"

text \<open>The transaction: without the insert nothing of it stays.\<close>

definition save_new_version ::
    "string \<Rightarrow> int \<Rightarrow> ingestion_profile \<Rightarrow> string \<Rightarrow> string \<Rightarrow> string option \<Rightarrow> profile_table \<Rightarrow> profile_row py \<times> profile_table" where
  "save_new_version uid now p name by_id approved t =
     (let t1 = tmap (\<lambda>_ r. if pr_name r = name \<and> pr_is_current r then r\<lparr>pr_is_current := False\<rparr> else r) t;
          row = \<lparr>pr_name = name, pr_version = next_version name t1, pr_profile = profile_to_json p, pr_is_current = True,
                 pr_created_at = now, pr_created_by = by_id, pr_approved_by = approved, pr_pushed_at = None\<rparr>
      in case insert_version uid row t1 of None \<Rightarrow> (Inl DatabaseError, t) | Some t2 \<Rightarrow> (Inr row, t2))"

definition mark_pushed :: "string \<Rightarrow> int \<Rightarrow> profile_table \<Rightarrow> profile_table" where
  "mark_pushed uid now t = tmap (\<lambda>k r. if k = uid then r\<lparr>pr_pushed_at := Some now\<rparr> else r) t"

datatype restore_result = Restored profile_row | No_Such_Version | Restore_Raised py_error | Restore_Ill_Typed

definition restore_version ::
    "(jval \<Rightarrow> string) \<Rightarrow> string \<Rightarrow> int \<Rightarrow> string \<Rightarrow> int \<Rightarrow> string \<Rightarrow> profile_table \<Rightarrow> restore_result \<times> profile_table" where
  "restore_version str uid now name version by_id t =
     (case find (\<lambda>r. pr_version r = version) (rows_of name t) of None \<Rightarrow> (No_Such_Version, t)
      | Some r \<Rightarrow>
          (case profile_from_json str (pr_profile r) of
             Load_Raised e \<Rightarrow> (Restore_Raised e, t)
           | Ill_Typed \<Rightarrow> (Restore_Ill_Typed, t)
           | Loaded p \<Rightarrow>
               (case save_new_version uid now p name by_id None t of
                  (Inl e, t') \<Rightarrow> (Restore_Raised e, t') | (Inr row, t') \<Rightarrow> (Restored row, t'))))"

section \<open>A stored profile is read back unchanged\<close>

definition profile_normal :: "ingestion_profile \<Rightarrow> bool" where
  "profile_normal p \<longleftrightarrow> list_all (\<lambda>s. source_folder_init s = s) (ip_sources p)"

lemma texts_of_strings: "map (text_of_value str) (map JStr xs) = xs"
  by (induction xs) (auto simp: text_of_value_def)

lemma source_json_roundtrip: "source_folder_init s = s \<Longrightarrow> source_from_json str (source_to_json s) = Inr s"
proof -
  assume normal: "source_folder_init s = s"
  have "source_from_json str (source_to_json s) = Inr (source_folder_init s)"
    using texts_of_strings [of str "sf_access_groups s"] texts_of_strings [of str "sf_templates s"] texts_of_strings [of str "sf_metadata s"]
    by (cases s) (simp add: source_from_json_def source_to_json_def strings_json_def string_items_def text_of_value_def)
  then show ?thesis using normal by simp
qed

lemma sources_json_roundtrip:
  "list_all (\<lambda>s. source_folder_init s = s) ss \<Longrightarrow> sources_from_json str (map source_to_json ss) = Inr ss"
  by (induction ss) (auto simp: source_json_roundtrip)

lemma read_strings_json: "read_strings (strings_json xs) = Some xs"
  unfolding strings_json_def read_strings.simps by (induction xs) auto

lemma read_optional_int_json: "read_optional_int (optional_int v) = Some v"
  by (cases v) (auto simp: optional_int_def)

text \<open>
  (C12) Storing a profile as JSON and reading it back gives the same profile: its folders in order with their groups,
  values, templates and metadata items, its presets, flags and limits.
\<close>

theorem profile_json_roundtrip:
  assumes "profile_normal p"
  shows "profile_from_json str (profile_to_json p) = Loaded p"
proof -
  obtain kvs where kvs: "profile_to_json p = JObj kvs" "map fst kvs = PROFILE_KEYS" by (simp add: profile_to_json_def PROFILE_KEYS_def)
  have sources: "sources_from_json str (map source_to_json (ip_sources p)) = Inr (ip_sources p)"
    using assms sources_json_roundtrip by (simp add: profile_normal_def)
  have args: "profile_of_args kvs (ip_sources p) = Some p"
    using kvs(1) by (auto simp: profile_to_json_def profile_of_args_def keyword_arg_def read_strings_json read_optional_int_json)
  have raw: "jget (JObj kvs) ''sources'' = JArr (map source_to_json (ip_sources p))" and pre: "map_of kvs ''identifier_prefix'' \<noteq> None"
    using kvs(1) by (auto simp: profile_to_json_def)
  have keys: "list_all (\<lambda>k. k \<in> set PROFILE_KEYS) (map fst kvs)" by (simp add: kvs(2) list_all_iff)
  show ?thesis
  proof (cases "ip_sources p = []")
    case True
    then show ?thesis using raw keys pre args by (simp add: kvs(1) profile_from_json_def Let_def del: jget.simps)
  next
    case False
    then show ?thesis using raw keys pre args sources by (simp add: kvs(1) profile_from_json_def Let_def del: jget.simps)
  qed
qed

theorem profile_json_roundtrip_witness:
  "profile_normal a_profile \<and> profile_from_json (\<lambda>v. []) (profile_to_json a_profile) = Loaded a_profile"
proof -
  have "profile_normal a_profile" by code_simp
  then show ?thesis using profile_json_roundtrip by blast
qed

section \<open>Runs\<close>

datatype profile_op =
    Save_Profile string int ingestion_profile string string "string option"
  | Push_Version string int
  | Restore_Version string int string int string

fun profile_step :: "(jval \<Rightarrow> string) \<Rightarrow> profile_op \<Rightarrow> profile_table \<Rightarrow> profile_table" where
  "profile_step str (Save_Profile uid now p name by_id approved) t = snd (save_new_version uid now p name by_id approved t)"
| "profile_step str (Push_Version uid now) t = mark_pushed uid now t"
| "profile_step str (Restore_Version uid now name version by_id) t = snd (restore_version str uid now name version by_id t)"

text \<open>The versions of a name are 1, 2, ... in the order of the rows, and the last is the current one.\<close>

definition numbered :: "profile_row list \<Rightarrow> bool" where
  "numbered rs \<longleftrightarrow> map pr_version rs = map (\<lambda>i. int i + 1) [0..<length rs] \<and> (\<forall>i < length rs. pr_is_current (rs ! i) \<longleftrightarrow> Suc i = length rs)"

text \<open>What never changes of a row, and what a push leaves of it.\<close>

definition fixed_part :: "profile_row \<Rightarrow> string \<times> int \<times> jval \<times> int \<times> string \<times> string option" where
  "fixed_part r = (pr_name r, pr_version r, pr_profile r, pr_created_at r, pr_created_by r, pr_approved_by r)"

definition unpushed :: "profile_row \<Rightarrow> profile_row" where
  "unpushed r = r\<lparr>pr_pushed_at := None\<rparr>"

lemma unpushed_simps [simp]:
  "pr_version (unpushed r) = pr_version r" "pr_is_current (unpushed r) = pr_is_current r" "fixed_part (unpushed r) = fixed_part r"
  by (simp_all add: unpushed_def fixed_part_def)

lemma rows_of_append: "rows_of name (t @ [(uid, row)]) = rows_of name t @ (if pr_name row = name then [row] else [])"
  by (simp add: rows_of_def)

lemma rows_of_tmap:
  assumes "\<And>k r. pr_name (f k r) = pr_name r" and "\<And>k r. g (f k r) = h r"
  shows "map g (rows_of name (tmap f t)) = map h (rows_of name t)"
  using assms by (induction t) (auto simp: rows_of_def tmap_def)

lemma numbered_unpushed: "map unpushed rs = map unpushed rs' \<Longrightarrow> numbered rs \<Longrightarrow> numbered rs'"
proof -
  assume eq: "map unpushed rs = map unpushed rs'" and n: "numbered rs"
  have len: "length rs = length rs'" using eq by (rule map_eq_imp_length_eq)
  have at: "pr_version (rs ! i) = pr_version (rs' ! i) \<and> pr_is_current (rs ! i) = pr_is_current (rs' ! i)" if "i < length rs" for i
    using arg_cong [OF eq, of "\<lambda>xs. xs ! i"] that len by (metis nth_map unpushed_simps(1,2))
  then have "map pr_version rs = map pr_version rs'" using len by (auto intro!: nth_equalityI)
  then show "numbered rs'" using n at len by (simp add: numbered_def)
qed

lemma next_version_max: "next_version name t = (if rows_of name t = [] then 1 else Max (set (map pr_version (rows_of name t))) + 1)"
  by (cases "rows_of name t") (simp_all add: next_version_def)

lemma numbered_next:
  assumes "numbered (rows_of name t)" shows "next_version name t = int (length (rows_of name t)) + 1"
proof (cases "rows_of name t")
  case Nil
  then show ?thesis by (simp add: next_version_def)
next
  case (Cons r rs)
  define n where "n = length rs"
  have v: "map pr_version (rows_of name t) = map (\<lambda>i. int i + 1) [0..<Suc n]" using assms Cons by (simp add: numbered_def n_def)
  have "Max (set (map (\<lambda>i. int i + 1) [0..<Suc n])) = int n + 1"
    by (intro Max_eqI) auto
  then have "Max (set (map pr_version (rows_of name t))) = int n + 1" unfolding v .
  then show ?thesis using Cons by (simp only: next_version_max) (simp add: n_def)
qed

definition retired :: "string \<Rightarrow> profile_row \<Rightarrow> profile_row" where
  "retired name r = (if pr_name r = name \<and> pr_is_current r then r\<lparr>pr_is_current := False\<rparr> else r)"

lemma retired_simps [simp]:
  "pr_name (retired name r) = pr_name r" "pr_version (retired name r) = pr_version r" "fixed_part (retired name r) = fixed_part r"
  by (simp_all add: retired_def fixed_part_def)

lemma save_outcome:
  assumes "numbered (rows_of name t)" and "save_new_version uid now p name by_id approved t = (answer, t')"
  shows "(\<exists>e. answer = Inl e) \<and> t' = t
    \<or> (\<exists>row. answer = Inr row \<and> pr_name row = name \<and> pr_version row = int (length (rows_of name t)) + 1 \<and> pr_is_current row
        \<and> pr_profile row = profile_to_json p \<and> t' = tmap (\<lambda>_. retired name) t @ [(uid, row)])"
proof -
  let ?t1 = "tmap (\<lambda>_. retired name) t"
  have rows: "rows_of name ?t1 = map (retired name) (rows_of name t)"
    using rows_of_tmap [of "\<lambda>_. retired name" "\<lambda>r. r" "retired name" name t] by simp
  have "map pr_version (rows_of name ?t1) = map pr_version (rows_of name t)" by (simp add: rows)
  then have n: "next_version name ?t1 = int (length (rows_of name t)) + 1"
    using numbered_next [OF assms(1)] by (simp add: next_version_def)
  have same: "tmap (\<lambda>_ r. if pr_name r = name \<and> pr_is_current r then r\<lparr>pr_is_current := False\<rparr> else r) t = ?t1"
    by (rule tmap_cong) (simp add: retired_def)
  show ?thesis using assms(2) n unfolding save_new_version_def same Let_def by (auto simp: insert_version_def split: if_splits)
qed

lemma rows_after_save:
  assumes "t' = tmap (\<lambda>_. retired name) t @ [(uid, row)]" and "pr_name row = name"
  shows "rows_of n t' = (if n = name then map (retired name) (rows_of n t) @ [row] else rows_of n t)"
proof -
  have "rows_of n (tmap (\<lambda>_. retired name) t) = map (retired name) (rows_of n t)"
    using rows_of_tmap [of "\<lambda>_. retired name" "\<lambda>r. r" "retired name" n t] by simp
  moreover have "map (retired name) (rows_of n t) = rows_of n t" if "n \<noteq> name"
    using that by (intro map_idI) (auto simp: rows_of_def retired_def)
  ultimately show ?thesis using assms by (simp add: rows_of_append)
qed

lemma numbered_save:
  assumes "numbered rs" and "\<forall>r \<in> set rs. pr_name r = name" and "pr_version row = int (length rs) + 1" and "pr_is_current row"
  shows "numbered (map (retired name) rs @ [row])"
proof -
  have "\<not> pr_is_current (retired name r)" if "r \<in> set rs" for r using that assms(2) by (simp add: retired_def)
  then show ?thesis using assms by (auto simp: numbered_def nth_append o_def)
qed

definition all_numbered :: "profile_table \<Rightarrow> bool" where
  "all_numbered t \<longleftrightarrow> (\<forall>name. numbered (rows_of name t))"

text \<open>The rows of a name keep what they say, and new ones come after them.\<close>

definition keeps_history :: "profile_table \<Rightarrow> profile_table \<Rightarrow> bool" where
  "keeps_history t t' \<longleftrightarrow> (\<forall>name. length (rows_of name t) \<le> length (rows_of name t')
     \<and> map fixed_part (take (length (rows_of name t)) (rows_of name t')) = map fixed_part (rows_of name t))"

lemma keeps_history_refl: "keeps_history t t"
  by (simp add: keeps_history_def)

lemma keeps_history_trans: "keeps_history t u \<Longrightarrow> keeps_history u v \<Longrightarrow> keeps_history t v"
  unfolding keeps_history_def
proof (intro allI conjI)
  fix name
  assume tu: "\<forall>name. length (rows_of name t) \<le> length (rows_of name u) \<and> map fixed_part (take (length (rows_of name t)) (rows_of name u)) = map fixed_part (rows_of name t)"
    and uv: "\<forall>name. length (rows_of name u) \<le> length (rows_of name v) \<and> map fixed_part (take (length (rows_of name u)) (rows_of name v)) = map fixed_part (rows_of name u)"
  let ?n = "length (rows_of name t)"
  show "?n \<le> length (rows_of name v)" using tu uv by (meson order_trans)
  have "map fixed_part (take ?n (rows_of name v)) = take ?n (map fixed_part (take (length (rows_of name u)) (rows_of name v)))"
    using tu by (simp add: take_map min_def)
  also have "\<dots> = map fixed_part (take ?n (rows_of name u))" using uv by (simp add: take_map)
  finally show "map fixed_part (take ?n (rows_of name v)) = map fixed_part (rows_of name t)" using tu by simp
qed

lemma save_keeps:
  assumes "all_numbered t" shows "all_numbered (snd (save_new_version uid now p name by_id approved t)) \<and> keeps_history t (snd (save_new_version uid now p name by_id approved t))"
proof -
  obtain answer t' where s: "save_new_version uid now p name by_id approved t = (answer, t')" by (metis prod.exhaust)
  have num: "numbered (rows_of n t)" for n using assms by (simp add: all_numbered_def)
  consider "t' = t" | row where "pr_name row = name" "pr_version row = int (length (rows_of name t)) + 1" "pr_is_current row"
    "t' = tmap (\<lambda>_. retired name) t @ [(uid, row)]"
    using save_outcome [OF num s] by blast
  then show ?thesis
  proof cases
    case 1
    then show ?thesis using s assms keeps_history_refl by simp
  next
    case 2
    have mine: "\<forall>r \<in> set (rows_of name t). pr_name r = name" by (simp add: rows_of_def)
    have "numbered (rows_of n t')" for n
      using rows_after_save [OF 2(4,1), of n] numbered_save [OF num mine 2(2,3)] num [of n] by (cases "n = name") simp_all
    moreover have "keeps_history t t'"
      using rows_after_save [OF 2(4,1)] by (auto simp: keeps_history_def take_map o_def)
    ultimately show ?thesis using s by (simp add: all_numbered_def)
  qed
qed

lemma push_keeps:
  assumes "all_numbered t" shows "all_numbered (mark_pushed uid now t) \<and> keeps_history t (mark_pushed uid now t)"
proof -
  have eq: "map unpushed (rows_of n (mark_pushed uid now t)) = map unpushed (rows_of n t)" for n
    unfolding mark_pushed_def by (rule rows_of_tmap) (simp_all add: unpushed_def)
  have "numbered (rows_of n (mark_pushed uid now t))" for n
    using numbered_unpushed [OF eq [symmetric]] assms by (simp add: all_numbered_def)
  moreover have "map fixed_part (rows_of n (mark_pushed uid now t)) = map fixed_part (rows_of n t)" for n
    unfolding mark_pushed_def by (rule rows_of_tmap) (simp_all add: fixed_part_def)
  moreover have "length (rows_of n (mark_pushed uid now t)) = length (rows_of n t)" for n
    using eq [of n] by (metis length_map)
  ultimately show ?thesis by (simp add: all_numbered_def keeps_history_def)
qed

lemma restore_keeps:
  assumes "all_numbered t"
  shows "all_numbered (snd (restore_version str uid now name version by_id t)) \<and> keeps_history t (snd (restore_version str uid now name version by_id t))"
proof -
  have save: "save_new_version uid now p name by_id None t = (a, t') \<Longrightarrow> all_numbered t' \<and> keeps_history t t'" for p a t'
    using save_keeps [OF assms, of uid now p name by_id None] by simp
  show ?thesis using assms keeps_history_refl
    by (auto simp: restore_version_def save split: option.splits profile_load.splits prod.splits sum.splits)
qed

lemma step_keeps:
  assumes "all_numbered t" shows "all_numbered (profile_step str op t) \<and> keeps_history t (profile_step str op t)"
  using assms save_keeps push_keeps restore_keeps by (cases op) simp_all

lemma run_keeps:
  "all_numbered t \<Longrightarrow> all_numbered (fold (profile_step str) ops t) \<and> keeps_history t (fold (profile_step str) ops t)"
proof (induction ops arbitrary: t)
  case Nil
  then show ?case by (simp add: keeps_history_refl)
next
  case (Cons op ops)
  have "all_numbered (profile_step str op t) \<and> keeps_history t (profile_step str op t)" using Cons.prems by (rule step_keeps)
  then show ?case using Cons.IH [of "profile_step str op t"] keeps_history_trans by auto
qed

lemma empty_numbered: "all_numbered []"
  by (simp add: all_numbered_def numbered_def rows_of_def)

lemma current_of_numbered:
  assumes "numbered (rows_of name t)"
  shows "current_row name t = (if rows_of name t = [] then None else Some (last (rows_of name t)))"
proof (cases "rows_of name t = []")
  case True
  then show ?thesis by (simp add: current_row_def)
next
  case False
  then have init: "\<forall>r \<in> set (butlast (rows_of name t)). \<not> pr_is_current r" and last: "pr_is_current (last (rows_of name t))"
    using assms by (auto simp: numbered_def in_set_conv_nth nth_butlast last_conv_nth)
  have "find P (xs @ [y]) = Some y" if "\<forall>x \<in> set xs. \<not> P x" "P y" for P :: "profile_row \<Rightarrow> bool" and xs y
    using that by (induction xs) auto
  then have "find pr_is_current (butlast (rows_of name t) @ [last (rows_of name t)]) = Some (last (rows_of name t))"
    using init last by blast
  then show ?thesis using False by (simp add: current_row_def)
qed

text \<open>
  (C13) After any saves, pushes and restores the versions of a name are 1, 2, ... without a gap and exactly the last one
  is current; and whatever follows, every version keeps its number, its profile and who saved and approved it.
\<close>

theorem versions_kept:
  "let t = fold (profile_step str) ops []; t' = fold (profile_step str) later t; rs = rows_of name t
   in numbered rs \<and> current_row name t = (if rs = [] then None else Some (last rs))
      \<and> map fixed_part (take (length rs) (rows_of name t')) = map fixed_part rs"
proof -
  have "all_numbered (fold (profile_step str) ops [])" using run_keeps [OF empty_numbered] by blast
  then show ?thesis
    using run_keeps [of "fold (profile_step str) ops []" str later] current_of_numbered
    by (simp add: all_numbered_def keeps_history_def Let_def)
qed

text \<open>A restored version is a new one with the old profile, and it is the current one.\<close>

lemma restored_is_current:
  assumes "all_numbered t" and "restore_version str uid now name version by_id t = (Restored row, t')"
  shows "current_row name t' = Some row \<and> pr_version row = int (length (rows_of name t)) + 1
    \<and> (\<exists>old \<in> set (rows_of name t). \<exists>p. pr_version old = version \<and> profile_from_json str (pr_profile old) = Loaded p
        \<and> pr_profile row = profile_to_json p)"
proof -
  obtain old p where old: "find (\<lambda>r. pr_version r = version) (rows_of name t) = Some old" "profile_from_json str (pr_profile old) = Loaded p"
    and s: "save_new_version uid now p name by_id None t = (Inr row, t')"
    using assms(2) by (auto simp: restore_version_def split: option.splits profile_load.splits prod.splits sum.splits)
  have num: "numbered (rows_of name t)" using assms(1) by (simp add: all_numbered_def)
  have row: "pr_name row = name" "pr_version row = int (length (rows_of name t)) + 1" "pr_profile row = profile_to_json p"
    "t' = tmap (\<lambda>_. retired name) t @ [(uid, row)]"
    using save_outcome [OF num s] by auto
  have "numbered (rows_of name t')" using save_keeps [OF assms(1), of uid now p name by_id None] s by (simp add: all_numbered_def)
  then have "current_row name t' = Some row"
    using current_of_numbered rows_after_save [OF row(4,1), of name] by simp
  moreover have "old \<in> set (rows_of name t) \<and> pr_version old = version" using old(1) by (auto simp: find_Some_iff)
  ultimately show ?thesis using row old(2) by blast
qed

end
