(* ===== verification/Onedrive_Mirror.thy ===== *)
theory Onedrive_Mirror
  imports Glob_Match Rc_Pointers
begin

text \<open>
  The OneDrive mirror (\<open>onedrive_mirror/mirror.py\<close>): one pass over a drive that keeps a local tree equal to the remote
  one. The local tree is a table from paths, lists of names below the mirror's root, to what is there; it holds no
  symbolic links. What Graph and the file system answer during a pass is an argument (\<open>answers\<close>): the tree of listings
  a full walk sees, the pages of a delta query, the size of every download, the files that can be removed, the times
  \<open>datetime.fromisoformat\<close> reads. A file that was downloaded gets its time, and \<open>rmtree\<close> removes a whole folder. Errors the code does not catch end the pass and are its result.

  The lemmas show what a pass keeps of the tree, that a pass with an incomplete view removes nothing, that after a
  complete walk exactly the files in scope are there, and when the delta cursor moves.
\<close>

section \<open>Items, local files and the answers of a pass\<close>

record graph_item =
  gi_id :: string
  gi_name :: string
  gi_deleted :: bool
  gi_folder :: bool
  gi_file :: bool
  gi_parent :: string
  gi_size :: int
  gi_url :: string
  gi_modified :: string

text \<open>An item of a listing with what listing it answers: its children and whether that listing fails after them.\<close>

datatype remote = Remote graph_item "remote list" bool

record enrichment_row =
  er_doc_id :: string
  er_url :: string
  er_title :: string
  er_modified :: "string option"

type_synonym local_path = "string list"

datatype local_node =
    Local_Dir
  | Local_File rat int
  | Token_File string "(string, enrichment_row) table"
  | Snapshot_File "enrichment_row list"

type_synonym local_tree = "(local_path, local_node) table"

datatype mirror_error = Probe_Failed | List_Failed | Download_Failed local_path | Delete_Failed local_path | Unlink_Failed local_path
  | Token_Not_Saved | Snapshot_Not_Written

record mirror_stats =
  items_seen :: int
  folders_seen :: int
  downloaded :: int
  skipped_unchanged :: int
  skipped_oversize :: int
  skipped_extension :: int
  skipped_control :: int
  deleted_locally :: int
  enrichment_entries :: int
  download_failures :: int
  mirror_mode :: string
  mirror_errors :: "mirror_error list"

definition no_stats :: mirror_stats where
  "no_stats = \<lparr>items_seen = 0, folders_seen = 0, downloaded = 0, skipped_unchanged = 0, skipped_oversize = 0, skipped_extension = 0,
     skipped_control = 0, deleted_locally = 0, enrichment_entries = 0, download_failures = 0, mirror_mode = ''walk'', mirror_errors = []\<rparr>"

text \<open>Where the enrichment snapshot is kept: nowhere, outside the mirrored tree, or at a path of it.\<close>

datatype snapshot_place = No_Snapshot | Snapshot_Outside | Snapshot_Inside local_path

record mirror_cfg =
  mc_root_path :: string
  mc_max_size :: "int option"
  mc_extensions :: "string list"
  mc_prefix :: string
  mc_snapshot :: snapshot_place
  mc_use_delta :: bool

record mirror_state =
  ms_tree :: local_tree
  ms_enrichment :: "(string, enrichment_row) table"
  ms_outside :: "enrichment_row list option"

datatype delta_end = Delta_Done | Delta_Invalid | Delta_Failed

record answers =
  an_probe :: bool
  an_delta :: "string option \<Rightarrow> (graph_item list \<times> string option) list \<times> delta_end"
  an_listing :: "remote list"
  an_listing_fails :: bool
  an_download :: "nat \<Rightarrow> string \<Rightarrow> int option"
  an_unlink :: "local_path \<Rightarrow> bool"
  an_dir_stat :: "local_path \<Rightarrow> rat \<times> int"
  an_time :: "string \<Rightarrow> rat option"
  an_now :: rat
  an_token_saved :: bool
  an_snapshot_written :: bool

text \<open>A pass in progress; \<open>pass_remote\<close> are the paths the walk has seen, \<open>pass_calls\<close> counts the downloads tried.\<close>

record pass =
  pass_state :: mirror_state
  pass_stats :: mirror_stats
  pass_remote :: "local_path list"
  pass_rows :: "enrichment_row list"
  pass_calls :: nat

section \<open>The configuration\<close>

definition DEFAULT_ALLOWED_EXTENSIONS :: "string list" where
  "DEFAULT_ALLOWED_EXTENSIONS = [''.md'', ''.txt'', ''.docx'', ''.pdf'', ''.eml'', ''.msg'']"

definition DELTA_TOKEN_FILENAME :: string where
  "DELTA_TOKEN_FILENAME = ''.onedrive_delta.json''"

definition normalise_extension :: "string \<Rightarrow> string" where
  "normalise_extension ext =
     (let e = py_lower (py_strip ext)
      in if py_startswith e ''.'' then e else CHR ''.'' # py_lstrip (\<lambda>c. c = CHR ''.'') e)"

definition normalise_extensions :: "string list \<Rightarrow> string list" where
  "normalise_extensions raw =
     (let out = map normalise_extension (filter (\<lambda>e. py_strip e \<noteq> []) raw) in if out = [] then DEFAULT_ALLOWED_EXTENSIONS else out)"

definition mirror_init :: "string \<Rightarrow> string list \<Rightarrow> int option \<Rightarrow> string \<Rightarrow> snapshot_place \<Rightarrow> bool \<Rightarrow> mirror_cfg" where
  "mirror_init root_path extensions max_size pre place use_delta =
     \<lparr>mc_root_path = strip_slashes (py_strip root_path),
      mc_max_size = (case max_size of None \<Rightarrow> None | Some n \<Rightarrow> if n > 0 then Some n else None),
      mc_extensions = normalise_extensions extensions, mc_prefix = strip_slashes (py_strip pre), mc_snapshot = place, mc_use_delta = use_delta\<rparr>"

definition token_path :: local_path where
  "token_path = [DELTA_TOKEN_FILENAME]"

definition is_control_dest :: "mirror_cfg \<Rightarrow> local_path \<Rightarrow> bool" where
  "is_control_dest cfg p \<longleftrightarrow> p = token_path \<or> mc_snapshot cfg = Snapshot_Inside p"

definition doc_id_for :: "mirror_cfg \<Rightarrow> string \<Rightarrow> string" where
  "doc_id_for cfg rel =
     (let r = strip_slashes (unbackslash rel) in if mc_prefix cfg \<noteq> [] then mc_prefix cfg @ ''/'' @ r else r)"

section \<open>The local tree\<close>

text \<open>\<open>mkdir(parents=True, exist_ok=True)\<close>: it fails, and changes nothing, where a file is in the way.\<close>

definition local_dirs :: "local_path \<Rightarrow> local_path list" where
  "local_dirs p = map (\<lambda>n. take n p) [1..<Suc (length p)]"

definition is_local_file :: "local_tree \<Rightarrow> local_path \<Rightarrow> bool" where
  "is_local_file t p \<longleftrightarrow> (case map_of t p of None \<Rightarrow> False | Some Local_Dir \<Rightarrow> False | Some _ \<Rightarrow> True)"

definition make_dirs :: "local_path \<Rightarrow> local_tree \<Rightarrow> local_tree option" where
  "make_dirs p t =
     (if list_ex (is_local_file t) (local_dirs p) then None
      else Some (fold (\<lambda>d t. if map_of t d = None then t @ [(d, Local_Dir)] else t) (local_dirs p) t))"

text \<open>\<open>_safe_name\<close>, and \<open>_within\<close> for a path without dots: the system refuses a name with a null character.\<close>

definition safe_name :: "string \<Rightarrow> string" where
  "safe_name name =
     (if name \<in> {[], ''.'', ''..''} \<or> CHR ''/'' \<in> set name \<or> CHR 0x5C \<in> set name \<or> CHR 0x00 \<in> set name then [] else name)"

definition within_root :: "local_path \<Rightarrow> bool" where
  "within_root p \<longleftrightarrow> list_all (\<lambda>c. c \<noteq> ''..'' \<and> CHR 0x00 \<notin> set c) p"

definition is_local_current :: "answers \<Rightarrow> local_tree \<Rightarrow> local_path \<Rightarrow> rat option \<Rightarrow> int \<Rightarrow> bool" where
  "is_local_current an t p remote_time remote_size =
     (case map_of t p of None \<Rightarrow> False
      | Some node \<Rightarrow>
          (let (mtime, sz) = (case node of Local_File m s \<Rightarrow> (m, s) | _ \<Rightarrow> an_dir_stat an p)
           in if remote_size \<noteq> 0 \<and> sz \<noteq> remote_size then False
              else case remote_time of None \<Rightarrow> True | Some time \<Rightarrow> mtime \<ge> of_int \<lfloor>time\<rfloor>))"

section \<open>One file\<close>

definition note_stats :: "(mirror_stats \<Rightarrow> mirror_stats) \<Rightarrow> pass \<Rightarrow> pass" where
  "note_stats f pa = pa\<lparr>pass_stats := f (pass_stats pa)\<rparr>"

definition set_tree :: "local_tree \<Rightarrow> pass \<Rightarrow> pass" where
  "set_tree t pa = pa\<lparr>pass_state := (pass_state pa)\<lparr>ms_tree := t\<rparr>\<rparr>"

definition mirror_error_note :: "mirror_error \<Rightarrow> mirror_stats \<Rightarrow> mirror_stats" where
  "mirror_error_note e st = st\<lparr>mirror_errors := mirror_errors st @ [e]\<rparr>"

definition in_extension_scope :: "mirror_cfg \<Rightarrow> graph_item \<Rightarrow> bool" where
  "in_extension_scope cfg it \<longleftrightarrow> py_lower (posix_suffix (gi_name it)) \<in> set (mc_extensions cfg)"

definition too_large :: "mirror_cfg \<Rightarrow> graph_item \<Rightarrow> bool" where
  "too_large cfg it \<longleftrightarrow> (case mc_max_size cfg of None \<Rightarrow> False | Some m \<Rightarrow> gi_size it > m)"

definition enrichment_of :: "mirror_cfg \<Rightarrow> graph_item \<Rightarrow> string \<Rightarrow> enrichment_row option" where
  "enrichment_of cfg it rel =
     (if mc_snapshot cfg = No_Snapshot \<or> py_strip (gi_url it) = [] then None
      else Some \<lparr>er_doc_id = doc_id_for cfg rel, er_url = py_strip (gi_url it), er_title = gi_name it,
                 er_modified = (if py_strip (gi_modified it) = [] then None else Some (py_strip (gi_modified it)))\<rparr>)"

text \<open>Download when the local copy is not current. A folder in the file's place makes the final rename fail.\<close>

definition fetch_file :: "answers \<Rightarrow> graph_item \<Rightarrow> local_path \<Rightarrow> pass \<Rightarrow> pass" where
  "fetch_file an it dest pa =
     (let t = ms_tree (pass_state pa); time = an_time an (gi_modified it)
      in if is_local_current an t dest time (gi_size it) then note_stats (\<lambda>s. s\<lparr>skipped_unchanged := skipped_unchanged s + 1\<rparr>) pa
         else let pa1 = pa\<lparr>pass_calls := Suc (pass_calls pa)\<rparr>
              in case (an_download an (pass_calls pa) (gi_id it), map_of t dest) of
                   (Some sz, node) \<Rightarrow>
                     if node = Some Local_Dir then note_stats (\<lambda>s. mirror_error_note (Download_Failed dest) (s\<lparr>download_failures := download_failures s + 1\<rparr>)) pa1
                     else note_stats (\<lambda>s. s\<lparr>downloaded := downloaded s + 1\<rparr>)
                       (set_tree (AList.update dest (Local_File (case time of Some m \<Rightarrow> m | None \<Rightarrow> an_now an) sz) t) pa1)
                 | (None, _) \<Rightarrow> note_stats (\<lambda>s. mirror_error_note (Download_Failed dest) (s\<lparr>download_failures := download_failures s + 1\<rparr>)) pa1)"

datatype pass_stop = Listing_Stopped | Os_Raised

text \<open>The checks a file goes through; \<open>record\<close> notes its path and its row. \<open>None\<close> is the normal end.\<close>

definition mirror_file :: "mirror_cfg \<Rightarrow> answers \<Rightarrow> graph_item \<Rightarrow> local_path \<Rightarrow> (pass \<Rightarrow> pass) \<Rightarrow> pass \<Rightarrow> pass_stop option \<times> pass" where
  "mirror_file cfg an it dest record_it pa =
     (if \<not> in_extension_scope cfg it then (None, note_stats (\<lambda>s. s\<lparr>skipped_extension := skipped_extension s + 1\<rparr>) pa)
      else if too_large cfg it then (None, note_stats (\<lambda>s. s\<lparr>skipped_oversize := skipped_oversize s + 1\<rparr>) pa)
      else if \<not> within_root dest then (None, pa)
      else if is_control_dest cfg dest then (None, note_stats (\<lambda>s. s\<lparr>skipped_control := skipped_control s + 1\<rparr>) pa)
      else case make_dirs (butlast dest) (ms_tree (pass_state pa)) of None \<Rightarrow> (Some Os_Raised, pa)
      | Some t \<Rightarrow> (None, fetch_file an it dest (record_it (set_tree t pa))))"

section \<open>The full walk\<close>

text \<open>\<open>_walk_root\<close>. A listing that fails ends the whole walk: the generators of the client fail when they are read.\<close>

definition walk_record :: "mirror_cfg \<Rightarrow> graph_item \<Rightarrow> local_path \<Rightarrow> pass \<Rightarrow> pass" where
  "walk_record cfg it rel pa =
     pa\<lparr>pass_remote := pass_remote pa @ [rel],
        pass_rows := pass_rows pa @ (case enrichment_of cfg it (py_join (CHR ''/'') rel) of None \<Rightarrow> [] | Some r \<Rightarrow> [r])\<rparr>"

fun walk_remote :: "mirror_cfg \<Rightarrow> answers \<Rightarrow> local_path \<Rightarrow> remote list \<Rightarrow> bool \<Rightarrow> pass \<Rightarrow> pass_stop option \<times> pass" where
  "walk_remote cfg an d [] fails pa = (if fails then Some Listing_Stopped else None, pa)"
| "walk_remote cfg an d (Remote it kids kids_fail # rest) fails pa0 =
     (let pa = note_stats (\<lambda>s. s\<lparr>items_seen := items_seen s + 1\<rparr>) pa0; name = safe_name (gi_name it); rel = d @ [name]
      in if name = [] then walk_remote cfg an d rest fails pa
         else if gi_folder it then
           (let pa1 = note_stats (\<lambda>s. s\<lparr>folders_seen := folders_seen s + 1\<rparr>) pa
            in if \<not> within_root rel then walk_remote cfg an d rest fails pa1
               else case make_dirs rel (ms_tree (pass_state pa1)) of None \<Rightarrow> (Some Os_Raised, pa1)
               | Some t \<Rightarrow>
                   (case walk_remote cfg an rel kids kids_fail ((set_tree t pa1)\<lparr>pass_remote := pass_remote pa1 @ [rel]\<rparr>) of
                      (Some stop, pa2) \<Rightarrow> (Some stop, pa2)
                    | (None, pa2) \<Rightarrow> walk_remote cfg an d rest fails pa2))
         else if \<not> gi_file it then walk_remote cfg an d rest fails pa
         else (case mirror_file cfg an it rel (walk_record cfg it rel) pa of
                 (Some stop, pa2) \<Rightarrow> (Some stop, pa2)
               | (None, pa2) \<Rightarrow> walk_remote cfg an d rest fails pa2))"

section \<open>Pruning\<close>

definition has_children :: "local_tree \<Rightarrow> local_path \<Rightarrow> bool" where
  "has_children t p \<longleftrightarrow> list_ex (\<lambda>q. q \<noteq> [] \<and> butlast q = p) (map fst t)"

definition prune_path :: "answers \<Rightarrow> local_path list \<Rightarrow> local_path \<Rightarrow> pass \<Rightarrow> pass" where
  "prune_path an seen p pa =
     (let t = ms_tree (pass_state pa)
      in if p \<in> set seen then pa
         else if is_local_file t p then
           (if an_unlink an p then note_stats (\<lambda>s. s\<lparr>deleted_locally := deleted_locally s + 1\<rparr>) (set_tree (AList.delete p t) pa)
            else note_stats (mirror_error_note (Unlink_Failed p)) pa)
         else if map_of t p = Some Local_Dir \<and> \<not> has_children t p then set_tree (AList.delete p t) pa
         else pa)"

definition prune_local_only :: "answers \<Rightarrow> local_path list \<Rightarrow> pass \<Rightarrow> pass" where
  "prune_local_only an seen pa = fold (prune_path an seen) (rev (sort (map fst (ms_tree (pass_state pa))))) pa"

section \<open>The delta\<close>

definition load_delta_token :: "mirror_state \<Rightarrow> string option \<times> mirror_state" where
  "load_delta_token m =
     (case map_of (ms_tree m) token_path of
        Some (Token_File link snap) \<Rightarrow> if link \<noteq> [] then (Some link, m\<lparr>ms_enrichment := snap\<rparr>) else (None, m)
      | _ \<Rightarrow> (None, m))"

text \<open>\<open>None\<close> where the file cannot be written; a folder in its place makes the rename fail.\<close>

definition save_delta_token :: "answers \<Rightarrow> string \<Rightarrow> mirror_state \<Rightarrow> mirror_state option" where
  "save_delta_token an link m =
     (if \<not> an_token_saved an \<or> map_of (ms_tree m) token_path = Some Local_Dir then None
      else Some (m\<lparr>ms_tree := AList.update token_path (Token_File link (ms_enrichment m)) (ms_tree m)\<rparr>))"

definition discard_delta_token :: "answers \<Rightarrow> mirror_state \<Rightarrow> mirror_state" where
  "discard_delta_token an m =
     (if is_local_file (ms_tree m) token_path \<and> an_unlink an token_path then m\<lparr>ms_tree := AList.delete token_path (ms_tree m)\<rparr> else m)"

definition after_colon :: "string \<Rightarrow> string" where
  "after_colon s = (case index_of (CHR '':'') s of None \<Rightarrow> [] | Some i \<Rightarrow> strip_slashes (drop (Suc i) s))"

definition rel_path_for_delta_item :: "mirror_cfg \<Rightarrow> graph_item \<Rightarrow> string option" where
  "rel_path_for_delta_item cfg it =
     (let name = py_strip (gi_name it); after = after_colon (gi_parent it); root = mc_root_path cfg
      in if name \<in> {[], ''.'', ''..''} \<or> CHR ''/'' \<in> set name \<or> CHR 0x5C \<in> set name then None
         else let rel =
             (if root \<noteq> [] then
                (if after = root then Some name
                 else if py_startswith after (root @ ''/'') then
                   (let sub = drop (length root + 1) after in Some (if sub \<noteq> [] then sub @ ''/'' @ name else name))
                 else if name = root \<and> after = [] then Some []
                 else None)
              else Some (if after \<noteq> [] then after @ ''/'' @ name else name))
         in case rel of None \<Rightarrow> None
            | Some r \<Rightarrow>
                if r \<noteq> [] \<and> list_ex (\<lambda>c. c \<in> {[], ''.'', ''..''}) (split_char (CHR ''/'') (unbackslash r)) then None else Some r)"

definition under :: "local_path \<Rightarrow> local_path \<Rightarrow> bool" where
  "under p q \<longleftrightarrow> take (length p) q = p"

definition apply_delta_delete :: "mirror_cfg \<Rightarrow> answers \<Rightarrow> string \<Rightarrow> pass \<Rightarrow> pass" where
  "apply_delta_delete cfg an rel pa =
     (let p = path_parts rel; m = pass_state pa; t = ms_tree m
      in if rel = [] \<or> \<not> within_root p \<or> p = [] then pa
         else let pa1 =
             (if is_local_file t p then
                (if an_unlink an p then note_stats (\<lambda>s. s\<lparr>deleted_locally := deleted_locally s + 1\<rparr>) (set_tree (AList.delete p t) pa)
                 else note_stats (mirror_error_note (Delete_Failed p)) pa)
              else if map_of t p = Some Local_Dir then set_tree (filter (\<lambda>(q, _). \<not> under p q) t) pa else pa)
         in pa1\<lparr>pass_state := (pass_state pa1)\<lparr>ms_enrichment := AList.delete (doc_id_for cfg rel) (ms_enrichment (pass_state pa1))\<rparr>\<rparr>)"

definition delta_record :: "mirror_cfg \<Rightarrow> graph_item \<Rightarrow> string \<Rightarrow> pass \<Rightarrow> pass" where
  "delta_record cfg it rel pa =
     (case enrichment_of cfg it rel of None \<Rightarrow> pa
      | Some r \<Rightarrow> pa\<lparr>pass_state := (pass_state pa)\<lparr>ms_enrichment := AList.update (doc_id_for cfg rel) r (ms_enrichment (pass_state pa))\<rparr>\<rparr>)"

definition process_delta_item :: "mirror_cfg \<Rightarrow> answers \<Rightarrow> graph_item \<Rightarrow> pass \<Rightarrow> pass_stop option \<times> pass" where
  "process_delta_item cfg an it pa0 =
     (let pa = note_stats (\<lambda>s. s\<lparr>items_seen := items_seen s + 1\<rparr>) pa0
      in case rel_path_for_delta_item cfg it of None \<Rightarrow> (None, pa)
      | Some rel \<Rightarrow>
          if gi_deleted it then (None, apply_delta_delete cfg an rel pa)
          else if gi_folder it then
            (let pa1 = note_stats (\<lambda>s. s\<lparr>folders_seen := folders_seen s + 1\<rparr>) pa
             in if rel = [] \<or> \<not> within_root (path_parts rel) then (None, pa1)
                else case make_dirs (path_parts rel) (ms_tree (pass_state pa1)) of None \<Rightarrow> (Some Os_Raised, pa1)
                | Some t \<Rightarrow> (None, set_tree t pa1))
          else if \<not> gi_file it \<or> rel = [] then (None, pa)
          else mirror_file cfg an it (path_parts rel) (delta_record cfg it rel) pa)"

fun process_delta_items :: "mirror_cfg \<Rightarrow> answers \<Rightarrow> graph_item list \<Rightarrow> pass \<Rightarrow> pass_stop option \<times> pass" where
  "process_delta_items cfg an [] pa = (None, pa)"
| "process_delta_items cfg an (it # its) pa =
     (case process_delta_item cfg an it pa of (Some stop, pa1) \<Rightarrow> (Some stop, pa1) | (None, pa1) \<Rightarrow> process_delta_items cfg an its pa1)"

fun delta_loop :: "mirror_cfg \<Rightarrow> answers \<Rightarrow> (graph_item list \<times> string option) list \<Rightarrow> string option \<Rightarrow> pass \<Rightarrow> (pass_stop option \<times> pass) \<times> string option" where
  "delta_loop cfg an [] link pa = ((None, pa), link)"
| "delta_loop cfg an ((its, delta_link) # pages) link pa =
     (case process_delta_items cfg an its pa of
        (Some stop, pa1) \<Rightarrow> ((Some stop, pa1), link)
      | (None, pa1) \<Rightarrow>
          delta_loop cfg an pages (case delta_link of Some l \<Rightarrow> if l \<noteq> [] then Some l else link | None \<Rightarrow> link) pa1)"

text \<open>The cursor moves only when every download of the pass worked.\<close>

definition keep_cursor :: "answers \<Rightarrow> string option \<Rightarrow> pass \<Rightarrow> pass" where
  "keep_cursor an new_link pa =
     (case new_link of None \<Rightarrow> pa
      | Some link \<Rightarrow>
          if download_failures (pass_stats pa) \<noteq> 0 then pa
          else case save_delta_token an link (pass_state pa) of
            None \<Rightarrow> note_stats (mirror_error_note Token_Not_Saved) pa | Some m \<Rightarrow> pa\<lparr>pass_state := m\<rparr>)"

datatype delta_result = Delta_Ran | Delta_Rejected | Delta_Broke | Delta_Raised

definition run_delta :: "mirror_cfg \<Rightarrow> answers \<Rightarrow> pass \<Rightarrow> delta_result \<times> pass" where
  "run_delta cfg an pa0 =
     (let (saved, m) = load_delta_token (pass_state pa0);
          pa = note_stats (\<lambda>s. s\<lparr>mirror_mode := (if saved = None then ''delta-initial'' else ''delta'')\<rparr>) (pa0\<lparr>pass_state := m\<rparr>);
          (pages, ending) = an_delta an saved
      in case delta_loop cfg an pages None pa of
           ((Some stop, pa1), _) \<Rightarrow> (Delta_Raised, pa1)
         | ((None, pa1), link) \<Rightarrow>
             (case ending of Delta_Invalid \<Rightarrow> (Delta_Rejected, pa1) | Delta_Failed \<Rightarrow> (Delta_Broke, pa1)
              | Delta_Done \<Rightarrow> (Delta_Ran, keep_cursor an link pa1)))"

section \<open>One pass\<close>

definition write_enrichment :: "mirror_cfg \<Rightarrow> answers \<Rightarrow> enrichment_row list \<Rightarrow> pass \<Rightarrow> pass" where
  "write_enrichment cfg an rows pa =
     (let failed = note_stats (mirror_error_note Snapshot_Not_Written) pa; written = note_stats (\<lambda>s. s\<lparr>enrichment_entries := int (length rows)\<rparr>)
      in case mc_snapshot cfg of No_Snapshot \<Rightarrow> pa
         | Snapshot_Outside \<Rightarrow>
             if an_snapshot_written an then written (pa\<lparr>pass_state := (pass_state pa)\<lparr>ms_outside := Some rows\<rparr>\<rparr>) else failed
         | Snapshot_Inside p \<Rightarrow>
             if an_snapshot_written an \<and> map_of (ms_tree (pass_state pa)) p \<noteq> Some Local_Dir
             then written (set_tree (AList.update p (Snapshot_File rows) (ms_tree (pass_state pa))) pa) else failed)"

definition finish_walk :: "mirror_cfg \<Rightarrow> answers \<Rightarrow> pass \<Rightarrow> pass" where
  "finish_walk cfg an pa =
     (if mc_snapshot cfg = No_Snapshot \<or> pass_rows pa = [] then pa
      else write_enrichment cfg an (pass_rows pa)
        (pa\<lparr>pass_state := (pass_state pa)\<lparr>ms_enrichment := fold (\<lambda>r. AList.update (er_doc_id r) r) (pass_rows pa) []\<rparr>\<rparr>))"

definition walk_pass :: "mirror_cfg \<Rightarrow> answers \<Rightarrow> pass \<Rightarrow> bool \<times> pass" where
  "walk_pass cfg an pa0 =
     (case walk_remote cfg an [] (an_listing an) (an_listing_fails an) pa0 of
        (Some Os_Raised, pa) \<Rightarrow> (False, pa)
      | (stop, pa) \<Rightarrow>
          (True, finish_walk cfg an (if stop = None then prune_local_only an (pass_remote pa) pa else note_stats (mirror_error_note List_Failed) pa)))"

text \<open>\<open>run_once\<close>: whether it returned, and the pass.\<close>

definition start_pass :: "mirror_state \<Rightarrow> pass" where
  "start_pass m = \<lparr>pass_state = m, pass_stats = no_stats, pass_remote = [], pass_rows = [], pass_calls = 0\<rparr>"

definition mirror_once :: "mirror_cfg \<Rightarrow> answers \<Rightarrow> mirror_state \<Rightarrow> bool \<times> pass" where
  "mirror_once cfg an m =
     (let pa = start_pass m
      in if \<not> an_probe an then (True, note_stats (mirror_error_note Probe_Failed) pa)
         else if \<not> mc_use_delta cfg then walk_pass cfg an pa
         else case run_delta cfg an pa of
           (Delta_Raised, pa1) \<Rightarrow> (False, pa1)
         | (Delta_Ran, pa1) \<Rightarrow>
             (True, if mc_snapshot cfg = No_Snapshot then pa1 else write_enrichment cfg an (map snd (ms_enrichment (pass_state pa1))) pa1)
         | (ending, pa1) \<Rightarrow>
             walk_pass cfg an (note_stats (\<lambda>s. s\<lparr>mirror_mode := ''delta-then-walk''\<rparr>)
               (if ending = Delta_Rejected then pa1\<lparr>pass_state := discard_delta_token an (pass_state pa1)\<rparr> else pa1)))"

section \<open>What a step keeps of the tree\<close>

text \<open>Files stay files and folders stay folders.\<close>

definition keeps_kinds :: "local_tree \<Rightarrow> local_tree \<Rightarrow> bool" where
  "keeps_kinds t t' \<longleftrightarrow> (\<forall>p. (is_local_file t p \<longrightarrow> is_local_file t' p) \<and> (map_of t p = Some Local_Dir \<longrightarrow> map_of t' p = Some Local_Dir))"

abbreviation tree_of :: "pass \<Rightarrow> local_tree" where
  "tree_of pa \<equiv> ms_tree (pass_state pa)"

abbreviation errors_of :: "pass \<Rightarrow> mirror_error list" where
  "errors_of pa \<equiv> mirror_errors (pass_stats pa)"

lemma keeps_kinds_refl [simp]: "keeps_kinds t t"
  by (simp add: keeps_kinds_def)

lemma keeps_kinds_trans: "keeps_kinds t u \<Longrightarrow> keeps_kinds u v \<Longrightarrow> keeps_kinds t v"
  by (simp add: keeps_kinds_def)

lemma pass_simps [simp]:
  "pass_state (note_stats f pa) = pass_state pa" "pass_remote (note_stats f pa) = pass_remote pa" "pass_rows (note_stats f pa) = pass_rows pa"
  "pass_stats (note_stats f pa) = f (pass_stats pa)" "pass_stats (set_tree t pa) = pass_stats pa" "tree_of (set_tree t pa) = t"
  "pass_remote (set_tree t pa) = pass_remote pa" "pass_rows (set_tree t pa) = pass_rows pa"
  "ms_enrichment (pass_state (set_tree t pa)) = ms_enrichment (pass_state pa)" "ms_outside (pass_state (set_tree t pa)) = ms_outside (pass_state pa)"
  by (simp_all add: note_stats_def set_tree_def)

lemma fold_dirs_lookup:
  "map_of (fold (\<lambda>d t. if map_of t d = None then t @ [(d, Local_Dir)] else t) ds t) q =
     (case map_of t q of Some n \<Rightarrow> Some n | None \<Rightarrow> if q \<in> set ds then Some Local_Dir else None)"
  by (induction ds arbitrary: t) (auto split: option.splits)

lemma make_dirs_lookup:
  "make_dirs p t = Some t' \<Longrightarrow> map_of t' q = (case map_of t q of Some n \<Rightarrow> Some n | None \<Rightarrow> if q \<in> set (local_dirs p) then Some Local_Dir else None)"
  by (auto simp: make_dirs_def fold_dirs_lookup split: if_splits)

lemma make_dirs_keeps: "make_dirs p t = Some t' \<Longrightarrow> keeps_kinds t t'"
  by (auto simp: keeps_kinds_def is_local_file_def make_dirs_lookup split: option.splits)

lemma make_dirs_makes:
  assumes "make_dirs p t = Some t'" and "p \<noteq> []" shows "map_of t' p = Some Local_Dir"
proof -
  have mem: "p \<in> set (local_dirs p)" using assms(2) by (auto simp: local_dirs_def Suc_le_eq intro!: image_eqI [of p _ "length p"])
  then have "\<not> is_local_file t p" using assms(1) by (auto simp: make_dirs_def list_ex_iff split: if_splits)
  then show ?thesis using mem make_dirs_lookup [OF assms(1), of p]
    by (auto simp: is_local_file_def split: option.splits local_node.splits)
qed

lemma fetch_file_keeps: "keeps_kinds (tree_of pa) (tree_of (fetch_file an it dest pa))"
  by (auto simp: fetch_file_def Let_def keeps_kinds_def is_local_file_def update_conv' split: option.splits local_node.splits if_splits)

lemma fetch_file_facts:
  "pass_remote (fetch_file an it dest pa) = pass_remote pa" "pass_rows (fetch_file an it dest pa) = pass_rows pa"
  "download_failures (pass_stats pa) \<le> download_failures (pass_stats (fetch_file an it dest pa))"
  "List_Failed \<in> set (errors_of (fetch_file an it dest pa)) \<longleftrightarrow> List_Failed \<in> set (errors_of pa)"
  "map_of (tree_of (fetch_file an it dest pa)) token_path = Some (Token_File l s) \<Longrightarrow> map_of (tree_of pa) token_path = Some (Token_File l s)"
  by (auto simp: fetch_file_def Let_def mirror_error_note_def update_conv' split: option.splits if_splits)

text \<open>Without a new failure the file is there afterwards.\<close>

lemma fetch_file_there:
  assumes "download_failures (pass_stats (fetch_file an it dest pa)) = download_failures (pass_stats pa)"
  shows "map_of (tree_of (fetch_file an it dest pa)) dest \<noteq> None"
proof (cases "is_local_current an (tree_of pa) dest (an_time an (gi_modified it)) (gi_size it)")
  case True
  then have "map_of (tree_of pa) dest \<noteq> None" by (auto simp: is_local_current_def split: option.splits)
  then show ?thesis using True by (simp add: fetch_file_def Let_def)
next
  case False
  then show ?thesis using assms
    by (auto simp: fetch_file_def Let_def mirror_error_note_def update_conv' split: option.splits if_splits)
qed

text \<open>What every step of a walk or of a delta without deletions does to a pass.\<close>

definition advances_pass :: "pass \<Rightarrow> pass \<Rightarrow> bool" where
  "advances_pass pa pa' \<longleftrightarrow> keeps_kinds (tree_of pa) (tree_of pa')
     \<and> download_failures (pass_stats pa) \<le> download_failures (pass_stats pa')
     \<and> (List_Failed \<in> set (errors_of pa') \<longleftrightarrow> List_Failed \<in> set (errors_of pa))
     \<and> (\<forall>l s. map_of (tree_of pa') token_path = Some (Token_File l s) \<longrightarrow> map_of (tree_of pa) token_path = Some (Token_File l s))"

lemma advances_pass_refl [simp]: "advances_pass pa pa"
  by (simp add: advances_pass_def)

lemma advances_pass_trans: "advances_pass pa pb \<Longrightarrow> advances_pass pb pc \<Longrightarrow> advances_pass pa pc"
  unfolding advances_pass_def by (elim conjE) (intro conjI, erule (1) keeps_kinds_trans, simp_all)

lemma advances_passI:
  assumes "keeps_kinds (tree_of pa) (tree_of pa')" and "pass_stats pa' = pass_stats pa"
    and "\<And>l s. map_of (tree_of pa') token_path = Some (Token_File l s) \<Longrightarrow> map_of (tree_of pa) token_path = Some (Token_File l s)"
  shows "advances_pass pa pa'"
  using assms by (auto simp: advances_pass_def)

lemma advances_make_dirs:
  assumes "make_dirs p (tree_of pa) = Some t" shows "advances_pass pa (set_tree t pa)"
proof -
  have token: "map_of (tree_of pa) token_path = Some (Token_File l s)" if new: "map_of t token_path = Some (Token_File l s)" for l s
  proof (cases "map_of (tree_of pa) token_path")
    case None
    then show ?thesis using new make_dirs_lookup [OF assms, of token_path] by (simp split: if_splits)
  next
    case (Some n)
    then show ?thesis using new make_dirs_lookup [OF assms, of token_path] by simp
  qed
  show ?thesis
  proof (rule advances_passI)
    show "keeps_kinds (tree_of pa) (tree_of (set_tree t pa))" unfolding pass_simps by (rule make_dirs_keeps [OF assms])
    fix l s assume "map_of (tree_of (set_tree t pa)) token_path = Some (Token_File l s)"
    then show "map_of (tree_of pa) token_path = Some (Token_File l s)" unfolding pass_simps by (rule token)
  qed simp
qed

lemma advances_fetch: "advances_pass pa (fetch_file an it dest pa)"
  unfolding advances_pass_def by (intro conjI allI impI fetch_file_keeps fetch_file_facts(3,4)) (erule fetch_file_facts(5))

definition quiet_record :: "(pass \<Rightarrow> pass) \<Rightarrow> bool" where
  "quiet_record f \<longleftrightarrow> (\<forall>pa. tree_of (f pa) = tree_of pa \<and> pass_stats (f pa) = pass_stats pa)"

lemma quiet_advances: "quiet_record f \<Longrightarrow> advances_pass pa (f pa)"
  by (simp add: quiet_record_def advances_pass_def)

lemma quiet_records [simp]: "quiet_record (walk_record cfg it rel)" "quiet_record (delta_record cfg it r)"
  by (auto simp: quiet_record_def walk_record_def delta_record_def split: option.splits)

text \<open>The files a pass mirrors.\<close>

definition mirrored :: "mirror_cfg \<Rightarrow> graph_item \<Rightarrow> local_path \<Rightarrow> bool" where
  "mirrored cfg it dest \<longleftrightarrow> in_extension_scope cfg it \<and> \<not> too_large cfg it \<and> within_root dest \<and> \<not> is_control_dest cfg dest"

lemma note_advances:
  "(\<And>s. download_failures (f s) = download_failures s \<and> mirror_errors (f s) = mirror_errors s) \<Longrightarrow> advances_pass pa (note_stats f pa)"
  by (simp add: advances_pass_def)

lemma mirror_file_outcome:
  assumes "mirror_file cfg an it dest f pa = (stop, pa')"
  obtains (skipped) g where "\<not> mirrored cfg it dest" "stop = None" "pa' = note_stats g pa"
      "\<And>s. download_failures (g s) = download_failures s \<and> mirror_errors (g s) = mirror_errors s"
    | (raised) "mirrored cfg it dest" "stop = Some Os_Raised" "pa' = pa"
    | (fetched) t where "mirrored cfg it dest" "stop = None" "make_dirs (butlast dest) (tree_of pa) = Some t"
      "pa' = fetch_file an it dest (f (set_tree t pa))"
proof (cases "mirrored cfg it dest")
  case False
  have "pa' = note_stats (\<lambda>s. s) pa \<or> pa' = note_stats (\<lambda>s. s\<lparr>skipped_extension := skipped_extension s + 1\<rparr>) pa
      \<or> pa' = note_stats (\<lambda>s. s\<lparr>skipped_oversize := skipped_oversize s + 1\<rparr>) pa
      \<or> pa' = note_stats (\<lambda>s. s\<lparr>skipped_control := skipped_control s + 1\<rparr>) pa" and "stop = None"
    using False assms by (auto simp: mirror_file_def mirrored_def note_stats_def split: if_splits)
  then show ?thesis using False skipped by (elim disjE) (auto intro: skipped)
next
  case True
  then show ?thesis using assms raised fetched by (auto simp: mirror_file_def mirrored_def split: option.splits)
qed

lemma fetched_advances:
  "make_dirs p (tree_of pa) = Some t \<Longrightarrow> quiet_record f \<Longrightarrow> advances_pass pa (fetch_file an it dest (f (set_tree t pa)))"
  using advances_make_dirs quiet_advances advances_fetch advances_pass_trans by meson

lemma mirror_file_advances:
  assumes "mirror_file cfg an it dest f pa = (stop, pa')" and "quiet_record f" shows "advances_pass pa pa'"
  using assms(1)
proof (cases rule: mirror_file_outcome)
  case (skipped g)
  then show ?thesis by (simp add: note_advances)
next
  case raised
  then show ?thesis by simp
next
  case (fetched t)
  then show ?thesis using fetched_advances assms(2) by simp
qed

section \<open>The walk sees the tree\<close>

text \<open>The files in scope and the folders of a remote tree.\<close>

fun remote_files :: "mirror_cfg \<Rightarrow> local_path \<Rightarrow> remote list \<Rightarrow> local_path list" where
  "remote_files cfg d [] = []"
| "remote_files cfg d (Remote it kids kids_fail # rest) =
     (let rel = d @ [safe_name (gi_name it)]
      in if safe_name (gi_name it) = [] then []
         else if gi_folder it then (if within_root rel then remote_files cfg rel kids else [])
         else if gi_file it \<and> mirrored cfg it rel then [rel] else []) @ remote_files cfg d rest"

fun remote_dirs :: "local_path \<Rightarrow> remote list \<Rightarrow> local_path list" where
  "remote_dirs d [] = []"
| "remote_dirs d (Remote it kids kids_fail # rest) =
     (let rel = d @ [safe_name (gi_name it)]
      in if safe_name (gi_name it) \<noteq> [] \<and> gi_folder it \<and> within_root rel then rel # remote_dirs rel kids else []) @ remote_dirs d rest"

text \<open>The cases of one item of a listing.\<close>

lemma walk_item_cases:
  assumes "walk_remote cfg an d (Remote it kids kids_fail # rest) fails pa0 = (stop, pa')"
  defines "rel \<equiv> d @ [safe_name (gi_name it)]"
  obtains (skip) pa where "advances_pass pa0 pa" "pass_remote pa = pass_remote pa0" "walk_remote cfg an d rest fails pa = (stop, pa')"
      "remote_files cfg d (Remote it kids kids_fail # rest) = remote_files cfg d rest" "remote_dirs d (Remote it kids kids_fail # rest) = remote_dirs d rest"
    | (raised) "stop = Some Os_Raised" "advances_pass pa0 pa'"
    | (folder) pa stop1 pb where "advances_pass pa0 pa" "pass_remote pa = pass_remote pa0 @ [rel]" "map_of (tree_of pa) rel = Some Local_Dir"
      "walk_remote cfg an rel kids kids_fail pa = (stop1, pb)"
      "if stop1 = None then walk_remote cfg an d rest fails pb = (stop, pa') else stop = stop1 \<and> pa' = pb"
      "remote_files cfg d (Remote it kids kids_fail # rest) = remote_files cfg rel kids @ remote_files cfg d rest"
      "remote_dirs d (Remote it kids kids_fail # rest) = rel # remote_dirs rel kids @ remote_dirs d rest"
      "safe_name (gi_name it) \<noteq> [] \<and> gi_folder it \<and> within_root rel"
    | (fetch) pa pb where "advances_pass pa0 pa" "pb = fetch_file an it rel pa" "pass_remote pa = pass_remote pa0 @ [rel]"
      "walk_remote cfg an d rest fails pb = (stop, pa')"
      "remote_files cfg d (Remote it kids kids_fail # rest) = rel # remote_files cfg d rest" "remote_dirs d (Remote it kids kids_fail # rest) = remote_dirs d rest"
proof -
  define pa where "pa = note_stats (\<lambda>s. s\<lparr>items_seen := items_seen s + 1\<rparr>) pa0"
  define pa1 where "pa1 = note_stats (\<lambda>s. s\<lparr>folders_seen := folders_seen s + 1\<rparr>) pa"
  have a: "advances_pass pa0 pa" "pass_remote pa = pass_remote pa0" by (simp_all add: pa_def note_advances)
  have b: "advances_pass pa0 pa1" "pass_remote pa1 = pass_remote pa0"
    using advances_pass_trans [OF a(1)] by (simp_all add: pa1_def note_advances pa_def)
  note eq = assms(1) [unfolded walk_remote.simps Let_def, folded pa_def pa1_def rel_def]
  have dirs: "remote_dirs d (Remote it kids kids_fail # rest)
      = (if safe_name (gi_name it) \<noteq> [] \<and> gi_folder it \<and> within_root rel then rel # remote_dirs rel kids else []) @ remote_dirs d rest"
    by (simp add: rel_def Let_def)
  have files: "remote_files cfg d (Remote it kids kids_fail # rest)
      = (if safe_name (gi_name it) = [] then []
         else if gi_folder it then (if within_root rel then remote_files cfg rel kids else [])
         else if gi_file it \<and> mirrored cfg it rel then [rel] else []) @ remote_files cfg d rest"
    by (simp add: rel_def Let_def)
  show ?thesis
  proof (cases "safe_name (gi_name it) = [] \<or> \<not> gi_folder it \<and> \<not> gi_file it")
    case True
    then show ?thesis using eq skip [OF a] by (auto simp: files dirs simp del: remote_files.simps remote_dirs.simps split: if_splits)
  next
    case named: False
    show ?thesis
    proof (cases "gi_folder it")
      case True
      show ?thesis
      proof (cases "within_root rel")
        case False
        then show ?thesis using eq named True skip [OF b] by (auto simp: files dirs simp del: remote_files.simps remote_dirs.simps)
      next
        case inside: True
        show ?thesis
        proof (cases "make_dirs rel (tree_of pa1)")
          case None
          then show ?thesis using eq named True inside raised b(1) by auto
        next
          case (Some t)
          define pc where "pc = (set_tree t pa1)\<lparr>pass_remote := pass_remote pa1 @ [rel]\<rparr>"
          have "advances_pass pa1 pc" using advances_make_dirs [OF Some] by (simp add: pc_def advances_pass_def)
          then have c: "advances_pass pa0 pc" using advances_pass_trans b(1) by blast
          have d: "pass_remote pc = pass_remote pa0 @ [rel]" "map_of (tree_of pc) rel = Some Local_Dir"
            using b(2) make_dirs_makes [OF Some] by (simp_all add: pc_def rel_def)
          obtain stop1 pb where kids: "walk_remote cfg an rel kids kids_fail pc = (stop1, pb)" by (metis prod.exhaust)
          have "if stop1 = None then walk_remote cfg an d rest fails pb = (stop, pa') else stop = stop1 \<and> pa' = pb"
            using eq named True inside Some kids by (auto simp: pc_def split: option.splits)
          then show ?thesis using folder [OF c d kids] named True inside by (simp add: files dirs del: remote_files.simps remote_dirs.simps)
        qed
      qed
    next
      case False
      obtain stop1 pb where m: "mirror_file cfg an it rel (walk_record cfg it rel) pa = (stop1, pb)" by (metis prod.exhaust)
      have next1: "if stop1 = None then walk_remote cfg an d rest fails pb = (stop, pa') else stop = stop1 \<and> pa' = pb"
        using eq named False m by (auto split: option.splits)
      from m show ?thesis
      proof (cases rule: mirror_file_outcome)
        case (skipped g)
        then have "advances_pass pa0 pb" "pass_remote pb = pass_remote pa0" using advances_pass_trans [OF a(1)] note_advances a(2) by simp_all
        then show ?thesis using skip [of pb] next1 skipped named False by (simp add: files dirs del: remote_files.simps remote_dirs.simps)
      next
        case raised
        then show ?thesis using that(2) next1 a(1) by simp
      next
        case (fetched t)
        define pc where "pc = walk_record cfg it rel (set_tree t pa)"
        have "advances_pass pa0 pc"
          unfolding pc_def using a(1) advances_make_dirs [OF fetched(3)] quiet_advances [OF quiet_records(1)] advances_pass_trans by meson
        then show ?thesis using fetch [of pc pb] next1 fetched named False a(2) by (simp add: files dirs pc_def walk_record_def del: remote_files.simps remote_dirs.simps)
      qed
    qed
  qed
qed

lemma walk_advances: "walk_remote cfg an d rs fails pa = (stop, pa') \<Longrightarrow> advances_pass pa pa'"
proof (induction d rs arbitrary: fails pa stop pa' rule: remote_dirs.induct)
  case (1 d)
  then show ?case by auto
next
  case (2 d it kids kids_fail rest)
  from 2(3) show ?case
  proof (cases rule: walk_item_cases)
    case (skip pb)
    then show ?thesis using 2(2) advances_pass_trans by blast
  next
    case raised
    then show ?thesis by simp
  next
    case (folder pb stop1 pc)
    have "advances_pass pb pc" using 2(1) [OF refl folder(8)] folder(4) by blast
    then show ?thesis using 2(2) folder(1,5) advances_pass_trans by (metis (full_types))
  next
    case (fetch pb pc)
    then have "advances_pass pc pa'" "advances_pass pb pc" using 2(2) advances_fetch by auto
    then show ?thesis using fetch(1) advances_pass_trans by blast
  qed
qed

text \<open>A walk that is not stopped has seen every listing to its end; its folders are there, and without a new failure its files.\<close>

lemma keeps_there: "keeps_kinds t t' \<Longrightarrow> map_of t p \<noteq> None \<Longrightarrow> map_of t' p \<noteq> None"
  by (cases "map_of t p"; cases "the (map_of t p)") (auto simp: keeps_kinds_def is_local_file_def split: option.splits local_node.splits, (metis option.distinct(1) option.exhaust)+)

definition walk_saw :: "mirror_cfg \<Rightarrow> local_path \<Rightarrow> remote list \<Rightarrow> pass \<Rightarrow> pass \<Rightarrow> bool" where
  "walk_saw cfg d rs pa pa' \<longleftrightarrow> set (pass_remote pa') = set (pass_remote pa) \<union> set (remote_files cfg d rs) \<union> set (remote_dirs d rs)
     \<and> (\<forall>p \<in> set (remote_dirs d rs). map_of (tree_of pa') p = Some Local_Dir)
     \<and> (download_failures (pass_stats pa') = download_failures (pass_stats pa) \<longrightarrow> (\<forall>p \<in> set (remote_files cfg d rs). map_of (tree_of pa') p \<noteq> None))"

lemma advances_facts:
  assumes "advances_pass pa pa'"
  shows "map_of (tree_of pa) p = Some Local_Dir \<Longrightarrow> map_of (tree_of pa') p = Some Local_Dir"
    "map_of (tree_of pa) p \<noteq> None \<Longrightarrow> map_of (tree_of pa') p \<noteq> None"
    "is_local_file (tree_of pa) p \<Longrightarrow> is_local_file (tree_of pa') p"
    "download_failures (pass_stats pa) \<le> download_failures (pass_stats pa')"
    "List_Failed \<in> set (errors_of pa') \<longleftrightarrow> List_Failed \<in> set (errors_of pa)"
  using assms keeps_there by (simp_all add: advances_pass_def keeps_kinds_def) blast

lemma walk_sees: "walk_remote cfg an d rs fails pa = (None, pa') \<Longrightarrow> \<not> fails \<and> walk_saw cfg d rs pa pa'"
proof (induction d rs arbitrary: fails pa pa' rule: remote_dirs.induct)
  case (1 d)
  then show ?case by (auto simp: walk_saw_def split: if_splits)
next
  case (2 d it kids kids_fail rest)
  from 2(3) show ?case
  proof (cases rule: walk_item_cases)
    case (skip pb)
    then have r: "\<not> fails" "walk_saw cfg d rest pb pa'" "advances_pass pb pa'" using 2(2) walk_advances by blast+
    have "download_failures (pass_stats pa') = download_failures (pass_stats pa) \<Longrightarrow> download_failures (pass_stats pa') = download_failures (pass_stats pb)"
      using advances_facts(4) [OF skip(1)] advances_facts(4) [OF r(3)] by simp
    then show ?thesis using r skip(2,4,5) unfolding walk_saw_def by simp
  next
    case raised
    then show ?thesis by simp
  next
    case (folder pb stop1 pc)
    have s: "stop1 = None" and w: "walk_remote cfg an d rest fails pc = (None, pa')" using folder(5) by (auto split: if_splits)
    let ?rel = "d @ [safe_name (gi_name it)]"
    have k: "walk_saw cfg ?rel kids pb pc" using 2(1) [OF refl folder(8)] folder(4) s by blast
    have r: "\<not> fails" "walk_saw cfg d rest pc pa'" using 2(2) w by blast+
    have adv: "advances_pass pb pc" "advances_pass pc pa'" using walk_advances folder(4) w s by blast+
    have same: "download_failures (pass_stats pa') = download_failures (pass_stats pa)
      \<Longrightarrow> download_failures (pass_stats pa') = download_failures (pass_stats pc) \<and> download_failures (pass_stats pc) = download_failures (pass_stats pb)"
      using advances_facts(4) [OF folder(1)] advances_facts(4) [OF adv(1)] advances_facts(4) [OF adv(2)] by simp
    have "map_of (tree_of pa') ?rel = Some Local_Dir" using folder(3) adv advances_facts(1) by blast
    moreover have "map_of (tree_of pa') p = Some Local_Dir" if "p \<in> set (remote_dirs ?rel kids)" for p
      using k that advances_facts(1) [OF adv(2)] by (simp add: walk_saw_def)
    moreover have "map_of (tree_of pa') p \<noteq> None"
      if "p \<in> set (remote_files cfg ?rel kids)" "download_failures (pass_stats pc) = download_failures (pass_stats pb)" for p
      using k that advances_facts(2) [OF adv(2)] unfolding walk_saw_def by blast
    ultimately show ?thesis using r k same folder(2,6,7) unfolding walk_saw_def by (auto simp del: remote_files.simps remote_dirs.simps)
  next
    case (fetch pb pc)
    have r: "\<not> fails" "walk_saw cfg d rest pc pa'" using 2(2) fetch(4) by blast+
    have adv: "advances_pass pb pc" "advances_pass pc pa'" using walk_advances fetch(2,4) advances_fetch by blast+
    have same: "download_failures (pass_stats pa') = download_failures (pass_stats pa)
      \<Longrightarrow> download_failures (pass_stats pa') = download_failures (pass_stats pc) \<and> download_failures (pass_stats pc) = download_failures (pass_stats pb)"
      using advances_facts(4) [OF fetch(1)] advances_facts(4) [OF adv(1)] advances_facts(4) [OF adv(2)] by simp
    have "map_of (tree_of pa') (d @ [safe_name (gi_name it)]) \<noteq> None" if "download_failures (pass_stats pc) = download_failures (pass_stats pb)"
      using fetch_file_there that fetch(2) advances_facts(2) [OF adv(2)] by blast
    moreover have "pass_remote pc = pass_remote pa @ [d @ [safe_name (gi_name it)]]" using fetch(2,3) fetch_file_facts(1) by simp
    ultimately show ?thesis using r same fetch(5,6) unfolding walk_saw_def by (auto simp del: remote_files.simps remote_dirs.simps)
  qed
qed

section \<open>What a pass removes\<close>

lemma is_local_file_delete: "is_local_file (AList.delete q t) p \<longleftrightarrow> p \<noteq> q \<and> is_local_file t p"
  by (simp add: is_local_file_def delete_conv')

lemma is_local_file_key: "is_local_file t p \<Longrightarrow> p \<in> set (map fst t)"
  by (auto simp: is_local_file_def dest: map_of_SomeD split: option.splits intro: rev_image_eqI)

lemma prune_path_facts:
  "is_local_file (tree_of (prune_path an seen q pa)) p \<longleftrightarrow> is_local_file (tree_of pa) p \<and> \<not> (p = q \<and> q \<notin> set seen \<and> an_unlink an q)"
  "p \<in> set seen \<Longrightarrow> map_of (tree_of (prune_path an seen q pa)) p = map_of (tree_of pa) p"
  "download_failures (pass_stats (prune_path an seen q pa)) = download_failures (pass_stats pa)"
  "List_Failed \<in> set (errors_of (prune_path an seen q pa)) \<longleftrightarrow> List_Failed \<in> set (errors_of pa)"
  "map_of (tree_of (prune_path an seen q pa)) k = Some n \<Longrightarrow> map_of (tree_of pa) k = Some n"
  "pass_remote (prune_path an seen q pa) = pass_remote pa"
proof -
  have dir: "map_of (tree_of pa) q = Some Local_Dir \<Longrightarrow> \<not> is_local_file (tree_of pa) q" by (simp add: is_local_file_def)
  show "is_local_file (tree_of (prune_path an seen q pa)) p \<longleftrightarrow> is_local_file (tree_of pa) p \<and> \<not> (p = q \<and> q \<notin> set seen \<and> an_unlink an q)"
    using dir by (auto simp: prune_path_def Let_def is_local_file_delete)
qed (auto simp: prune_path_def Let_def mirror_error_note_def delete_conv' split: if_splits)

lemma prune_fold_facts:
  "is_local_file (tree_of (fold (prune_path an seen) qs pa)) p \<longleftrightarrow> is_local_file (tree_of pa) p \<and> \<not> (p \<in> set qs \<and> p \<notin> set seen \<and> an_unlink an p)"
  "p \<in> set seen \<Longrightarrow> map_of (tree_of (fold (prune_path an seen) qs pa)) p = map_of (tree_of pa) p"
  "download_failures (pass_stats (fold (prune_path an seen) qs pa)) = download_failures (pass_stats pa)"
  "List_Failed \<in> set (errors_of (fold (prune_path an seen) qs pa)) \<longleftrightarrow> List_Failed \<in> set (errors_of pa)"
  "map_of (tree_of (fold (prune_path an seen) qs pa)) k = Some n \<Longrightarrow> map_of (tree_of pa) k = Some n"
proof -
  show "is_local_file (tree_of (fold (prune_path an seen) qs pa)) p \<longleftrightarrow> is_local_file (tree_of pa) p \<and> \<not> (p \<in> set qs \<and> p \<notin> set seen \<and> an_unlink an p)"
    by (induction qs arbitrary: pa) (auto simp: prune_path_facts(1))
  show "p \<in> set seen \<Longrightarrow> map_of (tree_of (fold (prune_path an seen) qs pa)) p = map_of (tree_of pa) p"
    by (induction qs arbitrary: pa) (simp_all add: prune_path_facts(2))
  show "download_failures (pass_stats (fold (prune_path an seen) qs pa)) = download_failures (pass_stats pa)"
    by (induction qs arbitrary: pa) (simp_all add: prune_path_facts(3))
  show "List_Failed \<in> set (errors_of (fold (prune_path an seen) qs pa)) \<longleftrightarrow> List_Failed \<in> set (errors_of pa)"
    by (induction qs arbitrary: pa) (simp_all add: prune_path_facts(4))
  show "map_of (tree_of (fold (prune_path an seen) qs pa)) k = Some n \<Longrightarrow> map_of (tree_of pa) k = Some n"
  proof (induction qs arbitrary: pa)
    case (Cons q qs)
    then have "map_of (tree_of (prune_path an seen q pa)) k = Some n" by simp
    then show ?case by (rule prune_path_facts(5))
  qed simp
qed

lemma prune_keeps_seen:
  "is_local_file (tree_of (prune_local_only an seen pa)) p \<longleftrightarrow> is_local_file (tree_of pa) p \<and> (p \<in> set seen \<or> \<not> an_unlink an p)"
  using is_local_file_key [of "tree_of pa" p] by (auto simp: prune_local_only_def prune_fold_facts(1))

lemma write_enrichment_facts:
  "is_local_file (tree_of pa) p \<Longrightarrow> is_local_file (tree_of (write_enrichment cfg an rows pa)) p"
  "is_local_file (tree_of (write_enrichment cfg an rows pa)) p \<Longrightarrow> mc_snapshot cfg \<noteq> Snapshot_Inside p \<Longrightarrow> is_local_file (tree_of pa) p"
  "map_of (tree_of pa) p \<noteq> None \<Longrightarrow> map_of (tree_of (write_enrichment cfg an rows pa)) p \<noteq> None"
  "map_of (tree_of (write_enrichment cfg an rows pa)) p = Some (Token_File l s) \<Longrightarrow> map_of (tree_of pa) p = Some (Token_File l s)"
  "List_Failed \<in> set (errors_of (write_enrichment cfg an rows pa)) \<longleftrightarrow> List_Failed \<in> set (errors_of pa)"
  "download_failures (pass_stats (write_enrichment cfg an rows pa)) = download_failures (pass_stats pa)"
  "ms_enrichment (pass_state (write_enrichment cfg an rows pa)) = ms_enrichment (pass_state pa)"
  by (auto simp: write_enrichment_def Let_def is_local_file_def update_conv' mirror_error_note_def split: snapshot_place.splits if_splits)

lemma finish_walk_facts:
  "is_local_file (tree_of pa) p \<Longrightarrow> is_local_file (tree_of (finish_walk cfg an pa)) p"
  "is_local_file (tree_of (finish_walk cfg an pa)) p \<Longrightarrow> mc_snapshot cfg \<noteq> Snapshot_Inside p \<Longrightarrow> is_local_file (tree_of pa) p"
  "map_of (tree_of pa) p \<noteq> None \<Longrightarrow> map_of (tree_of (finish_walk cfg an pa)) p \<noteq> None"
  "map_of (tree_of (finish_walk cfg an pa)) p = Some (Token_File l s) \<Longrightarrow> map_of (tree_of pa) p = Some (Token_File l s)"
  "List_Failed \<in> set (errors_of (finish_walk cfg an pa)) \<longleftrightarrow> List_Failed \<in> set (errors_of pa)"
  "download_failures (pass_stats (finish_walk cfg an pa)) = download_failures (pass_stats pa)"
proof -
  define pb where "pb = pa\<lparr>pass_state := (pass_state pa)\<lparr>ms_enrichment := fold (\<lambda>r. AList.update (er_doc_id r) r) (pass_rows pa) []\<rparr>\<rparr>"
  have eq: "finish_walk cfg an pa = (if mc_snapshot cfg = No_Snapshot \<or> pass_rows pa = [] then pa else write_enrichment cfg an (pass_rows pa) pb)"
    by (simp add: finish_walk_def pb_def)
  have pb: "tree_of pb = tree_of pa" "pass_stats pb = pass_stats pa" by (simp_all add: pb_def)
  note w = write_enrichment_facts [where pa = pb and cfg = cfg and an = an and rows = "pass_rows pa", unfolded pb]
  show "is_local_file (tree_of pa) p \<Longrightarrow> is_local_file (tree_of (finish_walk cfg an pa)) p" using w(1) by (simp add: eq)
  show "is_local_file (tree_of (finish_walk cfg an pa)) p \<Longrightarrow> mc_snapshot cfg \<noteq> Snapshot_Inside p \<Longrightarrow> is_local_file (tree_of pa) p"
    using w(2) by (simp add: eq split: if_splits)
  show "map_of (tree_of pa) p \<noteq> None \<Longrightarrow> map_of (tree_of (finish_walk cfg an pa)) p \<noteq> None" using w(3) by (simp add: eq)
  show "map_of (tree_of (finish_walk cfg an pa)) p = Some (Token_File l s) \<Longrightarrow> map_of (tree_of pa) p = Some (Token_File l s)"
    using w(4) by (simp add: eq split: if_splits)
  show "List_Failed \<in> set (errors_of (finish_walk cfg an pa)) \<longleftrightarrow> List_Failed \<in> set (errors_of pa)" using w(5) by (simp add: eq)
  show "download_failures (pass_stats (finish_walk cfg an pa)) = download_failures (pass_stats pa)" using w(6) by (simp add: eq)
qed

section \<open>What a delta does to the tree\<close>

definition deleted_by :: "mirror_cfg \<Rightarrow> graph_item list \<Rightarrow> local_path \<Rightarrow> bool" where
  "deleted_by cfg its p \<longleftrightarrow> list_ex (\<lambda>it. gi_deleted it \<and>
     (case rel_path_for_delta_item cfg it of None \<Rightarrow> False | Some r \<Rightarrow> r \<noteq> [] \<and> under (path_parts r) p)) its"

text \<open>A delta removes what a deleted item names, writes no cursor and notes no listing failure.\<close>

definition delta_effect :: "mirror_cfg \<Rightarrow> graph_item list \<Rightarrow> pass \<Rightarrow> pass \<Rightarrow> bool" where
  "delta_effect cfg its pa pa' \<longleftrightarrow> (\<forall>p. is_local_file (tree_of pa) p \<longrightarrow> is_local_file (tree_of pa') p \<or> deleted_by cfg its p)
     \<and> (List_Failed \<in> set (errors_of pa') \<longleftrightarrow> List_Failed \<in> set (errors_of pa))
     \<and> (\<forall>l s. map_of (tree_of pa') token_path = Some (Token_File l s) \<longrightarrow> map_of (tree_of pa) token_path = Some (Token_File l s))"

lemma advances_delta_effect: "advances_pass pa pa' \<Longrightarrow> delta_effect cfg its pa pa'"
  unfolding delta_effect_def advances_pass_def keeps_kinds_def by blast

lemma delta_effect_trans:
  assumes "delta_effect cfg its pa pb" and "delta_effect cfg its' pb pc" shows "delta_effect cfg (its @ its') pa pc"
  using assms unfolding delta_effect_def deleted_by_def list_ex_append by blast

lemma map_of_filter_under: "map_of (filter (\<lambda>(q, _). \<not> under p q) t) k = (if under p k then None else map_of t k)"
  by (induction t) auto

lemma under_self [simp]: "under p p"
  by (simp add: under_def)

lemma delta_delete_effect:
  assumes "gi_deleted it" and "rel_path_for_delta_item cfg it = Some r"
  shows "delta_effect cfg [it] pa (apply_delta_delete cfg an r pa)"
proof -
  let ?p = "path_parts r" and ?pa = "apply_delta_delete cfg an r pa"
  have stats: "List_Failed \<in> set (errors_of ?pa) \<longleftrightarrow> List_Failed \<in> set (errors_of pa)"
    by (simp add: apply_delta_delete_def Let_def mirror_error_note_def)
  have looks: "map_of (tree_of ?pa) k = map_of (tree_of pa) k \<or> r \<noteq> [] \<and> under ?p k \<and> map_of (tree_of ?pa) k = None" for k
    by (simp add: apply_delta_delete_def Let_def delete_conv' map_of_filter_under)
  have "is_local_file (tree_of ?pa) p \<or> deleted_by cfg [it] p" if "is_local_file (tree_of pa) p" for p
    using looks [of p] that assms by (auto simp: is_local_file_def deleted_by_def)
  moreover have "map_of (tree_of pa) token_path = Some (Token_File l s)" if "map_of (tree_of ?pa) token_path = Some (Token_File l s)" for l s
    using looks [of token_path] that by auto
  ultimately show ?thesis using stats unfolding delta_effect_def by blast
qed

lemma delta_item_effect:
  assumes "process_delta_item cfg an it pa0 = (stop, pa')" shows "delta_effect cfg [it] pa0 pa'"
proof -
  define pa where "pa = note_stats (\<lambda>s. s\<lparr>items_seen := items_seen s + 1\<rparr>) pa0"
  define pa1 where "pa1 = note_stats (\<lambda>s. s\<lparr>folders_seen := folders_seen s + 1\<rparr>) pa"
  have a: "advances_pass pa0 pa" by (simp add: pa_def note_advances)
  have b: "advances_pass pa0 pa1" by (rule advances_pass_trans [OF a]) (simp add: pa1_def note_advances)
  note eq = assms [unfolded process_delta_item_def Let_def, folded pa_def pa1_def]
  show ?thesis
  proof (cases "rel_path_for_delta_item cfg it")
    case None
    then show ?thesis using eq advances_delta_effect [OF a] by simp
  next
    case rel: (Some r)
    show ?thesis
    proof (cases "gi_deleted it")
      case True
      then have "pa' = apply_delta_delete cfg an r pa" using eq rel by simp
      then show ?thesis using delta_effect_trans [OF advances_delta_effect [OF a] delta_delete_effect [OF True rel], where its = "[]"] by simp
    next
      case kept: False
      have "advances_pass pa0 pa'"
      proof (cases "gi_folder it")
        case True
        then have "pa' = pa1 \<or> (\<exists>t. make_dirs (path_parts r) (tree_of pa1) = Some t \<and> pa' = set_tree t pa1)"
          using eq rel kept by (auto split: option.splits if_splits)
        then show ?thesis using b advances_make_dirs advances_pass_trans by blast
      next
        case False
        then have "pa' = pa \<or> mirror_file cfg an it (path_parts r) (delta_record cfg it r) pa = (stop, pa')"
          using eq rel kept by (auto split: if_splits)
        then show ?thesis using a mirror_file_advances quiet_records(2) advances_pass_trans by blast
      qed
      then show ?thesis by (rule advances_delta_effect)
    qed
  qed
qed

lemma delta_items_effect: "process_delta_items cfg an its pa = (stop, pa') \<Longrightarrow> delta_effect cfg its pa pa'"
proof (induction its arbitrary: pa)
  case Nil
  then show ?case by (simp add: advances_delta_effect)
next
  case (Cons it its)
  obtain stop1 pb where first: "process_delta_item cfg an it pa = (stop1, pb)" by (metis prod.exhaust)
  note eff = delta_item_effect [OF first]
  show ?case
  proof (cases stop1)
    case None
    then have "delta_effect cfg its pb pa'" using Cons first by simp
    then show ?thesis using delta_effect_trans [OF eff] by fastforce
  next
    case (Some reason)
    have "delta_effect cfg its pb pb" by (simp add: advances_delta_effect)
    then show ?thesis using Cons.prems first Some delta_effect_trans [OF eff] by fastforce
  qed
qed

lemma delta_loop_effect: "delta_loop cfg an pages link pa = ((stop, pa'), link') \<Longrightarrow> delta_effect cfg (concat (map fst pages)) pa pa'"
proof (induction pages arbitrary: pa link)
  case Nil
  then show ?case by (simp add: advances_delta_effect)
next
  case (Cons page pages)
  obtain its dl where page: "page = (its, dl)" by (metis prod.exhaust)
  obtain stop1 pb where first: "process_delta_items cfg an its pa = (stop1, pb)" by (metis prod.exhaust)
  note eff = delta_items_effect [OF first]
  show ?case
  proof (cases stop1)
    case None
    then have "delta_effect cfg (concat (map fst pages)) pb pa'" using Cons first page by (simp split: option.splits)
    then show ?thesis using delta_effect_trans [OF eff] page by simp
  next
    case (Some reason)
    have "delta_effect cfg (concat (map fst pages)) pb pb" by (simp add: advances_delta_effect)
    then show ?thesis using Cons.prems first Some page delta_effect_trans [OF eff] by simp
  qed
qed

text \<open>How a walk of the whole drive ends: it raised, a listing failed, or it saw everything and pruned.\<close>

lemma walk_pass_outcome:
  assumes "walk_pass cfg an pa = (ok, pa')"
  obtains (raised) "\<not> ok" "advances_pass pa pa'"
    | (part) pw where "ok" "advances_pass pa pw" "pa' = finish_walk cfg an (note_stats (mirror_error_note List_Failed) pw)"
    | (complete) pw where "ok" "walk_remote cfg an [] (an_listing an) (an_listing_fails an) pa = (None, pw)"
        "pa' = finish_walk cfg an (prune_local_only an (pass_remote pw) pw)"
proof -
  obtain stop pw where w: "walk_remote cfg an [] (an_listing an) (an_listing_fails an) pa = (stop, pw)" by (metis prod.exhaust)
  note adv = walk_advances [OF w]
  have res: "(ok, pa') = walk_pass cfg an pa" using assms by simp
  show ?thesis
  proof (cases stop)
    case None
    have "ok" and "pa' = finish_walk cfg an (prune_local_only an (pass_remote pw) pw)" using res w None by (simp_all add: walk_pass_def)
    then show ?thesis using w None by (intro complete) simp_all
  next
    case (Some reason)
    show ?thesis
    proof (cases reason)
      case Listing_Stopped
      have "ok" and "pa' = finish_walk cfg an (note_stats (mirror_error_note List_Failed) pw)"
        using res w Some Listing_Stopped by (simp_all add: walk_pass_def)
      then show ?thesis using adv by (intro part)
    next
      case Os_Raised
      have "\<not> ok" and "pa' = pw" using res w Some Os_Raised by (simp_all add: walk_pass_def)
      then show ?thesis using adv by (intro raised) simp_all
    qed
  qed
qed

section \<open>How a delta ends\<close>

lemma load_token_facts [simp]: "ms_tree (snd (load_delta_token m)) = ms_tree m"
  by (simp add: load_delta_token_def split: option.splits local_node.splits)

text \<open>A cursor is new only when every download worked; saving it removes no file.\<close>

lemma keep_cursor_facts:
  "is_local_file (tree_of pa) p \<Longrightarrow> is_local_file (tree_of (keep_cursor an link pa)) p"
  "List_Failed \<in> set (errors_of (keep_cursor an link pa)) \<longleftrightarrow> List_Failed \<in> set (errors_of pa)"
  "download_failures (pass_stats (keep_cursor an link pa)) = download_failures (pass_stats pa)"
  "map_of (tree_of (keep_cursor an link pa)) token_path = Some (Token_File l s)
    \<Longrightarrow> map_of (tree_of pa) token_path = Some (Token_File l s) \<or> download_failures (pass_stats pa) = 0 \<and> link = Some l"
  by (auto simp: keep_cursor_def save_delta_token_def mirror_error_note_def is_local_file_def update_conv' split: option.splits if_splits)

lemma run_delta_outcome:
  assumes "run_delta cfg an (start_pass m) = (result, pa')"
  defines "pages \<equiv> an_delta an (fst (load_delta_token m))"
  obtains (ran) pa link where "result = Delta_Ran" "snd pages = Delta_Done" "pa' = keep_cursor an link pa"
      "delta_effect cfg (concat (map fst (fst pages))) (start_pass m) pa"
    | (ended) "result \<noteq> Delta_Ran" "result = Delta_Rejected \<Longrightarrow> snd pages = Delta_Invalid"
      "delta_effect cfg (concat (map fst (fst pages))) (start_pass m) pa'"
proof -
  obtain saved m1 where load: "load_delta_token m = (saved, m1)" by (metis prod.exhaust)
  define pb where "pb = note_stats (\<lambda>s. s\<lparr>mirror_mode := (if saved = None then ''delta-initial'' else ''delta'')\<rparr>) ((start_pass m)\<lparr>pass_state := m1\<rparr>)"
  obtain stop pa link where loop: "delta_loop cfg an (fst pages) None pb = ((stop, pa), link)" by (metis prod.exhaust)
  have "tree_of pb = tree_of (start_pass m)" "errors_of pb = errors_of (start_pass m)"
    using load_token_facts [of m] load by (simp_all add: pb_def start_pass_def)
  then have eff: "delta_effect cfg (concat (map fst (fst pages))) (start_pass m) pa"
    using delta_loop_effect [OF loop] by (simp add: delta_effect_def)
  have res: "(result, pa') = (case (stop, snd pages) of (Some _, _) \<Rightarrow> (Delta_Raised, pa) | (None, Delta_Invalid) \<Rightarrow> (Delta_Rejected, pa)
      | (None, Delta_Failed) \<Rightarrow> (Delta_Broke, pa) | (None, Delta_Done) \<Rightarrow> (Delta_Ran, keep_cursor an link pa))"
    using assms(1) loop load
    by (simp add: run_delta_def Let_def start_pass_def pb_def pages_def split: option.splits delta_end.splits prod.splits)
  show ?thesis
  proof (cases "result = Delta_Ran")
    case True
    then have "snd pages = Delta_Done" "pa' = keep_cursor an link pa" using res by (auto split: option.splits delta_end.splits)
    then show ?thesis using ran True eff by blast
  next
    case False
    then have "pa' = pa" "result = Delta_Rejected \<Longrightarrow> snd pages = Delta_Invalid" using res by (auto split: option.splits delta_end.splits)
    then show ?thesis using ended False eff by blast
  qed
qed

text \<open>What a full walk removes: nothing, unless every listing was read; then only files the drive does not have.\<close>

lemma walk_pass_removes:
  assumes "walk_pass cfg an pa = (ok, pa')" and "is_local_file (tree_of pa) p" and "\<not> is_local_file (tree_of pa') p"
  shows "p \<notin> set (remote_files cfg [] (an_listing an)) \<and> \<not> an_listing_fails an
    \<and> (List_Failed \<in> set (errors_of pa') \<longleftrightarrow> List_Failed \<in> set (errors_of pa))"
  using assms(1)
proof (cases rule: walk_pass_outcome)
  case raised
  then show ?thesis using assms(2,3) advances_facts(3) by blast
next
  case (part pw)
  have "is_local_file (tree_of pw) p" using part(2) assms(2) advances_facts(3) by blast
  then have "is_local_file (tree_of pa') p" unfolding part(3) by (intro finish_walk_facts(1)) simp
  then show ?thesis using assms(3) by simp
next
  case (complete pw)
  let ?pr = "prune_local_only an (pass_remote pw) pw"
  have adv: "advances_pass pa pw" using walk_advances complete(2) by blast
  have saw: "\<not> an_listing_fails an \<and> walk_saw cfg [] (an_listing an) pa pw" using walk_sees [OF complete(2)] .
  have "is_local_file (tree_of pw) p" using adv assms(2) advances_facts(3) by blast
  moreover have "\<not> is_local_file (tree_of ?pr) p" using assms(3) finish_walk_facts(1) complete(3) by blast
  ultimately have "p \<notin> set (pass_remote pw)" by (simp add: prune_keeps_seen)
  then have "p \<notin> set (remote_files cfg [] (an_listing an))" using saw by (simp add: walk_saw_def)
  moreover have "List_Failed \<in> set (errors_of pa') \<longleftrightarrow> List_Failed \<in> set (errors_of pa)"
    using advances_facts(5) [OF adv] by (simp add: complete(3) finish_walk_facts(5) prune_local_only_def prune_fold_facts(4))
  ultimately show ?thesis using saw by blast
qed

lemma walk_pass_token:
  assumes "walk_pass cfg an pa = (ok, pa')" and "map_of (tree_of pa') token_path = Some (Token_File l s)"
  shows "map_of (tree_of pa) token_path = Some (Token_File l s)"
  using assms(1)
proof (cases rule: walk_pass_outcome)
  case raised
  then show ?thesis using assms(2) by (simp add: advances_pass_def)
next
  case (part pw)
  have "map_of (tree_of (note_stats (mirror_error_note List_Failed) pw)) token_path = Some (Token_File l s)"
    using assms(2) unfolding part(3) by (rule finish_walk_facts(4))
  then show ?thesis using part(2) by (simp add: advances_pass_def)
next
  case (complete pw)
  have "map_of (tree_of (prune_local_only an (pass_remote pw) pw)) token_path = Some (Token_File l s)"
    using assms(2) unfolding complete(3) by (rule finish_walk_facts(4))
  then have "map_of (tree_of pw) token_path = Some (Token_File l s)" unfolding prune_local_only_def by (rule prune_fold_facts(5))
  then show ?thesis using walk_advances [OF complete(2)] by (simp add: advances_pass_def)
qed

lemma walk_pass_complete:
  assumes "walk_pass cfg an pa = (True, pa')" and "List_Failed \<notin> set (errors_of pa')" and "an_unlink an = (\<lambda>_. True)" and "pass_remote pa = []"
  shows "is_local_file (tree_of pa') p \<Longrightarrow> mc_snapshot cfg \<noteq> Snapshot_Inside p \<Longrightarrow> p \<in> set (remote_files cfg [] (an_listing an))"
    and "download_failures (pass_stats pa') = download_failures (pass_stats pa) \<Longrightarrow> p \<in> set (remote_files cfg [] (an_listing an))
      \<Longrightarrow> map_of (tree_of pa') p \<noteq> None"
proof -
  have "\<exists>pw. walk_remote cfg an [] (an_listing an) (an_listing_fails an) pa = (None, pw)
      \<and> pa' = finish_walk cfg an (prune_local_only an (pass_remote pw) pw)"
    using assms(1)
  proof (cases rule: walk_pass_outcome)
    case (part pw)
    then show ?thesis using assms(2) by (simp add: finish_walk_facts(5) mirror_error_note_def)
  qed auto
  then obtain pw where run: "walk_remote cfg an [] (an_listing an) (an_listing_fails an) pa = (None, pw)"
      and pa': "pa' = finish_walk cfg an (prune_local_only an (pass_remote pw) pw)" by blast
  let ?pr = "prune_local_only an (pass_remote pw) pw"
  have saw: "walk_saw cfg [] (an_listing an) pa pw" using walk_sees [OF run] by simp
  have seen: "set (pass_remote pw) = set (remote_files cfg [] (an_listing an)) \<union> set (remote_dirs [] (an_listing an))"
    using saw assms(4) by (simp add: walk_saw_def)
  show "p \<in> set (remote_files cfg [] (an_listing an))" if "is_local_file (tree_of pa') p" "mc_snapshot cfg \<noteq> Snapshot_Inside p"
  proof -
    have "is_local_file (tree_of ?pr) p" using that pa' finish_walk_facts(2) by blast
    then have "is_local_file (tree_of pw) p \<and> p \<in> set (pass_remote pw)" by (simp add: prune_keeps_seen assms(3))
    moreover from this have "p \<notin> set (remote_dirs [] (an_listing an))" using saw by (auto simp: walk_saw_def is_local_file_def)
    ultimately show ?thesis using seen by blast
  qed
  show "map_of (tree_of pa') p \<noteq> None"
    if same: "download_failures (pass_stats pa') = download_failures (pass_stats pa)" and p: "p \<in> set (remote_files cfg [] (an_listing an))"
  proof -
    have "download_failures (pass_stats pw) = download_failures (pass_stats pa)"
      using same pa' by (simp add: finish_walk_facts(6) prune_local_only_def prune_fold_facts(3))
    then have "map_of (tree_of pw) p \<noteq> None" using saw p by (simp add: walk_saw_def)
    moreover have "p \<in> set (pass_remote pw)" using p seen by blast
    ultimately have "map_of (tree_of ?pr) p \<noteq> None" by (simp add: prune_local_only_def prune_fold_facts(2))
    then show ?thesis using pa' finish_walk_facts(3) by blast
  qed
qed

lemma remote_files_not_control: "p \<in> set (remote_files cfg d rs) \<Longrightarrow> \<not> is_control_dest cfg p"
  by (induction cfg d rs rule: remote_files.induct) (auto simp: Let_def mirrored_def split: if_splits)

lemma discard_token_facts:
  "is_local_file (ms_tree m) p \<Longrightarrow> is_local_file (ms_tree (discard_delta_token an m)) p \<or> p = token_path"
  "map_of (ms_tree (discard_delta_token an m)) q = Some n \<Longrightarrow> map_of (ms_tree m) q = Some n"
  by (auto simp: discard_delta_token_def is_local_file_delete delete_conv' split: if_splits)

text \<open>The ways a pass can go once the drive answered.\<close>

lemma mirror_once_outcome:
  assumes "mirror_once cfg an m = (ok, pa')" and "an_probe an"
  obtains (walk) "\<not> mc_use_delta cfg" "walk_pass cfg an (start_pass m) = (ok, pa')"
    | (raised) "mc_use_delta cfg" "\<not> ok" "run_delta cfg an (start_pass m) = (Delta_Raised, pa')"
    | (ran) pa rows where "mc_use_delta cfg" "ok" "run_delta cfg an (start_pass m) = (Delta_Ran, pa)"
        "pa' = pa \<or> pa' = write_enrichment cfg an rows pa"
    | (fallback) result pa f where "mc_use_delta cfg" "result \<noteq> Delta_Ran" "run_delta cfg an (start_pass m) = (result, pa)"
        "walk_pass cfg an (note_stats (\<lambda>s. s\<lparr>mirror_mode := ''delta-then-walk''\<rparr>) (pa\<lparr>pass_state := f (pass_state pa)\<rparr>)) = (ok, pa')"
        "f = (if result = Delta_Rejected then discard_delta_token an else id)" "result \<noteq> Delta_Raised"
proof (cases "mc_use_delta cfg")
  case False
  then show ?thesis using assms walk by (simp add: mirror_once_def)
next
  case True
  obtain result pa where run: "run_delta cfg an (start_pass m) = (result, pa)" by (metis prod.exhaust)
  note eq = assms(1) [unfolded mirror_once_def Let_def]
  show ?thesis
  proof (cases result)
    case Delta_Ran
    then have "ok" "pa' = pa \<or> pa' = write_enrichment cfg an (map snd (ms_enrichment (pass_state pa))) pa" using eq True assms(2) run by (auto split: if_splits)
    then show ?thesis using ran True run Delta_Ran by blast
  next
    case Delta_Rejected
    show ?thesis by (rule fallback [of Delta_Rejected pa "discard_delta_token an"]) (use eq True assms(2) run Delta_Rejected in simp_all)
  next
    case Delta_Broke
    show ?thesis by (rule fallback [of Delta_Broke pa id]) (use eq True assms(2) run Delta_Broke in simp_all)
  next
    case Delta_Raised
    then have "\<not> ok" "pa' = pa" using eq True assms(2) run by simp_all
    then show ?thesis using raised True run Delta_Raised by blast
  qed
qed

section \<open>What a pass promises\<close>


text \<open>
  (C14) A pass removes a local file only for a reason: a delta item says it or a folder above it was deleted, or it is the
  delta cursor and Graph rejected it, or every listing of the drive was read to its end and the file is not among the
  files in scope. A pass with an incomplete view of the drive removes nothing.
\<close>

theorem removals_justified:
  assumes "mirror_once cfg an m = (ok, pa)" and "is_local_file (ms_tree m) p" and "\<not> is_local_file (tree_of pa) p"
  shows "mc_use_delta cfg \<and> deleted_by cfg (concat (map fst (fst (an_delta an (fst (load_delta_token m)))))) p
    \<or> mc_use_delta cfg \<and> p = token_path \<and> snd (an_delta an (fst (load_delta_token m))) = Delta_Invalid
    \<or> p \<notin> set (remote_files cfg [] (an_listing an)) \<and> \<not> an_listing_fails an \<and> List_Failed \<notin> set (errors_of pa)"
proof (cases "an_probe an")
  case False
  then show ?thesis using assms by (auto simp: mirror_once_def start_pass_def)
next
  case True
  have start: "is_local_file (tree_of (start_pass m)) p" "List_Failed \<notin> set (errors_of (start_pass m))"
    using assms(2) by (simp_all add: start_pass_def no_stats_def)
  show ?thesis using assms(1) True
  proof (cases rule: mirror_once_outcome)
    case walk
    then show ?thesis using walk_pass_removes [OF walk(2) start(1) assms(3)] start(2) by blast
  next
    case raised
    from raised(3) show ?thesis
    proof (cases rule: run_delta_outcome)
      case ended
      then show ?thesis using start(1) assms(3) raised(1) unfolding delta_effect_def by blast
    qed simp
  next
    case (ran pb rows)
    have left: "\<not> is_local_file (tree_of pb) p" using ran(4) assms(3) write_enrichment_facts(1) by blast
    from ran(3) show ?thesis
    proof (cases rule: run_delta_outcome)
      case (ran pc link)
      then have "\<not> is_local_file (tree_of pc) p" using left keep_cursor_facts(1) by blast
      then show ?thesis using start(1) ran(4) \<open>mc_use_delta cfg\<close> unfolding delta_effect_def by blast
    qed simp
  next
    case (fallback result pb f)
    from fallback(3) show ?thesis
    proof (cases rule: run_delta_outcome)
      case (ran pc link)
      then show ?thesis using fallback(2) by simp
    next
      case ended
      show ?thesis
      proof (cases "is_local_file (tree_of pb) p")
        case False
        then show ?thesis using start(1) ended(3) fallback(1) unfolding delta_effect_def by blast
      next
        case here: True
        let ?pc = "note_stats (\<lambda>s. s\<lparr>mirror_mode := ''delta-then-walk''\<rparr>) (pb\<lparr>pass_state := f (pass_state pb)\<rparr>)"
        have errs: "List_Failed \<notin> set (errors_of ?pc)" using start(2) ended(3) by (simp add: delta_effect_def)
        show ?thesis
        proof (cases "is_local_file (tree_of ?pc) p")
          case True
          then show ?thesis using walk_pass_removes [OF fallback(4) True assms(3)] errs by blast
        next
          case False
          then have "result = Delta_Rejected" "p = token_path"
            using here discard_token_facts(1) [of "pass_state pb" p an] by (auto simp: fallback(5) split: if_splits)
          then show ?thesis using ended(2) fallback(1) by blast
        qed
      qed
    qed
  qed
qed

text \<open>
  (C16) The delta cursor moves only when it may: a cursor that was not there before the pass is written only by a delta that
  came to its end, in a pass that returned and in which every download worked, so no item that failed is skipped for good.
\<close>

theorem cursor_needs_downloads:
  assumes "mirror_once cfg an m = (ok, pa)" and "map_of (tree_of pa) token_path = Some (Token_File l s)"
    and "map_of (ms_tree m) token_path \<noteq> Some (Token_File l s)"
  shows "ok \<and> mc_use_delta cfg \<and> snd (an_delta an (fst (load_delta_token m))) = Delta_Done \<and> download_failures (pass_stats pa) = 0"
proof (cases "an_probe an")
  case False
  then show ?thesis using assms by (auto simp: mirror_once_def start_pass_def)
next
  case True
  have start: "map_of (tree_of (start_pass m)) token_path \<noteq> Some (Token_File l s)" using assms(3) by (simp add: start_pass_def)
  show ?thesis using assms(1) True
  proof (cases rule: mirror_once_outcome)
    case walk
    then show ?thesis using walk_pass_token assms(2) start by blast
  next
    case raised
    from raised(3) show ?thesis
    proof (cases rule: run_delta_outcome)
      case ended
      then show ?thesis using start assms(2) unfolding delta_effect_def by blast
    qed simp
  next
    case (ran pb rows)
    have there: "map_of (tree_of pb) token_path = Some (Token_File l s)" using ran(4) assms(2) write_enrichment_facts(4) by blast
    have fails: "download_failures (pass_stats pa) = download_failures (pass_stats pb)" using ran(4) write_enrichment_facts(6) by metis
    from ran(3) show ?thesis
    proof (cases rule: run_delta_outcome)
      case (ran pc link)
      have "map_of (tree_of pc) token_path = Some (Token_File l s) \<or> download_failures (pass_stats pc) = 0 \<and> link = Some l"
        using there unfolding ran(3) by (rule keep_cursor_facts(4))
      then have "download_failures (pass_stats pc) = 0" using start ran(4) unfolding delta_effect_def by blast
      then show ?thesis using fails ran(2,3) \<open>ok\<close> \<open>mc_use_delta cfg\<close> by (simp add: keep_cursor_facts(3))
    qed simp
  next
    case (fallback result pb f)
    have "map_of (ms_tree (f (pass_state pb))) token_path = Some (Token_File l s)"
      using walk_pass_token [OF fallback(4) assms(2)] by simp
    then have there: "map_of (tree_of pb) token_path = Some (Token_File l s)"
    proof (cases "result = Delta_Rejected")
      case True
      assume "map_of (ms_tree (f (pass_state pb))) token_path = Some (Token_File l s)"
      then show ?thesis unfolding fallback(5) if_P [OF True] by (rule discard_token_facts(2))
    next
      case False
      assume "map_of (ms_tree (f (pass_state pb))) token_path = Some (Token_File l s)"
      then show ?thesis unfolding fallback(5) if_not_P [OF False] id_apply .
    qed
    from fallback(3) show ?thesis
    proof (cases rule: run_delta_outcome)
      case (ran pc link)
      then show ?thesis using fallback(2) by simp
    next
      case ended
      then show ?thesis using there start unfolding delta_effect_def by blast
    qed
  qed
qed

section \<open>Concrete passes\<close>

definition an_item :: "string \<Rightarrow> graph_item" where
  "an_item name = \<lparr>gi_id = ''i'', gi_name = name, gi_deleted = False, gi_folder = False, gi_file = True, gi_parent = ''/drive/root:'',
     gi_size = 3, gi_url = ''u'', gi_modified = ''t''\<rparr>"

definition quiet_answers :: answers where
  "quiet_answers = \<lparr>an_probe = True, an_delta = (\<lambda>_. ([], Delta_Done)), an_listing = [], an_listing_fails = False,
     an_download = (\<lambda>_ _. Some 3), an_unlink = (\<lambda>_. True), an_dir_stat = (\<lambda>_. (0, 0)), an_time = (\<lambda>_. None), an_now = 5,
     an_token_saved = True, an_snapshot_written = True\<rparr>"

definition a_mirror :: "local_tree \<Rightarrow> mirror_state" where
  "a_mirror t = \<lparr>ms_tree = t, ms_enrichment = [], ms_outside = None\<rparr>"

definition walk_answers :: answers where
  "walk_answers = quiet_answers\<lparr>an_listing := [Remote ((an_item ''d'')\<lparr>gi_folder := True\<rparr>) [Remote (an_item ''a.md'') [] False] False]\<rparr>"


definition gone_answers :: answers where
  "gone_answers = quiet_answers\<lparr>an_delta := (\<lambda>_. ([([(an_item ''a.md'')\<lparr>gi_deleted := True\<rparr>], Some ''next'')], Delta_Done)),
     an_listing := [Remote (an_item ''a.md'') [] False]\<rparr>"

lemma removals_justified_witness:
  "deleted_by (mirror_init [] [] None [] No_Snapshot True) (concat (map fst (fst (an_delta gone_answers (fst (load_delta_token (a_mirror [([''a.md''], Local_File 0 3)]))))))) [''a.md'']"
proof -
  let ?cfg = "mirror_init [] [] None [] No_Snapshot True" and ?m = "a_mirror [([''a.md''], Local_File 0 3)]"
  have run: "mirror_once ?cfg gone_answers ?m = (fst (mirror_once ?cfg gone_answers ?m), snd (mirror_once ?cfg gone_answers ?m))" by simp
  have was: "is_local_file (ms_tree ?m) [''a.md'']" by code_simp
  have isnt: "\<not> is_local_file (tree_of (snd (mirror_once ?cfg gone_answers ?m))) [''a.md'']" by code_simp
  have "[''a.md''] \<noteq> token_path" by code_simp
  moreover have "[''a.md''] \<in> set (remote_files ?cfg [] (an_listing gone_answers))" by code_simp
  ultimately show ?thesis using removals_justified [OF run was isnt] by blast
qed

lemma cursor_needs_downloads_witness:
  "fst (mirror_once (mirror_init [] [] None [] No_Snapshot True) gone_answers (a_mirror []))
   \<and> download_failures (pass_stats (snd (mirror_once (mirror_init [] [] None [] No_Snapshot True) gone_answers (a_mirror [])))) = 0"
proof -
  let ?run = "mirror_once (mirror_init [] [] None [] No_Snapshot True) gone_answers (a_mirror [])"
  have run: "?run = (fst ?run, snd ?run)" by simp
  have new: "map_of (tree_of (snd ?run)) token_path = Some (Token_File ''next'' [])" by code_simp
  have old: "map_of (ms_tree (a_mirror [])) token_path \<noteq> Some (Token_File ''next'' [])" by code_simp
  show ?thesis using cursor_needs_downloads [OF run new old] by blast
qed

section \<open>Where the mirror strays from its comments\<close>

text \<open>A folder of the drive with the name of the cursor file makes every pass raise.\<close>

lemma folder_named_like_cursor_raises:
  "fst (mirror_once (mirror_init [] [] None [] No_Snapshot True)
     (quiet_answers\<lparr>an_delta := (\<lambda>_. ([([(an_item DELTA_TOKEN_FILENAME)\<lparr>gi_folder := True\<rparr>], Some ''next'')], Delta_Done))\<rparr>)
     (a_mirror [(token_path, Token_File ''last'' [])])) = False"
  by code_simp

text \<open>After a delta that failed for a passing reason the full walk removes the cursor file as a file the drive lacks.\<close>

lemma fallback_walk_prunes_cursor:
  "map_of (tree_of (snd (mirror_once (mirror_init [] [] None [] No_Snapshot True) (quiet_answers\<lparr>an_delta := (\<lambda>_. ([], Delta_Failed))\<rparr>)
     (a_mirror [(token_path, Token_File ''last'' [])])))) token_path = None"
  by code_simp

text \<open>A walk that finds nothing to link leaves the rows of the last pass in the snapshot.\<close>

lemma empty_walk_keeps_stale_rows:
  "ms_outside (pass_state (snd (mirror_once (mirror_init [] [] None [] Snapshot_Outside False) quiet_answers ((a_mirror [])\<lparr>ms_outside := Some [row]\<rparr>))))
   = Some [row]"
  by (simp add: mirror_once_def walk_pass_def finish_walk_def prune_local_only_def mirror_init_def quiet_answers_def a_mirror_def start_pass_def)

text \<open>A file renamed on the drive comes as one item with the new name; its old copy stays.\<close>

lemma renamed_file_stays:
  "is_local_file (tree_of (snd (mirror_once (mirror_init [] [] None [] No_Snapshot True)
     (quiet_answers\<lparr>an_delta := (\<lambda>_. ([([an_item ''new.md''], Some ''next'')], Delta_Done))\<rparr>) (a_mirror [([''old.md''], Local_File 0 3)])))) [''old.md'']"
  by code_simp

end
