(* ===== verification/Spec2Isabelle.thy ===== *)
theory Spec2Isabelle
  imports Page_Provenance Table_Placement Ingest_Rate_Limit Subfolder_Queue Sync_State Approvals Document_Grants Open_Tokens Sessions Node_Grants Ocr_Cache Rc_Pointers Job_Worker
    Sync_Scheduler Profile_Versions Onedrive_Mirror
begin

text \<open>
  KnovasComponents: the on-premise side of a document search product. The Connector (\<open>src/KnovasConnector\<close>) scans the
  folders of a firm, extracts the text of the documents, cuts it into parts and uploads the parts to the Knovas server;
  the Platform (\<open>src/KnovasPlatform\<close>) is the web application people use: accounts and sessions, approvals, hand-out of
  documents, the administration of the Connector, and an experiments module with its own job queue. This library models
  the logic of both that decides what is uploaded, recorded, removed, shown and allowed. \<open>C/\<close> stands for
  \<open>src/KnovasConnector/src/\<close> and \<open>P/\<close> for \<open>src/KnovasPlatform/components/docbridge_integration/src/\<close>.

  How the parts interact. The scheduler runs cycles under its locks; a cycle scans the sources (with caps on folders and
  files), plans three queues of work (uploads, fields-only re-uploads, re-extractions), works through them with the
  uploader and records every outcome in the state store, which answers the next cycle's question what has changed. What
  an upload carries comes from the chunker, the page markers, the tables and the payload of the document fields. What
  the scheduler and the cycle read as configuration is what the Platform's ingestion compiler produced from a stored
  profile. On the Platform, sessions rest on accounts, dangerous actions on approvals, document hand-out on grants and
  single-use tokens.

  Conventions. A class is a \<^verbatim>\<open>record\<close>, a raised exception a value of a sum type (\<open>py\<close>, or an error datatype of the component), a
  dict an association list with distinct keys (\<open>table\<close>), a SQL statement one atomic update of such a list, a loop a
  recursive function, threads and processes step relations. Python integers are \<open>int\<close>, offsets and counts \<open>nat\<close>, times and
  token amounts rational. Characters are those below code point 256; where the code looks at others (case folding,
  Unicode normalisation) the theory says so. Libraries outside the repository (Argon2, itsdangerous, jsonschema, hash
  functions, the extractor, the Knovas server, Microsoft Graph) and answers of the operating system are arguments; what
  is asked of them stands as a named hypothesis.

  The theories, with the code each models and what its lemmas show.

  \<^item> \<open>Knovas_Prelude\<close>, \<open>Python_Values\<close>, \<open>Ttl_Store\<close>: Python's slices, strip, find, bisect, decoded JSON, keyed tables. Locales:
    \<open>segmenter\<close> (a loop that cuts a sequence into consecutive spans; interpreted by the chunkers and the table
    boundaries), \<open>keyed_table\<close> (lookup after update and delete), \<open>cached_lookup\<close> (a cache that never disagrees with its
    table; interpreted by the fingerprints of the state store), \<open>ttl_table\<close> (a table of time stamps that represents a
    history up to a cutoff; interpreted by both backends of the grants and of the tokens).
  \<^item> \<open>Page_Markers\<close>, \<open>Section_Pages\<close>, \<open>Table_Payload\<close>, \<open>Chunking\<close> (\<open>C/sync/\<close> modules of these names): offsets of page markers,
    headings and page boundaries, tables per part, the chunkers. Parts tile the document, keep to the size limit, and the
    streaming and in-memory chunkers agree. \<open>Page_Provenance\<close>: the page the server computes for every character of every
    part is the page it is on. \<open>Table_Placement\<close>: where the tables go, and that a heading misplaces them.
  \<^item> \<open>Rate_Limiter\<close>, \<open>Ingest_Rate_Limit\<close> (\<open>C/util/rate_limiter.py\<close>, \<open>C/sync/ingest_rate_limit.py\<close>, \<open>C/auth/rc_rate_limit.py\<close>): bounds
    of the buckets, the rate over any run without eviction, and that the waiting loop returns.
  \<^item> \<open>Subfolder_Queue\<close> (\<open>C/sync/subfolder_queue.py\<close>, \<open>window.py\<close>): the cursor over the folders of an archive, the sync window.
  \<^item> \<open>Sync_State_Db\<close>, \<open>Sync_State\<close> (\<open>C/sync/sync_state_db.py\<close>, \<open>sync_state.py\<close>): every operation of the store; the in-memory copy
    refines the table, requeueing, failure limits, migration of the old format.
  \<^item> \<open>Field_Templates\<close>, \<open>Metadata_Fields\<close>, \<open>Doc_Fields_Payload\<close> (\<open>C/sync/\<close>): templates compile and match as their grammar says;
    the payload keeps the server's bounds and the precedence of its layers; nothing counts as sent without an echo.
  \<^item> \<open>Sync_Walk\<close>, \<open>Upload_Outcome\<close>, \<open>Sync_Plan\<close>, \<open>Sync_Cycle\<close> (\<open>C/sync/sync_executor.py\<close>): the scan and its checkpoints, what an
    upload records and what is pruned, planning described by filters, and the whole cycle: the store stays consistent,
    the backlog drains at the rate of the file cap, the folder cursor moves only after a clean scan.
  \<^item> \<open>Sync_Scheduler\<close> (\<open>C/sync/sync_scheduler.py\<close>): one run of a cycle, backoff and wait as functions; starts, stops, one-time
    runs and workers as the step relation \<open>sched_step\<close>. The locale \<open>lock_discipline\<close> states what a lock promises; it is
    interpreted for both locks. At most one thread runs a cycle.
  \<^item> \<open>Glob_Match\<close>, \<open>Sync_Config\<close> (\<open>_matches_globs\<close>; \<open>contracts/*.json\<close>, \<open>C/util/schema.py\<close>, \<open>C/sync/sync_config.py\<close>): the pattern match of
    the scan, the two schemas, the checks and the file of the scheduler's configuration.
  \<^item> \<open>Ingestion_Profile\<close>, \<open>Profile_Versions\<close> (\<open>P/identity/ingestion_presets.py\<close>, \<open>ingestion_compiler.py\<close>, \<open>ingestion_profiles.py\<close>):
    which profiles compile, that the Connector accepts what they compile to, that the warning about re-sent documents is
    complete, what the check of the document fields guarantees, the JSON round trip and the version history.
  \<^item> \<open>Onedrive_Mirror\<close> (\<open>C/onedrive_mirror/mirror.py\<close>): one pass of the mirror over a local tree, by delta or by a full walk with
    pruning. Files are removed only for a reason, a complete walk leaves exactly the files in scope, and the cursor moves
    only when every download worked.
  \<^item> \<open>Ocr_Cache\<close> (\<open>C/sync/ocr_cache.py\<close>): the size cap and purging.
  \<^item> \<open>Approvals\<close>, \<open>Document_Grants\<close>, \<open>Open_Tokens\<close>, \<open>Users\<close>, \<open>Sessions\<close>, \<open>Node_Grants\<close>, \<open>Rc_Pointers\<close> (\<open>P/identity/\<close> and
    \<open>P/document_grants.py\<close>, \<open>open_tokens.py\<close>): four eyes under any interleaving of workers, grants only for one's own recent
    searches, single use of tokens, lockout, sessions of leavers (locale \<open>account_repo\<close>, interpreted on the accounts),
    ownership of nodes, pointer prefixes.
  \<^item> \<open>Job_Queue\<close>, \<open>Job_Runs\<close>, \<open>Job_Worker\<close> (\<open>P/experiments/jobs.py\<close>): the queue's statements, every run of any number of workers,
    the worker that settles a job, the rate slot.

  Bounds and fuel. Loops terminate by measures, with no fuel: the waiting loop by the time left, eviction by the rows
  left, the chunkers by the text left, the walk by the size of the tree. Sequences of cycles and runs of workers are
  lists or derivations of arbitrary length.

  What modelling showed beside the properties is stated as theorems next to the code's model and referred to in the
  manifest: among others a table behind a heading that is attached to the wrong part, a paused scan that forgets the
  folder it was in, a wake-up that is lost, file patterns that leave out every file lying directly in a source folder,
  a code of a choice that is stored as another, and a mirror that loses its cursor or stops at a folder named like it.

  Not modelled: the web handlers and templates, HTTP clients and the mock server, extraction of text by the external
  library, cryptography and certificates, schema migrations, metrics and logging, the stores and evaluators of the
  experiments module beside its queue (SQL over many tables, floating-point statistics), the ontology views (text
  normalisation beyond code point 255), and the Microsoft 365 source, which is access to Graph. The Platform's copies
  of Connector modules (\<open>P/knovas_transmit\<close>, \<open>P/identity/field_templates.py\<close>) are modelled where they are the same code.
\<close>

end
